(* ===== verification/Prelude.thy ===== *)
theory Prelude
  imports Complex_Main "HOL-Library.Signed_Division" "HOL-Library.List_Lexorder"
    "HOL-Library.Char_ord" "HOL-Library.Sublist"
begin

text \<open>
  The vocabulary every component shares: results with errors as values, Go's 64-bit
  integers, decimal text, ordered association lists, and the facts about them that carry
  the component proofs. Nothing here models a file under src/: it is Go itself.

  \<^item> \<open>'e + 'a\<close> is a Go pair \<open>(value, error)\<close>: \<open>Inl e\<close> is a non-nil error.
  \<^item> a Go \<open>int64\<close> (and \<open>int\<close>, which has 64 bits on every supported platform) is an
    \<open>int\<close>; an operation that can leave the range is followed by \<open>w64\<close>, which wraps it.
  \<^item> Go's \<open>/\<close> and \<open>%\<close> truncate: they are \<open>sdiv\<close> and \<open>smod\<close>.
  \<^item> a Go string is a \<open>string\<close>: a list of bytes.
\<close>

named_theorems int64_simps "rules for wrapping 64-bit arithmetic"
named_theorems result_simps "rules for results: binding, mapping and folding with errors"
named_theorems text_simps "rules for decimal text"

section \<open>Results\<close>

fun bindE :: "'e + 'a \<Rightarrow> ('a \<Rightarrow> 'e + 'b) \<Rightarrow> 'e + 'b" where
  "bindE (Inl e) f = Inl e"
| "bindE (Inr x) f = f x"

lemma bindE_Inr [result_simps]:
  "bindE m f = Inr y \<longleftrightarrow> (\<exists>x. m = Inr x \<and> f x = Inr y)"
  by (cases m) auto

lemma bindE_Inl [result_simps]:
  "bindE m f = Inl e \<longleftrightarrow> m = Inl e \<or> (\<exists>x. m = Inr x \<and> f x = Inl e)"
  by (cases m) auto

lemma bindE_cong [fundef_cong]:
  "m = m' \<Longrightarrow> (\<And>x. m' = Inr x \<Longrightarrow> f x = f' x) \<Longrightarrow> bindE m f = bindE m' f'"
  by (cases m') auto

lemma bindE_assoc: "bindE (bindE m f) g = bindE m (\<lambda>x. bindE (f x) g)"
  by (cases m) auto

lemma bindE_return [simp]: "bindE m Inr = m"
  by (cases m) auto

text \<open>A loop over a slice that stops at the first error.\<close>

fun mapE :: "('a \<Rightarrow> 'e + 'b) \<Rightarrow> 'a list \<Rightarrow> 'e + 'b list" where
  "mapE f [] = Inr []"
| "mapE f (x # xs) = bindE (f x) (\<lambda>y. bindE (mapE f xs) (\<lambda>ys. Inr (y # ys)))"

lemma mapE_cong [fundef_cong]:
  "xs = ys \<Longrightarrow> (\<And>x. x \<in> set ys \<Longrightarrow> f x = g x) \<Longrightarrow> mapE f xs = mapE g ys"
  by (induction ys arbitrary: xs) auto

lemma mapE_Inr [result_simps]:
  "mapE f xs = Inr ys \<longleftrightarrow> list_all2 (\<lambda>x y. f x = Inr y) xs ys"
proof (induction xs arbitrary: ys)
  case Nil
  show ?case by (cases ys) auto
next
  case (Cons x xs)
  then show ?case by (cases ys) (auto simp: bindE_Inr)
qed

lemma mapE_length: "mapE f xs = Inr ys \<Longrightarrow> length ys = length xs"
  by (auto simp: mapE_Inr dest: list_all2_lengthD)

fun foldE :: "('a \<Rightarrow> 's \<Rightarrow> 'e + 's) \<Rightarrow> 'a list \<Rightarrow> 's \<Rightarrow> 'e + 's" where
  "foldE f [] s = Inr s"
| "foldE f (x # xs) s = bindE (f x s) (foldE f xs)"

lemma foldE_cong [fundef_cong]:
  "xs = ys \<Longrightarrow> s = t \<Longrightarrow> (\<And>x u. x \<in> set ys \<Longrightarrow> f x u = g x u) \<Longrightarrow> foldE f xs s = foldE g ys t"
proof (induction ys arbitrary: xs s t)
  case Nil
  then show ?case by simp
next
  case (Cons y ys)
  have "f y t = g y t" using Cons.prems by simp
  moreover have "foldE f ys u = foldE g ys u" for u
    using Cons.prems by (intro Cons.IH) auto
  ultimately show ?case using Cons.prems
    by (cases "g y t") auto
qed

lemma foldE_append: "foldE f (xs @ ys) s = bindE (foldE f xs s) (foldE f ys)"
proof (induction xs arbitrary: s)
  case Nil
  show ?case by simp
next
  case (Cons x xs)
  then have "foldE f (xs @ ys) = (\<lambda>u. bindE (foldE f xs u) (foldE f ys))" by blast
  then show ?case by (simp add: bindE_assoc)
qed

text \<open>An invariant of the body is an invariant of the loop.\<close>

lemma foldE_invariant:
  assumes "foldE f xs s = Inr t" and "P s"
    and "\<And>x u v. x \<in> set xs \<Longrightarrow> P u \<Longrightarrow> f x u = Inr v \<Longrightarrow> P v"
  shows "P t"
  using assms
proof (induction xs arbitrary: s)
  case Nil
  then show ?case by simp
next
  case (Cons x xs)
  then obtain u where u: "f x s = Inr u" "foldE f xs u = Inr t"
    by (auto simp: bindE_Inr)
  then have "P u" using Cons.prems by auto
  with u(2) Cons.prems(3) show ?case by (intro Cons.IH) auto
qed

section \<open>64-bit integers\<close>

definition in64 :: "int \<Rightarrow> bool" where
  "in64 x \<longleftrightarrow> - (2 ^ 63) \<le> x \<and> x < 2 ^ 63"

definition w64 :: "int \<Rightarrow> int" where
  "w64 x = (x + 2 ^ 63) mod 2 ^ 64 - 2 ^ 63"

abbreviation maxInt64 :: int where "maxInt64 \<equiv> 2 ^ 63 - 1"
abbreviation minInt64 :: int where "minInt64 \<equiv> - (2 ^ 63)"

lemma in64_w64 [simp]: "in64 (w64 x)"
  by (simp add: in64_def w64_def)

lemma w64_id [int64_simps]: "in64 x \<Longrightarrow> w64 x = x"
  by (simp add: in64_def w64_def mod_pos_pos_trivial)

lemma w64_w64 [simp]: "w64 (w64 x) = w64 x"
  by (simp add: w64_id)

lemma w64_eq_iff: "w64 x = x \<longleftrightarrow> in64 x"
  by (metis in64_w64 w64_id)

lemma w64_shift: "w64 (x + 2 ^ 64 * k) = w64 x"
proof -
  have "(x + 2 ^ 64 * k + 2 ^ 63) mod 2 ^ 64 = (x + 2 ^ 63 + 2 ^ 64 * k) mod (2 ^ 64 :: int)"
    by (simp only: ac_simps)
  then show ?thesis by (simp only: w64_def mod_mult_self2)
qed

lemma w64_cong: "w64 x = w64 y \<longleftrightarrow> x mod 2 ^ 64 = y mod 2 ^ 64"
proof
  assume "w64 x = w64 y"
  then have "(x + 2 ^ 63 - 2 ^ 63) mod 2 ^ 64 = (y + 2 ^ 63 - 2 ^ 63) mod (2 ^ 64 :: int)"
    unfolding w64_def by (intro mod_diff_cong) auto
  then show "x mod 2 ^ 64 = y mod 2 ^ 64" by simp
next
  assume "x mod 2 ^ 64 = y mod 2 ^ 64"
  then have "(x + 2 ^ 63) mod 2 ^ 64 = (y + 2 ^ 63) mod (2 ^ 64 :: int)"
    by (rule mod_add_cong) simp
  then show "w64 x = w64 y" by (simp add: w64_def)
qed

lemma w64_mod: "w64 x mod 2 ^ 64 = x mod 2 ^ 64"
  by (rule w64_cong [THEN iffD1]) (rule w64_w64)

lemma w64_add_left [int64_simps]: "w64 (w64 x + y) = w64 (x + y)"
  by (subst w64_cong) (metis mod_add_left_eq w64_mod)

lemma w64_add_right [int64_simps]: "w64 (x + w64 y) = w64 (x + y)"
  by (subst w64_cong) (metis mod_add_right_eq w64_mod)

lemma w64_mult_left [int64_simps]: "w64 (w64 x * y) = w64 (x * y)"
  by (subst w64_cong) (metis mod_mult_left_eq w64_mod)

lemma w64_minus [int64_simps]: "w64 (- w64 x) = w64 (- x)"
  by (subst w64_cong) (metis mod_minus_eq w64_mod)

lemma in64_0 [simp]: "in64 0" by (simp add: in64_def)

lemma in64_between: "in64 a \<Longrightarrow> in64 b \<Longrightarrow> a \<le> x \<Longrightarrow> x \<le> b \<Longrightarrow> in64 x"
  by (simp add: in64_def)

text \<open>A wrapped sum of two values in range is off by at most one modulus.\<close>

lemma w64_over: "2 ^ 63 \<le> x \<Longrightarrow> x < 3 * 2 ^ 63 \<Longrightarrow> w64 x = x - 2 ^ 64"
  using w64_shift [of "x - 2 ^ 64" 1] w64_id [of "x - 2 ^ 64"] by (simp add: in64_def)

lemma w64_under: "x < - (2 ^ 63) \<Longrightarrow> - 3 * 2 ^ 63 \<le> x \<Longrightarrow> w64 x = x + 2 ^ 64"
  using w64_shift [of "x + 2 ^ 64" "- 1"] w64_id [of "x + 2 ^ 64"] by (simp add: in64_def)

lemma w64_add_cases:
  assumes "in64 x" "in64 y"
  shows "w64 (x + y) = (if x + y \<ge> 2 ^ 63 then x + y - 2 ^ 64
                        else if x + y < - (2 ^ 63) then x + y + 2 ^ 64 else x + y)"
  using assms w64_over [of "x + y"] w64_under [of "x + y"] w64_id [of "x + y"]
  by (simp add: in64_def)

lemma w64_diff_cases:
  assumes "in64 x" "in64 y"
  shows "w64 (x - y) = (if x - y \<ge> 2 ^ 63 then x - y - 2 ^ 64
                        else if x - y < - (2 ^ 63) then x - y + 2 ^ 64 else x - y)"
  using assms w64_over [of "x - y"] w64_under [of "x - y"] w64_id [of "x - y"]
  by (simp add: in64_def)

text \<open>Go's truncated division.\<close>

lemma sdiv_nonneg: "0 \<le> a \<Longrightarrow> 0 < b \<Longrightarrow> a sdiv b = a div b" for a b :: int
  by (simp add: signed_divide_int_def sgn_if)

lemma smod_nonneg: "0 \<le> a \<Longrightarrow> 0 < b \<Longrightarrow> a smod b = a mod b" for a b :: int
  by (simp add: signed_modulo_int_def sgn_if)

lemma sdiv_neg: "a < 0 \<Longrightarrow> 0 < b \<Longrightarrow> a sdiv b = - ((- a) div b)" for a b :: int
  by (simp add: signed_divide_int_def sgn_if)

lemma smod_neg: "a < 0 \<Longrightarrow> 0 < b \<Longrightarrow> a smod b = - ((- a) mod b)" for a b :: int
  by (simp add: signed_modulo_int_def sgn_if)

lemma sdiv_smod: "(a sdiv b) * b + a smod b = a" for a b :: int
  by (rule sdiv_mult_smod_eq)

lemma div_bounds: "0 < b \<Longrightarrow> b * (a div b) \<le> a \<and> a < b * (a div b) + b" for a b :: int
  using pos_mod_bound [of b a] pos_mod_sign [of b a] mult_div_mod_eq [of b a] by linarith

lemma div_step: "0 < b \<Longrightarrow> x div b - (x - 1) div b = (if b dvd x then 1 else 0)" for x b :: int
proof -
  assume b: "0 < b"
  show ?thesis
  proof (cases "b dvd x")
    case True
    then obtain k where k: "x = b * k" by blast
    have "(b * k - 1) div b = k - 1"
      using b by (intro int_div_pos_eq [where r = "b - 1"]) (auto simp: algebra_simps)
    with b k True show ?thesis by simp
  next
    case False
    then have "0 < x mod b" using b by (simp add: dvd_eq_mod_eq_0 order_less_le)
    moreover have "x mod b < b" using b by simp
    moreover have "x = b * (x div b) + x mod b" by simp
    ultimately have "(x - 1) div b = x div b"
      by (intro int_div_pos_eq [where r = "x mod b - 1"]) linarith+
    with False show ?thesis by simp
  qed
qed

section \<open>Decimal text\<close>

definition digit_char :: "nat \<Rightarrow> char" where
  "digit_char d = char_of (48 + d)"

definition isDigit :: "char \<Rightarrow> bool" where
  "isDigit c \<longleftrightarrow> 48 \<le> (of_char c :: nat) \<and> (of_char c :: nat) \<le> 57"

definition digit_val :: "char \<Rightarrow> nat" where
  "digit_val c = of_char c - 48"

fun dec_nat :: "nat \<Rightarrow> string" where
  "dec_nat n = (if n < 10 then [digit_char n] else dec_nat (n div 10) @ [digit_char (n mod 10)])"

declare dec_nat.simps [simp del]

text \<open>\<open>strconv.FormatInt(i, 10)\<close>.\<close>

definition dec_int :: "int \<Rightarrow> string" where
  "dec_int i = (if i < 0 then CHR ''-'' # dec_nat (nat (- i)) else dec_nat (nat i))"

text \<open>The value of a run of digits, most significant first.\<close>

definition dec_val :: "string \<Rightarrow> nat" where
  "dec_val s = foldl (\<lambda>v c. 10 * v + digit_val c) 0 s"

text \<open>\<open>fmt.Sprintf("%0wd", n)\<close> for a non-negative n.\<close>

definition pad0 :: "nat \<Rightarrow> nat \<Rightarrow> string" where
  "pad0 w n = replicate (w - length (dec_nat n)) (CHR ''0'') @ dec_nat n"

lemma digit_char_val [simp]: "d < 10 \<Longrightarrow> digit_val (digit_char d) = d"
  by (simp add: digit_val_def digit_char_def of_char_of)

lemma digit_char_isDigit [simp]: "d < 10 \<Longrightarrow> isDigit (digit_char d)"
  by (simp add: isDigit_def digit_char_def of_char_of)

lemma digit_val_less [simp]: "isDigit c \<Longrightarrow> digit_val c < 10"
  unfolding isDigit_def digit_val_def by linarith

lemma digit_char_0 [simp]: "digit_char 0 = CHR ''0''"
  by (simp add: digit_char_def char_of_def bit_0)

lemma isDigit_0 [simp]: "isDigit (CHR ''0'')"
  by (simp add: isDigit_def)

lemma digit_val_0 [simp]: "digit_val (CHR ''0'') = 0"
  by (simp add: digit_val_def)

lemma dec_val_Nil [simp]: "dec_val [] = 0"
  by (simp add: dec_val_def)

lemma foldl_dec_acc:
  "foldl (\<lambda>v c. 10 * v + digit_val c) a s = a * 10 ^ length s + foldl (\<lambda>v c. 10 * v + digit_val c) 0 s"
proof (induction s rule: rev_induct)
  case Nil
  then show ?case by simp
next
  case (snoc c s)
  then show ?case by (simp add: algebra_simps)
qed

lemma dec_val_append [text_simps]: "dec_val (s @ t) = dec_val s * 10 ^ length t + dec_val t"
  unfolding dec_val_def by (simp add: foldl_dec_acc [of "foldl _ _ s"])

lemma dec_val_single [simp]: "dec_val [c] = digit_val c"
  by (simp add: dec_val_def)

lemma dec_val_Cons [text_simps]: "dec_val (c # t) = digit_val c * 10 ^ length t + dec_val t"
  using dec_val_append [of "[c]" t] by simp

lemma dec_nat_digits: "\<forall>c \<in> set (dec_nat n). isDigit c"
proof (induction n rule: dec_nat.induct)
  case (1 n)
  then show ?case by (subst dec_nat.simps) auto
qed

lemma dec_nat_nonempty [simp]: "dec_nat n \<noteq> []"
  by (subst dec_nat.simps) simp

lemma dec_val_dec_nat [simp]: "dec_val (dec_nat n) = n"
proof (induction n rule: dec_nat.induct)
  case (1 n)
  then show ?case
    by (subst dec_nat.simps) (auto simp: dec_val_append)
qed

lemma dec_nat_inj: "dec_nat a = dec_nat b \<longleftrightarrow> a = b"
  by (metis dec_val_dec_nat)

lemma dec_val_less: "\<forall>c \<in> set s. isDigit c \<Longrightarrow> dec_val s < 10 ^ length s"
proof (induction s rule: rev_induct)
  case Nil
  then show ?case by simp
next
  case (snoc c s)
  then have "digit_val c < 10" "dec_val s < 10 ^ length s" by auto
  then show ?case by (simp add: dec_val_append)
qed

lemma dec_nat_length: "n < 10 ^ w \<Longrightarrow> 0 < w \<Longrightarrow> length (dec_nat n) \<le> w"
proof (induction n arbitrary: w rule: dec_nat.induct)
  case (1 n)
  show ?case
  proof (cases "n < 10")
    case True
    with "1.prems" show ?thesis by (subst dec_nat.simps) simp
  next
    case False
    then obtain v where v: "w = Suc v" "0 < v"
      using "1.prems" by (cases w; cases "w = 1") auto
    have "n div 10 < 10 ^ v" using "1.prems" v by (simp add: div_less_iff_less_mult mult.commute)
    with 1 False v have "length (dec_nat (n div 10)) \<le> v" by blast
    with False v show ?thesis by (subst dec_nat.simps) simp
  qed
qed

lemma dec_val_replicate_0 [simp]: "dec_val (replicate k (CHR ''0'')) = 0"
  by (induction k) (auto simp: dec_val_Cons)

lemma dec_val_pad0 [simp]: "dec_val (pad0 w n) = n"
  by (simp add: pad0_def dec_val_append)

lemma pad0_digits: "\<forall>c \<in> set (pad0 w n). isDigit c"
  using dec_nat_digits by (auto simp: pad0_def)

lemma pad0_length: "n < 10 ^ w \<Longrightarrow> 0 < w \<Longrightarrow> length (pad0 w n) = w"
  using dec_nat_length [of n w] by (simp add: pad0_def)

lemma pad0_length_ge: "w \<le> length (pad0 w n)"
  by (simp add: pad0_def)

text \<open>Reading the leading digits of a text.\<close>

lemma takeWhile_digits [text_simps]:
  "\<forall>c \<in> set s. isDigit c \<Longrightarrow> (t = [] \<or> \<not> isDigit (hd t)) \<Longrightarrow> takeWhile isDigit (s @ t) = s"
  by (cases t) (auto simp: takeWhile_append2)

lemma dropWhile_digits [text_simps]:
  "\<forall>c \<in> set s. isDigit c \<Longrightarrow> (t = [] \<or> \<not> isDigit (hd t)) \<Longrightarrow> dropWhile isDigit (s @ t) = t"
  by (cases t) (auto simp: dropWhile_append2)

section \<open>Byte order on strings\<close>

text \<open>\<open>strings.Compare\<close>: the sign of the lexicographic comparison of the bytes.\<close>

definition cmp_str :: "string \<Rightarrow> string \<Rightarrow> int" where
  "cmp_str a b = (if a < b then -1 else if a = b then 0 else 1)"

lemma cmp_str_0 [simp]: "cmp_str a b = 0 \<longleftrightarrow> a = b"
  by (auto simp: cmp_str_def)

lemma cmp_str_antisym: "cmp_str b a = - cmp_str a b"
  by (auto simp: cmp_str_def)

lemma cmp_str_trans: "cmp_str a b \<le> 0 \<Longrightarrow> cmp_str b c \<le> 0 \<Longrightarrow> cmp_str a c \<le> 0"
  by (auto simp: cmp_str_def split: if_splits)

text \<open>ASCII case folding: \<open>strings.ToLower\<close> and \<open>strings.ToUpper\<close> on ASCII text.\<close>

definition lower_char :: "char \<Rightarrow> char" where
  "lower_char c = (let n = (of_char c :: nat) in if 65 \<le> n \<and> n \<le> 90 then char_of (n + 32) else c)"

definition upper_char :: "char \<Rightarrow> char" where
  "upper_char c = (let n = (of_char c :: nat) in if 97 \<le> n \<and> n \<le> 122 then char_of (n - 32) else c)"

abbreviation to_lower :: "string \<Rightarrow> string" where "to_lower \<equiv> map lower_char"
abbreviation to_upper :: "string \<Rightarrow> string" where "to_upper \<equiv> map upper_char"

section \<open>Association lists as Go maps\<close>

text \<open>
  A Go map with string keys is an association list with distinct keys; \<open>map_of\<close> looks a
  key up. \<open>alist_set\<close> assigns a key, keeping its place if it is already there.
\<close>

fun alist_set :: "'k \<Rightarrow> 'v \<Rightarrow> ('k \<times> 'v) list \<Rightarrow> ('k \<times> 'v) list" where
  "alist_set k v [] = [(k, v)]"
| "alist_set k v ((k', v') # m) = (if k = k' then (k, v) # m else (k', v') # alist_set k v m)"

definition alist_del :: "'k \<Rightarrow> ('k \<times> 'v) list \<Rightarrow> ('k \<times> 'v) list" where
  "alist_del k m = filter (\<lambda>(k', _). k' \<noteq> k) m"

lemma map_of_alist_set [simp]: "map_of (alist_set k v m) = (map_of m)(k \<mapsto> v)"
  by (induction k v m rule: alist_set.induct) auto

lemma keys_alist_set: "fst ` set (alist_set k v m) = insert k (fst ` set m)"
  by (induction k v m rule: alist_set.induct) auto

lemma distinct_alist_set [simp]:
  "distinct (map fst m) \<Longrightarrow> distinct (map fst (alist_set k v m))"
  by (induction k v m rule: alist_set.induct) (auto simp: keys_alist_set image_iff) 

lemma map_of_alist_del [simp]: "map_of (alist_del k m) = (map_of m)(k := None)"
  by (induction m) (auto simp: alist_del_def)

lemma distinct_alist_del [simp]:
  "distinct (map fst m) \<Longrightarrow> distinct (map fst (alist_del k m))"
  by (induction m) (auto simp: alist_del_def)

end
