(* ===== verification/GoTime.thy ===== *)
theory GoTime
  imports Prelude
begin

text \<open>
  The part of Go's package \<open>time\<close> the temporal types are built on: the proleptic
  Gregorian calendar, \<open>time.Time\<close> with its location, \<open>time.Date\<close>, \<open>AddDate\<close>,
  \<open>Add\<close>, the component accessors and the ISO week. It is the standard library, so no
  definition here maps to a file under src/. Instants are seconds since the Unix epoch and
  nanoseconds; the only place where Go's arithmetic can leave 64 bits is the final number of
  seconds, which \<open>w64\<close> wraps.

  The calendar is a count of days: \<open>civil_day\<close> numbers a date and \<open>civil\<close> finds the
  date of a day; \<open>civil_civil_day\<close> and \<open>civil_day_civil\<close> say they are inverse.
\<close>

named_theorems time_simps "component accessors of constructed times"

section \<open>The calendar\<close>

definition leap :: "int \<Rightarrow> bool" where
  "leap y \<longleftrightarrow> y mod 4 = 0 \<and> (y mod 100 \<noteq> 0 \<or> y mod 400 = 0)"

text \<open>Days before 1 January of year y, counted from 1 January of year 1.\<close>

definition year_start :: "int \<Rightarrow> int" where
  "year_start y = 365 * (y - 1) + (y - 1) div 4 - (y - 1) div 100 + (y - 1) div 400"

definition month_start :: "bool \<Rightarrow> int \<Rightarrow> int" where
  "month_start lp m =
    (if m \<le> 1 then 0 else if m = 2 then 31 else
      (if lp then 1 else 0) +
      (if m = 3 then 59 else if m = 4 then 90 else if m = 5 then 120 else if m = 6 then 151
       else if m = 7 then 181 else if m = 8 then 212 else if m = 9 then 243 else if m = 10 then 273
       else if m = 11 then 304 else if m = 12 then 334 else 365))"

definition month_len :: "bool \<Rightarrow> int \<Rightarrow> int" where
  "month_len lp m = (if m = 2 then (if lp then 29 else 28)
                     else if m = 4 \<or> m = 6 \<or> m = 9 \<or> m = 11 then 30 else 31)"

definition valid_civil :: "int \<Rightarrow> int \<Rightarrow> int \<Rightarrow> bool" where
  "valid_civil y m d \<longleftrightarrow> 1 \<le> m \<and> m \<le> 12 \<and> 1 \<le> d \<and> d \<le> month_len (leap y) m"

text \<open>1 January 1970 is day 719162 from 1 January of year 1.\<close>

definition civil_day :: "int \<Rightarrow> int \<Rightarrow> int \<Rightarrow> int" where
  "civil_day y m d = year_start y + month_start (leap y) m + (d - 1) - 719162"

definition year_of :: "int \<Rightarrow> int" where
  "year_of n = (let e = 400 * n div 146097 + 1 in
     if n < year_start e then e - 1 else if year_start (e + 1) \<le> n then e + 1 else e)"

definition month_of :: "bool \<Rightarrow> int \<Rightarrow> int" where
  "month_of lp k =
    (if k < month_start lp 2 then 1 else if k < month_start lp 3 then 2
     else if k < month_start lp 4 then 3 else if k < month_start lp 5 then 4
     else if k < month_start lp 6 then 5 else if k < month_start lp 7 then 6
     else if k < month_start lp 8 then 7 else if k < month_start lp 9 then 8
     else if k < month_start lp 10 then 9 else if k < month_start lp 11 then 10
     else if k < month_start lp 12 then 11 else 12)"

definition civil :: "int \<Rightarrow> int \<times> int \<times> int" where
  "civil n = (let N = n + 719162; y = year_of N; k = N - year_start y; m = month_of (leap y) k
              in (y, m, k - month_start (leap y) m + 1))"

subsection \<open>Years\<close>

lemma year_len: "year_start (y + 1) - year_start y = (if leap y then 366 else 365)"
proof -
  have h: "4 dvd y" if "100 dvd y" using that by (rule dvd_trans [rotated]) simp
  have g: "100 dvd y" if "400 dvd y" using that by (rule dvd_trans [rotated]) simp
  have d: "y div 4 - (y - 1) div 4 = (if 4 dvd y then 1 else 0)"
    "y div 100 - (y - 1) div 100 = (if 100 dvd y then 1 else 0)"
    "y div 400 - (y - 1) div 400 = (if 400 dvd y then 1 else 0)"
    by (rule div_step, simp)+
  have l: "leap y \<longleftrightarrow> 4 dvd y \<and> (\<not> 100 dvd y \<or> 400 dvd y)"
    by (simp only: leap_def dvd_eq_mod_eq_0)
  have "year_start (y + 1) - year_start y = 365 + (y div 4 - (y - 1) div 4)
      - (y div 100 - (y - 1) div 100) + (y div 400 - (y - 1) div 400)"
    unfolding year_start_def by simp
  also have "\<dots> = (if leap y then 366 else 365)"
    unfolding d l using h g by (cases "4 dvd y"; cases "100 dvd y"; cases "400 dvd y") simp_all
  finally show ?thesis .
qed

lemma year_start_mono: "y < z \<Longrightarrow> year_start y < year_start z"
proof -
  have step: "year_start u < year_start (u + 1)" for u
    using year_len [of u] by (simp split: if_splits)
  have "year_start y < year_start (y + 1 + int k)" for k
  proof (induction k)
    case 0
    show ?case using step by simp
  next
    case (Suc k)
    with step [of "y + 1 + int k"] show ?case by (simp add: algebra_simps)
  qed
  from this [of "nat (z - y - 1)"] show "y < z \<Longrightarrow> year_start y < year_start z" by simp
qed

lemma year_start_linear:
  shows "146097 * y - 146797 \<le> 400 * year_start y"
    and "400 * year_start y \<le> 146097 * y - 145701"
proof -
  have q: "4 * ((y - 1) div 4) \<le> y - 1" "y - 1 < 4 * ((y - 1) div 4) + 4"
    "100 * ((y - 1) div 100) \<le> y - 1" "y - 1 < 100 * ((y - 1) div 100) + 100"
    "400 * ((y - 1) div 400) \<le> y - 1" "y - 1 < 400 * ((y - 1) div 400) + 400"
    using div_bounds [of 4 "y - 1"] div_bounds [of 100 "y - 1"] div_bounds [of 400 "y - 1"]
    by simp_all
  have e: "400 * year_start y = 146000 * y - 146000 + 400 * ((y - 1) div 4)
      - 400 * ((y - 1) div 100) + 400 * ((y - 1) div 400)"
    unfolding year_start_def by (simp only: algebra_simps)
  from q e show "146097 * y - 146797 \<le> 400 * year_start y" by linarith
  from q e show "400 * year_start y \<le> 146097 * y - 145701" by linarith
qed

lemma year_of_bounds:
  shows "year_start (year_of n) \<le> n" and "n < year_start (year_of n + 1)"
proof -
  define e where "e = 400 * n div 146097 + 1"
  have e: "146097 * e - 146097 \<le> 400 * n" "400 * n < 146097 * e"
    using div_bounds [of 146097 "400 * n"] unfolding e_def by auto
  have lo: "year_start (e - 1) \<le> n"
    using year_start_linear(2) [of "e - 1"] e by simp
  have hi: "n < year_start (e + 2)"
    using year_start_linear(1) [of "e + 2"] e by simp
  show "year_start (year_of n) \<le> n" "n < year_start (year_of n + 1)"
    using lo hi unfolding year_of_def e_def [symmetric] by (auto simp: Let_def add.commute)
qed

lemma year_of_unique: "year_start y \<le> n \<Longrightarrow> n < year_start (y + 1) \<Longrightarrow> year_of n = y"
proof -
  assume y: "year_start y \<le> n" "n < year_start (y + 1)"
  have le: "year_start u \<le> year_start v" if "u \<le> v" for u v
    using that year_start_mono [of u v] by (cases "u = v") auto
  have "\<not> year_of n < y" using le [of "year_of n + 1" y] year_of_bounds [of n] y by linarith
  moreover have "\<not> y < year_of n" using le [of "y + 1" "year_of n"] year_of_bounds [of n] y by linarith
  ultimately show ?thesis by linarith
qed

subsection \<open>Months\<close>

lemma month_cases:
  assumes "1 \<le> m" "m \<le> (12::int)"
  obtains "m = 1" | "m = 2" | "m = 3" | "m = 4" | "m = 5" | "m = 6" | "m = 7" | "m = 8"
    | "m = 9" | "m = 10" | "m = 11" | "m = 12"
proof -
  have "m = 1 \<or> m = 2 \<or> m = 3 \<or> m = 4 \<or> m = 5 \<or> m = 6 \<or> m = 7 \<or> m = 8 \<or> m = 9 \<or> m = 10 \<or> m = 11 \<or> m = 12"
    using assms by presburger
  then show thesis using that by blast
qed

lemma month_start_step:
  "1 \<le> m \<Longrightarrow> m \<le> 12 \<Longrightarrow> month_start lp (m + 1) = month_start lp m + month_len lp m"
  by (erule (1) month_cases) (simp_all add: month_start_def month_len_def)

lemma month_len_bounds: "28 \<le> month_len lp m \<and> month_len lp m \<le> 31"
  by (simp add: month_len_def)

lemma month_start_year: "month_start lp 13 = (if lp then 366 else 365)"
  by (simp add: month_start_def)

lemma month_of_start:
  "1 \<le> m \<Longrightarrow> m \<le> 12 \<Longrightarrow> 0 \<le> k \<Longrightarrow> k < month_len lp m \<Longrightarrow> month_of lp (month_start lp m + k) = m"
  by (erule (1) month_cases) (auto simp: month_of_def month_start_def month_len_def split: if_splits)

lemma month_of_chain:
  shows "1 \<le> month_of lp k" "month_of lp k \<le> 12"
    "month_of lp k = 1 \<or> month_start lp (month_of lp k) \<le> k"
    "month_of lp k = 12 \<or> k < month_start lp (month_of lp k + 1)"
  unfolding month_of_def by (simp_all split: if_split)

lemma month_of_bounds:
  assumes "0 \<le> k" "k < (if lp then 366 else 365)"
  shows "1 \<le> month_of lp k" "month_of lp k \<le> 12" "month_start lp (month_of lp k) \<le> k"
    "k < month_start lp (month_of lp k) + month_len lp (month_of lp k)"
proof -
  let ?m = "month_of lp k"
  note c = month_of_chain [of lp k]
  show m: "1 \<le> ?m" "?m \<le> 12" by (rule c)+
  show "month_start lp ?m \<le> k"
    using c(3) m assms(1) by (cases "?m = 1") (auto simp: month_start_def [of _ 1])
  have "k < month_start lp (?m + 1)"
    using c(4) m assms(2) by (cases "?m = 12") (auto simp: month_start_year)
  then show "k < month_start lp ?m + month_len lp ?m" using month_start_step [OF m] by simp
qed

subsection \<open>Dates and day numbers are inverse\<close>

lemma month_start_le: "1 \<le> m \<Longrightarrow> m \<le> m' \<Longrightarrow> m' \<le> 13 \<Longrightarrow> month_start lp m \<le> month_start lp m'"
proof (induction "nat (m' - m)" arbitrary: m')
  case 0
  then show ?case by simp
next
  case (Suc n)
  then have "month_start lp m \<le> month_start lp (m' - 1)" by (intro Suc.hyps(1)) auto
  also have "\<dots> \<le> month_start lp m'"
    using month_start_step [of "m' - 1" lp] month_len_bounds [of lp "m' - 1"] Suc by auto
  finally show ?case .
qed

lemma month_start_bounds:
  assumes "valid_civil y m d"
  shows "0 \<le> month_start (leap y) m + (d - 1)"
    "month_start (leap y) m + (d - 1) < (if leap y then 366 else 365)"
proof -
  have v: "1 \<le> m" "m \<le> 12" "1 \<le> d" "d \<le> month_len (leap y) m"
    using assms by (simp_all add: valid_civil_def)
  have "month_start (leap y) 1 = 0" by (simp add: month_start_def)
  with v show "0 \<le> month_start (leap y) m + (d - 1)"
    using month_start_le [of 1 m "leap y"] by linarith
  have "month_start (leap y) m + month_len (leap y) m \<le> month_start (leap y) 13"
    using v month_start_le [of "m + 1" 13 "leap y"] month_start_step [of m "leap y"] by linarith
  with v show "month_start (leap y) m + (d - 1) < (if leap y then 366 else 365)"
    unfolding month_start_year by linarith
qed

lemma civil_civil_day: "valid_civil y m d \<Longrightarrow> civil (civil_day y m d) = (y, m, d)"
proof -
  assume v: "valid_civil y m d"
  let ?k = "month_start (leap y) m + (d - 1)"
  have k: "0 \<le> ?k" "?k < year_start (y + 1) - year_start y"
    using month_start_bounds [OF v] year_len [of y] by auto
  then have "year_of (year_start y + ?k) = y" by (intro year_of_unique) auto
  moreover have "month_of (leap y) ?k = m"
    using v by (intro month_of_start) (auto simp: valid_civil_def)
  moreover have e: "civil_day y m d + 719162 = year_start y + ?k" by (simp add: civil_day_def)
  ultimately show ?thesis unfolding civil_def Let_def e by simp
qed

lemma civil_day_civil:
  assumes "civil n = (y, m, d)"
  shows "civil_day y m d = n" "valid_civil y m d"
proof -
  let ?N = "n + 719162"
  have y: "y = year_of ?N" and m: "m = month_of (leap y) (?N - year_start y)"
    and d: "d = ?N - year_start y - month_start (leap y) m + 1"
    using assms by (auto simp: civil_def Let_def)
  have "0 \<le> ?N - year_start y" "?N - year_start y < (if leap y then 366 else 365)"
    using year_of_bounds [of ?N] year_len [of y] by (auto simp: y)
  note b = month_of_bounds [OF this, folded m]
  show "valid_civil y m d" using b by (simp add: valid_civil_def d)
  show "civil_day y m d = n" by (simp add: civil_day_def d)
qed

lemma civil_inj: "civil a = civil b \<longleftrightarrow> a = b"
proof
  obtain y m d where c: "civil a = (y, m, d)" by (cases "civil a") auto
  assume "civil a = civil b"
  with c have "civil b = (y, m, d)" by simp
  with c show "a = b" using civil_day_civil(1) [of a y m d] civil_day_civil(1) [of b y m d] by simp
qed simp

text \<open>Dates are ordered as their (year, month, day) triples are.\<close>

definition ymd_less :: "int \<Rightarrow> int \<Rightarrow> int \<Rightarrow> int \<Rightarrow> int \<Rightarrow> int \<Rightarrow> bool" where
  "ymd_less y m d y' m' d' \<longleftrightarrow> y < y' \<or> y = y' \<and> (m < m' \<or> m = m' \<and> d < d')"

lemma month_start_mono:
  "1 \<le> m \<Longrightarrow> m < m' \<Longrightarrow> m' \<le> 12 \<Longrightarrow> month_start lp m + month_len lp m \<le> month_start lp m'"
  using month_start_step [of m lp] month_start_le [of "m + 1" m' lp] by auto

lemma civil_day_mono:
  assumes "valid_civil y m d" "valid_civil y' m' d'" "ymd_less y m d y' m' d'"
  shows "civil_day y m d < civil_day y' m' d'"
proof (cases "y < y'")
  case True
  then have "year_start (y + 1) \<le> year_start y'"
    using year_start_mono [of "y + 1" y'] by (cases "y + 1 = y'") auto
  moreover have "month_start (leap y) m + (d - 1) < year_start (y + 1) - year_start y"
    using month_start_bounds [OF assms(1)] year_len [of y] by auto
  moreover have "0 \<le> month_start (leap y') m' + (d' - 1)"
    using month_start_bounds [OF assms(2)] by auto
  ultimately show ?thesis by (simp add: civil_day_def)
next
  case False
  with assms(3) have "y = y'" and "m < m' \<or> m = m' \<and> d < d'" by (auto simp: ymd_less_def)
  then show ?thesis
    using assms(1,2) month_start_mono [of m m' "leap y"]
    by (auto simp: civil_day_def valid_civil_def)
qed

lemma civil_day_less_iff:
  assumes "valid_civil y m d" "valid_civil y' m' d'"
  shows "civil_day y m d < civil_day y' m' d' \<longleftrightarrow> ymd_less y m d y' m' d'"
proof (cases "ymd_less y m d y' m' d' \<or> (y = y' \<and> m = m' \<and> d = d')")
  case True
  then show ?thesis using civil_day_mono [OF assms] by (auto simp: ymd_less_def)
next
  case False
  then have "ymd_less y' m' d' y m d" by (auto simp: ymd_less_def)
  with civil_day_mono [OF assms(2,1)] False show ?thesis by force
qed

lemma civil_day_shift: "civil_day y m (d + k) = civil_day y m d + k"
  by (simp add: civil_day_def)

section \<open>Locations\<close>

text \<open>
  A \<open>time.Location\<close>: UTC, a fixed offset, or a region with the offset in force at first
  and the instants at which another one starts, in order.
\<close>

datatype gloc = UTC | FixedZone int | Region string int "(int \<times> int) list"

fun zone_lookup :: "int \<Rightarrow> int \<Rightarrow> (int \<times> int) list \<Rightarrow> int \<Rightarrow> int \<times> int \<times> int" where
  "zone_lookup off start [] sec = (off, start, maxInt64)"
| "zone_lookup off start ((w, off') # r) sec =
     (if sec < w then (off, start, w) else zone_lookup off' w r sec)"

text \<open>\<open>Location.lookup\<close>: the offset in force at an instant and its first and last second.\<close>

fun loc_lookup :: "gloc \<Rightarrow> int \<Rightarrow> int \<times> int \<times> int" where
  "loc_lookup UTC sec = (0, minInt64, maxInt64)"
| "loc_lookup (FixedZone off) sec = (off, minInt64, maxInt64)"
| "loc_lookup (Region name off r) sec = zone_lookup off minInt64 r sec"

definition loc_offset :: "gloc \<Rightarrow> int \<Rightarrow> int" where
  "loc_offset l sec = fst (loc_lookup l sec)"

fun loc_name :: "gloc \<Rightarrow> string" where
  "loc_name UTC = ''UTC''"
| "loc_name (FixedZone off) = []"
| "loc_name (Region name off r) = name"

lemma loc_offset_simps [simp]: "loc_offset UTC s = 0" "loc_offset (FixedZone off) s = off"
  by (simp_all add: loc_offset_def)

section \<open>Instants\<close>

text \<open>A \<open>time.Time\<close>: seconds since the Unix epoch, nanoseconds, location.\<close>

record gtime =
  gsec :: int
  gnano :: int
  gloc :: gloc

definition good_time :: "gtime \<Rightarrow> bool" where
  "good_time t \<longleftrightarrow> 0 \<le> gnano t \<and> gnano t < 10 ^ 9"

definition wall_sec :: "gtime \<Rightarrow> int" where
  "wall_sec t = gsec t + loc_offset (gloc t) (gsec t)"

definition t_day :: "gtime \<Rightarrow> int" where "t_day t = wall_sec t div 86400"
definition t_sod :: "gtime \<Rightarrow> int" where "t_sod t = wall_sec t mod 86400"

definition t_date :: "gtime \<Rightarrow> int \<times> int \<times> int" where "t_date t = civil (t_day t)"
definition t_year :: "gtime \<Rightarrow> int" where "t_year t = fst (t_date t)"
definition t_month :: "gtime \<Rightarrow> int" where "t_month t = fst (snd (t_date t))"
definition t_dom :: "gtime \<Rightarrow> int" where "t_dom t = snd (snd (t_date t))"
definition t_hour :: "gtime \<Rightarrow> int" where "t_hour t = t_sod t div 3600"
definition t_minute :: "gtime \<Rightarrow> int" where "t_minute t = t_sod t mod 3600 div 60"
definition t_second :: "gtime \<Rightarrow> int" where "t_second t = t_sod t mod 60"

text \<open>\<open>Weekday\<close>: Sunday is 0; 1 January 1970 was a Thursday.\<close>

definition weekday_of :: "int \<Rightarrow> int" where "weekday_of n = (n + 4) mod 7"
definition t_weekday :: "gtime \<Rightarrow> int" where "t_weekday t = weekday_of (t_day t)"

definition yearday_of :: "int \<Rightarrow> int" where
  "yearday_of n = n - civil_day (fst (civil n)) 1 1 + 1"
definition t_yearday :: "gtime \<Rightarrow> int" where "t_yearday t = yearday_of (t_day t)"

text \<open>\<open>ISOWeek\<close>: the year of the week's Thursday, and which Thursday of it that is.\<close>

definition thursday_of :: "int \<Rightarrow> int" where "thursday_of n = n - (n + 3) mod 7 + 3"

definition iso_week_of :: "int \<Rightarrow> int \<times> int" where
  "iso_week_of n = (let th = thursday_of n in (fst (civil th), (yearday_of th - 1) div 7 + 1))"

definition t_isoweek :: "gtime \<Rightarrow> int \<times> int" where "t_isoweek t = iso_week_of (t_day t)"

text \<open>
  \<open>time.Date\<close>: the fields are normalised by carrying into the larger ones, and the result
  is the instant at which a clock of the location shows them (first guessing that the
  offset at the same number of UTC seconds applies).
\<close>

definition unix_of :: "int \<Rightarrow> int \<Rightarrow> int \<Rightarrow> int \<Rightarrow> int \<Rightarrow> int \<Rightarrow> int" where
  "unix_of y mo d h mi s =
     (civil_day (y + (mo - 1) div 12) ((mo - 1) mod 12 + 1) 1 + d - 1) * 86400 + h * 3600 + mi * 60 + s"

definition local_to_unix :: "gloc \<Rightarrow> int \<Rightarrow> int" where
  "local_to_unix l unix =
     (case loc_lookup l unix of (off, start, stop) \<Rightarrow>
        if off = 0 then unix
        else let utc = w64 (unix - off) in
          if utc < start \<or> stop \<le> utc then w64 (unix - loc_offset l utc) else utc)"

definition go_date :: "int \<Rightarrow> int \<Rightarrow> int \<Rightarrow> int \<Rightarrow> int \<Rightarrow> int \<Rightarrow> int \<Rightarrow> gloc \<Rightarrow> gtime" where
  "go_date y mo d h mi s ns l =
     \<lparr>gsec = local_to_unix l (w64 (unix_of y mo d h mi (s + ns div 10 ^ 9))), gnano = ns mod 10 ^ 9, gloc = l\<rparr>"

text \<open>\<open>AddDate\<close> goes through the calendar fields; \<open>Add\<close> moves the instant by nanoseconds.\<close>

definition add_date :: "gtime \<Rightarrow> int \<Rightarrow> int \<Rightarrow> int \<Rightarrow> gtime" where
  "add_date t ys ms ds =
     go_date (w64 (t_year t + ys)) (w64 (t_month t + ms)) (w64 (t_dom t + ds))
       (t_hour t) (t_minute t) (t_second t) (gnano t) (gloc t)"

definition t_add :: "gtime \<Rightarrow> int \<Rightarrow> gtime" where
  "t_add t ns = t\<lparr>gsec := w64 (gsec t + (gnano t + ns) div 10 ^ 9), gnano := (gnano t + ns) mod 10 ^ 9\<rparr>"

definition t_in :: "gtime \<Rightarrow> gloc \<Rightarrow> gtime" where "t_in t l = t\<lparr>gloc := l\<rparr>"

definition t_equal :: "gtime \<Rightarrow> gtime \<Rightarrow> bool" where
  "t_equal a b \<longleftrightarrow> gsec a = gsec b \<and> gnano a = gnano b"

definition t_before :: "gtime \<Rightarrow> gtime \<Rightarrow> bool" where
  "t_before a b \<longleftrightarrow> gsec a < gsec b \<or> gsec a = gsec b \<and> gnano a < gnano b"

definition t_zone :: "gtime \<Rightarrow> int" where "t_zone t = loc_offset (gloc t) (gsec t)"

text \<open>\<open>time.Unix\<close> and \<open>time.UnixMilli\<close>, in UTC.\<close>

definition unix_time :: "int \<Rightarrow> int \<Rightarrow> gtime" where
  "unix_time s ns = \<lparr>gsec = w64 (s + ns div 10 ^ 9), gnano = ns mod 10 ^ 9, gloc = UTC\<rparr>"

definition unix_milli :: "int \<Rightarrow> gtime" where
  "unix_milli ms = \<lparr>gsec = ms div 1000, gnano = ms mod 1000 * 10 ^ 6, gloc = UTC\<rparr>"

subsection \<open>Facts about instants\<close>

lemma good_go_date [simp]: "good_time (go_date y mo d h mi s ns l)"
  by (simp add: good_time_def go_date_def)

lemma good_add_date [simp]: "good_time (add_date t y m d)"
  by (simp add: add_date_def)

lemma good_t_add [simp]: "good_time (t_add t ns)"
  by (simp add: good_time_def t_add_def)

lemma loc_go_date [simp]: "gloc (go_date y mo d h mi s ns l) = l"
  by (simp add: go_date_def)

lemma loc_add_date [simp]: "gloc (add_date t y m d) = gloc t"
  by (simp add: add_date_def)

lemma loc_t_add [simp]: "gloc (t_add t ns) = gloc t"
  by (simp add: t_add_def)

lemma sod_bounds: "0 \<le> t_sod t" "t_sod t < 86400"
  by (simp_all add: t_sod_def)

lemma clock_bounds:
  "0 \<le> t_hour t" "t_hour t < 24" "0 \<le> t_minute t" "t_minute t < 60" "0 \<le> t_second t" "t_second t < 60"
  using sod_bounds [of t] by (simp_all add: t_hour_def t_minute_def t_second_def div_less_iff_less_mult)

text \<open>Hours, minutes and seconds add up to the second of the day.\<close>

lemma hms_sum: "s div 3600 * 3600 + s mod 3600 div 60 * 60 + s mod 60 = (s :: int)"
proof -
  have "s mod 60 = s mod 3600 mod 60" by (rule mod_mod_cancel [symmetric]) simp
  then have "s mod 3600 div 60 * 60 + s mod 60 = s mod 3600"
    using div_mult_mod_eq [of "s mod 3600" 60] by simp
  then show ?thesis using div_mult_mod_eq [of s 3600] by linarith
qed

lemma sod_eq: "t_hour t * 3600 + t_minute t * 60 + t_second t = t_sod t"
  using hms_sum [of "t_sod t"] by (simp add: t_hour_def t_minute_def t_second_def)

lemma wall_sec_eq: "wall_sec t = t_day t * 86400 + t_sod t"
  by (simp add: t_day_def t_sod_def)

lemma t_date_valid: "valid_civil (t_year t) (t_month t) (t_dom t)"
  using civil_day_civil(2) [of "t_day t"]
  by (cases "civil (t_day t)") (auto simp: t_year_def t_month_def t_dom_def t_date_def)

lemma t_date_day: "civil_day (t_year t) (t_month t) (t_dom t) = t_day t"
  using civil_day_civil(1) [of "t_day t"]
  by (cases "civil (t_day t)") (auto simp: t_year_def t_month_def t_dom_def t_date_def)

text \<open>A month in range needs no normalisation.\<close>

lemma unix_of_valid:
  "1 \<le> mo \<Longrightarrow> mo \<le> 12 \<Longrightarrow> unix_of y mo d h mi s = civil_day y mo d * 86400 + h * 3600 + mi * 60 + s"
  by (simp add: unix_of_def civil_day_def div_pos_pos_trivial mod_pos_pos_trivial algebra_simps)

text \<open>Reading back the fields of a UTC time built from valid fields.\<close>

lemma go_date_utc:
  assumes "in64 (unix_of y mo d h mi s)" "0 \<le> ns" "ns < 10 ^ 9"
  shows "go_date y mo d h mi s ns UTC = \<lparr>gsec = unix_of y mo d h mi s, gnano = ns, gloc = UTC\<rparr>"
  using assms by (simp add: go_date_def local_to_unix_def w64_id div_pos_pos_trivial mod_pos_pos_trivial)

lemma day_of_wall:
  assumes "0 \<le> h" "h < 24" "0 \<le> mi" "mi < 60" "0 \<le> s" "s < (60::int)"
  shows "(n * 86400 + h * 3600 + mi * 60 + s) div 86400 = n"
    "(n * 86400 + h * 3600 + mi * 60 + s) mod 86400 = h * 3600 + mi * 60 + s"
proof -
  have "0 \<le> h * 3600 + mi * 60 + s" "h * 3600 + mi * 60 + s < 86400" using assms by linarith+
  then show "(n * 86400 + h * 3600 + mi * 60 + s) div 86400 = n"
    "(n * 86400 + h * 3600 + mi * 60 + s) mod 86400 = h * 3600 + mi * 60 + s"
    by (simp_all add: add.assoc div_pos_pos_trivial mod_pos_pos_trivial)
qed

lemma utc_time_fields:
  assumes "valid_civil y mo d" "0 \<le> h" "h < 24" "0 \<le> mi" "mi < 60" "0 \<le> s" "s < 60"
    "in64 (unix_of y mo d h mi s)" "0 \<le> ns" "ns < 10 ^ 9"
  defines "t \<equiv> go_date y mo d h mi s ns UTC"
  shows "t_date t = (y, mo, d)" "t_day t = civil_day y mo d" "t_sod t = h * 3600 + mi * 60 + s"
    "gnano t = ns" "gloc t = UTC" "gsec t = unix_of y mo d h mi s"
proof -
  have m: "1 \<le> mo" "mo \<le> 12" using assms(1) by (simp_all add: valid_civil_def)
  have t: "t = \<lparr>gsec = unix_of y mo d h mi s, gnano = ns, gloc = UTC\<rparr>"
    using assms by (simp add: go_date_utc)
  show day: "t_day t = civil_day y mo d" "t_sod t = h * 3600 + mi * 60 + s"
    using assms(2-7) by (simp_all add: t t_day_def t_sod_def wall_sec_def unix_of_valid [OF m] day_of_wall)
  show "t_date t = (y, mo, d)" by (simp add: t_date_def day civil_civil_day assms(1))
  show "gnano t = ns" "gloc t = UTC" "gsec t = unix_of y mo d h mi s" by (simp_all add: t)
qed

text \<open>Moving a UTC time by days.\<close>

lemma add_days_utc:
  assumes "gloc t = UTC" "good_time t" "in64 (t_dom t + k)" "in64 (gsec t + k * 86400)"
    "in64 (t_year t)"
  shows "add_date t 0 0 k = t\<lparr>gsec := gsec t + k * 86400\<rparr>"
proof -
  have v: "1 \<le> t_month t" "t_month t \<le> 12" using t_date_valid [of t] by (simp_all add: valid_civil_def)
  have w: "gsec t = t_day t * 86400 + t_sod t"
    using assms(1) wall_sec_eq [of t] by (simp add: wall_sec_def)
  have "unix_of (t_year t) (t_month t) (t_dom t + k) (t_hour t) (t_minute t) (t_second t) = gsec t + k * 86400"
    unfolding unix_of_valid [OF v] civil_day_shift t_date_day w sod_eq [of t, symmetric]
    by (simp add: distrib_right)
  moreover have "in64 (t_month t)" using v by (simp add: in64_def)
  ultimately show ?thesis
    using assms by (simp add: add_date_def w64_id go_date_utc good_time_def)
qed

end
