(* ===== verification/Temporal.thy ===== *)
theory Temporal
  imports GoTime
begin

text \<open>
  The temporal types of cypher/temporal/temporal.go: the kinds, the values, construction from
  components and the canonical rendering. A \<open>Date\<close> is a \<open>time.Time\<close> at midnight UTC, a
  \<open>LocalDateTime\<close> a wall clock labelled UTC, a \<open>DateTime\<close> an instant with its location.
  An error is the format string of the \<open>fmt.Errorf\<close> call that makes it.
\<close>

section \<open>Kinds and values\<close>

datatype kind = KindDate | KindLocalTime | KindTime | KindLocalDateTime | KindDateTime | KindDuration

fun kind_num :: "kind \<Rightarrow> int" where
  "kind_num KindDate = 1"
| "kind_num KindLocalTime = 2"
| "kind_num KindTime = 3"
| "kind_num KindLocalDateTime = 4"
| "kind_num KindDateTime = 5"
| "kind_num KindDuration = 6"

fun kind_name :: "kind \<Rightarrow> string" where
  "kind_name KindDate = ''date''"
| "kind_name KindLocalTime = ''localtime''"
| "kind_name KindTime = ''time''"
| "kind_name KindLocalDateTime = ''localdatetime''"
| "kind_name KindDateTime = ''datetime''"
| "kind_name KindDuration = ''duration''"

definition kind_by_name :: "string \<Rightarrow> kind option" where
  "kind_by_name name = (let n = to_lower name in
     if n = ''date'' then Some KindDate
     else if n = ''localtime'' then Some KindLocalTime
     else if n = ''time'' then Some KindTime
     else if n = ''localdatetime'' then Some KindLocalDateTime
     else if n = ''datetime'' then Some KindDateTime
     else if n = ''duration'' then Some KindDuration
     else None)"

record duration =
  months :: int
  days :: int
  seconds :: int
  nanos :: int

datatype tval =
    TDate gtime
  | TLocalTime int
  | TTime int int
  | TLocalDateTime gtime
  | TDateTime gtime bool
  | TDuration duration

fun tkind :: "tval \<Rightarrow> kind" where
  "tkind (TDate _) = KindDate"
| "tkind (TLocalTime _) = KindLocalTime"
| "tkind (TTime _ _) = KindTime"
| "tkind (TLocalDateTime _) = KindLocalDateTime"
| "tkind (TDateTime _ _) = KindDateTime"
| "tkind (TDuration _) = KindDuration"

abbreviation nsPerSec :: int where "nsPerSec \<equiv> 10 ^ 9"
abbreviation nsPerDay :: int where "nsPerDay \<equiv> 86400 * 10 ^ 9"

type_synonym terr = string

section \<open>Construction from components\<close>

definition daysIn :: "int \<Rightarrow> int \<Rightarrow> int" where
  "daysIn y m =
    (if m = 4 \<or> m = 6 \<or> m = 9 \<or> m = 11 then 30
     else if m = 2 then
       (if y smod 4 = 0 \<and> (y smod 100 \<noteq> 0 \<or> y smod 400 = 0) then 29 else 28)
     else 31)"

definition newDate :: "int \<Rightarrow> int \<Rightarrow> int \<Rightarrow> terr + gtime" where
  "newDate y m d =
    (if y < -999999999 \<or> y > 999999999 then Inl ''year %d is out of range''
     else if m < 1 \<or> m > 12 then Inl ''month %d is out of range''
     else if d < 1 \<or> d > daysIn y m then Inl ''day %d is out of range for %d-%02d''
     else Inr (go_date y m d 0 0 0 0 UTC))"

definition newLocalTime :: "int \<Rightarrow> int \<Rightarrow> int \<Rightarrow> int \<Rightarrow> terr + int" where
  "newLocalTime h mi s ns =
    (if h < 0 \<or> h > 23 then Inl ''hour %d is out of range''
     else if mi < 0 \<or> mi > 59 then Inl ''minute %d is out of range''
     else if s < 0 \<or> s > 59 then Inl ''second %d is out of range''
     else if ns < 0 \<or> ns \<ge> nsPerSec then Inl ''nanosecond %d is out of range''
     else Inr (h * 3600 * nsPerSec + mi * 60 * nsPerSec + s * nsPerSec + ns))"

section \<open>Components\<close>

definition ymd :: "gtime \<Rightarrow> int \<times> int \<times> int" where "ymd d = t_date d"

definition hms :: "int \<Rightarrow> int \<times> int \<times> int \<times> int" where
  "hms t = (let secs = t sdiv nsPerSec
            in (secs sdiv 3600, (secs smod 3600) sdiv 60, secs smod 60, t smod nsPerSec))"

definition midnight :: "gtime \<Rightarrow> gtime" where
  "midnight t = (case t_date t of (y, m, d) \<Rightarrow> go_date y m d 0 0 0 0 UTC)"

definition wallNanos :: "gtime \<Rightarrow> int" where
  "wallNanos t = t_hour t * 3600 * nsPerSec + t_minute t * 60 * nsPerSec + t_second t * nsPerSec + gnano t"

section \<open>Rendering\<close>

definition fmtYear :: "int \<Rightarrow> string" where
  "fmtYear y =
    (if y < 0 then ''-'' @ pad0 4 (nat (- y))
     else if y > 9999 then ''+'' @ dec_nat (nat y)
     else pad0 4 (nat y))"

definition date_string :: "gtime \<Rightarrow> string" where
  "date_string t = (case ymd t of (y, m, d) \<Rightarrow>
     fmtYear y @ ''-'' @ pad0 2 (nat m) @ ''-'' @ pad0 2 (nat d))"

definition fraction :: "int \<Rightarrow> string" where
  "fraction n = (let s = pad0 9 (nat n) in
     if suffix ''000000'' s then take 3 s else if suffix ''000'' s then take 6 s else s)"

definition localtime_string :: "int \<Rightarrow> string" where
  "localtime_string t = (case hms t of (h, m, s, ns) \<Rightarrow>
     pad0 2 (nat h) @ '':'' @ pad0 2 (nat m)
     @ (if s \<noteq> 0 \<or> ns \<noteq> 0 then '':'' @ pad0 2 (nat s) else [])
     @ (if ns \<noteq> 0 then ''.'' @ fraction ns else []))"

definition fmtOffset :: "int \<Rightarrow> string" where
  "fmtOffset off =
    (if off = 0 then ''Z''
     else let sign = (if off < 0 then ''-'' else ''+''); o' = \<bar>off\<bar> in
       sign @ pad0 2 (nat (o' sdiv 3600)) @ '':'' @ pad0 2 (nat (o' smod 3600 sdiv 60))
       @ (if o' smod 60 \<noteq> 0 then '':'' @ pad0 2 (nat (o' smod 60)) else []))"

definition time_string :: "int \<Rightarrow> int \<Rightarrow> string" where
  "time_string ns off = localtime_string ns @ fmtOffset off"

definition localdatetime_string :: "gtime \<Rightarrow> string" where
  "localdatetime_string t = date_string (midnight t) @ ''T'' @ localtime_string (wallNanos t)"

definition datetime_string :: "gtime \<Rightarrow> bool \<Rightarrow> string" where
  "datetime_string t named =
     date_string (midnight t) @ ''T'' @ localtime_string (wallNanos t) @ fmtOffset (t_zone t)
     @ (if named then ''['' @ loc_name (gloc t) @ '']'' else [])"

text \<open>\<open>strings.TrimRight(s, "0")\<close>.\<close>

definition trim_zeros :: "string \<Rightarrow> string" where
  "trim_zeros s = rev (dropWhile (\<lambda>c. c = CHR ''0'') (rev s))"

definition dur_date_string :: "duration \<Rightarrow> string" where
  "dur_date_string d =
     ''P''
     @ (if months d \<noteq> 0 then
          (let y = months d sdiv 12 in if y \<noteq> 0 then dec_int y @ ''Y'' else [])
          @ (let m = months d smod 12 in if m \<noteq> 0 then dec_int m @ ''M'' else [])
        else [])
     @ (if days d \<noteq> 0 then dec_int (days d) @ ''D'' else [])"

definition duration_string :: "duration \<Rightarrow> string" where
  "duration_string d = (let sb = dur_date_string d in
     if seconds d \<noteq> 0 \<or> nanos d \<noteq> 0 \<or> (months d = 0 \<and> days d = 0) then
       (let sb = sb @ ''T'';
            (secs, ns) = (if seconds d < 0 \<and> nanos d > 0
                          then (seconds d + 1, nanos d - nsPerSec) else (seconds d, nanos d));
            h = secs sdiv 3600;
            sb = sb @ (if h \<noteq> 0 then dec_int h @ ''H'' else []);
            m = secs smod 3600 sdiv 60;
            sb = sb @ (if m \<noteq> 0 then dec_int m @ ''M'' else []);
            s = secs smod 60
        in if s \<noteq> 0 \<or> ns \<noteq> 0 \<or> (secs = 0 \<and> sb = ''PT'') then
             sb @ (if s < 0 \<or> ns < 0 then ''-'' else [])
             @ dec_int \<bar>s\<bar>
             @ (if \<bar>ns\<bar> \<noteq> 0 then ''.'' @ trim_zeros (pad0 9 (nat \<bar>ns\<bar>)) else [])
             @ ''S''
           else sb)
     else sb)"

fun tval_string :: "tval \<Rightarrow> string" where
  "tval_string (TDate t) = date_string t"
| "tval_string (TLocalTime n) = localtime_string n"
| "tval_string (TTime n off) = time_string n off"
| "tval_string (TLocalDateTime t) = localdatetime_string t"
| "tval_string (TDateTime t named) = datetime_string t named"
| "tval_string (TDuration d) = duration_string d"

section \<open>Well-formed values\<close>

text \<open>
  A date is a whole number of days; \<open>date_of n\<close> is the date of day n, and a date in range
  has a year Cypher accepts.
\<close>

definition date_of :: "int \<Rightarrow> gtime" where
  "date_of n = \<lparr>gsec = n * 86400, gnano = 0, gloc = UTC\<rparr>"

definition max_day :: int where "max_day = 400000000000"

text \<open>Calendar arithmetic is exact, without wrap-around, up to \<open>far_day\<close>.\<close>

definition far_day :: int where "far_day = 10000000000000"

definition is_date :: "gtime \<Rightarrow> bool" where
  "is_date t \<longleftrightarrow> (\<exists>n. t = date_of n \<and> \<bar>n\<bar> \<le> max_day)"

definition good_local :: "gtime \<Rightarrow> bool" where
  "good_local t \<longleftrightarrow> good_time t \<and> gloc t = UTC \<and> \<bar>t_day t\<bar> \<le> max_day"

definition good_duration :: "duration \<Rightarrow> bool" where
  "good_duration d \<longleftrightarrow> in64 (months d) \<and> in64 (days d) \<and> in64 (seconds d) \<and> 0 \<le> nanos d \<and> nanos d < nsPerSec"

definition good_clock :: "int \<Rightarrow> bool" where
  "good_clock n \<longleftrightarrow> 0 \<le> n \<and> n < nsPerDay"

fun good_tval :: "tval \<Rightarrow> bool" where
  "good_tval (TDate t) = is_date t"
| "good_tval (TLocalTime n) = good_clock n"
| "good_tval (TTime n off) = good_clock n"
| "good_tval (TLocalDateTime t) = good_local t"
| "good_tval (TDateTime t named) = good_time t"
| "good_tval (TDuration d) = good_duration d"

subsection \<open>Facts about dates\<close>

lemma smod_dvd: "0 < b \<Longrightarrow> a smod b = 0 \<longleftrightarrow> b dvd a" for a b :: int
proof -
  assume b: "0 < b"
  then have "a mod b \<noteq> b" using pos_mod_bound [of b a] by linarith
  with b show ?thesis
    by (cases "0 \<le> a") (auto simp: smod_nonneg smod_neg dvd_eq_mod_eq_0 zmod_zminus1_eq_if)
qed

lemma daysIn_month_len: "daysIn y m = month_len (leap y) m"
  by (simp add: daysIn_def month_len_def leap_def smod_dvd dvd_eq_mod_eq_0)

lemma date_of_simps [simp]:
  "gsec (date_of n) = n * 86400" "gnano (date_of n) = 0" "gloc (date_of n) = UTC"
  "t_day (date_of n) = n" "t_sod (date_of n) = 0" "t_date (date_of n) = civil n" "good_time (date_of n)"
  by (simp_all add: date_of_def t_day_def t_sod_def wall_sec_def t_date_def good_time_def)

lemma date_of_inj [simp]: "date_of a = date_of b \<longleftrightarrow> a = b"
  by (simp add: date_of_def)

lemma date_of_clock [simp]:
  "t_hour (date_of n) = 0" "t_minute (date_of n) = 0" "t_second (date_of n) = 0"
  by (simp_all add: t_hour_def t_minute_def t_second_def)

lemma year_start_bound: "\<bar>y\<bar> \<le> 1000000000 \<Longrightarrow> \<bar>year_start y\<bar> \<le> 366000000000"
  using year_start_linear [of y] by simp

lemma civil_day_bound:
  assumes "\<bar>y\<bar> \<le> 1000000000" "valid_civil y m d"
  shows "\<bar>civil_day y m d\<bar> \<le> max_day"
  using year_start_bound [OF assms(1)] month_start_bounds [OF assms(2)]
  by (simp add: civil_day_def max_day_def split: if_splits)

lemma max_far [simp]: "\<bar>n\<bar> \<le> max_day \<Longrightarrow> \<bar>n\<bar> \<le> far_day"
  by (simp add: max_day_def far_day_def)

lemma in64_day: "\<bar>n\<bar> \<le> far_day \<Longrightarrow> 0 \<le> s \<Longrightarrow> s < 86400 \<Longrightarrow> in64 (n * 86400 + s)"
  by (simp add: in64_def far_day_def abs_le_iff)

lemma in64_day0: "\<bar>n\<bar> \<le> far_day \<Longrightarrow> in64 (n * 86400)"
  using in64_day [of n 0] by simp

lemma in64_day_small [simp]: "\<bar>n\<bar> \<le> far_day \<Longrightarrow> in64 n"
  by (simp add: in64_def far_day_def abs_le_iff)

text \<open>Building a date from a year, a month and any day number.\<close>

lemma go_date_day:
  assumes "1 \<le> m" "m \<le> 12" "\<bar>civil_day y m d\<bar> \<le> far_day"
  shows "go_date y m d 0 0 0 0 UTC = date_of (civil_day y m d)"
  using assms in64_day0 [OF assms(3)]
  by (simp add: go_date_utc unix_of_valid date_of_def)

lemma newDate_Inr:
  "newDate y m d = Inr t \<longleftrightarrow>
     \<bar>y\<bar> \<le> 999999999 \<and> valid_civil y m d \<and> t = date_of (civil_day y m d)"
proof -
  have "newDate y m d = (if \<bar>y\<bar> \<le> 999999999 \<and> valid_civil y m d
      then Inr (date_of (civil_day y m d)) else newDate y m d)"
    using go_date_day [of m y d] max_far [OF civil_day_bound [of y m d]]
    by (auto simp: newDate_def daysIn_month_len valid_civil_def)
  moreover have "newDate y m d = Inr t \<Longrightarrow> \<bar>y\<bar> \<le> 999999999 \<and> valid_civil y m d"
    by (auto simp: newDate_def daysIn_month_len valid_civil_def split: if_splits)
  ultimately show ?thesis by (metis sum.inject(2))
qed

text \<open>The year of a day in range.\<close>

lemma civil_year_mono: "a \<le> b \<Longrightarrow> fst (civil a) \<le> fst (civil b)"
proof (rule ccontr)
  assume "a \<le> b" "\<not> fst (civil a) \<le> fst (civil b)"
  moreover obtain y m d y' m' d' where c: "civil a = (y, m, d)" "civil b = (y', m', d')"
    by (metis prod_cases3)
  ultimately have "ymd_less y' m' d' y m d" by (simp add: ymd_less_def)
  then have "b < a" using c civil_day_civil civil_day_mono by metis
  with \<open>a \<le> b\<close> show False by simp
qed

lemma year_of_small: "\<bar>n\<bar> \<le> far_day \<Longrightarrow> \<bar>fst (civil n)\<bar> \<le> 30000000000"
proof -
  assume n: "\<bar>n\<bar> \<le> far_day"
  let ?y = "fst (civil n)"
  have "?y = year_of (n + 719162)" by (simp add: civil_def Let_def)
  then have "year_start ?y \<le> n + 719162" "n + 719162 < year_start (?y + 1)"
    using year_of_bounds [of "n + 719162"] by simp_all
  then show ?thesis
    using year_start_linear(1) [of ?y] year_start_linear(2) [of "?y + 1"] n
    by (simp add: far_day_def)
qed

text \<open>Moving a date by days.\<close>

lemma add_days_date:
  assumes "\<bar>n\<bar> \<le> far_day" "\<bar>k\<bar> \<le> far_day"
  shows "add_date (date_of n) 0 0 k = date_of (n + k)"
proof -
  have "1 \<le> t_dom (date_of n)" "t_dom (date_of n) \<le> 31"
    using t_date_valid [of "date_of n"] month_len_bounds
    by (auto simp: valid_civil_def intro: order_trans)
  moreover have "\<bar>t_year (date_of n)\<bar> \<le> 30000000000"
    using year_of_small [OF assms(1)] by (simp add: t_year_def)
  ultimately have "add_date (date_of n) 0 0 k = (date_of n)\<lparr>gsec := gsec (date_of n) + k * 86400\<rparr>"
    using assms by (intro add_days_utc) (simp_all add: in64_def far_day_def abs_le_iff)
  then show ?thesis by (simp add: date_of_def distrib_right)
qed

lemma midnight_date [simp]: "\<bar>n\<bar> \<le> far_day \<Longrightarrow> midnight (date_of n) = date_of n"
proof -
  obtain y m d where c: "civil n = (y, m, d)" by (cases "civil n") auto
  note v = civil_day_civil [OF c]
  assume "\<bar>n\<bar> \<le> far_day"
  then have "go_date y m d 0 0 0 0 UTC = date_of n"
    using go_date_day [of m y d] v by (simp add: valid_civil_def)
  with c show ?thesis by (simp add: midnight_def)
qed

end
