(* ===== verification/Calendar.thy ===== *)
theory Calendar
  imports Temporal
begin

text \<open>
  The calendar of cypher/temporal/calendar.go: ISO weeks, ordinal days, quarters and month
  arithmetic. The lemmas say that each form of a date names the day it is read off from, and
  that month arithmetic keeps the clock and clamps the day to the month.
\<close>

section \<open>Operations\<close>

definition floorDiv :: "int \<Rightarrow> int \<Rightarrow> int" where
  "floorDiv a b = (let q = a sdiv b in if a smod b \<noteq> 0 \<and> (a < 0) \<noteq> (b < 0) then q - 1 else q)"

definition isoWeek1Monday :: "int \<Rightarrow> gtime" where
  "isoWeek1Monday wy = (let jan4 = go_date wy 1 4 0 0 0 0 UTC; back = (t_weekday jan4 + 6) smod 7
                        in add_date jan4 0 0 (- back))"

definition weeksInYear :: "int \<Rightarrow> int" where
  "weeksInYear wy = snd (t_isoweek (go_date wy 12 28 0 0 0 0 UTC))"

definition dateFromWeek :: "int \<Rightarrow> int \<Rightarrow> int \<Rightarrow> terr + gtime" where
  "dateFromWeek wy week dow =
    (if week < 1 \<or> week > weeksInYear wy then Inl ''week %d is out of range for week-year %d''
     else if dow < 1 \<or> dow > 7 then Inl ''day of week %d is out of range''
     else Inr (add_date (isoWeek1Monday wy) 0 0 ((week - 1) * 7 + dow - 1)))"

definition dateFromOrdinal :: "int \<Rightarrow> int \<Rightarrow> terr + gtime" where
  "dateFromOrdinal y ordinal =
    (let n = (if daysIn y 2 = 29 then 366 else 365) in
     if ordinal < 1 \<or> ordinal > n then Inl ''ordinal day %d is out of range for %d''
     else Inr (go_date y 1 ordinal 0 0 0 0 UTC))"

definition quarterOf :: "int \<Rightarrow> int" where
  "quarterOf m = (m - 1) sdiv 3 + 1"

text \<open>\<open>int(a.Sub(b).Hours() / 24)\<close> of two midnights less than a century apart.\<close>

definition sub_days :: "gtime \<Rightarrow> gtime \<Rightarrow> int" where
  "sub_days a b = (gsec a - gsec b) sdiv 86400"

definition dateFromQuarter :: "int \<Rightarrow> int \<Rightarrow> int \<Rightarrow> terr + gtime" where
  "dateFromQuarter y quarter dayOfQuarter =
    (if quarter < 1 \<or> quarter > 4 then Inl ''quarter %d is out of range''
     else let first = go_date y ((quarter - 1) * 3 + 1) 1 0 0 0 0 UTC;
              stop = add_date first 0 3 0;
              days = sub_days stop first
          in if dayOfQuarter < 1 \<or> dayOfQuarter > days then Inl ''day of quarter %d is out of range''
             else Inr (add_date first 0 0 (dayOfQuarter - 1)))"

definition date_quarter :: "gtime \<Rightarrow> int" where "date_quarter d = quarterOf (t_month d)"
definition date_week :: "gtime \<Rightarrow> int" where "date_week d = snd (t_isoweek d)"
definition date_weekyear :: "gtime \<Rightarrow> int" where "date_weekyear d = fst (t_isoweek d)"
definition date_weekday :: "gtime \<Rightarrow> int" where "date_weekday d = (t_weekday d + 6) smod 7 + 1"

definition date_dayofquarter :: "gtime \<Rightarrow> int" where
  "date_dayofquarter d =
    (let first = go_date (t_year d) ((date_quarter d - 1) * 3 + 1) 1 0 0 0 0 UTC in sub_days d first + 1)"

definition addMonths :: "gtime \<Rightarrow> int \<Rightarrow> gtime" where
  "addMonths t k = (case t_date t of (y, m, d) \<Rightarrow>
     let total = w64 (y * 12 + (m - 1) + k);
         ny = floorDiv total 12;
         nm = total - ny * 12;
         dim = daysIn ny (nm + 1);
         d' = (if d > dim then dim else d)
     in go_date ny (nm + 1) d' (t_hour t) (t_minute t) (t_second t) (gnano t) (gloc t))"

section \<open>Weeks\<close>

lemma floorDiv_div: "0 < b \<Longrightarrow> floorDiv a b = a div b"
proof -
  assume b: "0 < b"
  have m: "a smod b = 0 \<longleftrightarrow> b dvd a" by (rule smod_dvd [OF b])
  show ?thesis
  proof (cases "0 \<le> a")
    case True
    with b show ?thesis by (simp add: floorDiv_def Let_def sdiv_nonneg)
  next
    case False
    with b m show ?thesis
      by (simp add: floorDiv_def Let_def sdiv_neg zdiv_zminus1_eq_if dvd_eq_mod_eq_0)
  qed
qed

text \<open>The Thursday that decides which year a week belongs to; Thursdays are multiples of 7.\<close>

definition first_thursday :: "int \<Rightarrow> int" where
  "first_thursday y = thursday_of (civil_day y 1 4)"

lemma thursday_mod: "thursday_of n mod 7 = 0"
  unfolding thursday_of_def by presburger

lemma thursday_range: "n - 3 \<le> thursday_of n" "thursday_of n \<le> n + 3"
  unfolding thursday_of_def by presburger+

lemma jan_1_4: "civil_day y 1 4 = civil_day y 1 1 + 3"
  by (simp add: civil_day_def)

lemma first_thursday_range:
  "civil_day y 1 1 \<le> first_thursday y" "first_thursday y \<le> civil_day y 1 1 + 6"
  using thursday_range [of "civil_day y 1 4"] by (simp_all add: first_thursday_def jan_1_4)

text \<open>The number of a Thursday within its year counts whole weeks from the first one.\<close>

lemma thursday_week:
  assumes "th mod 7 = 0"
  shows "first_thursday y + 7 * ((th - civil_day y 1 1) div 7) = th"
proof -
  obtain a where a: "th = 7 * a" using assms by auto
  obtain b where b: "first_thursday y = 7 * b" using thursday_mod [of "civil_day y 1 4"]
    by (auto simp: first_thursday_def)
  define r where "r = 7 * b - civil_day y 1 1"
  have r: "civil_day y 1 1 = 7 * b - r" "0 \<le> r" "r < 7"
    using first_thursday_range [of y] b by (simp_all add: r_def)
  have "(7 * a - (7 * b - r)) div 7 = a - b"
    using r by (intro int_div_pos_eq [where r = r]) auto
  then show ?thesis unfolding a b r(1) by simp
qed

subsection \<open>Reading a week off a day\<close>

lemma thursday_shift: "0 \<le> k \<Longrightarrow> k < 7 \<Longrightarrow> th mod 7 = 0 \<Longrightarrow> thursday_of (th - 3 + k) = th"
proof -
  assume k: "0 \<le> k" "k < 7" and "th mod 7 = 0"
  then obtain a where "th = 7 * a" by auto
  moreover have "(7 * a - 3 + k + 3) mod 7 = k" using k by simp
  ultimately show ?thesis by (simp add: thursday_of_def)
qed

lemma day_of_thursday: "thursday_of n - 3 + (n + 3) mod 7 = n"
  by (simp add: thursday_of_def)

lemma civil_year_bounds:
  assumes "fst (civil n) = y"
  shows "civil_day y 1 1 \<le> n" "n < civil_day (y + 1) 1 1"
proof -
  have "y = year_of (n + 719162)" using assms by (simp add: civil_def Let_def)
  with year_of_bounds [of "n + 719162"] show "civil_day y 1 1 \<le> n" "n < civil_day (y + 1) 1 1"
    by (simp_all add: civil_day_def month_start_def)
qed

lemma civil_yearI: "civil_day y 1 1 \<le> n \<Longrightarrow> n < civil_day (y + 1) 1 1 \<Longrightarrow> fst (civil n) = y"
  using year_of_unique [of y "n + 719162"]
  by (simp add: civil_def Let_def civil_day_def month_start_def)

lemma year_days: "civil_day y 12 31 + 1 = civil_day (y + 1) 1 1"
  using year_len [of y] by (simp add: civil_day_def month_start_def split: if_splits)

lemma first_thursday_year: "fst (civil (first_thursday y)) = y"
proof (rule civil_yearI)
  show "civil_day y 1 1 \<le> first_thursday y" by (rule first_thursday_range)
  have "civil_day y 1 1 + 6 < civil_day (y + 1) 1 1"
    using year_len [of y] by (simp add: civil_day_def month_start_def split: if_splits)
  then show "first_thursday y < civil_day (y + 1) 1 1"
    using first_thursday_range(2) [of y] by linarith
qed

text \<open>Week w of year y is the one whose Thursday is w - 1 weeks after the first.\<close>

lemma iso_week_of_eq:
  assumes "iso_week_of n = (y, w)"
  shows "thursday_of n = first_thursday y + 7 * (w - 1)" "fst (civil (thursday_of n)) = y" "1 \<le> w"
proof -
  let ?th = "thursday_of n"
  show y: "fst (civil ?th) = y" using assms by (simp add: iso_week_of_def Let_def)
  have w: "w = (?th - civil_day y 1 1) div 7 + 1"
    using assms y by (simp add: iso_week_of_def Let_def yearday_of_def)
  show "?th = first_thursday y + 7 * (w - 1)"
    using thursday_week [OF thursday_mod [of n], of y] w by simp
  show "1 \<le> w" using civil_year_bounds(1) [OF y] w by (simp add: pos_imp_zdiv_nonneg_iff)
qed

lemma iso_week_ofI:
  assumes "thursday_of n = first_thursday y + 7 * (w - 1)" "fst (civil (thursday_of n)) = y"
  shows "iso_week_of n = (y, w)"
proof -
  have "first_thursday y + 7 * ((thursday_of n - civil_day y 1 1) div 7) = thursday_of n"
    by (rule thursday_week [OF thursday_mod])
  with assms show ?thesis by (simp add: iso_week_of_def Let_def yearday_of_def)
qed

lemma thursday_dec28:
  "thursday_of (civil_day y 12 28) \<le> civil_day y 12 31"
  "civil_day y 12 31 < thursday_of (civil_day y 12 28) + 7"
  "fst (civil (thursday_of (civil_day y 12 28))) = y"
proof -
  have d: "civil_day y 12 31 = civil_day y 12 28 + 3" by (simp add: civil_day_def)
  with thursday_range [of "civil_day y 12 28"]
  show a: "thursday_of (civil_day y 12 28) \<le> civil_day y 12 31"
    and "civil_day y 12 31 < thursday_of (civil_day y 12 28) + 7" by linarith+
  have "civil_day y 1 1 \<le> civil_day y 12 28 - 3" by (simp add: civil_day_def month_start_def)
  with a thursday_range(1) [of "civil_day y 12 28"] year_days [of y]
  show "fst (civil (thursday_of (civil_day y 12 28))) = y" by (intro civil_yearI) linarith+
qed

text \<open>The last week of a year is the one of 28 December.\<close>

lemma last_week:
  assumes "iso_week_of (civil_day y 12 28) = (y', W)"
  shows "y' = y" "fst (civil (first_thursday y + 7 * (w - 1))) = y \<longleftrightarrow> 1 \<le> w \<and> w \<le> W"
proof -
  note e = iso_week_of_eq [OF assms]
  show y: "y' = y" using e(2) thursday_dec28(3) by simp
  then have t: "thursday_of (civil_day y 12 28) = first_thursday y + 7 * (W - 1)" using e(1) by simp
  show "fst (civil (first_thursday y + 7 * (w - 1))) = y \<longleftrightarrow> 1 \<le> w \<and> w \<le> W"
  proof
    assume "fst (civil (first_thursday y + 7 * (w - 1))) = y"
    from civil_year_bounds [OF this] show "1 \<le> w \<and> w \<le> W"
      using first_thursday_range(2) [of y] year_days [of y] thursday_dec28(2) [of y] t by simp
  next
    assume "1 \<le> w \<and> w \<le> W"
    then show "fst (civil (first_thursday y + 7 * (w - 1))) = y"
      using first_thursday_range(1) [of y] year_days [of y] thursday_dec28(1) [of y] t
      by (intro civil_yearI) simp_all
  qed
qed

subsection \<open>The source's accessors on dates\<close>

lemma smod7: "0 \<le> a \<Longrightarrow> (a :: int) smod 7 = a mod 7"
  by (simp add: smod_nonneg)

lemma weekday_mod: "((n + 4) mod 7 + 6) mod 7 = (n + 3) mod (7 :: int)"
  using mod_add_left_eq [of "n + 4" 7 6] mod_add_self2 [of "n + 3" 7] by (simp add: add.assoc)

lemma date_weekday_of: "date_weekday (date_of n) = (n + 3) mod 7 + 1"
  by (simp add: date_weekday_def t_weekday_def weekday_of_def smod7 weekday_mod)

lemma civil_day_near:
  "\<bar>y\<bar> \<le> 1000000000 \<Longrightarrow> 1 \<le> m \<Longrightarrow> m \<le> 12 \<Longrightarrow> 1 \<le> d \<Longrightarrow> d \<le> 366 \<Longrightarrow> \<bar>civil_day y m d\<bar> \<le> max_day"
  using year_start_bound [of y] month_start_le [of 1 m "leap y"] month_start_le [of m 13 "leap y"]
    month_start_year [of "leap y"]
  by (simp add: civil_day_def max_day_def month_start_def [of _ 1] abs_le_iff split: if_splits)

lemma isoWeek1Monday_eq:
  assumes "\<bar>y\<bar> \<le> 1000000000"
  shows "isoWeek1Monday y = date_of (first_thursday y - 3)"
proof -
  let ?j = "civil_day y 1 4"
  have j: "\<bar>?j\<bar> \<le> max_day" using assms by (intro civil_day_near) auto
  have "go_date y 1 4 0 0 0 0 UTC = date_of ?j" using j by (intro go_date_day) auto
  moreover have "(t_weekday (date_of ?j) + 6) smod 7 = (?j + 3) mod 7"
    by (simp add: t_weekday_def weekday_of_def smod7 weekday_mod)
  moreover have "add_date (date_of ?j) 0 0 (- ((?j + 3) mod 7)) = date_of (?j - (?j + 3) mod 7)"
    using j max_far [OF j] by (subst add_days_date) (simp_all add: far_day_def)
  ultimately show ?thesis by (simp add: isoWeek1Monday_def Let_def first_thursday_def thursday_of_def)
qed

lemma weeksInYear_eq:
  assumes "\<bar>y\<bar> \<le> 1000000000"
  shows "weeksInYear y = snd (iso_week_of (civil_day y 12 28))"
proof -
  have "\<bar>civil_day y 12 28\<bar> \<le> max_day" using assms by (intro civil_day_near) auto
  then have "go_date y 12 28 0 0 0 0 UTC = date_of (civil_day y 12 28)" by (intro go_date_day) auto
  then show ?thesis by (simp add: weeksInYear_def t_isoweek_def)
qed

lemma weeksInYear_small: "\<bar>y\<bar> \<le> 1000000000 \<Longrightarrow> weeksInYear y \<le> 54"
proof -
  assume y: "\<bar>y\<bar> \<le> 1000000000"
  obtain y' W where W: "iso_week_of (civil_day y 12 28) = (y', W)" by fastforce
  have "y' = y" by (rule last_week(1) [OF W])
  with iso_week_of_eq(1) [OF W] have "7 * (W - 1) \<le> 366"
    using thursday_dec28(1) [of y] first_thursday_range(1) [of y] year_days [of y] year_len [of y]
    by (simp add: civil_day_def month_start_def split: if_splits)
  with W y show ?thesis by (simp add: weeksInYear_eq)
qed

text \<open>The dates a (week-year, week, day) triple names.\<close>

lemma dateFromWeek_Inr:
  assumes y: "\<bar>y\<bar> \<le> 1000000000"
  shows "dateFromWeek y w d = Inr t \<longleftrightarrow>
    (\<exists>n. t = date_of n \<and> iso_week_of n = (y, w) \<and> d = (n + 3) mod 7 + 1)"
proof -
  obtain y' W where W: "iso_week_of (civil_day y 12 28) = (y', W)" by fastforce
  have last: "fst (civil (first_thursday y + 7 * (w - 1))) = y \<longleftrightarrow> 1 \<le> w \<and> w \<le> weeksInYear y"
    using last_week(2) [OF W] last_week(1) [OF W] W y by (simp add: weeksInYear_eq)
  let ?n = "first_thursday y - 3 + ((w - 1) * 7 + d - 1)"
  have add: "add_date (isoWeek1Monday y) 0 0 ((w - 1) * 7 + d - 1) = date_of ?n"
    if "1 \<le> w" "w \<le> weeksInYear y" "1 \<le> d" "d \<le> 7"
  proof -
    have "\<bar>civil_day y 1 1\<bar> \<le> max_day" using y by (intro civil_day_near) auto
    then have "\<bar>first_thursday y - 3\<bar> \<le> far_day"
      using first_thursday_range [of y] by (simp add: far_day_def max_day_def abs_le_iff)
    moreover have "\<bar>(w - 1) * 7 + d - 1\<bar> \<le> far_day"
      using that weeksInYear_small [OF y] by (simp add: far_day_def abs_le_iff)
    ultimately show ?thesis by (simp add: isoWeek1Monday_eq [OF y] add_days_date)
  qed
  have eq: "?n = first_thursday y + 7 * (w - 1) - 3 + (d - 1)" by simp
  have t0: "(first_thursday y + 7 * (w - 1)) mod 7 = 0"
    by (simp only: first_thursday_def mod_mult_self2 thursday_mod)
  have th: "thursday_of ?n = first_thursday y + 7 * (w - 1)" if "1 \<le> d" "d \<le> 7"
    unfolding eq using that by (intro thursday_shift t0) auto
  show ?thesis
  proof
    assume ok: "dateFromWeek y w d = Inr t"
    then have r: "1 \<le> w" "w \<le> weeksInYear y" "1 \<le> d" "d \<le> 7" and t: "t = date_of ?n"
      using add by (auto simp: dateFromWeek_def split: if_splits)
    have "iso_week_of ?n = (y, w)"
      using th r last by (intro iso_week_ofI) auto
    moreover have "d = (?n + 3) mod 7 + 1"
      using day_of_thursday [of ?n] th r eq by simp
    ultimately show "\<exists>n. t = date_of n \<and> iso_week_of n = (y, w) \<and> d = (n + 3) mod 7 + 1"
      using t by blast
  next
    assume "\<exists>n. t = date_of n \<and> iso_week_of n = (y, w) \<and> d = (n + 3) mod 7 + 1"
    then obtain n where n: "t = date_of n" "iso_week_of n = (y, w)" "d = (n + 3) mod 7 + 1" by blast
    note e = iso_week_of_eq [OF n(2)]
    have "1 \<le> w \<and> w \<le> weeksInYear y" using last e by simp
    moreover have d: "1 \<le> d" "d \<le> 7" using n(3) pos_mod_sign [of 7 "n + 3"] pos_mod_bound [of 7 "n + 3"] by simp_all
    moreover have "?n = n" using day_of_thursday [of n] e(1) n(3) by simp
    ultimately show "dateFromWeek y w d = Inr t" using add n(1) by (simp add: dateFromWeek_def)
  qed
qed

section \<open>Ordinal days and quarters\<close>

lemma ordinal_len: "(if daysIn y 2 = 29 then 366 else 365) = (if leap y then 366 else (365::int))"
  by (simp add: daysIn_month_len month_len_def)

lemma dateFromOrdinal_Inr:
  assumes y: "\<bar>y\<bar> \<le> 1000000000"
  shows "dateFromOrdinal y k = Inr t \<longleftrightarrow> (\<exists>n. t = date_of n \<and> fst (civil n) = y \<and> yearday_of n = k)"
proof -
  have len: "civil_day (y + 1) 1 1 = civil_day y 1 1 + (if leap y then 366 else 365)"
    using year_len [of y] by (simp add: civil_day_def month_start_def)
  have go: "go_date y 1 k 0 0 0 0 UTC = date_of (civil_day y 1 k)" if "1 \<le> k" "k \<le> 366"
    using y that by (intro go_date_day max_far civil_day_near) auto
  have shift: "civil_day y 1 k = civil_day y 1 1 + (k - 1)" by (simp add: civil_day_def)
  show ?thesis
  proof
    assume "dateFromOrdinal y k = Inr t"
    then have k: "1 \<le> k" "k \<le> (if leap y then 366 else 365)" and t: "t = go_date y 1 k 0 0 0 0 UTC"
      by (auto simp: dateFromOrdinal_def ordinal_len Let_def split: if_splits)
    from k have "k \<le> 366" by (simp split: if_splits)
    with k go t have "t = date_of (civil_day y 1 k)" by simp
    moreover have "fst (civil (civil_day y 1 k)) = y"
      using k len shift by (intro civil_yearI) auto
    ultimately show "\<exists>n. t = date_of n \<and> fst (civil n) = y \<and> yearday_of n = k"
      using shift by (intro exI [of _ "civil_day y 1 k"]) (simp add: yearday_of_def)
  next
    assume "\<exists>n. t = date_of n \<and> fst (civil n) = y \<and> yearday_of n = k"
    then obtain n where n: "t = date_of n" "fst (civil n) = y" "yearday_of n = k" by blast
    have k: "k = n - civil_day y 1 1 + 1" using n(2,3) by (simp add: yearday_of_def)
    have r: "1 \<le> k" "k \<le> (if leap y then 366 else 365)"
      using civil_year_bounds [OF n(2)] k len by auto
    then have "k \<le> 366" by (simp split: if_splits)
    with r go shift k n(1) show "dateFromOrdinal y k = Inr t"
      by (simp add: dateFromOrdinal_def ordinal_len Let_def)
  qed
qed

lemma sub_days_date: "b \<le> a \<Longrightarrow> sub_days (date_of a) (date_of b) = a - b"
proof -
  assume "b \<le> a"
  moreover have "a * 86400 - b * 86400 = (a - b) * 86400" by (simp only: left_diff_distrib)
  ultimately show ?thesis by (simp add: sub_days_def sdiv_nonneg)
qed

definition quarter_day :: "int \<Rightarrow> int \<Rightarrow> int" where
  "quarter_day y q = civil_day y (3 * q - 2) 1"

lemma quarter_day_next: "quarter_day y (q + 1) = civil_day y (3 * q + 1) 1"
  by (simp add: quarter_day_def algebra_simps)

lemma month_of_between:
  assumes "fst (civil n) = y" "1 \<le> a" "a \<le> 13"
  shows "civil_day y a 1 \<le> n \<longleftrightarrow> a \<le> fst (snd (civil n))"
proof -
  obtain m d where c: "civil n = (y, m, d)" using assms(1) by (cases "civil n") auto
  have n: "n = civil_day y m d" and v: "valid_civil y m d" using civil_day_civil [OF c] by simp_all
  have m: "1 \<le> m" "m \<le> 12" "1 \<le> d" "d \<le> month_len (leap y) m"
    using v by (simp_all add: valid_civil_def)
  show ?thesis
  proof
    assume "civil_day y a 1 \<le> n"
    then have "month_start (leap y) a < month_start (leap y) (m + 1)"
      using n m month_start_step [of m "leap y"] by (simp add: civil_day_def)
    then have "\<not> m + 1 \<le> a" using month_start_le [of "m + 1" a "leap y"] m assms(3) by auto
    with c show "a \<le> fst (snd (civil n))" by simp
  next
    assume "a \<le> fst (snd (civil n))"
    with c have "a \<le> m" by simp
    then have "month_start (leap y) a \<le> month_start (leap y) m"
      using m assms(2) by (intro month_start_le) auto
    with n m show "civil_day y a 1 \<le> n" by (simp add: civil_day_def)
  qed
qed

lemma next_year_day: "civil_day y 13 1 = civil_day (y + 1) 1 1"
  using year_len [of y] by (simp add: civil_day_def month_start_def split: if_splits)

text \<open>A day lies in quarter q of year y between the first days of q and of q + 1.\<close>

lemma quarterOf_eq: "1 \<le> m \<Longrightarrow> quarterOf m = q \<longleftrightarrow> 3 * q - 2 \<le> m \<and> m < 3 * q + 1"
  by (simp add: quarterOf_def sdiv_nonneg) presburger

lemma quarter_iff:
  assumes "1 \<le> q" "q \<le> 4"
  shows "quarter_day y q \<le> n \<and> n < quarter_day y (q + 1)
    \<longleftrightarrow> fst (civil n) = y \<and> quarterOf (fst (snd (civil n))) = q"
proof
  assume n: "quarter_day y q \<le> n \<and> n < quarter_day y (q + 1)"
  have "month_start (leap y) 1 \<le> month_start (leap y) (3 * q - 2)"
    "month_start (leap y) (3 * q + 1) \<le> month_start (leap y) 13"
    using assms by (intro month_start_le; simp)+
  then have "civil_day y 1 1 \<le> n" "n < civil_day y 13 1"
    using n unfolding quarter_day_next by (simp_all add: quarter_day_def civil_day_def)
  then have y: "fst (civil n) = y" by (intro civil_yearI) (simp_all add: next_year_day)
  have "3 * q - 2 \<le> fst (snd (civil n))" "\<not> 3 * q + 1 \<le> fst (snd (civil n))"
    using n assms month_of_between [OF y, of "3 * q - 2"] month_of_between [OF y, of "3 * q + 1"]
    unfolding quarter_day_next by (simp_all add: quarter_day_def)
  with y assms show "fst (civil n) = y \<and> quarterOf (fst (snd (civil n))) = q"
    by (subst quarterOf_eq) auto
next
  assume a: "fst (civil n) = y \<and> quarterOf (fst (snd (civil n))) = q"
  then have y: "fst (civil n) = y" by simp
  have "1 \<le> fst (snd (civil n))"
    using civil_day_civil(2) [of n] by (cases "civil n") (auto simp: valid_civil_def)
  then have "3 * q - 2 \<le> fst (snd (civil n))" "\<not> 3 * q + 1 \<le> fst (snd (civil n))"
    using a by (simp_all add: quarterOf_eq)
  then show "quarter_day y q \<le> n \<and> n < quarter_day y (q + 1)"
    using assms month_of_between [OF y, of "3 * q - 2"] month_of_between [OF y, of "3 * q + 1"]
    unfolding quarter_day_next by (simp add: quarter_day_def)
qed

lemma add_three_months:
  assumes y: "\<bar>y\<bar> \<le> 999999999" and q: "1 \<le> q" "q \<le> 4"
  shows "add_date (date_of (quarter_day y q)) 0 3 0 = date_of (quarter_day y (q + 1))"
proof -
  have v: "valid_civil y (3 * q - 2) 1"
    using q month_len_bounds [of "leap y" "3 * q - 2"] by (simp add: valid_civil_def)
  then have t: "civil (quarter_day y q) = (y, 3 * q - 2, 1)"
    by (simp add: quarter_day_def civil_civil_day)
  then have f: "t_year (date_of (quarter_day y q)) = y" "t_month (date_of (quarter_day y q)) = 3 * q - 2"
    "t_dom (date_of (quarter_day y q)) = 1"
    by (simp_all add: t_year_def t_month_def t_dom_def)
  have w: "w64 y = y" "w64 (3 * q - 2 + 3) = 3 * q + 1" "w64 1 = 1"
    using y q by (simp_all add: w64_id in64_def abs_le_iff)
  have "go_date y (3 * q + 1) 1 0 0 0 0 UTC = date_of (quarter_day y (q + 1))"
  proof (cases "q = 4")
    case True
    have "\<bar>civil_day (y + 1) 1 1\<bar> \<le> far_day" using y by (intro max_far civil_day_near) auto
    moreover have "go_date y 13 1 0 0 0 0 UTC = go_date (y + 1) 1 1 0 0 0 0 UTC"
      by (simp add: go_date_def unix_of_def)
    ultimately show ?thesis
      using True go_date_day [of 1 "y + 1" 1] unfolding quarter_day_next by (simp add: next_year_day)
  next
    case False
    then show ?thesis using q y unfolding quarter_day_next
      by (intro go_date_day max_far civil_day_near) auto
  qed
  then show ?thesis unfolding add_date_def f w(2) by (simp add: w)
qed

lemma dateFromQuarter_Inr:
  assumes y: "\<bar>y\<bar> \<le> 999999999"
  shows "dateFromQuarter y q k = Inr t \<longleftrightarrow>
    (\<exists>n. t = date_of n \<and> fst (civil n) = y \<and> quarterOf (fst (snd (civil n))) = q \<and> k = n - quarter_day y q + 1)"
proof (cases "1 \<le> q \<and> q \<le> 4")
  case True
  then have q: "1 \<le> q" "q \<le> 4" by simp_all
  have near: "\<bar>quarter_day y q\<bar> \<le> max_day"
    using q y unfolding quarter_day_def by (intro civil_day_near) auto
  have first: "go_date y ((q - 1) * 3 + 1) 1 0 0 0 0 UTC = date_of (quarter_day y q)"
  proof -
    have e: "(q - 1) * 3 + 1 = 3 * q - 2" by simp
    show ?thesis
      unfolding e using q max_far [OF near] go_date_day [of "3 * q - 2" y 1] by (simp add: quarter_day_def)
  qed
  have len: "quarter_day y q \<le> quarter_day y (q + 1)" "quarter_day y (q + 1) - quarter_day y q \<le> 366"
  proof -
    let ?s = "month_start (leap y)"
    have "?s (3 * q - 2) \<le> ?s (3 * q + 1)" "?s 1 \<le> ?s (3 * q - 2)" "?s (3 * q + 1) \<le> ?s 13"
      using q by (intro month_start_le; simp)+
    moreover have "?s 1 = 0" by (simp add: month_start_def)
    moreover have "?s 13 \<le> 366" unfolding month_start_year by simp
    ultimately show "quarter_day y q \<le> quarter_day y (q + 1)" "quarter_day y (q + 1) - quarter_day y q \<le> 366"
      unfolding quarter_day_next unfolding quarter_day_def civil_day_def by linarith+
  qed
  then have sub: "sub_days (date_of (quarter_day y (q + 1))) (date_of (quarter_day y q))
      = quarter_day y (q + 1) - quarter_day y q"
    by (intro sub_days_date)
  have qf: "dateFromQuarter y q k =
      (if k < 1 \<or> k > quarter_day y (q + 1) - quarter_day y q then Inl ''day of quarter %d is out of range''
       else Inr (add_date (date_of (quarter_day y q)) 0 0 (k - 1)))"
    unfolding dateFromQuarter_def first Let_def add_three_months [OF y q] sub using q by simp
  have add: "add_date (date_of (quarter_day y q)) 0 0 (k - 1) = date_of (quarter_day y q + (k - 1))"
    if "1 \<le> k" "k \<le> quarter_day y (q + 1) - quarter_day y q"
    using len(2) that by (intro add_days_date max_far near) (auto simp: max_day_def)
  have res: "dateFromQuarter y q k = Inr t \<longleftrightarrow> 1 \<le> k \<and> k \<le> quarter_day y (q + 1) - quarter_day y q
      \<and> t = date_of (quarter_day y q + (k - 1))"
    unfolding qf using add by auto
  show ?thesis unfolding res
  proof
    let ?n = "quarter_day y q + (k - 1)"
    assume k: "1 \<le> k \<and> k \<le> quarter_day y (q + 1) - quarter_day y q \<and> t = date_of ?n"
    then have "fst (civil ?n) = y \<and> quarterOf (fst (snd (civil ?n))) = q"
      using quarter_iff [OF q, of y ?n] by auto
    with k show "\<exists>n. t = date_of n \<and> fst (civil n) = y \<and>
        quarterOf (fst (snd (civil n))) = q \<and> k = n - quarter_day y q + 1"
      by (intro exI [of _ ?n]) simp
  next
    assume "\<exists>n. t = date_of n \<and> fst (civil n) = y \<and> quarterOf (fst (snd (civil n))) = q \<and> k = n - quarter_day y q + 1"
    then obtain n where n: "t = date_of n" "fst (civil n) = y \<and> quarterOf (fst (snd (civil n))) = q"
      "k = n - quarter_day y q + 1" by blast
    then have "quarter_day y q \<le> n \<and> n < quarter_day y (q + 1)" using quarter_iff [OF q, of y n] by blast
    with n show "1 \<le> k \<and> k \<le> quarter_day y (q + 1) - quarter_day y q \<and> t = date_of (quarter_day y q + (k - 1))"
      by simp
  qed
next
  case False
  have "1 \<le> quarterOf (fst (snd (civil n))) \<and> quarterOf (fst (snd (civil n))) \<le> 4" for n
  proof -
    have "1 \<le> fst (snd (civil n))" "fst (snd (civil n)) \<le> 12"
      using civil_day_civil(2) [of n] by (cases "civil n"; auto simp: valid_civil_def)+
    moreover from this have "quarterOf (fst (snd (civil n))) = (fst (snd (civil n)) - 1) div 3 + 1"
      by (simp add: quarterOf_def sdiv_nonneg)
    ultimately show ?thesis using div_bounds [of 3 "fst (snd (civil n)) - 1"] by linarith
  qed
  with False show ?thesis by (auto simp: dateFromQuarter_def)
qed

section \<open>Month arithmetic\<close>

text \<open>
  A wall clock in UTC is a day and a second of the day; \<open>wall_of\<close> builds it. Month
  arithmetic replaces the day and keeps the rest.
\<close>

definition wall_of :: "int \<Rightarrow> int \<Rightarrow> int \<Rightarrow> gtime" where
  "wall_of n s ns = \<lparr>gsec = n * 86400 + s, gnano = ns, gloc = UTC\<rparr>"

lemma wall_of_simps [simp]:
  assumes "0 \<le> s" "s < 86400"
  shows "t_day (wall_of n s ns) = n" "t_sod (wall_of n s ns) = s" "t_date (wall_of n s ns) = civil n"
  using assms by (simp_all add: wall_of_def t_day_def t_sod_def wall_sec_def t_date_def
      div_pos_pos_trivial mod_pos_pos_trivial)

lemma wall_of_fields [simp]:
  "gnano (wall_of n s ns) = ns" "gloc (wall_of n s ns) = UTC" "gsec (wall_of n s ns) = n * 86400 + s"
  by (simp_all add: wall_of_def)

lemma wall_of_eq: "gloc t = UTC \<Longrightarrow> t = wall_of (t_day t) (t_sod t) (gnano t)"
  using wall_sec_eq [of t] by (cases t) (simp add: wall_of_def wall_sec_def)

lemma date_of_wall: "date_of n = wall_of n 0 0"
  by (simp add: date_of_def wall_of_def)

lemma go_date_wall:
  assumes "1 \<le> m" "m \<le> 12" "\<bar>civil_day y m d\<bar> \<le> far_day" "good_time t"
  shows "go_date y m d (t_hour t) (t_minute t) (t_second t) (gnano t) UTC = wall_of (civil_day y m d) (t_sod t) (gnano t)"
proof -
  have u: "unix_of y m d (t_hour t) (t_minute t) (t_second t) = civil_day y m d * 86400 + t_sod t"
    unfolding unix_of_valid [OF assms(1,2)] sod_eq [of t, symmetric] by simp
  have "in64 (civil_day y m d * 86400 + t_sod t)"
    using assms(3) sod_bounds [of t] by (intro in64_day)
  with u assms(4) show ?thesis by (simp add: go_date_utc good_time_def wall_of_def)
qed

definition clamp_day :: "int \<Rightarrow> int \<Rightarrow> int \<Rightarrow> int" where
  "clamp_day y m d = min d (month_len (leap y) m)"

lemma clamp_if:
  "(if month_len (leap y) m < d then month_len (leap y) m else d) = clamp_day y m d"
  by (simp add: clamp_day_def)

text \<open>The date k months later, its day clamped to the month it falls in.\<close>

definition plus_months :: "int \<Rightarrow> int \<Rightarrow> int" where
  "plus_months n k = (case civil n of (y, m, d) \<Rightarrow>
     let i = y * 12 + (m - 1) + k; y' = i div 12; m' = i mod 12 + 1 in civil_day y' m' (clamp_day y' m' d))"

lemma civil_day_far:
  assumes "\<bar>y\<bar> \<le> 20000000000" "valid_civil y m d"
  shows "\<bar>civil_day y m d\<bar> \<le> far_day"
  using year_start_linear [of y] month_start_bounds [OF assms(2)] assms(1)
  by (simp add: civil_day_def far_day_def abs_le_iff split: if_splits)

lemma plus_months_valid:
  fixes k :: int
  assumes "civil n = (y, m, d)"
  defines "i \<equiv> y * 12 + (m - 1) + k"
  shows "civil (plus_months n k) = (i div 12, i mod 12 + 1, clamp_day (i div 12) (i mod 12 + 1) d)"
proof -
  have "1 \<le> d" using civil_day_civil(2) [OF assms(1)] by (simp add: valid_civil_def)
  then have "valid_civil (i div 12) (i mod 12 + 1) (clamp_day (i div 12) (i mod 12 + 1) d)"
    using month_len_bounds [of "leap (i div 12)" "i mod 12 + 1"] pos_mod_bound [of 12 i]
    by (simp add: valid_civil_def clamp_day_def)
  then show ?thesis by (simp add: plus_months_def assms(1) Let_def i_def [symmetric] civil_civil_day)
qed

lemma civil_max_year: "civil n = (y, m, d) \<Longrightarrow> \<bar>n\<bar> \<le> max_day \<Longrightarrow> \<bar>y\<bar> \<le> 1100000000"
proof -
  assume c: "civil n = (y, m, d)" and n: "\<bar>n\<bar> \<le> max_day"
  then have "y = year_of (n + 719162)" by (simp add: civil_def Let_def)
  then have "year_start y \<le> n + 719162" "n + 719162 < year_start (y + 1)"
    using year_of_bounds [of "n + 719162"] by simp_all
  then show ?thesis
    using year_start_linear(1) [of y] year_start_linear(2) [of "y + 1"] n
    by (simp add: max_day_def)
qed

lemma addMonths_eq:
  assumes "good_local t" "\<bar>k\<bar> \<le> 200000000000"
  shows "addMonths t k = wall_of (plus_months (t_day t) k) (t_sod t) (gnano t)"
    and "\<bar>plus_months (t_day t) k\<bar> \<le> far_day"
proof -
  have t: "good_time t" "gloc t = UTC" "\<bar>t_day t\<bar> \<le> max_day" using assms(1) by (simp_all add: good_local_def)
  obtain y m d where c: "civil (t_day t) = (y, m, d)" by (cases "civil (t_day t)") auto
  have v: "1 \<le> m" "m \<le> 12" "1 \<le> d" using civil_day_civil(2) [OF c] by (simp_all add: valid_civil_def)
  have y: "\<bar>y\<bar> \<le> 1100000000" by (rule civil_max_year [OF c t(3)])
  define i where "i = y * 12 + (m - 1) + k"
  have i: "\<bar>i\<bar> \<le> 214000000000" using y v assms(2) by (simp add: i_def abs_le_iff)
  have w: "w64 i = i" using i by (intro w64_id) (simp add: in64_def abs_le_iff)
  have floor12: "floorDiv i 12 = i div 12" by (simp add: floorDiv_div)
  have nm: "i - i div 12 * 12 = i mod 12" by (simp add: minus_div_mult_eq_mod)
  have pm: "plus_months (t_day t) k = civil_day (i div 12) (i mod 12 + 1) (clamp_day (i div 12) (i mod 12 + 1) d)"
    by (simp add: plus_months_def c Let_def i_def [symmetric])
  have "\<bar>i div 12\<bar> \<le> 20000000000"
    using div_bounds [of 12 i] i by (simp add: abs_le_iff)
  moreover have "valid_civil (i div 12) (i mod 12 + 1) (clamp_day (i div 12) (i mod 12 + 1) d)"
    using civil_day_civil(2) [OF plus_months_valid [OF c]] by (simp add: i_def)
  ultimately show far: "\<bar>plus_months (t_day t) k\<bar> \<le> far_day"
    unfolding pm by (rule civil_day_far)
  have "1 \<le> i mod 12 + 1" "i mod 12 + 1 \<le> 12" using pos_mod_bound [of 12 i] by simp_all
  from go_date_wall [OF this far [unfolded pm] t(1)]
  show "addMonths t k = wall_of (plus_months (t_day t) k) (t_sod t) (gnano t)"
    unfolding pm addMonths_def t_date_def c prod.case Let_def i_def [symmetric] w floor12 nm
      daysIn_month_len clamp_if t(2) .
qed

lemma plus_months_0: "plus_months n 0 = n"
proof -
  obtain y m d where c: "civil n = (y, m, d)" by (cases "civil n") auto
  note v = civil_day_civil [OF c]
  have "(y * 12 + (m - 1)) div 12 = y" "(y * 12 + (m - 1)) mod 12 = m - 1"
    using v(2) by (simp_all add: valid_civil_def div_pos_pos_trivial mod_pos_pos_trivial)
  with v show ?thesis
    by (simp add: plus_months_def c Let_def clamp_day_def valid_civil_def)
qed

end
