(* ===== verification/Float64.thy ===== *)
theory Float64
  imports Prelude
begin

text \<open>
  Go's \<open>float64\<close>: a finite value is the rational it denotes, with the negative zero, the
  infinities and NaN beside them. Arithmetic is exact arithmetic rounded to nearest, ties
  to even, as IEEE 754 requires.
\<close>

datatype f64 = NaN | PInf | NInf | NZero | Fin rat

section \<open>Rounding\<close>

definition pow2 :: "int \<Rightarrow> rat" where
  "pow2 e = (if 0 \<le> e then 2 ^ nat e else 1 / 2 ^ nat (- e))"

fun bit_count :: "nat \<Rightarrow> int" where
  "bit_count n = (if n = 0 then 0 else 1 + bit_count (n div 2))"

declare bit_count.simps [simp del]

text \<open>The exponent e with \<open>2^e \<le> x < 2^(e + 1)\<close>, for a positive x.\<close>

definition ilog2 :: "rat \<Rightarrow> int" where
  "ilog2 x = (case quotient_of x of (p, q) \<Rightarrow>
     let e = bit_count (nat p) - bit_count (nat q) in if x < pow2 e then e - 1 else e)"

definition round_even :: "rat \<Rightarrow> int" where
  "round_even x = (let f = \<lfloor>x\<rfloor>; d = x - of_int f in
     if d < 1 / 2 then f else if 1 / 2 < d then f + 1 else if even f then f else f + 1)"

text \<open>The weight of the last bit of a float near x: 53 bits, and no finer than \<open>2^-1074\<close>.\<close>

definition ulp :: "rat \<Rightarrow> rat" where
  "ulp x = pow2 (max (ilog2 \<bar>x\<bar> - 52) (- 1074))"

definition f_round :: "rat \<Rightarrow> f64" where
  "f_round x =
    (if x = 0 then Fin 0
     else let m = round_even (\<bar>x\<bar> / ulp x); v = of_int m * ulp x in
       if pow2 1024 \<le> v then (if x < 0 then NInf else PInf)
       else if m = 0 then (if x < 0 then NZero else Fin 0)
       else Fin (if x < 0 then - v else v))"

section \<open>Operations\<close>

fun f_neg :: "f64 \<Rightarrow> f64" where
  "f_neg NaN = NaN"
| "f_neg PInf = NInf"
| "f_neg NInf = PInf"
| "f_neg NZero = Fin 0"
| "f_neg (Fin x) = (if x = 0 then NZero else Fin (- x))"

definition f_isnan :: "f64 \<Rightarrow> bool" where "f_isnan a \<longleftrightarrow> a = NaN"

definition f_isinf :: "f64 \<Rightarrow> bool" where "f_isinf a \<longleftrightarrow> a = PInf \<or> a = NInf"

text \<open>The comparisons: every one of them with a NaN is false.\<close>

fun f_less :: "f64 \<Rightarrow> f64 \<Rightarrow> bool" where
  "f_less NaN b = False"
| "f_less a NaN = False"
| "f_less PInf b = False"
| "f_less a NInf = False"
| "f_less NInf b = True"
| "f_less a PInf = True"
| "f_less NZero NZero = False"
| "f_less NZero (Fin y) = (0 < y)"
| "f_less (Fin x) NZero = (x < 0)"
| "f_less (Fin x) (Fin y) = (x < y)"

definition f_eq :: "f64 \<Rightarrow> f64 \<Rightarrow> bool" where
  "f_eq a b \<longleftrightarrow> a \<noteq> NaN \<and> b \<noteq> NaN \<and> \<not> f_less a b \<and> \<not> f_less b a"

text \<open>\<open>float64(i)\<close> and \<open>math.Trunc\<close>.\<close>

definition f_of_int :: "int \<Rightarrow> f64" where "f_of_int i = f_round (of_int i)"

definition rat_truncate :: "rat \<Rightarrow> int" where
  "rat_truncate x = (if 0 \<le> x then \<lfloor>x\<rfloor> else - \<lfloor>- x\<rfloor>)"

fun f_trunc :: "f64 \<Rightarrow> f64" where
  "f_trunc (Fin x) = (if rat_truncate x = 0 \<and> x < 0 then NZero else Fin (of_int (rat_truncate x)))"
| "f_trunc a = a"

text \<open>
  \<open>int64(f)\<close>: the integer part when it fits; Go leaves the other conversions to the
  platform, so they are an argument.
\<close>

definition int_of_f64 :: "(f64 \<Rightarrow> int) \<Rightarrow> f64 \<Rightarrow> int" where
  "int_of_f64 platform f =
    (case f of Fin x \<Rightarrow> if in64 (rat_truncate x) then rat_truncate x else platform f
     | NZero \<Rightarrow> 0 | _ \<Rightarrow> platform f)"

section \<open>Facts\<close>

lemma f_eq_refl: "f_eq a a \<longleftrightarrow> a \<noteq> NaN"
  by (cases a) (simp_all add: f_eq_def)

lemma f_eq_sym: "f_eq a b = f_eq b a"
  by (auto simp: f_eq_def)

lemma f_less_irrefl [simp]: "\<not> f_less a a"
  by (cases a) simp_all

lemma f_less_asym: "f_less a b \<Longrightarrow> \<not> f_less b a"
  by (cases a; cases b) auto

lemma f_less_trans: "f_less a b \<Longrightarrow> f_less b c \<Longrightarrow> f_less a c"
  by (cases a; cases b; cases c) auto

lemma f_eq_trans: "f_eq a b \<Longrightarrow> f_eq b c \<Longrightarrow> f_eq a c"
  by (cases a; cases b; cases c) (auto simp: f_eq_def)

lemma f_less_eq_trans: "f_less a b \<Longrightarrow> f_eq b c \<Longrightarrow> f_less a c"
  by (cases a; cases b; cases c) (auto simp: f_eq_def)

lemma f_eq_less_trans: "f_eq a b \<Longrightarrow> f_less b c \<Longrightarrow> f_less a c"
  by (cases a; cases b; cases c) (auto simp: f_eq_def)

lemma f_total: "a \<noteq> NaN \<Longrightarrow> b \<noteq> NaN \<Longrightarrow> f_less a b \<or> f_eq a b \<or> f_less b a"
  by (auto simp: f_eq_def)

lemma f_neg_neg [simp]: "f_neg (f_neg a) = a"
  by (cases a) auto

text \<open>Small integers are floats exactly.\<close>

lemma pow2_pos [simp]: "0 < pow2 e"
  by (simp add: pow2_def)

lemma pow2_nz [simp]: "pow2 e \<noteq> 0"
  using pow2_pos [of e] by linarith

lemma pow2_Suc: "pow2 (e + 1) = 2 * pow2 e"
proof (cases "0 \<le> e")
  case True
  then show ?thesis by (simp add: pow2_def nat_add_distrib)
next
  case False
  show ?thesis
  proof (cases "e = -1")
    case True
    then show ?thesis by (simp add: pow2_def)
  next
    case ne: False
    with False have "nat (- e) = Suc (nat (- (e + 1)))" by linarith
    then show ?thesis using False ne by (simp add: pow2_def)
  qed
qed

lemma bit_count_bounds: "0 < n \<Longrightarrow> 2 ^ nat (bit_count n - 1) \<le> n \<and> n < 2 ^ nat (bit_count n) \<and> 1 \<le> bit_count n"
proof (induction n rule: bit_count.induct)
  case (1 n)
  show ?case
  proof (cases "n div 2 = 0")
    case True
    then have "n = 1" using "1.prems" by linarith
    then show ?thesis by (simp add: bit_count.simps)
  next
    case False
    then have ih: "2 ^ nat (bit_count (n div 2) - 1) \<le> n div 2" "n div 2 < 2 ^ nat (bit_count (n div 2))"
      "1 \<le> bit_count (n div 2)" using 1 by auto
    have b: "bit_count n = 1 + bit_count (n div 2)" using "1.prems" by (subst bit_count.simps) simp
    have e: "nat (bit_count n - 1) = Suc (nat (bit_count (n div 2) - 1))"
      "nat (bit_count n) = Suc (nat (bit_count (n div 2)))" using ih(3) b by linarith+
    show ?thesis unfolding e power_Suc using ih b by linarith
  qed
qed

lemma pow2_nat: "pow2 (int n) = 2 ^ n"
  by (simp add: pow2_def)

lemma pow2_add_nat: "pow2 (e + int n) = pow2 e * 2 ^ n"
proof (induction n)
  case 0
  then show ?case by simp
next
  case (Suc n)
  have "pow2 (e + int (Suc n)) = pow2 (e + int n + 1)" by (simp add: ac_simps)
  then show ?case using Suc by (simp add: pow2_Suc)
qed

lemma pow2_mono: "a \<le> b \<Longrightarrow> pow2 a \<le> pow2 b"
proof -
  assume "a \<le> b"
  then have "pow2 b = pow2 a * 2 ^ nat (b - a)" using pow2_add_nat [of a "nat (b - a)"] by simp
  moreover have "pow2 a * 1 \<le> pow2 a * 2 ^ nat (b - a)"
    by (rule mult_left_mono) (simp_all add: less_imp_le)
  ultimately show ?thesis by simp
qed

lemma pow2_diff: "pow2 (a - b) = pow2 a / pow2 b"
proof (cases "b \<le> a")
  case True
  then show ?thesis using pow2_add_nat [of b "nat (a - b)"] pow2_nat [of "nat (a - b)"] by (simp add: field_simps)
next
  case False
  then have "pow2 b = pow2 a * pow2 (b - a)"
    using pow2_add_nat [of a "nat (b - a)"] pow2_nat [of "nat (b - a)"] by simp
  moreover have "pow2 (a - b) = 1 / pow2 (b - a)" using False by (simp add: pow2_def)
  ultimately show ?thesis by simp
qed

lemma pow2_less_iff: "pow2 a < pow2 b \<Longrightarrow> a < b"
  using pow2_mono [of b a] by linarith

lemma bit_count_pow2:
  assumes "0 < p"
  shows "pow2 (bit_count (nat p) - 1) \<le> of_int p" "of_int p < pow2 (bit_count (nat p))"
proof -
  have b: "2 ^ nat (bit_count (nat p) - 1) \<le> nat p" "nat p < 2 ^ nat (bit_count (nat p))" "1 \<le> bit_count (nat p)"
    using bit_count_bounds [of "nat p"] assms by auto
  have e: "pow2 (bit_count (nat p) - 1) = of_nat (2 ^ nat (bit_count (nat p) - 1))"
    "pow2 (bit_count (nat p)) = of_nat (2 ^ nat (bit_count (nat p)))"
    "of_int p = (of_nat (nat p) :: rat)"
    using b(3) assms by (simp_all add: pow2_def)
  show "pow2 (bit_count (nat p) - 1) \<le> of_int p" "of_int p < pow2 (bit_count (nat p))"
    unfolding e using b(1,2) by (simp_all only: of_nat_le_iff of_nat_less_iff)
qed

lemma ilog2_bounds:
  assumes "0 < x"
  shows "pow2 (ilog2 x) \<le> x" "x < pow2 (ilog2 x + 1)"
proof -
  obtain p q where pq: "quotient_of x = (p, q)" by (cases "quotient_of x") auto
  have q: "0 < q" by (rule quotient_of_denom_pos [OF pq])
  have x: "x = of_int p / of_int q" by (rule quotient_of_div [OF pq])
  with assms q have p: "0 < p" by (simp add: zero_less_divide_iff)
  define a b where "a = bit_count (nat p)" and "b = bit_count (nat q)"
  have ba: "pow2 (a - 1) \<le> of_int p" "of_int p < pow2 a" using bit_count_pow2 [OF p] by (simp_all add: a_def)
  have bb: "pow2 (b - 1) \<le> of_int q" "of_int q < pow2 b" using bit_count_pow2 [OF q] by (simp_all add: b_def)
  have "pow2 (a - b - 1) = pow2 (a - 1) / pow2 b" using pow2_diff [of "a - 1" b] by (simp add: algebra_simps)
  also have "\<dots> \<le> x" unfolding x using ba(1) bb(2) p q by (intro frac_le) (simp_all add: less_imp_le)
  finally have lo: "pow2 (a - b - 1) \<le> x" .
  have "x < pow2 a / pow2 (b - 1)" unfolding x using ba(2) bb(1) p by (intro frac_less) (simp_all add: less_imp_le)
  also have "\<dots> = pow2 (a - b + 1)" using pow2_diff [of a "b - 1"] by (simp add: algebra_simps)
  finally have hi: "x < pow2 (a - b + 1)" .
  have l: "ilog2 x = (if x < pow2 (a - b) then a - b - 1 else a - b)"
    by (simp add: ilog2_def pq a_def b_def Let_def)
  show "pow2 (ilog2 x) \<le> x" "x < pow2 (ilog2 x + 1)" using lo hi by (simp_all add: l)
qed

lemma round_even_of_int [simp]: "round_even (of_int m) = m"
  by (simp add: round_even_def)

lemma ulp_pos [simp]: "0 < ulp x" by (simp add: ulp_def)

text \<open>A multiple of its last place below the overflow threshold is kept.\<close>

lemma f_round_exact:
  assumes "\<bar>x\<bar> = of_int m * ulp x" "\<bar>x\<bar> < pow2 1024"
  shows "f_round x = Fin x"
proof (cases "x = 0")
  case True
  then show ?thesis by (simp add: f_round_def)
next
  case False
  have u: "ulp x \<noteq> 0" using ulp_pos [of x] by linarith
  have m: "\<bar>x\<bar> / ulp x = of_int m" using assms(1) u by simp
  have "m \<noteq> 0" using assms(1) False by auto
  then show ?thesis using False assms(2) unfolding f_round_def m by (auto simp: Let_def assms(1) [symmetric])
qed

lemma f_of_int_exact:
  assumes "\<bar>i\<bar> \<le> 2 ^ 53"
  shows "f_of_int i = Fin (of_int i)"
proof (cases "i = 0")
  case True
  then show ?thesis by (simp add: f_of_int_def f_round_def)
next
  case False
  let ?x = "of_int i :: rat"
  have x0: "0 < \<bar>?x\<bar>" using False by simp
  have xi: "\<bar>?x\<bar> = of_int \<bar>i\<bar>" by simp
  note l = ilog2_bounds [OF x0]
  have le: "\<bar>?x\<bar> \<le> pow2 53" using assms unfolding xi pow2_def
    using of_int_le_iff [of "\<bar>i\<bar>" "2 ^ 53", where 'a = rat] by simp
  then have "ilog2 \<bar>?x\<bar> < 54" using l(1) pow2_less_iff [of "ilog2 \<bar>?x\<bar>" 54] pow2_def [of 53] pow2_def [of 54] by simp
  have "\<exists>m. \<bar>?x\<bar> = of_int m * ulp ?x"
  proof (cases "ilog2 \<bar>?x\<bar> = 53")
    case True
    then have "\<bar>?x\<bar> = 2 ^ 53" using l(1) le by (simp add: pow2_def)
    moreover have "ulp ?x = 2" using True by (simp add: ulp_def pow2_def)
    ultimately show ?thesis by (intro exI [of _ "2 ^ 52"]) simp
  next
    case False
    define k where "k = max (ilog2 \<bar>?x\<bar> - 52) (- 1074)"
    have k: "k \<le> 0" using False \<open>ilog2 \<bar>?x\<bar> < 54\<close> by (simp add: k_def)
    have u: "ulp ?x = pow2 k" by (simp add: ulp_def k_def)
    have "pow2 k = 1 / 2 ^ nat (- k)" using k by (cases "k = 0") (simp_all add: pow2_def)
    then have "\<bar>?x\<bar> = of_int (\<bar>i\<bar> * 2 ^ nat (- k)) * ulp ?x" using u by simp
    then show ?thesis by blast
  qed
  moreover have "pow2 53 < pow2 1024" by (simp add: pow2_def)
  with le have "\<bar>?x\<bar> < pow2 1024" by (rule le_less_trans)
  ultimately show ?thesis using f_round_exact unfolding f_of_int_def by blast
qed

lemma ilog2_unique: "pow2 e \<le> x \<Longrightarrow> x < pow2 (e + 1) \<Longrightarrow> ilog2 x = e"
proof -
  assume a: "pow2 e \<le> x" "x < pow2 (e + 1)"
  then have x: "0 < x" using pow2_pos [of e] by linarith
  note b = ilog2_bounds [OF x]
  have "pow2 e < pow2 (ilog2 x + 1)" "pow2 (ilog2 x) < pow2 (e + 1)" using a b by linarith+
  then show ?thesis using pow2_less_iff [of e "ilog2 x + 1"] pow2_less_iff [of "ilog2 x" "e + 1"] by simp
qed

text \<open>The first integer that is no float: it becomes the one before it.\<close>

lemma f_of_int_tie: "f_of_int (2 ^ 53 + 1) = Fin (2 ^ 53)"
proof -
  have "ilog2 (2 ^ 53 + 1) = 53" by (rule ilog2_unique) (simp_all add: pow2_def)
  then have u: "ulp (2 ^ 53 + 1) = 2" by (simp add: ulp_def pow2_def)
  have "pow2 53 < pow2 1024" by (simp add: pow2_def)
  then have p: "\<not> pow2 1024 \<le> 9007199254740992" by (simp add: pow2_def)
  have "\<lfloor>9007199254740993 / 2 :: rat\<rfloor> = 4503599627370496" by (rule floor_unique) simp_all
  then have r: "round_even (9007199254740993 / 2) = 4503599627370496" by (simp add: round_even_def)
  show ?thesis using p u r by (simp add: f_of_int_def f_round_def Let_def)
qed

end
