(* ===== verification/Duration.thy ===== *)
theory Duration
  imports Temporal Float64
begin

text \<open>
  Durations: cypher/temporal/duration.go. Fractional amounts are exact rationals
  (\<open>big.Rat\<close>), whole ones unbounded integers (\<open>big.Int\<close>), and a duration is four 64-bit
  fields. The lemmas relate a duration to the exact number of nanoseconds of its time part.
\<close>

section \<open>Rational amounts\<close>

text \<open>\<open>SetFloat64\<close> returns nil for a float that is not finite; the source then takes 0.\<close>

definition ratFloat :: "f64 \<Rightarrow> rat" where
  "ratFloat f = (case f of Fin x \<Rightarrow> x | _ \<Rightarrow> 0)"

text \<open>\<open>Num().Quo(Denom())\<close>: the integer part, toward zero, and the rest.\<close>

definition rat_quo :: "rat \<Rightarrow> int" where
  "rat_quo r = (case quotient_of r of (p, q) \<Rightarrow> p sdiv q)"

definition trunc :: "rat \<Rightarrow> int \<times> rat" where
  "trunc r = (let q = rat_quo r in (q, r - of_int q))"

definition ratAvgDaysPerMonth :: rat where
  "ratAvgDaysPerMonth = of_int 3652425 / of_int 120000"

record durParts =
  p_years :: rat
  p_months :: rat
  p_weeks :: rat
  p_days :: rat
  p_hours :: rat
  p_minutes :: rat
  p_seconds :: rat
  p_millis :: rat
  p_micros :: rat
  p_nanos :: rat

definition newDurParts :: durParts where
  "newDurParts = \<lparr>p_years = 0, p_months = 0, p_weeks = 0, p_days = 0, p_hours = 0,
     p_minutes = 0, p_seconds = 0, p_millis = 0, p_micros = 0, p_nanos = 0\<rparr>"

definition signed :: "int \<Rightarrow> int \<Rightarrow> int" where
  "signed n sign = (if sign < 0 then - n else n)"

text \<open>Rounding to a millionth of a nanosecond, half away from zero, then dropping the rest.\<close>

definition round_nanos :: "rat \<Rightarrow> int" where
  "round_nanos ns = (case quotient_of (ns * 1000000) of (num, den) \<Rightarrow>
     ((num * 2 + signed den (sgn num)) sdiv (den * 2)) sdiv 1000000)"

definition month_days :: "durParts \<Rightarrow> int \<times> rat" where
  "month_days p = (let (wholeMonths, fracMonths) = trunc (p_years p * 12 + p_months p)
     in (wholeMonths, p_weeks p * 7 + p_days p + fracMonths * ratAvgDaysPerMonth))"

definition clock_nanos :: "durParts \<Rightarrow> rat \<Rightarrow> rat" where
  "clock_nanos p fracDays = fracDays * of_int nsPerDay + p_hours p * of_int (3600 * nsPerSec)
     + p_minutes p * of_int (60 * nsPerSec) + p_seconds p * of_int nsPerSec
     + p_millis p * 1000000 + p_micros p * 1000 + p_nanos p"

definition build :: "durParts \<Rightarrow> terr + duration" where
  "build p =
    (let (wholeMonths, dd) = month_days p;
         (wholeDays, fracDays) = trunc dd;
         totalNanos = round_nanos (clock_nanos p fracDays)
     in if \<not> in64 wholeMonths \<or> \<not> in64 wholeDays then Inl ''duration is out of range''
        else let secs = totalNanos div nsPerSec; rem = totalNanos mod nsPerSec in
          if \<not> in64 secs then Inl ''duration is out of range''
          else Inr \<lparr>months = wholeMonths, days = wholeDays, seconds = secs, nanos = rem\<rparr>)"

section \<open>Arithmetic\<close>

definition zero_duration :: duration where
  "zero_duration = \<lparr>months = 0, days = 0, seconds = 0, nanos = 0\<rparr>"

definition totalNanosBig :: "duration \<Rightarrow> int" where
  "totalNanosBig d = seconds d * nsPerSec + nanos d"

definition durationFromNanos :: "int \<Rightarrow> int \<Rightarrow> int \<Rightarrow> terr + duration" where
  "durationFromNanos mo da ns =
    (if \<not> in64 (ns div nsPerSec) then Inl ''duration is out of range''
     else Inr \<lparr>months = mo, days = da, seconds = ns div nsPerSec, nanos = ns mod nsPerSec\<rparr>)"

text \<open>\<open>n, _ :=\<close> drops the error: the value beside it is the zero duration.\<close>

definition dur_neg :: "duration \<Rightarrow> duration" where
  "dur_neg d = (case durationFromNanos (w64 (- months d)) (w64 (- days d)) (- totalNanosBig d) of
     Inr n \<Rightarrow> n | Inl _ \<Rightarrow> zero_duration)"

definition dur_plus :: "duration \<Rightarrow> duration \<Rightarrow> terr + duration" where
  "dur_plus d e = durationFromNanos (w64 (months d + months e)) (w64 (days d + days e))
     (totalNanosBig d + totalNanosBig e)"

definition dur_minus :: "duration \<Rightarrow> duration \<Rightarrow> terr + duration" where
  "dur_minus d e = dur_plus d (dur_neg e)"

text \<open>The parts of a duration multiplied by a rational.\<close>

definition scaled_parts :: "duration \<Rightarrow> rat \<Rightarrow> durParts" where
  "scaled_parts d r = newDurParts\<lparr>p_months := of_int (months d) * r, p_days := of_int (days d) * r,
     p_nanos := of_int (totalNanosBig d) * r\<rparr>"

definition dur_scale :: "duration \<Rightarrow> f64 \<Rightarrow> terr + duration" where
  "dur_scale d f = build (scaled_parts d (ratFloat f))"

text \<open>\<open>r.Inv(r)\<close> panics on zero: \<open>Div\<close> by an infinity or a NaN, whose rational is 0, is None.\<close>

definition dur_div :: "duration \<Rightarrow> f64 \<Rightarrow> (terr + duration) option" where
  "dur_div d f = (if f_eq f (Fin 0) then Some (Inl ''division by zero'')
     else if ratFloat f = 0 then None
     else Some (build (scaled_parts d (inverse (ratFloat f)))))"

section \<open>The parts are combined exactly\<close>

lemma sdiv_range: "0 < b \<Longrightarrow> \<bar>a sdiv b\<bar> * b \<le> \<bar>a\<bar> \<and> \<bar>a\<bar> < \<bar>a sdiv b\<bar> * b + b" for a b :: int
proof (cases "0 \<le> a")
  case True
  assume "0 < b"
  with True div_bounds [of b a] show ?thesis
    by (simp add: sdiv_nonneg pos_imp_zdiv_nonneg_iff mult.commute)
next
  case False
  assume "0 < b"
  with False div_bounds [of b "- a"] pos_imp_zdiv_nonneg_iff [of b "- a"] show ?thesis
    by (simp add: sdiv_neg mult.commute)
qed

lemma rat_quo_int [simp]: "rat_quo (of_int n) = n"
  by (simp add: rat_quo_def signed_divide_int_def sgn_if quotient_of_int flip: Rat.of_int_def)

lemma trunc_int [simp]: "trunc (of_int n) = (n, 0)"
  by (simp add: trunc_def)

lemma round_nanos_int: "round_nanos (of_int n) = n"
proof -
  have e: "of_int n * 1000000 = (of_int (n * 1000000) :: rat)" by simp
  have q: "quotient_of (of_int n * 1000000) = (n * 1000000, 1)" unfolding e by (simp add: quotient_of_int flip: Rat.of_int_def)
  show ?thesis
  proof (cases "0 \<le> n")
    case True
    then have "(n * 2000000 + 1) div 2 = n * 1000000" by presburger
    with q True show ?thesis
      by (simp add: round_nanos_def signed_def sgn_if sdiv_nonneg)
  next
    case False
    then have h: "(1 - 2000000 * n) div 2 = - n * 1000000" by presburger
    have "(- n * 1000000) sdiv 1000000 = - n" using False by (simp add: sdiv_neg)
    then show ?thesis using q False
      by (simp add: round_nanos_def signed_def sgn_if sdiv_neg h)
  qed
qed

lemma build_good: "build p = Inr d \<Longrightarrow> good_duration d"
  by (auto simp: build_def Let_def good_duration_def split: prod.splits if_splits)

text \<open>Whole parts lose nothing: months, days and nanoseconds are the exact sums.\<close>

definition int_parts :: "int \<Rightarrow> int \<Rightarrow> int \<Rightarrow> int \<Rightarrow> int \<Rightarrow> int \<Rightarrow> int \<Rightarrow> int \<Rightarrow> int \<Rightarrow> int \<Rightarrow> durParts" where
  "int_parts y mo w da h mi s ms us ns =
    \<lparr>p_years = of_int y, p_months = of_int mo, p_weeks = of_int w, p_days = of_int da, p_hours = of_int h,
     p_minutes = of_int mi, p_seconds = of_int s, p_millis = of_int ms, p_micros = of_int us, p_nanos = of_int ns\<rparr>"

lemma build_whole:
  assumes "p_years p * 12 + p_months p = of_int M" "p_weeks p * 7 + p_days p = of_int D"
    "clock_nanos p 0 = of_int N"
  shows "build p = (if in64 M \<and> in64 D then durationFromNanos M D N else Inl ''duration is out of range'')"
proof -
  have m: "month_days p = (M, of_int D)" by (simp add: month_days_def assms(1,2))
  show ?thesis
    unfolding build_def m Let_def prod.case trunc_int assms(3) round_nanos_int durationFromNanos_def by simp
qed

lemma build_int:
  "build (int_parts y mo w da h mi s ms us ns) =
    (if in64 (y * 12 + mo) \<and> in64 (w * 7 + da) then
       durationFromNanos (y * 12 + mo) (w * 7 + da)
         ((h * 3600 + mi * 60 + s) * nsPerSec + ms * 1000000 + us * 1000 + ns)
     else Inl ''duration is out of range'')"
  by (intro build_whole) (simp_all add: int_parts_def clock_nanos_def algebra_simps)

section \<open>Exact totals\<close>

lemma in64_div_less: "0 \<le> ns \<Longrightarrow> ns < nsPerSec \<Longrightarrow> (s * nsPerSec + ns) div nsPerSec = s"
  by (simp add: div_pos_pos_trivial)

lemma durationFromNanos_total:
  "durationFromNanos mo da ns = Inr d \<Longrightarrow>
     totalNanosBig d = ns \<and> months d = mo \<and> days d = da \<and> 0 \<le> nanos d \<and> nanos d < nsPerSec \<and> in64 (seconds d)"
  by (auto simp: durationFromNanos_def totalNanosBig_def split: if_splits)

lemma durationFromNanos_self:
  "good_duration d \<Longrightarrow> durationFromNanos (months d) (days d) (totalNanosBig d) = Inr d"
  by (cases d) (simp add: durationFromNanos_def totalNanosBig_def good_duration_def div_pos_pos_trivial mod_pos_pos_trivial)

lemma total_inj:
  assumes "good_duration d" "good_duration e"
  shows "totalNanosBig d = totalNanosBig e \<longleftrightarrow> seconds d = seconds e \<and> nanos d = nanos e"
proof
  assume "totalNanosBig d = totalNanosBig e"
  moreover have "seconds x = totalNanosBig x div nsPerSec \<and> nanos x = totalNanosBig x mod nsPerSec"
    if "good_duration x" for x
    using that by (simp add: totalNanosBig_def good_duration_def div_pos_pos_trivial mod_pos_pos_trivial)
  ultimately show "seconds d = seconds e \<and> nanos d = nanos e" using assms by metis
qed (simp add: totalNanosBig_def)

lemma dur_plus_total:
  "dur_plus d e = Inr r \<Longrightarrow>
     totalNanosBig r = totalNanosBig d + totalNanosBig e \<and> good_duration r
     \<and> months r = w64 (months d + months e) \<and> days r = w64 (days d + days e)"
  unfolding dur_plus_def by (drule durationFromNanos_total) (simp add: good_duration_def)

lemma dur_plus_commute: "dur_plus d e = dur_plus e d"
  by (simp add: dur_plus_def add.commute)

lemma dur_plus_zero: "good_duration d \<Longrightarrow> dur_plus d zero_duration = Inr d"
  using durationFromNanos_self [of d]
  by (simp add: dur_plus_def zero_duration_def totalNanosBig_def good_duration_def w64_id)

text \<open>Negation is exact while the negated seconds fit.\<close>

definition negatable :: "duration \<Rightarrow> bool" where
  "negatable d \<longleftrightarrow> good_duration d \<and> minInt64 < months d \<and> minInt64 < days d \<and> minInt64 < seconds d"

lemma neg_total_range:
  assumes "negatable d"
  shows "in64 (- totalNanosBig d div nsPerSec)"
proof -
  have s: "minInt64 < seconds d" "seconds d \<le> maxInt64" "0 \<le> nanos d" "nanos d < nsPerSec"
    using assms by (simp_all add: negatable_def good_duration_def in64_def)
  have "- totalNanosBig d = - seconds d * nsPerSec + - nanos d" by (simp add: totalNanosBig_def)
  then have "- totalNanosBig d div nsPerSec = - seconds d + (- nanos d) div nsPerSec"
    using div_mult_self3 [of nsPerSec "- seconds d" "- nanos d"] by simp
  moreover have "- 1 \<le> (- nanos d) div nsPerSec" "(- nanos d) div nsPerSec \<le> 0"
    using div_bounds [of nsPerSec "- nanos d"] s by simp_all
  ultimately show ?thesis using s by (simp add: in64_def)
qed

lemma dur_neg_eq:
  assumes "negatable d"
  shows "totalNanosBig (dur_neg d) = - totalNanosBig d" "months (dur_neg d) = - months d"
    "days (dur_neg d) = - days d" "good_duration (dur_neg d)"
proof -
  have w: "w64 (- months d) = - months d" "w64 (- days d) = - days d"
    using assms by (simp_all add: negatable_def good_duration_def in64_def w64_id)
  obtain n where n: "durationFromNanos (- months d) (- days d) (- totalNanosBig d) = Inr n"
    using neg_total_range [OF assms] by (simp add: durationFromNanos_def)
  then have d: "dur_neg d = n" by (simp add: dur_neg_def w)
  from durationFromNanos_total [OF n] assms
  show "totalNanosBig (dur_neg d) = - totalNanosBig d" "months (dur_neg d) = - months d"
    "days (dur_neg d) = - days d" "good_duration (dur_neg d)"
    unfolding d by (auto simp: negatable_def good_duration_def in64_def)
qed

lemma dur_minus_self:
  assumes "negatable d"
  shows "dur_minus d d = Inr zero_duration"
  using dur_neg_eq [OF assms]
  by (simp add: dur_minus_def dur_plus_def durationFromNanos_def zero_duration_def w64_id)

lemma dur_neg_neg:
  assumes "negatable d"
  shows "dur_neg (dur_neg d) = d"
proof -
  note e = dur_neg_eq [OF assms]
  have g: "good_duration d" using assms by (simp add: negatable_def)
  then have w: "w64 (months d) = months d" "w64 (days d) = days d"
    by (simp_all add: good_duration_def w64_id)
  show ?thesis
    using durationFromNanos_self [OF g] by (subst dur_neg_def) (simp add: e w)
qed

end
