(* ===== verification/Zone.thy ===== *)
theory Zone
  imports Temporal
begin

text \<open>
  Time zones: cypher/temporal/zone.go. The time zone database behind
  \<open>time.LoadLocation\<close> is a parameter, a function from region names to locations.
\<close>

section \<open>Reading integers\<close>

text \<open>
  \<open>strconv.Atoi\<close>: \<open>Inr\<close> the value, or \<open>Inl\<close> the value returned beside the error (0, or the
  bound that was exceeded).
\<close>

definition atoi_split :: "string \<Rightarrow> bool \<times> string" where
  "atoi_split s = (case s of
     c # r \<Rightarrow> if c = CHR ''-'' then (True, r) else if c = CHR ''+'' then (False, r) else (False, s)
   | [] \<Rightarrow> (False, s))"

definition go_atoi :: "string \<Rightarrow> int + int" where
  "go_atoi s = (case atoi_split s of (neg, ds) \<Rightarrow>
     if ds = [] \<or> \<not> list_all isDigit ds then Inl 0
     else let v = (if neg then - int (dec_val ds) else int (dec_val ds)) in
       if in64 v then Inr v else Inl (if neg then minInt64 else maxInt64))"

text \<open>\<open>n, _ := strconv.Atoi(s)\<close>.\<close>

definition atoi_value :: "string \<Rightarrow> int" where
  "atoi_value s = (case go_atoi s of Inr v \<Rightarrow> v | Inl v \<Rightarrow> v)"

section \<open>Zones\<close>

record zoneSpec =
  zloc :: gloc
  znamed :: bool

definition utc_zone :: zoneSpec where
  "utc_zone = \<lparr>zloc = UTC, znamed = False\<rparr>"

definition fixedZone :: "int \<Rightarrow> zoneSpec" where
  "fixedZone off = (if off = 0 then utc_zone else \<lparr>zloc = FixedZone off, znamed = False\<rparr>)"

definition parseOffset :: "string \<Rightarrow> int option" where
  "parseOffset s =
    (if s = ''Z'' \<or> s = ''z'' then Some 0
     else if length s < 3 \<or> (hd s \<noteq> CHR ''+'' \<and> hd s \<noteq> CHR ''-'') then None
     else
       let sign = (if hd s = CHR ''-'' then -1 else 1);
           digits = filter (\<lambda>c. c \<noteq> CHR '':'') (tl s)
       in if length digits \<noteq> 2 \<and> length digits \<noteq> 4 \<and> length digits \<noteq> 6 then None
          else case go_atoi digits of Inl _ \<Rightarrow> None
          | Inr _ \<Rightarrow>
            let h = atoi_value (take 2 digits);
                m = (if length digits \<ge> 4 then atoi_value (take 2 (drop 2 digits)) else 0);
                sec = (if length digits = 6 then atoi_value (take 2 (drop 4 digits)) else 0)
            in if h > 18 \<or> m > 59 \<or> sec > 59 \<or> (h = 18 \<and> (m > 0 \<or> sec > 0)) then None
               else Some (sign * (h * 3600 + m * 60 + sec)))"

text \<open>The time zone database: \<open>LoadLocation\<close> itself knows "" and "UTC".\<close>

type_synonym tzdata = "string \<Rightarrow> gloc option"

definition load_location :: "tzdata \<Rightarrow> string \<Rightarrow> gloc option" where
  "load_location tz s = (if s = [] \<or> s = ''UTC'' then Some UTC else tz s)"

definition parseZone :: "tzdata \<Rightarrow> string \<Rightarrow> terr + zoneSpec" where
  "parseZone tz s =
    (case parseOffset s of Some off \<Rightarrow> Inr (fixedZone off)
     | None \<Rightarrow> (case load_location tz s of
         None \<Rightarrow> Inl ''unknown time zone %q''
       | Some loc \<Rightarrow> if s = [] \<or> s = ''Local'' then Inl ''unknown time zone %q''
                     else Inr \<lparr>zloc = loc, znamed = True\<rparr>))"

text \<open>\<open>time.Date\<close> of the wall clock of one time, in another location.\<close>

definition at_wall :: "gtime \<Rightarrow> gloc \<Rightarrow> gtime" where
  "at_wall wall l = go_date (t_year wall) (t_month wall) (t_dom wall) (t_hour wall) (t_minute wall)
     (t_second wall) (gnano wall) l"

definition offsetAt :: "zoneSpec \<Rightarrow> gtime \<Rightarrow> int" where
  "offsetAt z wall = t_zone (at_wall wall (zloc z))"

text \<open>A \<open>DateTime\<close> is the pair of its time and its \<open>named\<close> flag.\<close>

definition zone_at :: "zoneSpec \<Rightarrow> gtime \<Rightarrow> gtime \<times> bool" where
  "zone_at z wall = (at_wall wall (zloc z), znamed z)"

definition dt_zone :: "gtime \<Rightarrow> bool \<Rightarrow> zoneSpec" where
  "dt_zone t named = \<lparr>zloc = gloc t, znamed = named\<rparr>"

definition dt_zone_name :: "gtime \<Rightarrow> bool \<Rightarrow> string" where
  "dt_zone_name t named = (if named then loc_name (gloc t) else fmtOffset (t_zone t))"

section \<open>Offsets are read back\<close>

lemma pad0_2_form: "n < 100 \<Longrightarrow> pad0 2 n = [digit_char (n div 10), digit_char (n mod 10)]"
proof -
  assume "n < 100"
  then have "n div 10 < 10" by linarith
  then show ?thesis
    by (cases "n < 10") (simp_all add: pad0_def dec_nat.simps [of n] dec_nat.simps [of "n div 10"] numeral_2_eq_2)
qed

lemma atoi_digits:
  assumes "ds \<noteq> []" "list_all isDigit ds" "length ds \<le> 18"
  shows "go_atoi ds = Inr (int (dec_val ds))"
proof -
  have ne: "c \<noteq> CHR ''-''" "c \<noteq> CHR ''+''" if "isDigit c" for c
    using that by (auto simp: isDigit_def)
  have sp: "atoi_split ds = (False, ds)"
    using assms(1,2) ne by (cases ds) (auto simp: atoi_split_def)
  have "dec_val ds < 10 ^ length ds" using assms(2) by (intro dec_val_less) (simp add: list_all_iff)
  also have "\<dots> \<le> 10 ^ 18" using assms(3) by (intro power_increasing) auto
  finally have "int (dec_val ds) < 10 ^ 18" by simp
  then have "in64 (int (dec_val ds))" by (simp add: in64_def)
  with assms(1,2) show ?thesis by (simp add: go_atoi_def sp)
qed

lemma atoi_value_digits:
  "ds \<noteq> [] \<Longrightarrow> list_all isDigit ds \<Longrightarrow> length ds \<le> 18 \<Longrightarrow> atoi_value ds = int (dec_val ds)"
  by (simp add: atoi_value_def atoi_digits)

lemma colon_not_digit: "isDigit c \<Longrightarrow> c \<noteq> CHR '':''"
  by (auto simp: isDigit_def)

lemma filter_colon_pad [simp]: "filter (\<lambda>c. c \<noteq> CHR '':'') (pad0 w n) = pad0 w n"
  using pad0_digits colon_not_digit by (auto simp: filter_id_conv)

lemma pad0_nonempty [simp]: "pad0 w n \<noteq> []"
  by (simp add: pad0_def)

lemma pad_all [simp]: "list_all isDigit (pad0 w n)"
  using pad0_digits by (simp add: list_all_iff)

lemma pad2_len [simp]: "n < 100 \<Longrightarrow> length (pad0 2 n) = 2"
  by (simp add: pad0_2_form)

lemma atoi_pad2 [simp]: "n < 100 \<Longrightarrow> atoi_value (pad0 2 n) = int n"
  by (subst atoi_value_digits) simp_all

text \<open>Every offset of at most 18 hours is read back from its rendering.\<close>

lemma parseOffset_clock:
  fixes h m s :: nat
  assumes "h < 100" "m < 100" "s < 100" "sc = CHR ''+'' \<or> sc = CHR ''-''"
    "d = pad0 2 h @ '':'' @ pad0 2 m @ (if s \<noteq> 0 then '':'' @ pad0 2 s else [])"
  shows "parseOffset (sc # d) =
    (if h > 18 \<or> m > 59 \<or> s > 59 \<or> (h = 18 \<and> (m > 0 \<or> s > 0)) then None
     else Some ((if sc = CHR ''-'' then -1 else 1) * (int h * 3600 + int m * 60 + int s)))"
proof -
  let ?dg = "pad0 2 h @ pad0 2 m @ (if s \<noteq> 0 then pad0 2 s else [])"
  have f: "filter (\<lambda>c. c \<noteq> CHR '':'') d = ?dg" using assms(5) by simp
  have len: "length ?dg = (if s \<noteq> 0 then 6 else 4)" using assms(1-3) by simp
  have a: "go_atoi ?dg = Inr (int (dec_val ?dg))"
    using assms(1-3) by (intro atoi_digits) auto
  have h: "atoi_value (take 2 ?dg) = int h" and m: "atoi_value (take 2 (drop 2 ?dg)) = int m"
    and s: "s \<noteq> 0 \<Longrightarrow> atoi_value (take 2 (drop 4 ?dg)) = int s"
    using assms(1-3) by simp_all
  have l3: "\<not> length (sc # d) < 3" using assms(1-3,5) by simp
  have z: "sc # d \<noteq> ''Z''" "sc # d \<noteq> ''z''" using assms(4) by auto
  have hd: "\<not> (hd (sc # d) \<noteq> CHR ''+'' \<and> hd (sc # d) \<noteq> CHR ''-'')" using assms(4) by simp
  have l: "\<not> (length ?dg \<noteq> 2 \<and> length ?dg \<noteq> 4 \<and> length ?dg \<noteq> 6)" "length ?dg \<ge> 4"
    "length ?dg = 6 \<longleftrightarrow> s \<noteq> 0"
    unfolding len by simp_all
  have sec: "(if length ?dg = 6 then atoi_value (take 2 (drop 4 ?dg)) else 0) = int s"
    using s l(3) by simp
  have split: "parseOffset (sc # d) =
    (if int h > 18 \<or> int m > 59 \<or> int s > 59 \<or> (int h = 18 \<and> (int m > 0 \<or> int s > 0)) then None
     else Some ((if hd (sc # d) = CHR ''-'' then -1 else 1) * (int h * 3600 + int m * 60 + int s)))"
    unfolding parseOffset_def Let_def list.sel f a sum.case h m sec if_P [OF l(2)]
    by (simp only: z l(1) hd [unfolded list.sel] l3 simp_thms if_False)
  show ?thesis unfolding split by simp
qed

lemma nat_fields:
  "nat (int a div 3600) = a div 3600" "nat (int a mod 3600 div 60) = a mod 3600 div 60"
  "nat (int a mod 60) = a mod 60" "int a mod 60 = 0 \<longleftrightarrow> a mod 60 = 0"
proof -
  have e: "int a div 3600 = int (a div 3600)" "int a mod 3600 div 60 = int (a mod 3600 div 60)"
    "int a mod 60 = int (a mod 60)"
    by (simp_all add: zdiv_int zmod_int)
  show "nat (int a div 3600) = a div 3600" "nat (int a mod 3600 div 60) = a mod 3600 div 60"
    "nat (int a mod 60) = a mod 60" "int a mod 60 = 0 \<longleftrightarrow> a mod 60 = 0"
    unfolding e by (simp_all only: nat_int of_nat_eq_0_iff)
qed

lemma fmtOffset_form:
  assumes "a \<noteq> 0" "\<bar>off\<bar> = int a"
  shows "fmtOffset off = (if off < 0 then CHR ''-'' else CHR ''+'') #
    pad0 2 (a div 3600) @ '':'' @ pad0 2 (a mod 3600 div 60) @
    (if a mod 60 \<noteq> 0 then '':'' @ pad0 2 (a mod 60) else [])"
proof -
  have "off \<noteq> 0" using assms by auto
  then show ?thesis
    by (simp add: fmtOffset_def Let_def sdiv_nonneg smod_nonneg assms(2) nat_fields)
qed

lemma hms_sum_nat: "a div 3600 * 3600 + a mod 3600 div 60 * 60 + a mod 60 = (a :: nat)"
proof -
  have "a mod 3600 mod 60 = a mod 60" by (rule mod_mod_cancel) simp
  then show ?thesis using div_mult_mod_eq [of "a mod 3600" 60] div_mult_mod_eq [of a 3600] by linarith
qed

lemma parseOffset_fmtOffset:
  assumes "\<bar>off\<bar> \<le> 18 * 3600"
  shows "parseOffset (fmtOffset off) = Some off"
proof (cases "off = 0")
  case True
  then show ?thesis by (simp add: fmtOffset_def parseOffset_def)
next
  case False
  obtain a where a: "\<bar>off\<bar> = int a" by (metis abs_ge_zero zero_le_imp_eq_int)
  with False assms have a0: "a \<noteq> 0" and le: "a \<le> 64800" by auto
  define h m s where "h = a div 3600" and "m = a mod 3600 div 60" and "s = a mod 60"
  have sum: "h * 3600 + m * 60 + s = a" using hms_sum_nat [of a] by (simp add: h_def m_def s_def)
  have b: "h \<le> 18" "m < 60" "s < 60"
    using sum le by (simp_all add: m_def s_def div_less_iff_less_mult)
  have e18: "h = 18 \<Longrightarrow> m = 0 \<and> s = 0" using sum le by linarith
  have tot: "int h * 3600 + int m * 60 + int s = \<bar>off\<bar>" using sum a by linarith
  have no: "\<not> (h > 18 \<or> m > 59 \<or> s > 59 \<or> (h = 18 \<and> (m > 0 \<or> s > 0)))" using b e18 by auto
  have "parseOffset (fmtOffset off) = Some ((if off < 0 then -1 else 1) * \<bar>off\<bar>)"
    unfolding fmtOffset_form [OF a0 a, folded h_def m_def s_def]
    using b no tot by (subst parseOffset_clock) auto
  then show ?thesis by (auto simp: abs_if split: if_splits)
qed

lemma parseOffset_nested_sign: "parseOffset ''+-1'' = Some (- 3600)"
  by code_simp

end
