(* ===== verification/TemporalParse.thy ===== *)
theory TemporalParse
  imports Calendar Duration Zone
begin

text \<open>
  Reading temporal values: cypher/temporal/parse.go. Each regular expression of the source
  is a function that returns its groups; none of them is ambiguous, because a run of digits
  is always followed by something that is not a digit.
\<close>

section \<open>Groups\<close>

definition sign_prefix :: "string \<Rightarrow> string \<times> string" where
  "sign_prefix s = (case s of c # r \<Rightarrow> if c = CHR ''+'' \<or> c = CHR ''-'' then ([c], r) else ([], s) | [] \<Rightarrow> ([], s))"

text \<open>\<open>[+-]?\d{4,9}\<close> followed by something else, and \<open>\d{n}\<close>.\<close>

definition year_prefix :: "string \<Rightarrow> (string \<times> string) option" where
  "year_prefix s =
    (let (sign, r) = sign_prefix s; ds = takeWhile isDigit r
     in if 4 \<le> length ds \<and> length ds \<le> 9 then Some (sign @ ds, dropWhile isDigit r) else None)"

definition digits_n :: "nat \<Rightarrow> string \<Rightarrow> (string \<times> string) option" where
  "digits_n n s = (if n \<le> length s \<and> list_all isDigit (take n s) then Some (take n s, drop n s) else None)"

definition opt_char :: "char \<Rightarrow> string \<Rightarrow> string" where
  "opt_char c s = (case s of d # r \<Rightarrow> if d = c then r else s | [] \<Rightarrow> [])"

definition need_char :: "char \<Rightarrow> string \<Rightarrow> string option" where
  "need_char c s = (case s of d # r \<Rightarrow> if d = c then Some r else None | [] \<Rightarrow> None)"

definition at_end :: "'a \<Rightarrow> string \<Rightarrow> 'a option" where
  "at_end x s = (if s = [] then Some x else None)"

section \<open>Regular expressions\<close>

definition reCalendar :: "string \<Rightarrow> (string \<times> string \<times> string) option" where
  "reCalendar s = Option.bind (year_prefix s) (\<lambda>(y, r). Option.bind (need_char (CHR ''-'') r) (\<lambda>r.
     Option.bind (digits_n 2 r) (\<lambda>(m, r). Option.bind (need_char (CHR ''-'') r) (\<lambda>r.
     Option.bind (digits_n 2 r) (\<lambda>(d, r). at_end (y, m, d) r)))))"

definition reYearMon :: "string \<Rightarrow> (string \<times> string) option" where
  "reYearMon s = Option.bind (year_prefix s) (\<lambda>(y, r). Option.bind (need_char (CHR ''-'') r) (\<lambda>r.
     Option.bind (digits_n 2 r) (\<lambda>(m, r). at_end (y, m) r)))"

definition reOrdinal :: "string \<Rightarrow> (string \<times> string) option" where
  "reOrdinal s = Option.bind (year_prefix s) (\<lambda>(y, r). Option.bind (need_char (CHR ''-'') r) (\<lambda>r.
     Option.bind (digits_n 3 r) (\<lambda>(o', r). at_end (y, o') r)))"

definition reWeek :: "string \<Rightarrow> (string \<times> string \<times> string) option" where
  "reWeek s = Option.bind (year_prefix s) (\<lambda>(y, r).
     Option.bind (need_char (CHR ''W'') (opt_char (CHR ''-'') r)) (\<lambda>r.
     Option.bind (digits_n 2 r) (\<lambda>(w, r).
       if r = [] then Some (y, w, [])
       else Option.bind (digits_n 1 (opt_char (CHR ''-'') r)) (\<lambda>(d, r). at_end (y, w, d) r))))"

definition reCompact :: "string \<Rightarrow> (string \<times> string \<times> string) option" where
  "reCompact s = Option.bind (digits_n 4 s) (\<lambda>(y, r). Option.bind (digits_n 2 r) (\<lambda>(m, r).
     Option.bind (digits_n 2 r) (\<lambda>(d, r). at_end (y, m, d) r)))"

definition reCompMon :: "string \<Rightarrow> (string \<times> string) option" where
  "reCompMon s = Option.bind (digits_n 4 s) (\<lambda>(y, r). Option.bind (digits_n 2 r) (\<lambda>(m, r). at_end (y, m) r))"

definition reCompOrd :: "string \<Rightarrow> (string \<times> string) option" where
  "reCompOrd s = Option.bind (digits_n 4 s) (\<lambda>(y, r). Option.bind (digits_n 3 r) (\<lambda>(o', r). at_end (y, o') r))"

definition reYear :: "string \<Rightarrow> bool" where
  "reYear s = (case year_prefix s of Some (y, r) \<Rightarrow> r = [] | None \<Rightarrow> False)"

definition re_fraction :: "string \<Rightarrow> string option" where
  "re_fraction s = (if 1 \<le> length s \<and> length s \<le> 9 \<and> list_all isDigit s then Some s else None)"

definition reTime :: "string \<Rightarrow> (string \<times> string \<times> string \<times> string) option" where
  "reTime s = Option.bind (digits_n 2 s) (\<lambda>(h, r).
     if r = [] then Some (h, [], [], [])
     else Option.bind (digits_n 2 (opt_char (CHR '':'') r)) (\<lambda>(m, r).
       if r = [] then Some (h, m, [], [])
       else Option.bind (digits_n 2 (opt_char (CHR '':'') r)) (\<lambda>(sec, r).
         case r of [] \<Rightarrow> Some (h, m, sec, [])
         | c # r \<Rightarrow> if c = CHR ''.'' \<or> c = CHR '','' then map_option (\<lambda>f. (h, m, sec, f)) (re_fraction r) else None)))"

section \<open>Dates and times\<close>

definition parseDate :: "string \<Rightarrow> terr + gtime" where
  "parseDate s =
    (case reWeek s of
       Some (y, w, d) \<Rightarrow> dateFromWeek (atoi_value y) (atoi_value w) (if d \<noteq> [] then atoi_value d else 1)
     | None \<Rightarrow> (case reCalendar s of Some (y, m, d) \<Rightarrow> newDate (atoi_value y) (atoi_value m) (atoi_value d)
     | None \<Rightarrow> (case reYearMon s of Some (y, m) \<Rightarrow> newDate (atoi_value y) (atoi_value m) 1
     | None \<Rightarrow> (case reOrdinal s of Some (y, o') \<Rightarrow> dateFromOrdinal (atoi_value y) (atoi_value o')
     | None \<Rightarrow> (case reCompact s of Some (y, m, d) \<Rightarrow> newDate (atoi_value y) (atoi_value m) (atoi_value d)
     | None \<Rightarrow> (case reCompMon s of Some (y, m) \<Rightarrow> newDate (atoi_value y) (atoi_value m) 1
     | None \<Rightarrow> (case reCompOrd s of Some (y, o') \<Rightarrow> dateFromOrdinal (atoi_value y) (atoi_value o')
     | None \<Rightarrow> if reYear s then newDate (atoi_value s) 1 1 else Inl ''cannot parse %q as a date''
     )))))))"

text \<open>\<open>strings.LastIndexAny(s, "+-")\<close>: what comes before the last sign, and the rest from it on.\<close>

definition not_sign :: "char \<Rightarrow> bool" where
  "not_sign c \<longleftrightarrow> c \<noteq> CHR ''+'' \<and> c \<noteq> CHR ''-''"

definition split_sign :: "string \<Rightarrow> (string \<times> string) option" where
  "split_sign s = (case dropWhile not_sign (rev s) of
       [] \<Rightarrow> None
     | c # f \<Rightarrow> Some (rev f, c # rev (takeWhile not_sign (rev s))))"

definition splitZone :: "string \<Rightarrow> terr + string \<times> int \<times> bool" where
  "splitZone s =
    (if s \<noteq> [] \<and> (last s = CHR ''Z'' \<or> last s = CHR ''z'') then Inr (butlast s, 0, True)
     else case split_sign s of
       Some (front, sg) \<Rightarrow>
         if front = [] then Inr (s, 0, False)
         else (case parseOffset sg of
             None \<Rightarrow> Inl ''cannot parse %q as a time zone offset''
           | Some off \<Rightarrow> Inr (front, off, True))
     | None \<Rightarrow> Inr (s, 0, False))"

definition parseClock :: "string \<Rightarrow> terr + int" where
  "parseClock s = (case reTime s of
       None \<Rightarrow> Inl ''cannot parse %q as a time''
     | Some (h, m, sec, f) \<Rightarrow>
         newLocalTime (atoi_value h) (atoi_value m) (atoi_value sec)
           (if f \<noteq> [] then atoi_value (take 9 (f @ ''000000000'')) else 0))"

definition parseLocalTime :: "string \<Rightarrow> terr + int" where
  "parseLocalTime s = (case splitZone s of
       Inl _ \<Rightarrow> Inl ''cannot parse %q as a local time''
     | Inr (clock, _, hasOff) \<Rightarrow>
         if hasOff then Inl ''cannot parse %q as a local time'' else parseClock clock)"

definition parseTime :: "string \<Rightarrow> terr + int \<times> int" where
  "parseTime s = bindE (splitZone s) (\<lambda>(clock, off, _). bindE (parseClock clock) (\<lambda>t. Inr (t, off)))"

text \<open>\<open>i := strings.IndexByte(s, '[')\<close>; the text ends with a bracket.\<close>

definition splitDateTime :: "string \<Rightarrow> terr + string \<times> string \<times> string" where
  "splitDateTime s =
    bindE (let p = (\<lambda>c. c \<noteq> CHR ''['') in case dropWhile p s of
         [] \<Rightarrow> Inr (s, [])
       | _ # r \<Rightarrow> if last s \<noteq> CHR '']'' then Inl ''cannot parse %q as a datetime''
                  else Inr (takeWhile p s, butlast r))
     (\<lambda>(s, region).
       let q = (\<lambda>c. c \<noteq> CHR ''T'' \<and> c \<noteq> CHR ''t'') in
       case dropWhile q s of [] \<Rightarrow> Inr (s, [], region) | _ # r \<Rightarrow> Inr (takeWhile q s, r, region))"

definition combineLocal :: "gtime \<Rightarrow> int \<Rightarrow> gtime" where
  "combineLocal d t = t_add d t"

definition parseLocalDateTime :: "string \<Rightarrow> terr + gtime" where
  "parseLocalDateTime s = (case splitDateTime s of
       Inl _ \<Rightarrow> Inl ''cannot parse %q as a local datetime''
     | Inr (ds, ts, region) \<Rightarrow>
         if region \<noteq> [] then Inl ''cannot parse %q as a local datetime''
         else bindE (parseDate ds) (\<lambda>d.
           bindE (if ts \<noteq> [] then parseLocalTime ts else Inr 0) (\<lambda>t. Inr (combineLocal d t))))"

definition parseDateTime :: "tzdata \<Rightarrow> string \<Rightarrow> terr + gtime \<times> bool" where
  "parseDateTime tz s =
    bindE (splitDateTime s) (\<lambda>(ds, ts, region).
    bindE (parseDate ds) (\<lambda>d.
    bindE (if ts \<noteq> [] then
             bindE (splitZone ts) (\<lambda>(clock, off, ho). bindE (parseClock clock) (\<lambda>t.
               Inr (t, if ho then fixedZone off else utc_zone)))
           else Inr (0, utc_zone)) (\<lambda>(t, zone).
    bindE (if region \<noteq> [] then parseZone tz region else Inr zone) (\<lambda>zone.
      Inr (zone_at zone (combineLocal d t))))))"

section \<open>Durations\<close>

text \<open>\<open>parseRat\<close>: a signed decimal with an optional fraction, exactly.\<close>

definition parseRat :: "string \<Rightarrow> rat" where
  "parseRat s = (case atoi_split s of (neg, r) \<Rightarrow>
     let i = takeWhile isDigit r; f = tl (dropWhile isDigit r);
         v = of_nat (dec_val i) + of_nat (dec_val f) / 10 ^ length f
     in if neg then - v else v)"

text \<open>\<open>^([+-]?\d+(?:[.,]\d+)?)([YMWDHS])\<close> on the upper-cased text: the number, the letter, the rest.\<close>

definition dur_fraction :: "string \<Rightarrow> string \<times> string" where
  "dur_fraction r = (case r of
     c # r' \<Rightarrow> if (c = CHR ''.'' \<or> c = CHR '','') \<and> takeWhile isDigit r' \<noteq> []
                then (c # takeWhile isDigit r', dropWhile isDigit r') else ([], r)
   | [] \<Rightarrow> ([], r))"

definition reDurNum :: "string \<Rightarrow> (string \<times> char \<times> string) option" where
  "reDurNum s =
    (let (sign, r) = sign_prefix s; ds = takeWhile isDigit r; (fr, r) = dur_fraction (dropWhile isDigit r)
     in if ds = [] then None
        else case r of [] \<Rightarrow> None
          | c # rest \<Rightarrow> if upper_char c \<in> set ''YMWDHS'' then Some (sign @ ds @ fr, upper_char c, rest) else None)"

text \<open>\<open>P2012-02-02T14:37:21.545\<close>.\<close>

definition reDurDate :: "string \<Rightarrow> (string list) option" where
  "reDurDate s =
    Option.bind (digits_n 4 s) (\<lambda>(y, r). Option.bind (need_char (CHR ''-'') r) (\<lambda>r.
    Option.bind (digits_n 2 r) (\<lambda>(mo, r). Option.bind (need_char (CHR ''-'') r) (\<lambda>r.
    Option.bind (digits_n 2 r) (\<lambda>(d, r). Option.bind (need_char (CHR ''T'') r) (\<lambda>r.
    Option.bind (digits_n 2 r) (\<lambda>(h, r). Option.bind (need_char (CHR '':'') r) (\<lambda>r.
    Option.bind (digits_n 2 r) (\<lambda>(mi, r). Option.bind (need_char (CHR '':'') r) (\<lambda>r.
    Option.bind (digits_n 2 r) (\<lambda>(sec, r).
      if r = [] then Some [y, mo, d, h, mi, sec, []]
      else Option.bind (need_char (CHR ''.'') r) (\<lambda>r.
        map_option (\<lambda>f. [y, mo, d, h, mi, sec, f]) (re_fraction r)))))))))))))"

definition set_part :: "durParts \<Rightarrow> char \<Rightarrow> bool \<Rightarrow> rat \<Rightarrow> durParts option" where
  "set_part p c inTime v =
    (if c = CHR ''Y'' \<and> \<not> inTime then Some (p\<lparr>p_years := v\<rparr>)
     else if c = CHR ''M'' \<and> \<not> inTime then Some (p\<lparr>p_months := v\<rparr>)
     else if c = CHR ''W'' \<and> \<not> inTime then Some (p\<lparr>p_weeks := v\<rparr>)
     else if c = CHR ''D'' \<and> \<not> inTime then Some (p\<lparr>p_days := v\<rparr>)
     else if c = CHR ''H'' \<and> inTime then Some (p\<lparr>p_hours := v\<rparr>)
     else if c = CHR ''M'' \<and> inTime then Some (p\<lparr>p_minutes := v\<rparr>)
     else if c = CHR ''S'' \<and> inTime then Some (p\<lparr>p_seconds := v\<rparr>)
     else None)"

lemma sign_prefix_length: "length (snd (sign_prefix s)) \<le> length s"
  by (auto simp: sign_prefix_def split: list.splits)

lemma dur_fraction_length: "length (snd (dur_fraction s)) \<le> length s"
  using length_dropWhile_le [of isDigit "tl s"]
  by (cases s) (auto simp: dur_fraction_def)

lemma reDurNum_shorter: "reDurNum s = Some (n, c, r) \<Longrightarrow> length r < length s"
proof -
  obtain sign t where st: "sign_prefix s = (sign, t)" by fastforce
  obtain fr u where fu: "dur_fraction (dropWhile isDigit t) = (fr, u)" by fastforce
  assume "reDurNum s = Some (n, c, r)"
  then have "length r < length u"
    by (auto simp: reDurNum_def Let_def st fu split: list.splits if_splits)
  then show ?thesis
    using sign_prefix_length [of s] dur_fraction_length [of "dropWhile isDigit t"]
      length_dropWhile_le [of isDigit t] by (simp add: st fu)
qed

function dur_loop :: "bool \<Rightarrow> durParts \<Rightarrow> string \<Rightarrow> terr + durParts" where
  "dur_loop inTime p s =
    (case s of [] \<Rightarrow> Inr p
     | c # r \<Rightarrow>
       if c = CHR ''T'' \<or> c = CHR ''t'' then
         (if inTime then Inl ''cannot parse %q as a duration'' else dur_loop True p r)
       else case reDurNum s of
           None \<Rightarrow> Inl ''cannot parse %q as a duration''
         | Some (n, u, rest) \<Rightarrow>
             (case set_part p u inTime (parseRat n) of
                None \<Rightarrow> Inl ''cannot parse %q as a duration''
              | Some p' \<Rightarrow> dur_loop inTime p' rest))"
  by pat_completeness auto
termination
  by (relation "measure (\<lambda>(t, p, s). length s)") (auto dest: reDurNum_shorter)

declare dur_loop.simps [simp del]

definition negateIf :: "terr + duration \<Rightarrow> bool \<Rightarrow> terr + duration" where
  "negateIf r neg = (case r of Inl e \<Rightarrow> Inl e | Inr d \<Rightarrow> Inr (if neg then dur_neg d else d))"

definition dur_date_parts :: "string list \<Rightarrow> durParts" where
  "dur_date_parts g = newDurParts\<lparr>
     p_years := of_int (atoi_value (g ! 0)), p_months := of_int (atoi_value (g ! 1)),
     p_days := of_int (atoi_value (g ! 2)), p_hours := of_int (atoi_value (g ! 3)),
     p_minutes := of_int (atoi_value (g ! 4)), p_seconds := of_int (atoi_value (g ! 5)),
     p_nanos := (if g ! 6 \<noteq> [] then of_int (atoi_value (take 9 (g ! 6 @ ''000000000''))) else 0)\<rparr>"

definition parseDuration :: "string \<Rightarrow> terr + duration" where
  "parseDuration s =
    (let (neg, s) = atoi_split s in
     if length s < 2 \<or> (hd s \<noteq> CHR ''P'' \<and> hd s \<noteq> CHR ''p'') then Inl ''cannot parse %q as a duration''
     else let s = tl s in
       case reDurDate s of
         Some g \<Rightarrow> negateIf (build (dur_date_parts g)) neg
       | None \<Rightarrow>
           if s = [] \<or> s = ''T'' then Inl ''cannot parse %q as a duration''
           else bindE (dur_loop False newDurParts s) (\<lambda>p. negateIf (build p) neg))"

definition parse_tval :: "tzdata \<Rightarrow> kind \<Rightarrow> string \<Rightarrow> terr + tval" where
  "parse_tval tz k s = (case k of
       KindDate \<Rightarrow> bindE (parseDate s) (\<lambda>d. Inr (TDate d))
     | KindLocalTime \<Rightarrow> bindE (parseLocalTime s) (\<lambda>t. Inr (TLocalTime t))
     | KindTime \<Rightarrow> bindE (parseTime s) (\<lambda>(t, off). Inr (TTime t off))
     | KindLocalDateTime \<Rightarrow> bindE (parseLocalDateTime s) (\<lambda>t. Inr (TLocalDateTime t))
     | KindDateTime \<Rightarrow> bindE (parseDateTime tz s) (\<lambda>(t, named). Inr (TDateTime t named))
     | KindDuration \<Rightarrow> bindE (parseDuration s) (\<lambda>d. Inr (TDuration d)))"


section \<open>Dates are read back\<close>

lemma digits_n_app [text_simps]:
  "list_all isDigit s \<Longrightarrow> length s = n \<Longrightarrow> digits_n n (s @ t) = Some (s, t)"
  by (simp add: digits_n_def)

lemma digits_n_self [text_simps]: "list_all isDigit s \<Longrightarrow> length s = n \<Longrightarrow> digits_n n s = Some (s, [])"
  by (simp add: digits_n_def)

lemma digits_n_neg: "s \<noteq> [] \<Longrightarrow> 0 < n \<Longrightarrow> \<not> isDigit (hd s) \<Longrightarrow> digits_n n s = None"
  by (cases s; cases n) (auto simp: digits_n_def)

lemma dec_nat_all [simp]: "list_all isDigit (dec_nat n)"
  using dec_nat_digits by (simp add: list_all_iff)

lemma sign_prefix_digit: "s \<noteq> [] \<Longrightarrow> isDigit (hd s) \<Longrightarrow> sign_prefix s = ([], s)"
  by (cases s) (auto simp: sign_prefix_def isDigit_def)

lemma hd_digits: "list_all isDigit s \<Longrightarrow> s \<noteq> [] \<Longrightarrow> isDigit (hd s)"
  by (cases s) auto

definition boundary :: "string \<Rightarrow> bool" where
  "boundary t \<longleftrightarrow> t = [] \<or> \<not> isDigit (hd t)"

lemma boundary_simps [simp]:
  "boundary []" "boundary (CHR ''-'' # t)" "boundary (CHR '':'' # t)" "boundary (CHR ''.'' # t)"
  "boundary (CHR ''T'' # t)" "boundary (CHR ''Y'' # t)" "boundary (CHR ''M'' # t)" "boundary (CHR ''D'' # t)"
  "boundary (CHR ''H'' # t)" "boundary (CHR ''S'' # t)"
  by (simp_all add: boundary_def isDigit_def)

lemma run_digits:
  assumes "list_all isDigit s" "boundary t"
  shows "takeWhile isDigit (s @ t) = s" "dropWhile isDigit (s @ t) = t"
  using assms by (cases t; simp add: boundary_def list_all_iff)+

lemma year_prefix_sign:
  assumes "list_all isDigit ds" "4 \<le> length ds" "length ds \<le> 9" "boundary t"
  shows "year_prefix (ds @ t) = Some (ds, t)"
    and "c = CHR ''+'' \<or> c = CHR ''-'' \<Longrightarrow> year_prefix (c # ds @ t) = Some (c # ds, t)"
proof -
  have "ds \<noteq> []" using assms(2) by auto
  then have "sign_prefix (ds @ t) = ([], ds @ t)"
    using hd_digits [OF assms(1)] by (intro sign_prefix_digit) simp_all
  then show "year_prefix (ds @ t) = Some (ds, t)"
    using assms run_digits [OF assms(1,4)] by (simp add: year_prefix_def)
  show "c = CHR ''+'' \<or> c = CHR ''-'' \<Longrightarrow> year_prefix (c # ds @ t) = Some (c # ds, t)"
    using assms run_digits [OF assms(1,4)] by (auto simp: year_prefix_def sign_prefix_def)
qed

lemma pad0_len_bounds: "n < 10 ^ 9 \<Longrightarrow> 4 \<le> length (pad0 4 n) \<and> length (pad0 4 n) \<le> 9"
  unfolding pad0_def length_append length_replicate using dec_nat_length [of n 9] by linarith

lemma dec_nat_long: "9999 < n \<Longrightarrow> 4 \<le> length (dec_nat n)"
proof (rule ccontr)
  assume n: "9999 < n" and "\<not> 4 \<le> length (dec_nat n)"
  then have "(10::nat) ^ length (dec_nat n) \<le> 10 ^ 3" by (intro power_increasing) auto
  with dec_val_less [OF dec_nat_digits [of n]] n show False by simp
qed

lemma atoi_value_signed:
  assumes "ds \<noteq> []" "list_all isDigit ds" "length ds \<le> 18"
  shows "atoi_value (CHR ''-'' # ds) = - int (dec_val ds)" "atoi_value (CHR ''+'' # ds) = int (dec_val ds)"
proof -
  have "dec_val ds < 10 ^ length ds" using assms(2) by (intro dec_val_less) (simp add: list_all_iff)
  also have "\<dots> \<le> 10 ^ 18" using assms(3) by (intro power_increasing) auto
  finally have "int (dec_val ds) < 10 ^ 18" by simp
  then have "in64 (int (dec_val ds))" "in64 (- int (dec_val ds))" by (simp_all add: in64_def)
  with assms show "atoi_value (CHR ''-'' # ds) = - int (dec_val ds)" "atoi_value (CHR ''+'' # ds) = int (dec_val ds)"
    by (simp_all add: atoi_value_def go_atoi_def atoi_split_def)
qed

lemma fmtYear_read:
  assumes "\<bar>y\<bar> \<le> 999999999" "boundary t"
  shows "year_prefix (fmtYear y @ t) = Some (fmtYear y, t)" "atoi_value (fmtYear y) = y"
proof -
  let ?n = "nat \<bar>y\<bar>"
  have n: "?n < 10 ^ 9" using assms(1) nat_less_iff [of "\<bar>y\<bar>" "10 ^ 9"] by simp
  note p = pad0_len_bounds [OF n]
  note ys = year_prefix_sign [OF pad_all conjunct1 [OF p] conjunct2 [OF p] assms(2)]
  have pa: "pad0 4 ?n \<noteq> []" "length (pad0 4 ?n) \<le> 18" using p by auto
  consider "y < 0" | "0 \<le> y" "y \<le> 9999" | "9999 < y" by linarith
  then have "year_prefix (fmtYear y @ t) = Some (fmtYear y, t) \<and> atoi_value (fmtYear y) = y"
  proof cases
    case 1
    then have "fmtYear y = CHR ''-'' # pad0 4 ?n" by (simp add: fmtYear_def)
    then show ?thesis using ys(2) atoi_value_signed(1) [OF pa(1) pad_all pa(2)] 1 by simp
  next
    case 2
    then have "fmtYear y = pad0 4 ?n" by (simp add: fmtYear_def)
    then show ?thesis using ys(1) atoi_value_digits [OF pa(1) pad_all pa(2)] 2 by simp
  next
    case 3
    then have f: "fmtYear y = CHR ''+'' # dec_nat ?n" by (simp add: fmtYear_def)
    have l: "4 \<le> length (dec_nat ?n)" "length (dec_nat ?n) \<le> 9"
      using 3 n dec_nat_long [of ?n] dec_nat_length [of ?n 9] by simp_all
    from l have "length (dec_nat ?n) \<le> 18" by linarith
    then show ?thesis unfolding f using 3 year_prefix_sign(2) [OF dec_nat_all l assms(2)]
        atoi_value_signed(2) [OF dec_nat_nonempty dec_nat_all] by simp
  qed
  then show "year_prefix (fmtYear y @ t) = Some (fmtYear y, t)" "atoi_value (fmtYear y) = y" by simp_all
qed

lemma parseDate_calendar:
  assumes "\<bar>y\<bar> \<le> 999999999" "m < 100" "d < 100"
  shows "parseDate (fmtYear y @ ''-'' @ pad0 2 m @ ''-'' @ pad0 2 d) = newDate y (int m) (int d)"
proof -
  let ?t = "''-'' @ pad0 2 m @ ''-'' @ pad0 2 d"
  have b: "boundary ?t" by simp
  note y = fmtYear_read [OF assms(1) b]
  have h: "\<not> (hd (pad0 2 m) = CHR ''W'')" using hd_digits [OF pad_all pad0_nonempty, of 2 m] by (auto simp: isDigit_def)
  have w: "reWeek (fmtYear y @ ?t) = None"
    unfolding reWeek_def y(1) using h
    by (cases "pad0 2 m") (auto simp: opt_char_def need_char_def)
  have c: "reCalendar (fmtYear y @ ?t) = Some (fmtYear y, pad0 2 m, pad0 2 d)"
    unfolding reCalendar_def y(1) using assms(2,3)
    by (simp add: need_char_def digits_n_app digits_n_self at_end_def)
  show ?thesis unfolding parseDate_def w c using assms(2,3) y(2) by simp
qed

definition canonical_date :: "gtime \<Rightarrow> bool" where
  "canonical_date t \<longleftrightarrow> (\<exists>n. t = date_of n \<and> \<bar>fst (civil n)\<bar> \<le> 999999999)"

lemma parseDate_string:
  assumes "canonical_date t"
  shows "parseDate (date_string t) = Inr t"
proof -
  obtain n where t: "t = date_of n" and b: "\<bar>fst (civil n)\<bar> \<le> 999999999"
    using assms by (auto simp: canonical_date_def)
  obtain y m d where c: "civil n = (y, m, d)" by (cases "civil n") auto
  have v: "valid_civil y m d" "civil_day y m d = n" using civil_day_civil [OF c] by simp_all
  then have m: "1 \<le> m" "m \<le> 12" "1 \<le> d" "d \<le> 31"
    using month_len_bounds [of "leap y" m] by (auto simp: valid_civil_def)
  have s: "date_string t = fmtYear y @ ''-'' @ pad0 2 (nat m) @ ''-'' @ pad0 2 (nat d)"
    by (simp add: date_string_def ymd_def t c)
  have "parseDate (date_string t) = newDate y m d"
    unfolding s using b c m by (subst parseDate_calendar) auto
  also have "\<dots> = Inr t" using b c v t by (simp add: newDate_Inr)
  finally show ?thesis .
qed

section \<open>Times are read back\<close>

lemma fraction_read:
  assumes "0 \<le> ns" "ns < nsPerSec"
  shows "list_all isDigit (fraction ns)" "1 \<le> length (fraction ns)" "length (fraction ns) \<le> 9"
    "take 9 (fraction ns @ ''000000000'') = pad0 9 (nat ns)"
proof -
  let ?s = "pad0 9 (nat ns)"
  have l: "length ?s = 9" using assms nat_less_iff [of ns "10 ^ 9"] by (intro pad0_length) simp_all
  have d: "list_all isDigit (take k ?s)" for k
    using pad_all [of 9 "nat ns"] by (metis append_take_drop_id list_all_append)
  have z: "\<exists>k. fraction ns = take k ?s \<and> (k = 3 \<or> k = 6 \<or> k = 9) \<and> take 9 (take k ?s @ ''000000000'') = ?s"
  proof (cases "suffix ''000000'' ?s")
    case True
    then obtain u where u: "?s = u @ ''000000''" by (auto simp: suffix_def)
    with l have "length u = 3" by simp
    then show ?thesis using True by (intro exI [of _ 3]) (simp add: fraction_def Let_def u)
  next
    case no6: False
    show ?thesis
    proof (cases "suffix ''000'' ?s")
      case True
      then obtain u where u: "?s = u @ ''000''" by (auto simp: suffix_def)
      with l have "length u = 6" by simp
      then show ?thesis using True no6 by (intro exI [of _ 6]) (simp add: fraction_def Let_def u)
    next
      case False
      then show ?thesis using no6 l by (intro exI [of _ 9]) (simp add: fraction_def Let_def)
    qed
  qed
  then obtain k where k: "fraction ns = take k ?s" "k = 3 \<or> k = 6 \<or> k = 9"
    "take 9 (take k ?s @ ''000000000'') = ?s" by blast
  show "list_all isDigit (fraction ns)" "1 \<le> length (fraction ns)" "length (fraction ns) \<le> 9"
    "take 9 (fraction ns @ ''000000000'') = ?s"
    using k l d by auto
qed

text \<open>The hours, minutes, seconds and nanoseconds of a clock, and the clock they make.\<close>

lemma hms_clock:
  assumes "good_clock n"
  obtains h m s ns where "hms n = (int h, int m, int s, ns)" "h < 24" "m < 60" "s < 60"
    "0 \<le> ns" "ns < nsPerSec" "newLocalTime (int h) (int m) (int s) ns = Inr n"
proof -
  have n: "0 \<le> n" "n < nsPerDay" using assms by (simp_all add: good_clock_def)
  define q where "q = n div nsPerSec"
  have q: "0 \<le> q" "q < 86400"
    using n div_bounds [of nsPerSec n] by (simp_all add: q_def pos_imp_zdiv_nonneg_iff)
  then obtain a where a: "q = int a" using zero_le_imp_eq_int by blast
  define h m s where "h = a div 3600" and "m = a mod 3600 div 60" and "s = a mod 60"
  have sum: "h * 3600 + m * 60 + s = a" using hms_sum_nat [of a] by (simp add: h_def m_def s_def)
  have b: "h < 24" "m < 60" "s < 60"
    using sum q(2) a by (simp_all add: m_def s_def div_less_iff_less_mult)
  have e: "int h = q div 3600" "int m = q mod 3600 div 60" "int s = q mod 60"
    by (simp_all add: h_def m_def s_def a zdiv_int zmod_int)
  have ns: "0 \<le> n mod nsPerSec" "n mod nsPerSec < nsPerSec" by simp_all
  have hms: "hms n = (int h, int m, int s, n mod nsPerSec)"
    unfolding e using n q by (simp add: hms_def Let_def q_def sdiv_nonneg smod_nonneg)
  have "int h * 3600 + int m * 60 + int s = q" using sum a by linarith
  then have "int h * 3600 * nsPerSec + int m * 60 * nsPerSec + int s * nsPerSec = q * nsPerSec"
    by (simp only: distrib_right [symmetric])
  then have "int h * 3600 * nsPerSec + int m * 60 * nsPerSec + int s * nsPerSec + n mod nsPerSec = n"
    by (simp only: q_def div_mult_mod_eq)
  then have "newLocalTime (int h) (int m) (int s) (n mod nsPerSec) = Inr n"
    using b ns unfolding newLocalTime_def by (simp del: pos_mod_sign pos_mod_bound)
  with hms b ns show ?thesis by (rule that)
qed

lemma digits_two_colon:
  "m < 100 \<Longrightarrow> digits_n 2 (opt_char (CHR '':'') (CHR '':'' # pad0 2 m @ t)) = Some (pad0 2 m, t)"
  "m < 100 \<Longrightarrow> digits_n 2 (opt_char (CHR '':'') (CHR '':'' # pad0 2 m)) = Some (pad0 2 m, [])"
  by (simp_all add: opt_char_def digits_n_app digits_n_self)

lemma parseClock_string:
  assumes "good_clock n"
  shows "parseClock (localtime_string n) = Inr n"
proof -
  obtain h m s ns where hms: "hms n = (int h, int m, int s, ns)" and b: "h < 24" "m < 60" "s < 60"
    and ns: "0 \<le> ns" "ns < nsPerSec" and new: "newLocalTime (int h) (int m) (int s) ns = Inr n"
    using assms by (rule hms_clock)
  have h100: "h < 100" "m < 100" "s < 100" using b by simp_all
  note f = fraction_read [OF ns]
  have av: "atoi_value (pad0 9 (nat ns)) = ns"
    using ns nat_less_iff [of ns "10 ^ 9"] by (subst atoi_value_digits) (simp_all add: pad0_length)
  have start: "digits_n 2 (pad0 2 h @ t) = Some (pad0 2 h, t)" for t
    using h100 by (simp add: digits_n_app)
  consider "s = 0 \<and> ns = 0" | "ns = 0" "s \<noteq> 0" | "ns \<noteq> 0" by blast
  then show ?thesis
  proof cases
    case 1
    then have "localtime_string n = pad0 2 h @ '':'' @ pad0 2 m" by (simp add: localtime_string_def hms)
    then have "reTime (localtime_string n) = Some (pad0 2 h, pad0 2 m, [], [])"
      using h100 by (simp add: reTime_def start digits_two_colon)
    moreover have "atoi_value [] = 0" by (simp add: atoi_value_def go_atoi_def atoi_split_def)
    ultimately show ?thesis using new 1 h100 by (simp add: parseClock_def)
  next
    case 2
    then have "localtime_string n = pad0 2 h @ '':'' @ pad0 2 m @ '':'' @ pad0 2 s" by (simp add: localtime_string_def hms)
    then have "reTime (localtime_string n) = Some (pad0 2 h, pad0 2 m, pad0 2 s, [])"
      using h100 by (simp add: reTime_def start digits_two_colon)
    then show ?thesis using new 2 h100 by (simp add: parseClock_def)
  next
    case 3
    then have "localtime_string n = pad0 2 h @ '':'' @ pad0 2 m @ '':'' @ pad0 2 s @ ''.'' @ fraction ns"
      by (simp add: localtime_string_def hms)
    then have "reTime (localtime_string n) = Some (pad0 2 h, pad0 2 m, pad0 2 s, fraction ns)"
      using h100 f by (simp add: reTime_def start digits_two_colon re_fraction_def)
    moreover have "fraction ns \<noteq> []" using f(2) by auto
    ultimately show ?thesis using new h100 f(4) av by (simp add: parseClock_def)
  qed
qed

text \<open>A clock is made of digits, colons and a point; it carries no zone.\<close>

definition clock_char :: "char \<Rightarrow> bool" where
  "clock_char c \<longleftrightarrow> isDigit c \<or> c = CHR '':'' \<or> c = CHR ''.''"

lemma clock_char_not:
  "clock_char c \<Longrightarrow> c \<noteq> CHR ''+'' \<and> c \<noteq> CHR ''-'' \<and> c \<noteq> CHR ''Z'' \<and> c \<noteq> CHR ''z'' \<and> c \<noteq> CHR ''T'' \<and> c \<noteq> CHR ''t'' \<and> c \<noteq> CHR ''[''"
  by (auto simp: clock_char_def isDigit_def)

lemma digits_clock: "list_all isDigit s \<Longrightarrow> list_all clock_char s"
  by (auto simp: list_all_iff clock_char_def)

lemma localtime_chars:
  assumes "good_clock n"
  shows "list_all clock_char (localtime_string n)" "localtime_string n \<noteq> []"
proof -
  obtain h m s ns where hms: "hms n = (int h, int m, int s, ns)" and "0 \<le> ns" "ns < nsPerSec"
    using assms by (rule hms_clock)
  then have "list_all clock_char (fraction ns)" by (intro digits_clock fraction_read) auto
  moreover have "list_all clock_char (pad0 2 x)" for x by (intro digits_clock pad_all)
  moreover have "clock_char (CHR '':'')" "clock_char (CHR ''.'')" by (simp_all add: clock_char_def)
  ultimately show "list_all clock_char (localtime_string n)" "localtime_string n \<noteq> []"
    by (simp_all add: localtime_string_def hms)
qed

lemma clock_not_sign: "list_all clock_char s \<Longrightarrow> \<forall>c \<in> set s. not_sign c"
  using clock_char_not by (auto simp: list_all_iff not_sign_def)

lemma split_sign_none:
  assumes "list_all clock_char s"
  shows "split_sign s = None"
proof -
  have "dropWhile not_sign (rev s) = []" using clock_not_sign [OF assms] by simp
  then show ?thesis unfolding split_sign_def by (simp only: list.case)
qed

lemma split_sign_at:
  assumes "list_all clock_char t" "sg = CHR ''+'' \<or> sg = CHR ''-''"
  shows "split_sign (s @ sg # t) = Some (s, sg # t)"
proof -
  have t: "\<And>c. c \<in> set (rev t) \<Longrightarrow> not_sign c" using clock_not_sign [OF assms(1)] by simp
  have sg: "\<not> not_sign sg" using assms(2) by (auto simp: not_sign_def)
  have "rev (s @ sg # t) = rev t @ sg # rev s" by simp
  then have "dropWhile not_sign (rev (s @ sg # t)) = sg # rev s"
    "takeWhile not_sign (rev (s @ sg # t)) = rev t"
    using t sg by (simp_all only: dropWhile_append2 takeWhile_append2 dropWhile.simps takeWhile.simps if_False append_Nil2)
  then show ?thesis by (simp add: split_sign_def)
qed

lemma last_clock: "list_all clock_char s \<Longrightarrow> s \<noteq> [] \<Longrightarrow> last s \<noteq> CHR ''Z'' \<and> last s \<noteq> CHR ''z''"
  using clock_char_not [of "last s"] by (auto simp: list_all_iff)

lemma parseLocalTime_string:
  assumes "good_clock n"
  shows "parseLocalTime (localtime_string n) = Inr n"
proof -
  note c = localtime_chars [OF assms]
  have "splitZone (localtime_string n) = Inr (localtime_string n, 0, False)"
    using last_clock [OF c] split_sign_none [OF c(1)] by (simp add: splitZone_def)
  then show ?thesis using assms by (simp add: parseLocalTime_def parseClock_string)
qed

lemma splitZone_time:
  assumes "good_clock n" "\<bar>off\<bar> \<le> 18 * 3600"
  shows "splitZone (localtime_string n @ fmtOffset off) = Inr (localtime_string n, off, True)"
proof (cases "off = 0")
  case True
  then show ?thesis by (simp add: splitZone_def fmtOffset_def)
next
  case False
  obtain a where a: "\<bar>off\<bar> = int a" by (metis abs_ge_zero zero_le_imp_eq_int)
  with False have a0: "a \<noteq> 0" by auto
  obtain sg t where f: "fmtOffset off = sg # t" and sg: "sg = CHR ''+'' \<or> sg = CHR ''-''"
    and t: "list_all clock_char t" "t \<noteq> []"
  proof -
    have "list_all clock_char (pad0 2 x)" for x by (intro digits_clock pad_all)
    then show ?thesis using fmtOffset_form [OF a0 a]
      by (intro that [of "if off < 0 then CHR ''-'' else CHR ''+''"]) (auto simp: clock_char_def)
  qed
  have "split_sign (localtime_string n @ fmtOffset off) = Some (localtime_string n, fmtOffset off)"
    unfolding f by (rule split_sign_at [OF t(1) sg])
  moreover have "last (localtime_string n @ fmtOffset off) = last t" using t(2) by (simp add: f)
  ultimately show ?thesis
    using last_clock [OF t] localtime_chars(2) [OF assms(1)] parseOffset_fmtOffset [OF assms(2)]
    by (simp add: splitZone_def)
qed

lemma parseTime_string:
  "good_clock n \<Longrightarrow> \<bar>off\<bar> \<le> 18 * 3600 \<Longrightarrow> parseTime (time_string n off) = Inr (n, off)"
  by (simp add: parseTime_def time_string_def splitZone_time parseClock_string)

section \<open>Dates with times are read back\<close>

definition date_char :: "char \<Rightarrow> bool" where
  "date_char c \<longleftrightarrow> isDigit c \<or> c = CHR ''+'' \<or> c = CHR ''-''"

lemma date_string_chars: "list_all date_char (date_string t)"
proof -
  have d: "list_all isDigit s \<Longrightarrow> list_all date_char s" for s
    by (auto simp: list_all_iff date_char_def)
  have "list_all date_char (pad0 w n)" "list_all date_char (dec_nat n)" for w n
    by (intro d pad_all, intro d dec_nat_all)
  moreover have "date_char (CHR ''-'')" "date_char (CHR ''+'')" by (simp_all add: date_char_def)
  ultimately show ?thesis by (simp add: date_string_def fmtYear_def split: prod.splits)
qed

definition not_bracket :: "char \<Rightarrow> bool" where "not_bracket c \<longleftrightarrow> c \<noteq> CHR ''[''"
definition not_T :: "char \<Rightarrow> bool" where "not_T c \<longleftrightarrow> c \<noteq> CHR ''T'' \<and> c \<noteq> CHR ''t''"

lemma date_char_not: "date_char c \<Longrightarrow> not_bracket c \<and> not_T c"
  by (auto simp: date_char_def isDigit_def not_bracket_def not_T_def)

lemma clock_char_T: "clock_char c \<Longrightarrow> not_bracket c"
  using clock_char_not by (simp add: not_bracket_def)

lemma splitDateTime_eq:
  "splitDateTime s =
    bindE (case dropWhile not_bracket s of
         [] \<Rightarrow> Inr (s, [])
       | _ # r \<Rightarrow> if last s \<noteq> CHR '']'' then Inl ''cannot parse %q as a datetime''
                  else Inr (takeWhile not_bracket s, butlast r))
     (\<lambda>(s, region).
       case dropWhile not_T s of [] \<Rightarrow> Inr (s, [], region) | _ # r \<Rightarrow> Inr (takeWhile not_T s, r, region))"
  unfolding splitDateTime_def Let_def not_bracket_def not_T_def ..

lemma span_stop:
  assumes "\<forall>c \<in> set a. P c" "\<not> P x"
  shows "takeWhile P (a @ x # b) = a" "dropWhile P (a @ x # b) = x # b"
  using assms by (simp_all only: takeWhile_append2 dropWhile_append2 takeWhile.simps dropWhile.simps if_False append_Nil2)

lemma splitDateTime_plain:
  assumes "list_all date_char ds" "list_all not_bracket ts"
  shows "splitDateTime (ds @ CHR ''T'' # ts) = Inr (ds, ts, [])"
proof -
  have "\<forall>c \<in> set (ds @ CHR ''T'' # ts). not_bracket c"
    using assms date_char_not by (auto simp: list_all_iff not_bracket_def)
  then have b: "dropWhile not_bracket (ds @ CHR ''T'' # ts) = []" by simp
  have "\<forall>c \<in> set ds. not_T c" using assms(1) date_char_not by (auto simp: list_all_iff)
  moreover have "\<not> not_T (CHR ''T'')" by (simp add: not_T_def)
  ultimately have "takeWhile not_T (ds @ CHR ''T'' # ts) = ds"
    "dropWhile not_T (ds @ CHR ''T'' # ts) = CHR ''T'' # ts" by (rule span_stop)+
  then show ?thesis by (simp only: splitDateTime_eq b bindE.simps list.case prod.case)
qed

lemma splitDateTime_region:
  assumes "list_all date_char ds" "list_all not_bracket ts"
  shows "splitDateTime (ds @ CHR ''T'' # ts @ ''['' @ name @ '']'') = Inr (ds, ts, name)"
proof -
  have a: "\<forall>c \<in> set (ds @ CHR ''T'' # ts). not_bracket c"
    using assms date_char_not by (auto simp: list_all_iff not_bracket_def)
  have e: "ds @ CHR ''T'' # ts @ ''['' @ name @ '']'' = (ds @ CHR ''T'' # ts) @ CHR ''['' # (name @ '']'')" by simp
  have l: "last ((ds @ CHR ''T'' # ts) @ CHR ''['' # (name @ '']'')) = CHR '']''" by simp
  note b = span_stop [OF a, of "CHR ''[''" "name @ '']''"]
  have "\<forall>c \<in> set ds. not_T c" using assms(1) date_char_not by (auto simp: list_all_iff)
  note t = span_stop [OF this, of "CHR ''T''" ts]
  have nb: "\<not> not_bracket (CHR ''['')" "\<not> not_T (CHR ''T'')" by (simp_all add: not_bracket_def not_T_def)
  show ?thesis unfolding e splitDateTime_eq
    using b(1,2) [OF nb(1)] t [OF nb(2)] l by simp
qed

text \<open>The wall clock of a UTC time, as a date and a clock.\<close>

definition canonical_local :: "gtime \<Rightarrow> bool" where
  "canonical_local t \<longleftrightarrow> good_time t \<and> gloc t = UTC \<and> \<bar>t_year t\<bar> \<le> 999999999"

lemma civil_year_day:
  assumes "\<bar>fst (civil n)\<bar> \<le> 999999999"
  shows "\<bar>n\<bar> \<le> max_day"
proof -
  obtain y m d where c: "civil n = (y, m, d)" by (cases "civil n") auto
  note v = civil_day_civil [OF c]
  have "\<bar>civil_day y m d\<bar> \<le> max_day" using assms c v(2) by (intro civil_day_bound) auto
  then show ?thesis by (simp add: v(1))
qed

lemma midnight_eq:
  assumes "\<bar>t_day t\<bar> \<le> far_day"
  shows "midnight t = date_of (t_day t)"
proof -
  obtain y m d where c: "civil (t_day t) = (y, m, d)" by (cases "civil (t_day t)") auto
  note v = civil_day_civil [OF c]
  show ?thesis
    using go_date_day [of m y d] assms v by (simp add: midnight_def t_date_def c valid_civil_def)
qed

lemma wallNanos_eq: "wallNanos t = t_sod t * nsPerSec + gnano t"
proof -
  have "t_sod t * nsPerSec = t_hour t * 3600 * nsPerSec + t_minute t * 60 * nsPerSec + t_second t * nsPerSec"
    unfolding sod_eq [of t, symmetric] by (simp only: distrib_right)
  then show ?thesis by (simp add: wallNanos_def)
qed

lemma wallNanos_good: "good_time t \<Longrightarrow> good_clock (wallNanos t)"
  using sod_bounds [of t] by (simp add: good_clock_def good_time_def wallNanos_eq)

lemma combineLocal_date:
  assumes "good_clock c" "\<bar>n\<bar> \<le> far_day"
  shows "combineLocal (date_of n) c = wall_of n (c div nsPerSec) (c mod nsPerSec)"
proof -
  have "0 \<le> c div nsPerSec" "c div nsPerSec < 86400"
    using assms(1) div_bounds [of nsPerSec c] by (simp_all add: good_clock_def pos_imp_zdiv_nonneg_iff)
  then have "in64 (n * 86400 + c div nsPerSec)" using assms(2) by (intro in64_day)
  then show ?thesis by (simp add: combineLocal_def t_add_def date_of_def wall_of_def w64_id)
qed

lemma combine_midnight:
  assumes "good_time t" "gloc t = UTC" "\<bar>t_day t\<bar> \<le> far_day"
  shows "combineLocal (midnight t) (wallNanos t) = t"
proof -
  have g: "0 \<le> gnano t" "gnano t < nsPerSec" using assms(1) by (simp_all add: good_time_def)
  have "wallNanos t div nsPerSec = t_sod t" "wallNanos t mod nsPerSec = gnano t"
    using g by (simp_all add: wallNanos_eq div_pos_pos_trivial mod_pos_pos_trivial)
  then show ?thesis
    using combineLocal_date [OF wallNanos_good [OF assms(1)] assms(3)] wall_of_eq [OF assms(2)]
    by (simp add: midnight_eq [OF assms(3)])
qed

lemma canonical_local_days:
  assumes "canonical_local t"
  shows "\<bar>t_day t\<bar> \<le> far_day" "canonical_date (midnight t)"
proof -
  have y: "\<bar>fst (civil (t_day t))\<bar> \<le> 999999999"
    using assms by (simp add: canonical_local_def t_year_def t_date_def)
  then show d: "\<bar>t_day t\<bar> \<le> far_day" by (intro max_far civil_year_day)
  show "canonical_date (midnight t)"
    using y unfolding midnight_eq [OF d] canonical_date_def by blast
qed

lemma parseLocalDateTime_string:
  assumes "canonical_local t"
  shows "parseLocalDateTime (localdatetime_string t) = Inr t"
proof -
  have g: "good_time t" "gloc t = UTC" using assms by (simp_all add: canonical_local_def)
  note d = canonical_local_days [OF assms]
  note c = localtime_chars [OF wallNanos_good [OF g(1)]]
  have "list_all not_bracket (localtime_string (wallNanos t))"
    using c(1) clock_char_T by (auto simp: list_all_iff)
  then have "splitDateTime (localdatetime_string t) =
      Inr (date_string (midnight t), localtime_string (wallNanos t), [])"
    using splitDateTime_plain [OF date_string_chars] by (simp add: localdatetime_string_def)
  then show ?thesis
    using c(2) parseDate_string [OF d(2)] parseLocalTime_string [OF wallNanos_good [OF g(1)]]
      combine_midnight [OF g d(1)]
    by (simp add: parseLocalDateTime_def)
qed

text \<open>A datetime at a fixed offset: the text has its wall clock and its offset.\<close>

definition fixed_loc :: "gloc \<Rightarrow> bool" where
  "fixed_loc l \<longleftrightarrow> l = UTC \<or> (\<exists>off. off \<noteq> 0 \<and> \<bar>off\<bar> \<le> 18 * 3600 \<and> l = FixedZone off)"

definition canonical_fixed :: "gtime \<Rightarrow> bool" where
  "canonical_fixed t \<longleftrightarrow> good_time t \<and> fixed_loc (gloc t) \<and> \<bar>t_year t\<bar> \<le> 999999999"

lemma fixed_offset:
  assumes "fixed_loc (gloc t)"
  shows "\<bar>t_zone t\<bar> \<le> 18 * 3600" "zloc (fixedZone (t_zone t)) = gloc t" "znamed (fixedZone (t_zone t)) = False"
    "wall_sec t = gsec t + t_zone t"
  using assms by (auto simp: fixed_loc_def t_zone_def fixedZone_def utc_zone_def wall_sec_def)

lemma local_to_unix_utc: "local_to_unix UTC x = x"
  by (simp add: local_to_unix_def)

lemma local_to_unix_fixed: "o' \<noteq> 0 \<Longrightarrow> local_to_unix (FixedZone o') x = w64 (x - o')"
  by (simp add: local_to_unix_def Let_def)

text \<open>Placing the wall clock back in its zone gives the instant again.\<close>

lemma at_wall_fixed:
  assumes "good_time t" "fixed_loc (gloc t)" "\<bar>t_day t\<bar> \<le> max_day"
  shows "at_wall (wall_of (t_day t) (t_sod t) (gnano t)) (gloc t) = t"
proof -
  let ?w = "wall_of (t_day t) (t_sod t) (gnano t)"
  note s = sod_bounds [of t]
  have day: "t_day ?w = t_day t" "t_sod ?w = t_sod t" using s by simp_all
  have m: "1 \<le> t_month ?w" "t_month ?w \<le> 12" using t_date_valid [of ?w] by (simp_all add: valid_civil_def)
  have u: "unix_of (t_year ?w) (t_month ?w) (t_dom ?w) (t_hour ?w) (t_minute ?w) (t_second ?w) = wall_sec t"
    unfolding unix_of_valid [OF m] t_date_day using sod_eq [of ?w] wall_sec_eq [of t] day by simp
  have off: "\<bar>t_zone t\<bar> \<le> 64800" using fixed_offset(1) [OF assms(2)] by simp
  have ws: "\<bar>wall_sec t\<bar> \<le> 34560000000086400"
    unfolding wall_sec_eq using assms(3) s unfolding max_day_def by linarith
  have gs: "gsec t = wall_sec t - t_zone t" using fixed_offset(4) [OF assms(2)] by simp
  have i: "in64 (wall_sec t)" "in64 (wall_sec t - t_zone t)"
    using ws off by (simp_all add: in64_def abs_le_iff)
  have ltu: "local_to_unix (gloc t) (wall_sec t) = gsec t"
    using assms(2) unfolding fixed_loc_def
  proof
    assume "gloc t = UTC"
    then show ?thesis using gs by (simp add: local_to_unix_utc t_zone_def)
  next
    assume "\<exists>off. off \<noteq> 0 \<and> \<bar>off\<bar> \<le> 18 * 3600 \<and> gloc t = FixedZone off"
    then obtain o' where o': "o' \<noteq> 0" "gloc t = FixedZone o'" by blast
    then have "t_zone t = o'" by (simp add: t_zone_def)
    then show ?thesis using gs i(2) o' by (simp add: local_to_unix_fixed w64_id)
  qed
  show ?thesis
    using assms(1) u i ltu
    by (cases t) (simp add: at_wall_def go_date_def good_time_def w64_id div_pos_pos_trivial mod_pos_pos_trivial)
qed

lemma parseDateTime_string:
  assumes "canonical_fixed t"
  shows "parseDateTime tz (datetime_string t False) = Inr (t, False)"
proof -
  have g: "good_time t" "fixed_loc (gloc t)" "\<bar>t_year t\<bar> \<le> 999999999"
    using assms by (simp_all add: canonical_fixed_def)
  have y: "\<bar>fst (civil (t_day t))\<bar> \<le> 999999999" using g(3) by (simp add: t_year_def t_date_def)
  note d = civil_year_day [OF y]
  note far = max_far [OF d]
  have mid: "midnight t = date_of (t_day t)" by (rule midnight_eq [OF far])
  have canon: "canonical_date (midnight t)" using y unfolding mid canonical_date_def by blast
  note wg = wallNanos_good [OF g(1)]
  note o' = fixed_offset [OF g(2)]
  let ?w = "wall_of (t_day t) (t_sod t) (gnano t)"
  have comb: "combineLocal (midnight t) (wallNanos t) = ?w"
    unfolding mid combineLocal_date [OF wg far] using g(1)
    by (simp add: wallNanos_eq good_time_def div_pos_pos_trivial mod_pos_pos_trivial)
  note c = localtime_chars [OF wg]
  have "list_all not_bracket (localtime_string (wallNanos t))"
    using c(1) clock_char_T by (auto simp: list_all_iff)
  moreover have "list_all not_bracket (fmtOffset (t_zone t))"
  proof (cases "t_zone t = 0")
    case True
    then show ?thesis by (simp add: fmtOffset_def not_bracket_def)
  next
    case False
    obtain a where a: "\<bar>t_zone t\<bar> = int a" by (metis abs_ge_zero zero_le_imp_eq_int)
    have "list_all not_bracket (pad0 2 x)" for x
      using pad_all [of 2 x] by (auto simp: list_all_iff not_bracket_def isDigit_def)
    then show ?thesis using fmtOffset_form [of a "t_zone t"] a False by (simp add: not_bracket_def)
  qed
  ultimately have sp: "splitDateTime (datetime_string t False) =
      Inr (date_string (midnight t), localtime_string (wallNanos t) @ fmtOffset (t_zone t), [])"
    using splitDateTime_plain [OF date_string_chars] by (simp add: datetime_string_def)
  have "zone_at (fixedZone (t_zone t)) ?w = (t, False)"
    using at_wall_fixed [OF g(1,2) d] o' by (simp add: zone_at_def)
  then show ?thesis
    using c(2) comb parseDate_string [OF canon] splitZone_time [OF wg o'(1)] parseClock_string [OF wg]
    by (simp add: parseDateTime_def sp)
qed

section \<open>Durations are read back\<close>

lemma dec_int_form: "dec_int n = (if n < 0 then ''-'' else []) @ dec_nat (nat \<bar>n\<bar>)"
  by (simp add: dec_int_def)

definition dur_letter :: "char \<Rightarrow> bool" where
  "dur_letter u \<longleftrightarrow> u \<in> set ''YMWDHS''"

lemma dur_letter_facts:
  assumes "dur_letter u"
  shows "upper_char u = u" "\<not> isDigit u" "u \<noteq> CHR ''.''" "u \<noteq> CHR '',''" "u \<noteq> CHR ''T''" "u \<noteq> CHR ''t''" "boundary (u # r)"
  using assms by (auto simp: dur_letter_def upper_char_def isDigit_def boundary_def)

lemma sign_prefix_digits:
  assumes "list_all isDigit ds" "ds \<noteq> []"
  shows "sign_prefix ((if neg then ''-'' else []) @ ds @ r) = (if neg then ''-'' else [], ds @ r)"
proof (cases neg)
  case True
  then show ?thesis by (simp add: sign_prefix_def)
next
  case False
  then show ?thesis using hd_digits [OF assms] assms(2) by (simp add: sign_prefix_digit)
qed

lemma reDurNum_int:
  assumes "list_all isDigit ds" "ds \<noteq> []" "dur_letter u"
  shows "reDurNum ((if neg then ''-'' else []) @ ds @ u # r) = Some ((if neg then ''-'' else []) @ ds, u, r)"
  using assms dur_letter_facts [OF assms(3)] run_digits [OF assms(1), of "u # r"]
  by (simp add: reDurNum_def sign_prefix_digits Let_def dur_fraction_def dur_letter_def del: set_simps)

lemma reDurNum_frac:
  assumes "list_all isDigit ds" "ds \<noteq> []" "list_all isDigit f" "f \<noteq> []" "dur_letter u"
  shows "reDurNum ((if neg then ''-'' else []) @ ds @ CHR ''.'' # f @ u # r)
    = Some ((if neg then ''-'' else []) @ ds @ CHR ''.'' # f, u, r)"
  using assms dur_letter_facts [OF assms(5)] run_digits [OF assms(1), of "CHR ''.'' # f @ u # r"]
    run_digits [OF assms(3), of "u # r"]
  by (simp add: reDurNum_def sign_prefix_digits Let_def dur_fraction_def dur_letter_def del: set_simps)

lemma atoi_split_digits:
  assumes "list_all isDigit ds" "ds \<noteq> []"
  shows "atoi_split ((if neg then ''-'' else []) @ ds @ r) = (neg, ds @ r)"
proof (cases neg)
  case True
  then show ?thesis by (simp add: atoi_split_def)
next
  case False
  then show ?thesis using assms by (cases ds) (auto simp: atoi_split_def isDigit_def)
qed

lemma parseRat_int:
  "parseRat (dec_int n) = of_int n"
proof -
  have a: "atoi_split (dec_int n) = (n < 0, dec_nat (nat \<bar>n\<bar>))"
    using atoi_split_digits [OF dec_nat_all dec_nat_nonempty, of "n < 0" "nat \<bar>n\<bar>" "[]"] by (simp add: dec_int_form)
  have t: "takeWhile isDigit (dec_nat k) = dec_nat k" "dropWhile isDigit (dec_nat k) = []" for k
    using run_digits [OF dec_nat_all, of "[]" k] by simp_all
  show ?thesis by (simp add: parseRat_def a t Let_def)
qed

lemma parseRat_frac:
  assumes "list_all isDigit f"
  shows "parseRat ((if neg then ''-'' else []) @ dec_nat a @ CHR ''.'' # f)
    = (if neg then -1 else 1) * (of_nat a + of_nat (dec_val f) / 10 ^ length f)"
proof -
  have b: "boundary (CHR ''.'' # f)" by simp
  show ?thesis
    using atoi_split_digits [OF dec_nat_all dec_nat_nonempty, of neg a "CHR ''.'' # f"]
      run_digits [OF dec_nat_all b, of a]
    by (simp add: parseRat_def)
qed

text \<open>One amount of the text is one step of the loop.\<close>

definition opt_part :: "int \<Rightarrow> char \<Rightarrow> string" where
  "opt_part n u = (if n \<noteq> 0 then dec_int n @ [u] else [])"

lemma dur_loop_num:
  assumes "reDurNum s = Some (n, u, r)" "s \<noteq> []" "hd s \<noteq> CHR ''T''" "hd s \<noteq> CHR ''t''"
    "set_part p u t (parseRat n) = Some p'"
  shows "dur_loop t p s = dur_loop t p' r"
  using assms by (cases s) (simp_all add: dur_loop.simps [of t p])

lemma hd_signed:
  assumes "list_all isDigit ds" "ds \<noteq> []"
  shows "hd ((if neg then ''-'' else []) @ ds @ r) \<noteq> CHR ''T'' \<and> hd ((if neg then ''-'' else []) @ ds @ r) \<noteq> CHR ''t''"
  using hd_digits [OF assms] assms(2) by (auto simp: isDigit_def)

lemma dur_loop_opt:
  assumes "dur_letter u" "set_part p u t (of_int n) = Some p'" "n = 0 \<Longrightarrow> p' = p"
  shows "dur_loop t p (opt_part n u @ r) = dur_loop t p' r"
proof (cases "n = 0")
  case True
  with assms(3) show ?thesis by (simp add: opt_part_def)
next
  case False
  let ?ds = "dec_nat (nat \<bar>n\<bar>)"
  have s: "opt_part n u @ r = (if n < 0 then ''-'' else []) @ ?ds @ u # r"
    using False by (simp add: opt_part_def dec_int_form)
  show ?thesis
    unfolding s
  proof (rule dur_loop_num)
    show "reDurNum ((if n < 0 then ''-'' else []) @ ?ds @ u # r) = Some (dec_int n, u, r)"
      using reDurNum_int [OF dec_nat_all dec_nat_nonempty assms(1)] by (simp add: dec_int_form)
    show "set_part p u t (parseRat (dec_int n)) = Some p'" using assms(2) by (simp add: parseRat_int)
  qed (use hd_signed [OF dec_nat_all dec_nat_nonempty] in auto)
qed

lemma dur_loop_T: "dur_loop False p (CHR ''T'' # r) = dur_loop True p r"
  by (simp add: dur_loop.simps [of False])

text \<open>The fraction of a second, its trailing zeros trimmed, denotes the same number.\<close>

lemma trim_zeros_split: "\<exists>k. s = trim_zeros s @ replicate k (CHR ''0'')"
proof -
  let ?p = "\<lambda>c. c = CHR ''0''"
  have "rev s = takeWhile ?p (rev s) @ dropWhile ?p (rev s)" by simp
  then have "s = trim_zeros s @ rev (takeWhile ?p (rev s))"
    unfolding trim_zeros_def by (metis rev_append rev_rev_ident)
  moreover have "rev (takeWhile ?p (rev s)) = replicate (length (takeWhile ?p (rev s))) (CHR ''0'')"
    by (intro replicate_eqI) (auto dest: set_takeWhileD)
  ultimately show ?thesis by metis
qed

lemma trim_zeros_frac:
  assumes "0 < n" "n < 10 ^ 9"
  shows "list_all isDigit (trim_zeros (pad0 9 n))" "trim_zeros (pad0 9 n) \<noteq> []"
    "of_nat (dec_val (trim_zeros (pad0 9 n))) / 10 ^ length (trim_zeros (pad0 9 n)) = (of_nat n / 10 ^ 9 :: rat)"
proof -
  let ?f = "trim_zeros (pad0 9 n)"
  obtain k where k: "pad0 9 n = ?f @ replicate k (CHR ''0'')" using trim_zeros_split by blast
  show "list_all isDigit ?f" using pad_all [of 9 n] k by (metis list_all_append)
  have "dec_val (pad0 9 n) = dec_val ?f * 10 ^ k"
    by (subst k) (simp add: dec_val_append)
  then have v: "n = dec_val ?f * 10 ^ k" by simp
  then show "?f \<noteq> []" using assms(1) by auto
  have "length (pad0 9 n) = length ?f + k" by (subst k) simp
  then have l: "9 = length ?f + k" using assms(2) by (simp add: pad0_length)
  have "(10 :: rat) ^ 9 = 10 ^ length ?f * 10 ^ k" by (subst l) (rule power_add)
  then show "of_nat (dec_val ?f) / 10 ^ length ?f = (of_nat n / 10 ^ 9 :: rat)"
    by (subst (2) v) (simp add: field_simps)
qed

definition sec_text :: "int \<Rightarrow> int \<Rightarrow> string" where
  "sec_text s ns = (if s < 0 \<or> ns < 0 then ''-'' else []) @ dec_int \<bar>s\<bar>
     @ (if \<bar>ns\<bar> \<noteq> 0 then ''.'' @ trim_zeros (pad0 9 (nat \<bar>ns\<bar>)) else []) @ ''S''"

lemma dur_loop_sec:
  assumes "0 \<le> s \<and> 0 \<le> ns \<or> s \<le> 0 \<and> ns \<le> 0" "\<bar>ns\<bar> < nsPerSec"
  shows "dur_loop True p (sec_text s ns) = Inr (p\<lparr>p_seconds := of_int s + of_int ns / 10 ^ 9\<rparr>)"
proof -
  let ?ds = "dec_nat (nat \<bar>s\<bar>)" and ?neg = "s < 0 \<or> ns < 0"
  have S: "dur_letter (CHR ''S'')" by (simp add: dur_letter_def)
  have d: "dec_int \<bar>s\<bar> = ?ds" by (simp add: dec_int_def)
  have h: "hd ((if ?neg then ''-'' else []) @ ?ds @ r) \<noteq> CHR ''T''"
    "hd ((if ?neg then ''-'' else []) @ ?ds @ r) \<noteq> CHR ''t''" for r
    using hd_signed [OF dec_nat_all dec_nat_nonempty] by blast+
  have fin: "dur_loop True q [] = Inr q" for q by (simp add: dur_loop.simps [of True q])
  have sp: "set_part p (CHR ''S'') True v = Some (p\<lparr>p_seconds := v\<rparr>)" for v by (simp add: set_part_def)
  show ?thesis
  proof (cases "ns = 0")
    case True
    have t: "sec_text s ns = (if ?neg then ''-'' else []) @ ?ds @ CHR ''S'' # []"
      using True by (simp add: sec_text_def d)
    have n: "(if ?neg then ''-'' else []) @ ?ds = dec_int s" using True by (simp add: dec_int_form)
    have "dur_loop True p (sec_text s ns) = dur_loop True (p\<lparr>p_seconds := of_int s\<rparr>) []"
    proof (rule dur_loop_num)
      show "reDurNum (sec_text s ns) = Some (dec_int s, CHR ''S'', [])"
        unfolding t n [symmetric] by (rule reDurNum_int [OF dec_nat_all dec_nat_nonempty S])
      show "set_part p (CHR ''S'') True (parseRat (dec_int s)) = Some (p\<lparr>p_seconds := of_int s\<rparr>)"
        by (simp add: sp parseRat_int)
    qed (unfold t, use h in simp_all)
    with True fin show ?thesis by simp
  next
    case False
    define n where "n = nat \<bar>ns\<bar>"
    have n: "0 < n" "n < 10 ^ 9" using False assms(2) nat_less_iff [of "\<bar>ns\<bar>" "10 ^ 9"] by (simp_all add: n_def)
    note f = trim_zeros_frac [OF n]
    let ?f = "trim_zeros (pad0 9 n)" and ?num = "(if ?neg then ''-'' else []) @ ?ds @ CHR ''.'' # trim_zeros (pad0 9 n)"
    have t: "sec_text s ns = (if ?neg then ''-'' else []) @ ?ds @ CHR ''.'' # ?f @ CHR ''S'' # []"
      using False by (simp add: sec_text_def d n_def)
    have e: "of_nat n = (of_int \<bar>ns\<bar> :: rat)" "of_nat (nat \<bar>s\<bar>) = (of_int \<bar>s\<bar> :: rat)" by (simp_all add: n_def)
    have v: "parseRat ?num = of_int s + of_int ns / 10 ^ 9"
      unfolding parseRat_frac [OF f(1)] f(3) unfolding e using assms(1) False by (auto simp: field_simps)
    have "dur_loop True p (sec_text s ns) = dur_loop True (p\<lparr>p_seconds := of_int s + of_int ns / 10 ^ 9\<rparr>) []"
    proof (rule dur_loop_num)
      show "reDurNum (sec_text s ns) = Some (?num, CHR ''S'', [])"
        unfolding t by (rule reDurNum_frac [OF dec_nat_all dec_nat_nonempty f(1,2) S])
      show "set_part p (CHR ''S'') True (parseRat ?num) = Some (p\<lparr>p_seconds := of_int s + of_int ns / 10 ^ 9\<rparr>)"
        by (simp only: sp v)
    qed (unfold t, use h in simp_all)
    with fin show ?thesis by simp
  qed
qed

text \<open>The text never has the form of a calendar date.\<close>

lemma reDurDate_T: "reDurDate (CHR ''T'' # r) = None"
  by (simp add: reDurDate_def digits_n_def isDigit_def)

lemma reDurDate_opt:
  assumes "n \<noteq> 0" "dur_letter u"
  shows "reDurDate (opt_part n u @ r) = None"
proof -
  let ?ds = "dec_nat (nat \<bar>n\<bar>)"
  have s: "opt_part n u @ r = (if n < 0 then ''-'' else []) @ ?ds @ u # r"
    using assms(1) by (simp add: opt_part_def dec_int_form)
  show ?thesis
  proof (cases "n < 0")
    case True
    then show ?thesis unfolding s reDurDate_def by (simp add: digits_n_def isDigit_def)
  next
    case False
    have "need_char (CHR ''-'') (drop 4 (?ds @ u # r)) = None" if "list_all isDigit (take 4 (?ds @ u # r))"
    proof -
      have u: "\<not> isDigit u" using dur_letter_facts [OF assms(2)] by simp
      have "4 \<le> length ?ds"
      proof (rule ccontr)
        assume "\<not> 4 \<le> length ?ds"
        then have "u \<in> set (take 4 (?ds @ u # r))"
          by (cases "4 - length ?ds") auto
        with that u show False by (auto simp: list_all_iff)
      qed
      then have dr: "drop 4 (?ds @ u # r) = drop 4 ?ds @ u # r" by simp
      obtain c t where c: "drop 4 (?ds @ u # r) = c # t" "c \<in> set ?ds \<or> c = u"
      proof (cases "drop 4 ?ds")
        case Nil
        with dr that show ?thesis by auto
      next
        case (Cons c t)
        then have "c \<in> set ?ds" using in_set_dropD [of c 4 ?ds] by simp
        with Cons dr that show ?thesis by auto
      qed
      have "c \<noteq> CHR ''-''" using c(2) dec_nat_digits [of "nat \<bar>n\<bar>"] assms(2)
        by (auto simp: isDigit_def dur_letter_def)
      with c(1) show ?thesis by (simp add: need_char_def)
    qed
    then show ?thesis unfolding s reDurDate_def using False by (simp add: digits_n_def)
  qed
qed

text \<open>The text of a duration, piece by piece.\<close>

lemma dur_date_text:
  "dur_date_string d = CHR ''P'' # opt_part (months d sdiv 12) (CHR ''Y'')
     @ opt_part (months d smod 12) (CHR ''M'') @ opt_part (days d) (CHR ''D'')"
  by (cases "months d = 0") (simp_all add: dur_date_string_def opt_part_def Let_def)

definition eff_secs :: "duration \<Rightarrow> int" where
  "eff_secs d = (if seconds d < 0 \<and> nanos d > 0 then seconds d + 1 else seconds d)"

definition eff_nanos :: "duration \<Rightarrow> int" where
  "eff_nanos d = (if seconds d < 0 \<and> nanos d > 0 then nanos d - nsPerSec else nanos d)"

definition has_clock :: "duration \<Rightarrow> bool" where
  "has_clock d \<longleftrightarrow> seconds d \<noteq> 0 \<or> nanos d \<noteq> 0 \<or> (months d = 0 \<and> days d = 0)"

lemma eff_total: "eff_secs d * nsPerSec + eff_nanos d = totalNanosBig d"
  by (simp add: eff_secs_def eff_nanos_def totalNanosBig_def algebra_simps)

lemma eff_signs:
  assumes "good_duration d"
  shows "0 \<le> eff_secs d \<and> 0 \<le> eff_nanos d \<or> eff_secs d \<le> 0 \<and> eff_nanos d \<le> 0" "\<bar>eff_nanos d\<bar> < nsPerSec"
  using assms by (auto simp: eff_secs_def eff_nanos_def good_duration_def)

lemma sdiv_minus: "0 \<le> x \<Longrightarrow> - x sdiv 60 = - (x div 60)" for x :: int
  by (simp add: sdiv_nonneg)

lemma hms_sum_sdiv: "s sdiv 3600 * 3600 + s smod 3600 sdiv 60 * 60 + s smod 60 = (s :: int)"
proof (cases "0 \<le> s")
  case True
  then show ?thesis using hms_sum [of s] by (simp add: sdiv_nonneg smod_nonneg)
next
  case False
  let ?a = "- s"
  have e: "s sdiv 3600 = - (?a div 3600)" "s smod 3600 = - (?a mod 3600)" "s smod 60 = - (?a mod 60)"
    using False by (simp_all add: sdiv_neg smod_neg)
  have "- (?a mod 3600) sdiv 60 = - (?a mod 3600 div 60)" by (rule sdiv_minus) simp
  then show ?thesis using hms_sum [of ?a] unfolding e by linarith
qed

lemma smod_sign: "0 \<le> s \<Longrightarrow> 0 \<le> s smod 60" "s \<le> 0 \<Longrightarrow> s smod 60 \<le> 0" for s :: int
  by (cases "s = 0"; simp add: smod_nonneg smod_neg)+

definition clock_text :: "duration \<Rightarrow> bool \<Rightarrow> string" where
  "clock_text d e = (let secs = eff_secs d; ns = eff_nanos d; s = secs smod 60 in
     opt_part (secs sdiv 3600) (CHR ''H'') @ opt_part (secs smod 3600 sdiv 60) (CHR ''M'')
     @ (if s \<noteq> 0 \<or> ns \<noteq> 0 \<or> secs = 0 \<and> e then sec_text s ns else []))"

lemma duration_text:
  assumes "good_duration d"
  shows
  "\<exists>e. duration_string d = dur_date_string d @ (if has_clock d then CHR ''T'' # clock_text d e else [])
     \<and> (has_clock d \<and> eff_secs d = 0 \<and> eff_nanos d = 0 \<longrightarrow> e)"
proof -
  let ?secs = "eff_secs d"
  let ?e = "dur_date_string d @ CHR ''T'' # opt_part (?secs sdiv 3600) (CHR ''H'')
      @ opt_part (?secs smod 3600 sdiv 60) (CHR ''M'') = ''PT''"
  have pair: "(if seconds d < 0 \<and> nanos d > 0 then (seconds d + 1, nanos d - nsPerSec) else (seconds d, nanos d))
      = (eff_secs d, eff_nanos d)" by (simp add: eff_secs_def eff_nanos_def)
  have "duration_string d = dur_date_string d @ (if has_clock d then CHR ''T'' # clock_text d ?e else [])"
  proof (cases "has_clock d")
    case True
    then show ?thesis
      unfolding duration_string_def Let_def pair prod.case
      by (simp add: has_clock_def clock_text_def Let_def opt_part_def sec_text_def del: abs_0_eq abs_zero)
  next
    case False
    then have "(seconds d \<noteq> 0 \<or> nanos d \<noteq> 0 \<or> (months d = 0 \<and> days d = 0)) = False"
      by (simp add: has_clock_def)
    with False show ?thesis unfolding duration_string_def Let_def by (simp only: if_False append_Nil2)
  qed
  moreover have "has_clock d \<and> eff_secs d = 0 \<and> eff_nanos d = 0 \<longrightarrow> ?e"
    using assms by (auto simp: good_duration_def has_clock_def eff_secs_def eff_nanos_def dur_date_text opt_part_def split: if_splits)
  ultimately show ?thesis by blast
qed

definition read_parts :: "duration \<Rightarrow> durParts" where
  "read_parts d = newDurParts\<lparr>p_years := of_int (months d sdiv 12), p_months := of_int (months d smod 12),
     p_days := of_int (days d), p_hours := of_int (eff_secs d sdiv 3600),
     p_minutes := of_int (eff_secs d smod 3600 sdiv 60),
     p_seconds := of_int (eff_secs d smod 60) + of_int (eff_nanos d) / 10 ^ 9\<rparr>"

lemma dur_loop_date:
  "dur_loop False newDurParts (opt_part y (CHR ''Y'') @ opt_part m (CHR ''M'') @ opt_part da (CHR ''D'') @ r)
    = dur_loop False (newDurParts\<lparr>p_years := of_int y, p_months := of_int m, p_days := of_int da\<rparr>) r"
proof -
  have L: "dur_letter (CHR ''Y'')" "dur_letter (CHR ''M'')" "dur_letter (CHR ''D'')" by (simp_all add: dur_letter_def)
  show ?thesis
    by (subst dur_loop_opt [OF L(1)], simp add: set_part_def, simp add: newDurParts_def,
        subst dur_loop_opt [OF L(2)], simp add: set_part_def, simp add: newDurParts_def,
        subst dur_loop_opt [OF L(3)], simp add: set_part_def, simp add: newDurParts_def, simp)
qed

lemma dur_loop_clock:
  assumes "good_duration d" "p_hours p = 0" "p_minutes p = 0" "p_seconds p = 0"
  shows "dur_loop True p (clock_text d e) = Inr (p\<lparr>p_hours := of_int (eff_secs d sdiv 3600),
     p_minutes := of_int (eff_secs d smod 3600 sdiv 60),
     p_seconds := of_int (eff_secs d smod 60) + of_int (eff_nanos d) / 10 ^ 9\<rparr>)"
proof -
  have L: "dur_letter (CHR ''H'')" "dur_letter (CHR ''M'')" by (simp_all add: dur_letter_def)
  let ?h = "eff_secs d sdiv 3600" and ?m = "eff_secs d smod 3600 sdiv 60" and ?s = "eff_secs d smod 60"
  let ?q = "p\<lparr>p_hours := of_int ?h, p_minutes := of_int ?m\<rparr>"
  have sg: "0 \<le> ?s \<and> 0 \<le> eff_nanos d \<or> ?s \<le> 0 \<and> eff_nanos d \<le> 0"
    using eff_signs(1) [OF assms(1)] smod_sign [of "eff_secs d"] by blast
  have fin: "dur_loop True ?q [] = Inr ?q" by (simp add: dur_loop.simps [of True ?q])
  have "dur_loop True p (clock_text d e) = dur_loop True ?q
      (if ?s \<noteq> 0 \<or> eff_nanos d \<noteq> 0 \<or> eff_secs d = 0 \<and> e then sec_text ?s (eff_nanos d) else [])"
    unfolding clock_text_def Let_def using assms(2,3)
    by (subst dur_loop_opt [OF L(1)], simp add: set_part_def, simp,
        subst dur_loop_opt [OF L(2)], simp add: set_part_def, simp_all)
  also have "\<dots> = Inr (?q\<lparr>p_seconds := of_int ?s + of_int (eff_nanos d) / 10 ^ 9\<rparr>)"
    using dur_loop_sec [OF sg eff_signs(2) [OF assms(1)], of ?q] fin assms(4) by simp
  finally show ?thesis by simp
qed

lemma build_read_parts:
  assumes "good_duration d"
  shows "build (read_parts d) = Inr d"
proof -
  have c: "clock_nanos (read_parts d) 0 = of_int (totalNanosBig d)"
  proof -
    have "clock_nanos (read_parts d) 0 = of_int ((eff_secs d sdiv 3600 * 3600
        + eff_secs d smod 3600 sdiv 60 * 60 + eff_secs d smod 60) * nsPerSec + eff_nanos d)"
      by (simp add: clock_nanos_def read_parts_def newDurParts_def algebra_simps)
    then show ?thesis unfolding hms_sum_sdiv eff_total .
  qed
  have m: "p_years (read_parts d) * 12 + p_months (read_parts d) = of_int (months d)"
  proof -
    have "p_years (read_parts d) * 12 + p_months (read_parts d) = of_int (months d sdiv 12 * 12 + months d smod 12)"
      by (simp add: read_parts_def)
    then show ?thesis by (simp only: sdiv_smod)
  qed
  have "p_weeks (read_parts d) * 7 + p_days (read_parts d) = of_int (days d)"
    by (simp add: read_parts_def newDurParts_def)
  from build_whole [OF m this c] show ?thesis
    using assms durationFromNanos_self [OF assms] by (simp add: good_duration_def)
qed

lemma parseDuration_string:
  assumes "good_duration d"
  shows "parseDuration (duration_string d) = Inr d"
proof -
  let ?y = "months d sdiv 12" and ?m = "months d smod 12"
  let ?date = "opt_part ?y (CHR ''Y'') @ opt_part ?m (CHR ''M'') @ opt_part (days d) (CHR ''D'')"
  obtain e where e: "has_clock d \<and> eff_secs d = 0 \<and> eff_nanos d = 0 \<longrightarrow> e"
    and s: "duration_string d = CHR ''P'' # ?date @ (if has_clock d then CHR ''T'' # clock_text d e else [])"
    using duration_text [OF assms] by (auto simp: dur_date_text)
  define body where "body = ?date @ (if has_clock d then CHR ''T'' # clock_text d e else [])"
  have ym: "months d \<noteq> 0 \<Longrightarrow> ?y \<noteq> 0 \<or> ?m \<noteq> 0" using sdiv_smod [of "months d" 12] by auto
  have L: "dur_letter (CHR ''Y'')" "dur_letter (CHR ''M'')" "dur_letter (CHR ''D'')" by (simp_all add: dur_letter_def)
  have z: "opt_part 0 u = []" for u by (simp add: opt_part_def)
  have "reDurDate body = None"
  proof -
    consider "?y \<noteq> 0" | "?y = 0" "?m \<noteq> 0" | "?y = 0" "?m = 0" "days d \<noteq> 0" | "?y = 0" "?m = 0" "days d = 0" by blast
    then show ?thesis
    proof cases
      case 4
      then have "has_clock d" using ym by (auto simp: has_clock_def)
      with 4 show ?thesis by (simp add: body_def z reDurDate_T)
    qed (simp_all add: body_def z reDurDate_opt L)
  qed
  moreover have "dur_loop False newDurParts body = Inr (read_parts d)"
  proof (cases "has_clock d")
    case True
    have zero: "p_hours newDurParts = 0" "p_minutes newDurParts = 0" "p_seconds newDurParts = 0"
      by (simp_all add: newDurParts_def)
    show ?thesis
      unfolding body_def append_assoc dur_loop_date using True zero
      by (simp add: dur_loop_T dur_loop_clock [OF assms] read_parts_def)
  next
    case False
    then have "eff_secs d = 0" "eff_nanos d = 0" by (simp_all add: has_clock_def eff_secs_def eff_nanos_def)
    then show ?thesis
      unfolding body_def append_assoc dur_loop_date using False
      by (simp add: dur_loop.simps [of False] read_parts_def newDurParts_def)
  qed
  moreover have "body \<noteq> [] \<and> body \<noteq> ''T''"
  proof (cases "has_clock d")
    case True
    have "clock_text d e \<noteq> []"
    proof
      assume "clock_text d e = []"
      then have "eff_secs d sdiv 3600 = 0" "eff_secs d smod 3600 sdiv 60 = 0" "eff_secs d smod 60 = 0"
        "eff_nanos d = 0" "\<not> (eff_secs d = 0 \<and> e)"
        by (auto simp: clock_text_def Let_def opt_part_def sec_text_def split: if_splits)
      with hms_sum_sdiv [of "eff_secs d"] True e show False by simp
    qed
    then show ?thesis using True by (cases ?date) (auto simp: body_def)
  next
    case False
    have one: "opt_part n u \<noteq> [] \<and> opt_part n u \<noteq> ''T''" if "n \<noteq> 0" "dur_letter u" for n u
      using that by (auto simp: opt_part_def dur_letter_def)
    then have app: "opt_part n u @ r \<noteq> [] \<and> opt_part n u @ r \<noteq> ''T''" if "n \<noteq> 0" "dur_letter u" for n u r
      using that by (auto simp: append_eq_Cons_conv)
    consider "?y \<noteq> 0" | "?y = 0" "?m \<noteq> 0" | "?y = 0" "?m = 0" "days d \<noteq> 0"
      using False ym by (auto simp: has_clock_def)
    then show ?thesis
      by cases (use False app one L in \<open>simp_all add: body_def z\<close>)
  qed
  moreover have s2: "duration_string d = CHR ''P'' # body" by (simp add: s body_def)
  ultimately show ?thesis
    unfolding parseDuration_def s2 using build_read_parts [OF assms]
    by (cases body) (simp_all add: atoi_split_def negateIf_def)
qed
end
