(* ===== verification/TemporalArith.thy ===== *)
theory TemporalArith
  imports TemporalParse
begin

text \<open>
  Arithmetic and comparison of temporal values: cypher/temporal/arith.go. The lemmas say
  when moving a wall clock by a duration is exact, and that comparing values is comparing
  the instants or clocks they denote.
\<close>

section \<open>Operations\<close>

definition go_mod :: "int \<Rightarrow> int \<Rightarrow> int" where
  "go_mod a b = (let r = a smod b in if r < 0 then r + b else r)"

definition checkedDate :: "gtime \<Rightarrow> terr + gtime" where
  "checkedDate t = (if t_year t < -999999999 \<or> t_year t > 999999999 then Inl ''year %d is out of range'' else Inr t)"

definition wrapDay :: "int \<Rightarrow> int \<Rightarrow> int" where
  "wrapDay ns delta = go_mod (ns + delta mod nsPerDay) nsPerDay"

text \<open>Seconds and nanoseconds are added in two steps; the product is a 64-bit \<open>time.Duration\<close>.\<close>

definition addBig :: "gtime \<Rightarrow> int \<Rightarrow> gtime" where
  "addBig t ns = t_add (t_add t (w64 (w64 (ns div nsPerSec) * nsPerSec))) (ns mod nsPerSec)"

definition shift :: "tval \<Rightarrow> duration \<Rightarrow> terr + tval" where
  "shift v d = (let ns = totalNanosBig d in
     case v of
       TDate t \<Rightarrow> (let extraDays = ns sdiv nsPerDay in
         if \<not> in64 extraDays then Inl ''duration is out of range''
         else bindE (checkedDate (add_date (addMonths t (months d)) 0 0 (w64 (days d + extraDays)))) (\<lambda>t. Inr (TDate t)))
     | TLocalTime n \<Rightarrow> Inr (TLocalTime (wrapDay n ns))
     | TTime n off \<Rightarrow> Inr (TTime (wrapDay n ns) off)
     | TLocalDateTime t \<Rightarrow> Inr (TLocalDateTime (addBig (add_date (addMonths t (months d)) 0 0 (days d)) ns))
     | TDateTime t named \<Rightarrow>
         (let wall = add_date (addMonths (at_wall t UTC) (months d)) 0 0 (days d);
              moved = at_wall wall (gloc t)
          in Inr (TDateTime (addBig moved ns) named))
     | TDuration _ \<Rightarrow> Inl ''cannot add a duration to %s'')"

definition tval_add :: "tval \<Rightarrow> tval \<Rightarrow> terr + tval" where
  "tval_add a b = (case b of
       TDuration d \<Rightarrow> (case a of TDuration da \<Rightarrow> bindE (dur_plus da d) (\<lambda>r. Inr (TDuration r)) | _ \<Rightarrow> shift a d)
     | _ \<Rightarrow> (case a of TDuration d \<Rightarrow> shift b d | _ \<Rightarrow> Inl ''cannot add %s and %s''))"

definition tval_sub :: "tval \<Rightarrow> tval \<Rightarrow> terr + tval" where
  "tval_sub a b = (case b of
       TDuration d \<Rightarrow> (case a of TDuration da \<Rightarrow> bindE (dur_minus da d) (\<lambda>r. Inr (TDuration r)) | _ \<Rightarrow> shift a (dur_neg d))
     | _ \<Rightarrow> Inl ''cannot subtract %s from %s'')"

text \<open>The UTC clock of a zoned time.\<close>

definition utc_clock :: "int \<Rightarrow> int \<Rightarrow> int" where
  "utc_clock ns off = ns - off * nsPerSec"

definition tval_equal :: "tval \<Rightarrow> tval \<Rightarrow> bool" where
  "tval_equal a b = (case (a, b) of
       (TDate x, TDate y) \<Rightarrow> t_equal x y
     | (TLocalTime x, TLocalTime y) \<Rightarrow> x = y
     | (TTime x o1, TTime y o2) \<Rightarrow> utc_clock x o1 = utc_clock y o2 \<and> o1 = o2
     | (TLocalDateTime x, TLocalDateTime y) \<Rightarrow> t_equal x y
     | (TDateTime x n1, TDateTime y n2) \<Rightarrow>
         t_equal x y \<and> t_zone x = t_zone y \<and> n1 = n2 \<and> (\<not> n1 \<or> loc_name (gloc x) = loc_name (gloc y))
     | (TDuration x, TDuration y) \<Rightarrow> x = y
     | _ \<Rightarrow> False)"

definition cmpTime :: "gtime \<Rightarrow> gtime \<Rightarrow> int" where
  "cmpTime a b = (if t_before a b then -1 else if t_before b a then 1 else 0)"

definition cmpInt :: "int \<Rightarrow> int \<Rightarrow> int" where
  "cmpInt a b = (if a < b then -1 else if b < a then 1 else 0)"

definition tval_compare :: "tval \<Rightarrow> tval \<Rightarrow> int option" where
  "tval_compare a b = (case (a, b) of
       (TDate x, TDate y) \<Rightarrow> Some (cmpTime x y)
     | (TLocalTime x, TLocalTime y) \<Rightarrow> Some (cmpInt x y)
     | (TTime x o1, TTime y o2) \<Rightarrow> Some (cmpInt (utc_clock x o1) (utc_clock y o2))
     | (TLocalDateTime x, TLocalDateTime y) \<Rightarrow> Some (cmpTime x y)
     | (TDateTime x _, TDateTime y _) \<Rightarrow> Some (cmpTime x y)
     | _ \<Rightarrow> None)"

section \<open>Clocks wrap at midnight\<close>

lemma go_mod_eq: "0 < b \<Longrightarrow> go_mod a b = a mod b"
proof (cases "0 \<le> a")
  case True
  assume "0 < b"
  with True show ?thesis by (simp add: go_mod_def smod_nonneg Let_def not_less)
next
  case False
  assume "0 < b"
  with False pos_mod_bound [of b a] pos_mod_sign [of b a] show ?thesis
    by (simp add: go_mod_def smod_neg Let_def zmod_zminus1_eq_if order_less_le)
qed

lemma wrapDay_eq: "wrapDay ns delta = (ns + delta) mod nsPerDay"
  by (simp add: wrapDay_def go_mod_eq mod_add_right_eq)

lemma wrapDay_good [simp]: "good_clock (wrapDay ns delta)"
  by (simp add: good_clock_def wrapDay_eq)

lemma wrapDay_back:
  assumes "good_clock n"
  shows "wrapDay (wrapDay n delta) (- delta) = n"
proof -
  have "wrapDay (wrapDay n delta) (- delta) = (n + delta - delta) mod nsPerDay"
    by (simp add: wrapDay_eq mod_diff_left_eq)
  then show ?thesis using assms by (simp add: good_clock_def mod_pos_pos_trivial)
qed

section \<open>Comparison\<close>

text \<open>An instant as a number of nanoseconds.\<close>

definition inst_nanos :: "gtime \<Rightarrow> int" where
  "inst_nanos t = gsec t * nsPerSec + gnano t"

lemma inst_nanos_less:
  assumes "good_time a" "good_time b"
  shows "t_before a b \<longleftrightarrow> inst_nanos a < inst_nanos b"
proof (cases "gsec a = gsec b")
  case True
  then show ?thesis by (simp add: t_before_def inst_nanos_def)
next
  case False
  then have "gsec a + 1 \<le> gsec b \<or> gsec b + 1 \<le> gsec a" by linarith
  then show ?thesis
    using assms by (auto simp: t_before_def inst_nanos_def good_time_def)
qed

lemma inst_nanos_eq:
  assumes "good_time a" "good_time b"
  shows "t_equal a b \<longleftrightarrow> inst_nanos a = inst_nanos b"
proof
  assume "inst_nanos a = inst_nanos b"
  moreover have "inst_nanos x div nsPerSec = gsec x \<and> inst_nanos x mod nsPerSec = gnano x" if "good_time x" for x
    using that by (simp add: inst_nanos_def good_time_def div_pos_pos_trivial mod_pos_pos_trivial)
  ultimately show "t_equal a b" using assms unfolding t_equal_def by metis
qed (simp add: t_equal_def inst_nanos_def)

lemma cmpTime_nanos: "good_time a \<Longrightarrow> good_time b \<Longrightarrow> cmpTime a b = cmpInt (inst_nanos a) (inst_nanos b)"
  by (simp add: cmpTime_def cmpInt_def inst_nanos_less)

text \<open>What a value of an orderable kind is ordered by.\<close>

fun order_key :: "tval \<Rightarrow> int" where
  "order_key (TDate t) = inst_nanos t"
| "order_key (TLocalTime n) = n"
| "order_key (TTime n off) = utc_clock n off"
| "order_key (TLocalDateTime t) = inst_nanos t"
| "order_key (TDateTime t _) = inst_nanos t"
| "order_key (TDuration d) = 0"

fun timed :: "tval \<Rightarrow> bool" where
  "timed (TDate t) = good_time t"
| "timed (TLocalDateTime t) = good_time t"
| "timed (TDateTime t _) = good_time t"
| "timed _ = True"

lemma tval_compare_key:
  assumes "timed a" "timed b"
  shows "tval_compare a b =
    (if tkind a = tkind b \<and> tkind a \<noteq> KindDuration then Some (cmpInt (order_key a) (order_key b)) else None)"
  using assms by (cases a; cases b) (simp_all add: tval_compare_def cmpTime_nanos)

lemma cmpInt_simps: "cmpInt a b = 0 \<longleftrightarrow> a = b" "cmpInt a b \<le> 0 \<longleftrightarrow> a \<le> b"
  by (simp_all add: cmpInt_def)

lemma cmpInt_anti: "cmpInt b a = - cmpInt a b"
  by (simp add: cmpInt_def)

lemma tval_compare_order:
  assumes "timed a" "timed b" "timed c" "tkind a = tkind b" "tkind b = tkind c" "tkind a \<noteq> KindDuration"
  shows "\<exists>i j. tval_compare a b = Some i \<and> tval_compare b a = Some (- i) \<and> tval_compare b c = Some j
    \<and> (i = 0 \<longleftrightarrow> order_key a = order_key b) \<and> (i \<le> 0 \<and> j \<le> 0 \<longrightarrow> (\<exists>k \<le> 0. tval_compare a c = Some k))"
proof -
  have "tval_compare a b = Some (cmpInt (order_key a) (order_key b))"
    "tval_compare b a = Some (cmpInt (order_key b) (order_key a))"
    "tval_compare b c = Some (cmpInt (order_key b) (order_key c))"
    "tval_compare a c = Some (cmpInt (order_key a) (order_key c))"
    using assms by (simp_all add: tval_compare_key)
  then show ?thesis by (auto simp: cmpInt_def)
qed

lemma tval_equal_compare: "timed a \<Longrightarrow> timed b \<Longrightarrow> tval_equal a b \<Longrightarrow> tkind a \<noteq> KindDuration \<Longrightarrow> tval_compare a b = Some 0"
  by (cases a; cases b) (simp_all add: tval_equal_def tval_compare_def cmpTime_nanos cmpInt_simps inst_nanos_eq)

text \<open>Canonical values: the ones the constructors build and the parser reads back.\<close>

fun canonical :: "tval \<Rightarrow> bool" where
  "canonical (TDate t) = canonical_date t"
| "canonical (TLocalTime n) = good_clock n"
| "canonical (TTime n off) = (good_clock n \<and> \<bar>off\<bar> \<le> 18 * 3600)"
| "canonical (TLocalDateTime t) = canonical_local t"
| "canonical (TDateTime t named) = (\<not> named \<and> canonical_fixed t)"
| "canonical (TDuration d) = good_duration d"

lemma t_equal_record: "t_equal a b \<Longrightarrow> gloc a = gloc b \<Longrightarrow> a = b"
  by (cases a; cases b) (simp add: t_equal_def)

lemma fixed_loc_eq: "fixed_loc (gloc a) \<Longrightarrow> fixed_loc (gloc b) \<Longrightarrow> t_zone a = t_zone b \<Longrightarrow> gloc a = gloc b"
  by (auto simp: fixed_loc_def t_zone_def)

lemma canonical_equal:
  assumes "canonical a" "canonical b"
  shows "tval_equal a b \<longleftrightarrow> a = b"
proof
  assume e: "tval_equal a b"
  then have "tkind a = tkind b" by (cases a; cases b) (simp_all add: tval_equal_def)
  then show "a = b"
  proof (cases a)
    case (TDateTime x n)
    then obtain y m where b: "b = TDateTime y m" using \<open>tkind a = tkind b\<close> by (cases b) auto
    then have "gloc x = gloc y"
      using e assms TDateTime by (intro fixed_loc_eq) (simp_all add: tval_equal_def canonical_fixed_def)
    then show ?thesis using e TDateTime b by (simp add: tval_equal_def t_equal_record)
  next
    case (TDate x)
    then obtain y where b: "b = TDate y" using \<open>tkind a = tkind b\<close> by (cases b) auto
    then have "gloc x = gloc y" using assms TDate by (auto simp: canonical_date_def)
    then show ?thesis using e TDate b by (simp add: tval_equal_def t_equal_record)
  next
    case (TLocalDateTime x)
    then obtain y where b: "b = TLocalDateTime y" using \<open>tkind a = tkind b\<close> by (cases b) auto
    then have "gloc x = gloc y" using assms TLocalDateTime by (simp add: canonical_local_def)
    then show ?thesis using e TLocalDateTime b by (simp add: tval_equal_def t_equal_record)
  next
    case (TTime x o1)
    then obtain y o2 where b: "b = TTime y o2" using \<open>tkind a = tkind b\<close> by (cases b) auto
    then show ?thesis using e TTime by (simp add: tval_equal_def utc_clock_def)
  qed (use e \<open>tkind a = tkind b\<close> in \<open>(cases b; simp add: tval_equal_def)\<close>)+
next
  have "tval_equal a a" by (cases a) (simp_all add: tval_equal_def t_equal_def)
  moreover assume "a = b"
  ultimately show "tval_equal a b" by simp
qed

lemma parse_tval_string:
  assumes "canonical v"
  shows "parse_tval tz (tkind v) (tval_string v) = Inr v"
proof -
  note p = parse_tval_def tkind.simps kind.case tval_string.simps bindE.simps prod.case
  show ?thesis
  proof (cases v)
    case (TDateTime t named)
    then have "named = False" "canonical_fixed t" using assms by simp_all
    then show ?thesis by (simp only: TDateTime p parseDateTime_string)
  next
    case (TDate t)
    with assms have "canonical_date t" by simp
    then show ?thesis by (simp only: TDate p parseDate_string)
  next
    case (TLocalTime t)
    with assms have "good_clock t" by simp
    then show ?thesis by (simp only: TLocalTime p parseLocalTime_string)
  next
    case (TTime t off)
    with assms have "good_clock t \<and> \<bar>off\<bar> \<le> 18 * 3600" by simp
    then show ?thesis by (simp only: TTime p parseTime_string)
  next
    case (TLocalDateTime t)
    with assms have "canonical_local t" by simp
    then show ?thesis by (simp only: TLocalDateTime p parseLocalDateTime_string)
  next
    case (TDuration d)
    with assms have "good_duration d" by simp
    then show ?thesis by (simp only: TDuration p parseDuration_string)
  qed
qed

lemma tval_string_inj:
  assumes "canonical a" "canonical b" "tkind a = tkind b" "tval_string a = tval_string b"
  shows "a = b"
proof -
  have "Inr a = parse_tval (\<lambda>_. None) (tkind b) (tval_string b)"
    using parse_tval_string [OF assms(1), of "\<lambda>_. None"] unfolding assms(3,4) by (rule sym)
  also have "\<dots> = Inr b" by (rule parse_tval_string [OF assms(2)])
  finally show ?thesis by (simp only: sum.inject)
qed

end
