(* ===== verification/TemporalMaps.thy ===== *)
theory TemporalMaps
  imports TemporalArith
begin

text \<open>
  Constructing and taking apart temporal values: cypher/temporal/construct.go and access.go.
  A Cypher map is an association list of keys and arguments. The clock behind \<open>time.Now\<close>,
  the time zone database and the platform's conversion of floats that do not fit an int64
  are the fields of an environment.
\<close>

section \<open>Arguments\<close>

datatype targ = AInt int | AFloat f64 | AStr string | ATemp tval | AMap "(string \<times> targ) list" | AOther

type_synonym targs = "(string \<times> targ) list"

record tenv =
  tzdb :: tzdata
  platform_int :: "f64 \<Rightarrow> int"
  now_at :: gtime

section \<open>Conversions between kinds\<close>

record parts =
  pt_date :: "gtime option"
  pt_time :: "int option"
  pt_zone :: "zoneSpec option"
  pt_instant :: "gtime option"

definition no_parts :: parts where
  "no_parts = \<lparr>pt_date = None, pt_time = None, pt_zone = None, pt_instant = None\<rparr>"

definition partsOf :: "tval \<Rightarrow> parts" where
  "partsOf v = (case v of
       TDate t \<Rightarrow> no_parts\<lparr>pt_date := Some t\<rparr>
     | TLocalTime n \<Rightarrow> no_parts\<lparr>pt_time := Some n\<rparr>
     | TTime n off \<Rightarrow> no_parts\<lparr>pt_time := Some n, pt_zone := Some (fixedZone off)\<rparr>
     | TLocalDateTime t \<Rightarrow> no_parts\<lparr>pt_date := Some (midnight t), pt_time := Some (wallNanos t)\<rparr>
     | TDateTime t named \<Rightarrow> \<lparr>pt_date = Some (midnight t), pt_time = Some (wallNanos t),
         pt_zone = Some (dt_zone t named), pt_instant = Some t\<rparr>
     | TDuration d \<Rightarrow> no_parts)"

definition instantOffset :: "parts \<Rightarrow> int" where
  "instantOffset p = (case pt_instant p of Some t \<Rightarrow> t_zone t | None \<Rightarrow> 0)"

definition mk_datetime :: "gtime \<times> bool \<Rightarrow> tval" where
  "mk_datetime tn = TDateTime (fst tn) (snd tn)"

definition default0 :: "int option \<Rightarrow> int" where
  "default0 x = (case x of Some n \<Rightarrow> n | None \<Rightarrow> 0)"

definition convert :: "kind \<Rightarrow> tval \<Rightarrow> terr + tval" where
  "convert k v =
    (if tkind v = k then Inr v
     else let p = partsOf v in
       case k of
         KindDate \<Rightarrow> (case pt_date p of None \<Rightarrow> Inl ''cannot convert %s to a date'' | Some d \<Rightarrow> Inr (TDate d))
       | KindLocalTime \<Rightarrow> (case pt_time p of None \<Rightarrow> Inl ''cannot convert %s to a local time'' | Some t \<Rightarrow> Inr (TLocalTime t))
       | KindTime \<Rightarrow> (case pt_time p of None \<Rightarrow> Inl ''cannot convert %s to a time''
           | Some t \<Rightarrow> (case pt_zone p of None \<Rightarrow> Inr (TTime t 0)
             | Some z \<Rightarrow> (case pt_date p of
                 Some d \<Rightarrow> Inr (TTime t (offsetAt z (combineLocal d t)))
               | None \<Rightarrow> Inr (TTime t (instantOffset p)))))
       | KindLocalDateTime \<Rightarrow> (case pt_date p of None \<Rightarrow> Inl ''cannot convert %s to a local datetime''
           | Some d \<Rightarrow> Inr (TLocalDateTime (combineLocal d (default0 (pt_time p)))))
       | KindDateTime \<Rightarrow> (case pt_date p of None \<Rightarrow> Inl ''cannot convert %s to a datetime''
           | Some d \<Rightarrow> (case v of TDateTime t named \<Rightarrow> Inr v
               | _ \<Rightarrow> Inr (mk_datetime (zone_at utc_zone (combineLocal d (default0 (pt_time p)))))))
       | KindDuration \<Rightarrow> Inl ''cannot convert to %s'')"

definition temporal_now :: "tenv \<Rightarrow> kind \<Rightarrow> targs \<Rightarrow> gtime \<Rightarrow> terr + tval" where
  "temporal_now env k m inst =
    bindE (case map_of m ''timezone'' of
        None \<Rightarrow> Inr utc_zone
      | Some (AStr s) \<Rightarrow> parseZone (tzdb env) s
      | Some _ \<Rightarrow> Inl ''timezone must be a string'')
     (\<lambda>zone. convert k (TDateTime (t_in inst (zloc zone)) (znamed zone)))"

section \<open>Maps\<close>

definition dateKeys :: "string list" where
  "dateKeys = [''year'', ''month'', ''day'', ''week'', ''dayOfWeek'', ''ordinalDay'', ''quarter'', ''dayOfQuarter'']"

definition timeKeys :: "string list" where
  "timeKeys = [''hour'', ''minute'', ''second'', ''millisecond'', ''microsecond'', ''nanosecond'']"

definition intArg :: "tenv \<Rightarrow> targs \<Rightarrow> string \<Rightarrow> terr + int option" where
  "intArg env m key = (case map_of m key of
       None \<Rightarrow> Inr None
     | Some (AInt x) \<Rightarrow> if x > 4294967294 \<or> x < -4294967296 then Inl ''%s %d is out of range'' else Inr (Some x)
     | Some (AFloat x) \<Rightarrow> if f_eq x (f_trunc x) then Inr (Some (int_of_f64 (platform_int env) x))
                          else Inl ''%s must be an integer''
     | Some _ \<Rightarrow> Inl ''%s must be an integer'')"

definition has_key :: "targs \<Rightarrow> string \<Rightarrow> bool" where
  "has_key m k \<longleftrightarrow> map_of m k \<noteq> None"

definition get_int :: "tenv \<Rightarrow> targs \<Rightarrow> string \<Rightarrow> int \<Rightarrow> terr + int" where
  "get_int env m key d = bindE (intArg env m key) (\<lambda>r. Inr (case r of None \<Rightarrow> d | Some v \<Rightarrow> v))"

text \<open>The components a missing key falls back to: those of the base date, or the first of each.\<close>

definition base_fields :: "gtime option \<Rightarrow> (int \<times> int \<times> int) \<times> (int \<times> int \<times> int) \<times> (int \<times> int \<times> int)" where
  "base_fields base = (case base of
       None \<Rightarrow> ((0, 1, 1), (0, 1, 1), (1, 1, 1))
     | Some b \<Rightarrow> ((t_year b, t_month b, t_dom b), (date_weekyear b, date_week b, date_weekday b),
                  (t_yearday b, date_quarter b, date_dayofquarter b)))"

definition resolveDate :: "tenv \<Rightarrow> targs \<Rightarrow> gtime option \<Rightarrow> terr + gtime" where
  "resolveDate env m base =
    (if \<not> has_key m ''year'' \<and> base = None then Inl ''a year is required to construct a date''
     else case base_fields base of ((yr, mon, day1), (wy, wk, dow), (ord, qtr, doq)) \<Rightarrow>
       if has_key m ''week'' \<or> has_key m ''dayOfWeek'' then
         bindE (get_int env m ''year'' (if base \<noteq> None then wy else yr)) (\<lambda>y.
         bindE (get_int env m ''week'' wk) (\<lambda>w.
         bindE (get_int env m ''dayOfWeek'' dow) (\<lambda>d. dateFromWeek y w d)))
       else if has_key m ''ordinalDay'' then
         bindE (get_int env m ''year'' yr) (\<lambda>y.
         bindE (get_int env m ''ordinalDay'' ord) (\<lambda>o'. dateFromOrdinal y o'))
       else if has_key m ''quarter'' \<or> has_key m ''dayOfQuarter'' then
         bindE (get_int env m ''year'' yr) (\<lambda>y.
         bindE (get_int env m ''quarter'' qtr) (\<lambda>q.
         bindE (get_int env m ''dayOfQuarter'' doq) (\<lambda>dq. dateFromQuarter y q dq)))
       else
         bindE (get_int env m ''year'' yr) (\<lambda>y.
         bindE (get_int env m ''month'' mon) (\<lambda>mo.
         bindE (get_int env m ''day'' day1) (\<lambda>d. newDate y mo d))))"

definition resolveTime :: "tenv \<Rightarrow> targs \<Rightarrow> int option \<Rightarrow> terr + int" where
  "resolveTime env m base =
    (case (case base of None \<Rightarrow> (0, 0, 0, 0) | Some b \<Rightarrow> hms b) of (bh, bmi, bs, bn) \<Rightarrow>
       bindE (get_int env m ''hour'' bh) (\<lambda>h.
       bindE (get_int env m ''minute'' bmi) (\<lambda>mi.
       bindE (get_int env m ''second'' bs) (\<lambda>s.
       bindE (get_int env m ''millisecond'' (bn sdiv 1000000)) (\<lambda>ms.
       bindE (get_int env m ''microsecond'' (bn sdiv 1000 smod 1000)) (\<lambda>us.
       bindE (get_int env m ''nanosecond'' (bn smod 1000)) (\<lambda>ns.
         newLocalTime h mi s (w64 (ms * 1000000 + us * 1000 + ns)))))))))"

text \<open>The base values of a map, in the order datetime, date, time.\<close>

definition base_value :: "targs \<Rightarrow> string \<Rightarrow> terr + parts option" where
  "base_value m key = (case map_of m key of
       None \<Rightarrow> Inr None
     | Some (ATemp v) \<Rightarrow> if tkind v = KindDuration then Inl ''%s must be a temporal value'' else Inr (Some (partsOf v))
     | Some _ \<Rightarrow> Inl ''%s must be a temporal value'')"

definition base_parts :: "targs \<Rightarrow> terr + parts" where
  "base_parts m =
    bindE (base_value m ''datetime'') (\<lambda>r.
    bindE (case r of None \<Rightarrow> Inr no_parts
       | Some p \<Rightarrow> if pt_date p = None \<or> pt_time p = None then Inl ''datetime must be a datetime value'' else Inr p) (\<lambda>base.
    bindE (base_value m ''date'') (\<lambda>r.
    bindE (case r of None \<Rightarrow> Inr base
       | Some p \<Rightarrow> if pt_date p = None then Inl ''date must be a value with a date part''
                   else Inr (base\<lparr>pt_date := pt_date p\<rparr>)) (\<lambda>base.
    bindE (base_value m ''time'') (\<lambda>r.
      case r of None \<Rightarrow> Inr base
       | Some p \<Rightarrow> if pt_time p = None then Inl ''time must be a value with a time part''
                   else Inr (base\<lparr>pt_time := pt_time p, pt_zone := pt_zone p, pt_instant := pt_instant p\<rparr>))))))"

definition wants_date :: "kind \<Rightarrow> bool" where
  "wants_date k \<longleftrightarrow> k = KindDate \<or> k = KindLocalDateTime \<or> k = KindDateTime"

definition wants_time :: "kind \<Rightarrow> bool" where
  "wants_time k \<longleftrightarrow> k = KindLocalTime \<or> k = KindTime \<or> k = KindLocalDateTime \<or> k = KindDateTime"

definition wants_zone :: "kind \<Rightarrow> bool" where
  "wants_zone k \<longleftrightarrow> k = KindTime \<or> k = KindDateTime"

definition requested_zone :: "tenv \<Rightarrow> kind \<Rightarrow> targs \<Rightarrow> terr + zoneSpec option" where
  "requested_zone env k m =
    (if \<not> wants_zone k then Inr None
     else case map_of m ''timezone'' of
         None \<Rightarrow> Inr None
       | Some (AStr s) \<Rightarrow> bindE (parseZone (tzdb env) s) (\<lambda>z. Inr (Some z))
       | Some _ \<Rightarrow> Inl ''timezone must be a string'')"

text \<open>
  A zoned datetime base in another zone moves date and time. The flag says that the base's
  zone is then the requested one itself (the source compares the pointers).
\<close>

definition rebase :: "targs \<Rightarrow> zoneSpec option \<Rightarrow> parts \<Rightarrow> parts \<times> bool" where
  "rebase m tz base = (case (tz, pt_instant base) of
       (Some z, Some t) \<Rightarrow>
         if has_key m ''datetime'' then
           (let conv = t_in t (zloc z) in
             (base\<lparr>pt_date := Some (midnight conv), pt_time := Some (wallNanos conv), pt_zone := Some z\<rparr>, True))
         else (base, False)
     | _ \<Rightarrow> (base, False))"

definition epoch_2000 :: gtime where
  "epoch_2000 = go_date 2000 1 1 0 0 0 0 UTC"

definition rezone_time :: "kind \<Rightarrow> zoneSpec option \<Rightarrow> bool \<Rightarrow> gtime \<Rightarrow> parts \<Rightarrow> int option" where
  "rezone_time k tz same date base = (case (tz, pt_zone base, pt_time base) of
       (Some z, Some bz, Some bt) \<Rightarrow>
         if same then pt_time base
         else (let on = (if wants_date k then date else case pt_date base of Some d \<Rightarrow> d | None \<Rightarrow> epoch_2000);
                   src = fst (zone_at bz (combineLocal on bt))
               in Some (wallNanos (t_in src (zloc z))))
     | _ \<Rightarrow> pt_time base)"

definition zero_date :: gtime where
  "zero_date = \<lparr>gsec = - 62135596800, gnano = 0, gloc = UTC\<rparr>"

definition allowed_key :: "string \<Rightarrow> bool" where
  "allowed_key k \<longleftrightarrow> k \<in> set ([''timezone'', ''date'', ''time'', ''datetime''] @ dateKeys @ timeKeys)"

definition fromMap :: "tenv \<Rightarrow> kind \<Rightarrow> targs \<Rightarrow> terr + tval" where
  "fromMap env k m =
    (if \<not> list_all allowed_key (map fst m) then Inl ''unknown key %q for %s() (allowed: %s)''
     else if length m = 1 \<and> has_key m ''timezone'' then temporal_now env k m (now_at env)
     else
       bindE (base_parts m) (\<lambda>base.
       bindE (requested_zone env k m) (\<lambda>tz.
       (case rebase m tz base of (base, same) \<Rightarrow>
       bindE (if wants_date k then resolveDate env m (pt_date base) else Inr zero_date) (\<lambda>date.
       bindE (if wants_time k then resolveTime env m (rezone_time k tz same date base) else Inr 0) (\<lambda>tm.
         let zone = (case tz of Some z \<Rightarrow> z
                     | None \<Rightarrow> (case pt_zone base of Some bz \<Rightarrow> if wants_zone k then bz else utc_zone | None \<Rightarrow> utc_zone))
         in Inr (case k of
             KindDate \<Rightarrow> TDate date
           | KindLocalTime \<Rightarrow> TLocalTime tm
           | KindTime \<Rightarrow> TTime tm (offsetAt zone (t_add epoch_2000 tm))
           | KindLocalDateTime \<Rightarrow> TLocalDateTime (combineLocal date tm)
           | _ \<Rightarrow> mk_datetime (zone_at zone (combineLocal date tm)))))))))"

text \<open>The entries of a duration's map, in turn.\<close>

definition set_slot :: "string \<Rightarrow> rat \<Rightarrow> durParts \<Rightarrow> durParts option" where
  "set_slot k v p =
    (if k = ''years'' then Some (p\<lparr>p_years := v\<rparr>)
     else if k = ''months'' then Some (p\<lparr>p_months := v\<rparr>)
     else if k = ''weeks'' then Some (p\<lparr>p_weeks := v\<rparr>)
     else if k = ''days'' then Some (p\<lparr>p_days := v\<rparr>)
     else if k = ''hours'' then Some (p\<lparr>p_hours := v\<rparr>)
     else if k = ''minutes'' then Some (p\<lparr>p_minutes := v\<rparr>)
     else if k = ''seconds'' then Some (p\<lparr>p_seconds := v\<rparr>)
     else if k = ''milliseconds'' then Some (p\<lparr>p_millis := v\<rparr>)
     else if k = ''microseconds'' then Some (p\<lparr>p_micros := v\<rparr>)
     else if k = ''nanoseconds'' then Some (p\<lparr>p_nanos := v\<rparr>)
     else None)"

definition dur_entry :: "string \<times> targ \<Rightarrow> durParts \<Rightarrow> terr + durParts" where
  "dur_entry kv p = (case set_slot (fst kv) 0 p of
       None \<Rightarrow> Inl ''unknown key %q for duration()''
     | Some _ \<Rightarrow> (case snd kv of
         AInt x \<Rightarrow> (case set_slot (fst kv) (of_int x) p of Some p' \<Rightarrow> Inr p' | None \<Rightarrow> Inr p)
       | AFloat f \<Rightarrow> if f_isnan f \<or> f_isinf f then Inl ''%s must be a finite number''
                     else (case set_slot (fst kv) (ratFloat f) p of Some p' \<Rightarrow> Inr p' | None \<Rightarrow> Inr p)
       | _ \<Rightarrow> Inl ''%s must be a number''))"

definition durationFromMap :: "targs \<Rightarrow> terr + duration" where
  "durationFromMap m = bindE (foldE dur_entry m newDurParts) build"

definition construct :: "tenv \<Rightarrow> kind \<Rightarrow> targ \<Rightarrow> terr + tval" where
  "construct env k arg = (case arg of
       AStr s \<Rightarrow> parse_tval (tzdb env) k s
     | AMap m \<Rightarrow> if k = KindDuration then bindE (durationFromMap m) (\<lambda>d. Inr (TDuration d)) else fromMap env k m
     | ATemp v \<Rightarrow>
         if k = KindDuration then (case v of TDuration d \<Rightarrow> Inr v | _ \<Rightarrow> Inl ''cannot convert %s to a duration'')
         else convert k v
     | _ \<Rightarrow> Inl ''%s() expects a string, a map or a temporal value'')"

definition fromEpoch :: "int \<Rightarrow> int \<Rightarrow> tval" where
  "fromEpoch s ns = TDateTime (unix_time s ns) False"

definition fromEpochMillis :: "int \<Rightarrow> tval" where
  "fromEpochMillis ms = TDateTime (unix_milli ms) False"

section \<open>Components\<close>

datatype tprop = PInt int | PStr string

definition fmtOffset2 :: "int \<Rightarrow> string" where
  "fmtOffset2 off = (if off = 0 then ''Z'' else fmtOffset off)"

definition offsetProp :: "int \<Rightarrow> string \<Rightarrow> string \<Rightarrow> tprop option" where
  "offsetProp off rendered name =
    (if name = ''timezone'' \<or> name = ''offset'' then Some (PStr rendered)
     else if name = ''offsetMinutes'' then Some (PInt (off sdiv 60))
     else if name = ''offsetSeconds'' then Some (PInt off)
     else None)"

definition dateProp :: "gtime \<Rightarrow> string \<Rightarrow> tprop option" where
  "dateProp d name =
    (if name = ''year'' then Some (PInt (t_year d))
     else if name = ''quarter'' then Some (PInt (date_quarter d))
     else if name = ''month'' then Some (PInt (t_month d))
     else if name = ''week'' then Some (PInt (date_week d))
     else if name = ''weekYear'' then Some (PInt (date_weekyear d))
     else if name = ''day'' then Some (PInt (t_dom d))
     else if name = ''ordinalDay'' then Some (PInt (t_yearday d))
     else if name = ''weekDay'' then Some (PInt (date_weekday d))
     else if name = ''dayOfQuarter'' then Some (PInt (date_dayofquarter d))
     else None)"

definition timeProp :: "int \<Rightarrow> string \<Rightarrow> tprop option" where
  "timeProp n name = (case hms n of (h, m, s, ns) \<Rightarrow>
     if name = ''hour'' then Some (PInt h)
     else if name = ''minute'' then Some (PInt m)
     else if name = ''second'' then Some (PInt s)
     else if name = ''millisecond'' then Some (PInt (ns sdiv 1000000))
     else if name = ''microsecond'' then Some (PInt (ns sdiv 1000))
     else if name = ''nanosecond'' then Some (PInt ns)
     else None)"

definition durationProp :: "duration \<Rightarrow> string \<Rightarrow> tprop option" where
  "durationProp d name =
    (let secs = (if seconds d < 0 \<and> nanos d > 0 then seconds d + 1 else seconds d) in
     map_option PInt
      (if name = ''years'' then Some (months d sdiv 12)
       else if name = ''quarters'' then Some (months d sdiv 3)
       else if name = ''months'' then Some (months d)
       else if name = ''weeks'' then Some (days d sdiv 7)
       else if name = ''days'' then Some (days d)
       else if name = ''hours'' then Some (secs sdiv 3600)
       else if name = ''minutes'' then Some (secs sdiv 60)
       else if name = ''seconds'' then Some (seconds d)
       else if name = ''milliseconds'' then Some (w64 (seconds d * 1000 + nanos d sdiv 1000000))
       else if name = ''microseconds'' then Some (w64 (seconds d * 1000000 + nanos d sdiv 1000))
       else if name = ''nanoseconds'' then Some (w64 (seconds d * nsPerSec + nanos d))
       else if name = ''quartersOfYear'' then Some (months d smod 12 sdiv 3)
       else if name = ''monthsOfQuarter'' then Some (months d smod 3)
       else if name = ''monthsOfYear'' then Some (months d smod 12)
       else if name = ''daysOfWeek'' then Some (days d smod 7)
       else if name = ''minutesOfHour'' then Some (secs smod 3600 sdiv 60)
       else if name = ''secondsOfMinute'' then Some (secs smod 60)
       else if name = ''millisecondsOfSecond'' then Some (nanos d sdiv 1000000)
       else if name = ''microsecondsOfSecond'' then Some (nanos d sdiv 1000)
       else if name = ''nanosecondsOfSecond'' then Some (nanos d)
       else None))"

definition or_else :: "'a option \<Rightarrow> 'a option \<Rightarrow> 'a option" where
  "or_else a b = (case a of Some x \<Rightarrow> Some x | None \<Rightarrow> b)"

definition tval_property :: "tval \<Rightarrow> string \<Rightarrow> tprop option" where
  "tval_property v name = (case v of
       TDate t \<Rightarrow> dateProp t name
     | TLocalTime n \<Rightarrow> timeProp n name
     | TTime n off \<Rightarrow> or_else (timeProp n name) (offsetProp off (fmtOffset2 off) name)
     | TLocalDateTime t \<Rightarrow> or_else (dateProp (midnight t) name) (timeProp (wallNanos t) name)
     | TDateTime t named \<Rightarrow>
         or_else (dateProp (midnight t) name)
         (or_else (timeProp (wallNanos t) name)
           (if name = ''epochSeconds'' then Some (PInt (gsec t))
            else if name = ''epochMillis'' then Some (PInt (w64 (gsec t * 1000 + gnano t div 1000000)))
            else if name = ''timezone'' then Some (PStr (dt_zone_name t named))
            else offsetProp (t_zone t) (fmtOffset2 (t_zone t)) name))
     | TDuration d \<Rightarrow> durationProp d name)"


section \<open>A constructor builds a value of its kind\<close>

lemma convert_kind: "convert k v = Inr w \<Longrightarrow> tkind w = k"
  unfolding convert_def Let_def
  by (cases k) (auto split: if_splits option.splits tval.splits simp: mk_datetime_def)

lemma temporal_now_kind: "temporal_now env k m t = Inr w \<Longrightarrow> tkind w = k"
  by (auto simp: temporal_now_def bindE_Inr dest: convert_kind)

lemma fromMap_kind:
  assumes "fromMap env k m = Inr w" "k \<noteq> KindDuration"
  shows "tkind w = k"
proof (cases "list_all allowed_key (map fst m) \<and> \<not> (length m = 1 \<and> has_key m ''timezone'')")
  case True
  have e: "(case x of (base, same) \<Rightarrow> f base same) = f (fst x) (snd x)" for f x by (simp split: prod.split)
  show ?thesis
    using assms True by (cases k) (auto simp: fromMap_def e bindE_Inr Let_def mk_datetime_def)
next
  case False
  then show ?thesis using assms temporal_now_kind by (auto simp: fromMap_def split: if_splits)
qed

lemma parse_tval_kind: "parse_tval tz k s = Inr w \<Longrightarrow> tkind w = k"
  by (cases k) (auto simp: parse_tval_def bindE_Inr)

lemma construct_kind_lemma: "construct env k arg = Inr w \<Longrightarrow> tkind w = k"
  by (auto simp: construct_def bindE_Inr split: targ.splits if_splits tval.splits
      dest: convert_kind fromMap_kind parse_tval_kind)

section \<open>A date is rebuilt from any of its forms\<close>

lemma intArg_int:
  "map_of m k = Some (AInt x) \<Longrightarrow> \<bar>x\<bar> \<le> 4294967294 \<Longrightarrow> get_int env m k d = Inr x"
  by (simp add: get_int_def intArg_def abs_le_iff)

lemma get_int_absent: "map_of m k = None \<Longrightarrow> get_int env m k d = Inr d"
  by (simp add: get_int_def intArg_def)

lemma date_fields_small:
  assumes "\<bar>fst (civil n)\<bar> \<le> 999999999"
  shows "\<bar>t_year (date_of n)\<bar> \<le> 999999999" "1 \<le> t_month (date_of n)" "t_month (date_of n) \<le> 12"
    "1 \<le> t_dom (date_of n)" "t_dom (date_of n) \<le> 31"
proof -
  show "\<bar>t_year (date_of n)\<bar> \<le> 999999999" using assms by (simp add: t_year_def)
  note v = t_date_valid [of "date_of n"]
  then show "1 \<le> t_month (date_of n)" "t_month (date_of n) \<le> 12" "1 \<le> t_dom (date_of n)"
    by (simp_all add: valid_civil_def)
  show "t_dom (date_of n) \<le> 31"
    using v month_len_bounds [of "leap (t_year (date_of n))" "t_month (date_of n)"] by (simp add: valid_civil_def)
qed

lemma week_fields:
  assumes "\<bar>fst (civil n)\<bar> \<le> 999999999"
  shows "\<bar>date_weekyear (date_of n)\<bar> \<le> 1000000000" "1 \<le> date_week (date_of n)" "date_week (date_of n) \<le> 54"
    "1 \<le> date_weekday (date_of n)" "date_weekday (date_of n) \<le> 7"
    "dateFromWeek (date_weekyear (date_of n)) (date_week (date_of n)) (date_weekday (date_of n)) = Inr (date_of n)"
proof -
  obtain y w where iso: "iso_week_of n = (y, w)" by fastforce
  have f: "date_weekyear (date_of n) = y" "date_week (date_of n) = w"
    by (simp_all add: date_weekyear_def date_week_def t_isoweek_def iso)
  note e = iso_week_of_eq [OF iso]
  have "fst (civil (n - 3)) \<le> y" "y \<le> fst (civil (n + 3))"
    using civil_year_mono [OF thursday_range(1) [of n]] civil_year_mono [OF thursday_range(2) [of n]] e(2) by simp_all
  moreover have "fst (civil n) - 1 \<le> fst (civil (n - 3))" "fst (civil (n + 3)) \<le> fst (civil n) + 1"
  proof -
    let ?Y = "fst (civil n)"
    have b: "civil_day ?Y 1 1 \<le> n" "n < civil_day (?Y + 1) 1 1" by (rule civil_year_bounds [OF refl])+
    have p: "civil_day (?Y - 1) 1 1 \<le> n - 3" "n + 3 < civil_day (?Y + 1 + 1) 1 1"
      using b year_len [of "?Y - 1"] year_len [of "?Y + 1"]
      by (simp_all add: civil_day_def month_start_def split: if_splits)
    have lo: "fst (civil (civil_day (?Y - 1) 1 1)) = ?Y - 1"
      by (subst civil_civil_day) (simp_all add: valid_civil_def month_len_def)
    have hi: "fst (civil (civil_day (?Y + 1 + 1) 1 1 - 1)) = ?Y + 1"
      using year_len [of "?Y + 1"] by (intro civil_yearI) (simp_all add: civil_day_def month_start_def split: if_splits)
    show "?Y - 1 \<le> fst (civil (n - 3))" using civil_year_mono [OF p(1)] lo by simp
    have "n + 3 \<le> civil_day (?Y + 1 + 1) 1 1 - 1" using p(2) by simp
    from civil_year_mono [OF this] hi show "fst (civil (n + 3)) \<le> ?Y + 1" by simp
  qed
  ultimately have y: "\<bar>y\<bar> \<le> 1000000000" using assms by linarith
  then show "\<bar>date_weekyear (date_of n)\<bar> \<le> 1000000000" by (simp add: f)
  have wd: "date_weekday (date_of n) = (n + 3) mod 7 + 1" by (rule date_weekday_of)
  show r: "dateFromWeek (date_weekyear (date_of n)) (date_week (date_of n)) (date_weekday (date_of n)) = Inr (date_of n)"
    unfolding f wd using iso by (subst dateFromWeek_Inr [OF y]) blast
  then have "1 \<le> w" "w \<le> weeksInYear y" by (auto simp: dateFromWeek_def f split: if_splits)
  with weeksInYear_small [OF y] show "1 \<le> date_week (date_of n)" "date_week (date_of n) \<le> 54" by (simp_all add: f)
  show "1 \<le> date_weekday (date_of n)" "date_weekday (date_of n) \<le> 7"
    unfolding wd using pos_mod_sign [of 7 "n + 3"] pos_mod_bound [of 7 "n + 3"] by simp_all
qed

lemma ordinal_fields:
  assumes "\<bar>fst (civil n)\<bar> \<le> 999999999"
  shows "1 \<le> t_yearday (date_of n)" "t_yearday (date_of n) \<le> 366"
    "dateFromOrdinal (t_year (date_of n)) (t_yearday (date_of n)) = Inr (date_of n)"
proof -
  have y: "\<bar>t_year (date_of n)\<bar> \<le> 1000000000" using date_fields_small(1) [OF assms] by simp
  show r: "dateFromOrdinal (t_year (date_of n)) (t_yearday (date_of n)) = Inr (date_of n)"
    by (subst dateFromOrdinal_Inr [OF y]) (auto simp: t_year_def t_yearday_def)
  then show "1 \<le> t_yearday (date_of n)" "t_yearday (date_of n) \<le> 366"
    by (auto simp: dateFromOrdinal_def Let_def split: if_splits)
qed

lemma quarter_fields:
  assumes "\<bar>fst (civil n)\<bar> \<le> 999999999"
  shows "1 \<le> date_quarter (date_of n)" "date_quarter (date_of n) \<le> 4"
    "1 \<le> date_dayofquarter (date_of n)" "date_dayofquarter (date_of n) \<le> 366"
    "dateFromQuarter (t_year (date_of n)) (date_quarter (date_of n)) (date_dayofquarter (date_of n)) = Inr (date_of n)"
proof -
  let ?y = "t_year (date_of n)" and ?m = "t_month (date_of n)" and ?q = "date_quarter (date_of n)"
  note s = date_fields_small [OF assms]
  have y: "\<bar>?y\<bar> \<le> 999999999" by (rule s)
  have c: "fst (civil n) = ?y" "fst (snd (civil n)) = ?m" by (simp_all add: t_year_def t_month_def)
  have q: "?q = quarterOf ?m" by (simp add: date_quarter_def)
  have "?q = (?m - 1) div 3 + 1" using s by (simp add: q quarterOf_def sdiv_nonneg)
  with div_bounds [of 3 "?m - 1"] s show qb: "1 \<le> ?q" "?q \<le> 4" by linarith+
  have near: "\<bar>quarter_day ?y ?q\<bar> \<le> max_day"
    using qb y unfolding quarter_day_def by (intro civil_day_near) auto
  have first: "go_date ?y ((?q - 1) * 3 + 1) 1 0 0 0 0 UTC = date_of (quarter_day ?y ?q)"
  proof -
    have e: "(?q - 1) * 3 + 1 = 3 * ?q - 2" by simp
    show ?thesis
      unfolding e using qb max_far [OF near] go_date_day [of "3 * ?q - 2" ?y 1] by (simp add: quarter_day_def)
  qed
  have le: "quarter_day ?y ?q \<le> n" "n < quarter_day ?y (?q + 1)"
    using quarter_iff [OF qb, of ?y n] c q by auto
  have d: "date_dayofquarter (date_of n) = n - quarter_day ?y ?q + 1"
    unfolding date_dayofquarter_def first Let_def by (simp add: sub_days_date [OF le(1)])
  show r: "dateFromQuarter ?y ?q (date_dayofquarter (date_of n)) = Inr (date_of n)"
    unfolding d by (subst dateFromQuarter_Inr [OF y]) (use c q in auto)
  show "1 \<le> date_dayofquarter (date_of n)" using le(1) by (simp add: d)
  have "civil_day ?y 1 1 \<le> quarter_day ?y ?q"
    using qb month_start_le [of 1 "3 * ?q - 2" "leap ?y"] by (simp add: quarter_day_def civil_day_def)
  moreover have "n < civil_day ?y 1 1 + 366"
    using civil_year_bounds(2) [OF c(1)] year_len [of ?y] by (simp add: civil_day_def month_start_def split: if_splits)
  ultimately show "date_dayofquarter (date_of n) \<le> 366" by (simp add: d)
qed

lemma newDate_fields:
  assumes "\<bar>fst (civil n)\<bar> \<le> 999999999"
  shows "newDate (t_year (date_of n)) (t_month (date_of n)) (t_dom (date_of n)) = Inr (date_of n)"
  using date_fields_small(1) [OF assms] t_date_valid [of "date_of n"] t_date_day [of "date_of n"]
  by (simp add: newDate_Inr)

text \<open>The four maps a date can be written as.\<close>

definition form_calendar :: "gtime \<Rightarrow> targs" where
  "form_calendar d = [(''year'', AInt (t_year d)), (''month'', AInt (t_month d)), (''day'', AInt (t_dom d))]"

definition form_week :: "gtime \<Rightarrow> targs" where
  "form_week d = [(''year'', AInt (date_weekyear d)), (''week'', AInt (date_week d)), (''dayOfWeek'', AInt (date_weekday d))]"

definition form_ordinal :: "gtime \<Rightarrow> targs" where
  "form_ordinal d = [(''year'', AInt (t_year d)), (''ordinalDay'', AInt (t_yearday d))]"

definition form_quarter :: "gtime \<Rightarrow> targs" where
  "form_quarter d = [(''year'', AInt (t_year d)), (''quarter'', AInt (date_quarter d)), (''dayOfQuarter'', AInt (date_dayofquarter d))]"

lemma fromMap_date:
  assumes "list_all allowed_key (map fst m)" "length m \<noteq> 1 \<or> \<not> has_key m ''timezone''"
    "\<not> has_key m ''datetime''" "\<not> has_key m ''date''" "\<not> has_key m ''time''"
  shows "fromMap env KindDate m = bindE (resolveDate env m None) (\<lambda>d. Inr (TDate d))"
proof -
  have "base_parts m = Inr no_parts" using assms(3-5) by (simp add: base_parts_def base_value_def has_key_def)
  then show ?thesis
    using assms(1,2)
    by (auto simp add: fromMap_def requested_zone_def wants_zone_def wants_date_def wants_time_def rebase_def no_parts_def)
qed

lemma forms_resolve:
  assumes "canonical_date d" "m \<in> {form_calendar d, form_week d, form_ordinal d, form_quarter d}"
  shows "resolveDate env m None = Inr d"
proof -
  obtain n where d: "d = date_of n" and b: "\<bar>fst (civil n)\<bar> \<le> 999999999"
    using assms(1) by (auto simp: canonical_date_def)
  note s = date_fields_small [OF b] and w = week_fields [OF b] and o' = ordinal_fields [OF b] and q = quarter_fields [OF b]
  note k = resolveDate_def has_key_def base_fields_def intArg_int
  consider "m = form_calendar d" | "m = form_week d" | "m = form_ordinal d" | "m = form_quarter d" using assms(2) by blast
  then show ?thesis
  proof cases
    case 1
    then show ?thesis using s newDate_fields [OF b] by (simp add: d form_calendar_def k)
  next
    case 2
    then show ?thesis using w by (simp add: d form_week_def k)
  next
    case 3
    then show ?thesis using s o' by (simp add: d form_ordinal_def k)
  next
    case 4
    then show ?thesis using s q by (simp add: d form_quarter_def k)
  qed
qed

lemma forms_rebuild:
  assumes "canonical_date d" "m \<in> {form_calendar d, form_week d, form_ordinal d, form_quarter d}"
  shows "fromMap env KindDate m = Inr (TDate d)"
proof -
  have "list_all allowed_key (map fst m)" "\<not> has_key m ''timezone''" "\<not> has_key m ''datetime''" "\<not> has_key m ''date''" "\<not> has_key m ''time''"
    using assms(2) by (auto simp: form_calendar_def form_week_def form_ordinal_def form_quarter_def
        allowed_key_def dateKeys_def has_key_def)
  then show ?thesis using fromMap_date [of m env] forms_resolve [OF assms] by simp
qed

section \<open>A clock is rebuilt from its parts\<close>

definition form_clock :: "int \<Rightarrow> targs" where
  "form_clock n = (case hms n of (h, m, s, ns) \<Rightarrow>
     [(''hour'', AInt h), (''minute'', AInt m), (''second'', AInt s), (''nanosecond'', AInt ns)])"

lemma resolveTime_form:
  assumes "good_clock n"
  shows "resolveTime env (form_clock n) None = Inr n"
proof -
  obtain h m s ns where hms: "hms n = (int h, int m, int s, ns)" and b: "h < 24" "m < 60" "s < 60"
    and ns: "0 \<le> ns" "ns < nsPerSec" and new: "newLocalTime (int h) (int m) (int s) ns = Inr n"
    using assms by (rule hms_clock)
  have "w64 ns = ns" using ns by (intro w64_id) (simp add: in64_def)
  then show ?thesis
    using b ns new by (simp add: resolveTime_def form_clock_def hms intArg_int get_int_absent)
qed

text \<open>With no entry of its own, a map keeps the clock of its base.\<close>

lemma nanos_split:
  assumes "0 \<le> (n :: int)"
  shows "n sdiv 1000000 * 1000000 + n sdiv 1000 smod 1000 * 1000 + n smod 1000 = n"
proof -
  have "n sdiv 1000 = n div 1000" "n smod 1000 = n mod 1000" "n sdiv 1000000 = n div 1000 div 1000"
    using assms by (simp_all add: sdiv_nonneg smod_nonneg zdiv_zmult2_eq [of 1000 n 1000, simplified])
  moreover have "n div 1000 smod 1000 = n div 1000 mod 1000"
    using assms by (simp add: smod_nonneg pos_imp_zdiv_nonneg_iff)
  moreover have "n div 1000 div 1000 * 1000 + n div 1000 mod 1000 = n div 1000" by (rule div_mult_mod_eq)
  moreover have "n div 1000 * 1000 + n mod 1000 = n" by (rule div_mult_mod_eq)
  moreover have "x * 1000 + y = q \<Longrightarrow> q * 1000 + z = n \<Longrightarrow> x * 1000000 + y * 1000 + z = n" for x y z q :: int
    by simp
  ultimately show ?thesis by metis
qed

lemma resolveTime_base:
  assumes "good_clock n" "\<forall>k \<in> set timeKeys. map_of m k = None"
  shows "resolveTime env m (Some n) = Inr n"
proof -
  obtain h mi s ns where hms: "hms n = (int h, int mi, int s, ns)" and ns: "0 \<le> ns" "ns < nsPerSec"
    and new: "newLocalTime (int h) (int mi) (int s) ns = Inr n"
    using assms(1) by (rule hms_clock)
  have "w64 ns = ns" using ns by (intro w64_id) (simp add: in64_def)
  then show ?thesis
    using assms(2) new nanos_split [OF ns(1)]
    by (simp add: resolveTime_def hms get_int_absent timeKeys_def)
qed

section \<open>A duration does not depend on the order of its map\<close>

text \<open>The amount of a slot, by name.\<close>

definition get_slot :: "string \<Rightarrow> durParts \<Rightarrow> rat" where
  "get_slot k p =
    (if k = ''years'' then p_years p else if k = ''months'' then p_months p
     else if k = ''weeks'' then p_weeks p else if k = ''days'' then p_days p
     else if k = ''hours'' then p_hours p else if k = ''minutes'' then p_minutes p
     else if k = ''seconds'' then p_seconds p else if k = ''milliseconds'' then p_millis p
     else if k = ''microseconds'' then p_micros p else p_nanos p)"

definition slot_names :: "string list" where
  "slot_names = [''years'', ''months'', ''weeks'', ''days'', ''hours'', ''minutes'', ''seconds'',
     ''milliseconds'', ''microseconds'', ''nanoseconds'']"

lemma set_slot_None: "set_slot k v p = None \<longleftrightarrow> k \<notin> set slot_names"
  by (simp add: set_slot_def slot_names_def)

lemma slots_ext: "(\<forall>k \<in> set slot_names. get_slot k p = get_slot k q) \<Longrightarrow> p = q"
  by (cases p; cases q) (simp add: slot_names_def get_slot_def)

lemma get_set_slot:
  assumes "set_slot k v p = Some q" "k' \<in> set slot_names"
  shows "get_slot k' q = (if k' = k then v else get_slot k' p)"
proof -
  have "k \<in> set slot_names" using assms(1) set_slot_None by (metis option.distinct(1))
  then show ?thesis
    using assms unfolding slot_names_def
    by (simp only: set_simps insert_iff empty_iff)
       (elim disjE; simp add: set_slot_def get_slot_def; force)
qed

definition slot_value :: "targ \<Rightarrow> rat option" where
  "slot_value a = (case a of AInt x \<Rightarrow> Some (of_int x)
     | AFloat f \<Rightarrow> if f_isnan f \<or> f_isinf f then None else Some (ratFloat f) | _ \<Rightarrow> None)"

lemma dur_entry_Inr:
  "dur_entry kv p = Inr q \<longleftrightarrow> (\<exists>v. slot_value (snd kv) = Some v \<and> set_slot (fst kv) v p = Some q)"
proof (cases "fst kv \<in> set slot_names")
  case False
  then show ?thesis by (simp add: dur_entry_def set_slot_None [THEN iffD2])
next
  case True
  then obtain r0 where r0: "set_slot (fst kv) 0 p = Some r0" using set_slot_None by (metis not_None_eq)
  show ?thesis
    by (cases "snd kv") (auto simp: dur_entry_def r0 slot_value_def set_slot_None True split: option.splits)
qed

lemma dur_entries:
  assumes "foldE dur_entry m p = Inr q" "distinct (map fst m)" "k \<in> set slot_names"
  shows "get_slot k q = (case map_of m k of None \<Rightarrow> get_slot k p | Some a \<Rightarrow> the (slot_value a))"
  using assms
proof (induction m arbitrary: p)
  case Nil
  then show ?case by simp
next
  case (Cons kv m)
  then obtain p' where p': "dur_entry kv p = Inr p'" "foldE dur_entry m p' = Inr q" by (auto simp: bindE_Inr)
  then obtain v where v: "slot_value (snd kv) = Some v" "set_slot (fst kv) v p = Some p'"
    by (auto simp: dur_entry_Inr)
  note ih = Cons.IH [OF p'(2) _ Cons.prems(3)]
  show ?case
  proof (cases "k = fst kv")
    case True
    then have "map_of m k = None" using Cons.prems(2) by (simp add: map_of_eq_None_iff)
    with True show ?thesis
      using ih Cons.prems(2) get_set_slot [OF v(2) Cons.prems(3)] v(1) by (cases kv) simp
  next
    case False
    then show ?thesis
      using ih Cons.prems(2) get_set_slot [OF v(2) Cons.prems(3)] by (cases kv) (simp split: option.split)
  qed
qed

lemma dur_entries_ok:
  "(\<exists>q. foldE dur_entry m p = Inr q) \<longleftrightarrow> (\<forall>(k, a) \<in> set m. k \<in> set slot_names \<and> slot_value a \<noteq> None)"
proof (induction m arbitrary: p)
  case Nil
  then show ?case by simp
next
  case (Cons kv m)
  have "(\<exists>q. foldE dur_entry (kv # m) p = Inr q) \<longleftrightarrow>
      (\<exists>p'. dur_entry kv p = Inr p' \<and> (\<exists>q. foldE dur_entry m p' = Inr q))"
    by (auto simp: bindE_Inr)
  also have "\<dots> \<longleftrightarrow> (\<exists>p'. dur_entry kv p = Inr p') \<and> (\<forall>(k, a) \<in> set m. k \<in> set slot_names \<and> slot_value a \<noteq> None)"
    using Cons.IH by blast
  also have "(\<exists>p'. dur_entry kv p = Inr p') \<longleftrightarrow> fst kv \<in> set slot_names \<and> slot_value (snd kv) \<noteq> None"
  proof -
    have "(\<exists>q. set_slot (fst kv) v p = Some q) \<longleftrightarrow> fst kv \<in> set slot_names" for v
      using set_slot_None [of "fst kv" v p] by (metis not_None_eq)
    then show ?thesis unfolding dur_entry_Inr by (metis not_None_eq)
  qed
  finally show ?case by (cases kv) auto
qed

lemma durationFromMap_perm:
  assumes "distinct (map fst m)" "set m' = set m" "distinct (map fst m')" "durationFromMap m = Inr d"
  shows "durationFromMap m' = Inr d"
proof -
  obtain q where q: "foldE dur_entry m newDurParts = Inr q" "build q = Inr d"
    using assms(4) by (auto simp: durationFromMap_def bindE_Inr)
  then obtain q' where q': "foldE dur_entry m' newDurParts = Inr q'"
    using dur_entries_ok [of m newDurParts] dur_entries_ok [of m' newDurParts] assms(2) by auto
  have "map_of m' = map_of m" using assms(1-3) by (simp add: map_of_inject_set)
  then have "q' = q"
    using dur_entries [OF q(1) assms(1)] dur_entries [OF q' assms(3)] by (intro slots_ext) simp
  with q q' show ?thesis by (simp add: durationFromMap_def)
qed

section \<open>The parts of a duration add up\<close>

definition prop_int :: "tprop option \<Rightarrow> int" where
  "prop_int r = (case r of Some (PInt n) \<Rightarrow> n | _ \<Rightarrow> 0)"

lemma durationProp_sums:
  "prop_int (durationProp d ''years'') * 12 + prop_int (durationProp d ''monthsOfYear'') = months d"
  "prop_int (durationProp d ''quarters'') * 3 + prop_int (durationProp d ''monthsOfQuarter'') = months d"
  "prop_int (durationProp d ''weeks'') * 7 + prop_int (durationProp d ''daysOfWeek'') = days d"
  "prop_int (durationProp d ''hours'') * 3600 + prop_int (durationProp d ''minutesOfHour'') * 60
     + prop_int (durationProp d ''secondsOfMinute'') = eff_secs d"
  by (simp_all add: durationProp_def prop_int_def Let_def sdiv_smod hms_sum_sdiv eff_secs_def)
end
