(* ===== verification/TemporalBetween.thy ===== *)
theory TemporalBetween
  imports TemporalMaps
begin

text \<open>
  \<open>duration.between\<close> and truncation: cypher/temporal/between.go and truncate.go. The main
  lemma says that adding the duration between two wall clocks to the first gives the second.
\<close>

section \<open>The duration between two values\<close>

record operand =
  op_date :: "gtime option"
  op_clock :: int
  op_zone :: "zoneSpec option"

definition operandOf :: "tval \<Rightarrow> terr + operand" where
  "operandOf v =
    (if tkind v = KindDuration then Inl ''duration.between needs temporal values, not durations''
     else let p = partsOf v in
       Inr \<lparr>op_date = pt_date p, op_clock = default0 (pt_time p), op_zone = pt_zone p\<rparr>)"

definition bigNanos :: "gtime \<Rightarrow> int" where
  "bigNanos t = gsec t * nsPerSec + gnano t"

definition dayNumber :: "gtime \<Rightarrow> int" where
  "dayNumber t = floorDiv (gsec (go_date (t_year t) (t_month t) (t_dom t) 0 0 0 0 UTC)) 86400"

definition adjustEnd :: "gtime \<Rightarrow> gtime \<Rightarrow> gtime" where
  "adjustEnd a b =
    (if dayNumber b > dayNumber a \<and> wallNanos b < wallNanos a then add_date b 0 0 (-1)
     else if dayNumber b < dayNumber a \<and> wallNanos b > wallNanos a then add_date b 0 0 1
     else b)"

definition packed :: "gtime \<Rightarrow> int" where
  "packed t = (t_year t * 12 + (t_month t - 1)) * 32 + t_dom t"

definition wholeMonths :: "gtime \<Rightarrow> gtime \<Rightarrow> int" where
  "wholeMonths a b = (packed (adjustEnd a b) - packed a) sdiv 32"

definition wholeDays :: "gtime \<Rightarrow> gtime \<Rightarrow> int" where
  "wholeDays a b = dayNumber (adjustEnd a b) - dayNumber a"

text \<open>The elapsed seconds between two instants.\<close>

definition secondsBetween :: "gtime \<Rightarrow> gtime \<Rightarrow> terr + duration" where
  "secondsBetween a b = durationFromNanos 0 0 (bigNanos b - bigNanos a)"

definition betweenLocal :: "string \<Rightarrow> gtime \<Rightarrow> gtime \<Rightarrow> zoneSpec \<Rightarrow> terr + duration" where
  "betweenLocal opn la lb zone =
    (if opn = ''inSeconds'' then secondsBetween (at_wall la (zloc zone)) (at_wall lb (zloc zone))
     else if opn = ''inMonths'' then Inr (zero_duration\<lparr>months := wholeMonths la lb\<rparr>)
     else if opn = ''inDays'' then Inr (zero_duration\<lparr>days := wholeDays la lb\<rparr>)
     else
       let mo = wholeMonths la lb; mid = addMonths la mo;
           dd = wholeDays mid lb; mid = add_date mid 0 0 dd
       in bindE (secondsBetween (at_wall mid (zloc zone)) (at_wall lb (zloc zone)))
            (\<lambda>rest. Inr (rest\<lparr>months := mo, days := dd\<rparr>)))"

definition between_dates :: "gtime option \<Rightarrow> gtime option \<Rightarrow> gtime \<times> gtime" where
  "between_dates a b = (case (a, b) of
       (None, Some y) \<Rightarrow> (y, y) | (Some x, None) \<Rightarrow> (x, x)
     | (None, None) \<Rightarrow> (epoch_2000, epoch_2000) | (Some x, Some y) \<Rightarrow> (x, y))"

definition between :: "string \<Rightarrow> tval \<Rightarrow> tval \<Rightarrow> terr + duration" where
  "between opn a b =
    bindE (operandOf a) (\<lambda>oa. bindE (operandOf b) (\<lambda>ob.
      case between_dates (op_date oa) (op_date ob) of (da, db) \<Rightarrow>
        let localA = combineLocal da (op_clock oa); localB = combineLocal db (op_clock ob) in
        (case (case op_zone oa of Some z \<Rightarrow> Some z | None \<Rightarrow> op_zone ob) of
           None \<Rightarrow> betweenLocal opn localA localB utc_zone
         | Some zone \<Rightarrow>
             let localB = (case (op_zone oa, op_zone ob) of
                 (Some _, Some zb) \<Rightarrow> at_wall (t_in (at_wall localB (zloc zb)) (zloc zone)) UTC
               | _ \<Rightarrow> localB)
             in betweenLocal opn localA localB zone)))"

section \<open>Truncation\<close>

definition dateUnits :: "string list" where
  "dateUnits = [''millennium'', ''century'', ''decade'', ''year'', ''weekyear'', ''quarter'', ''month'', ''week'', ''day'']"

definition timeUnits :: "string list" where
  "timeUnits = [''hour'', ''minute'', ''second'', ''millisecond'', ''microsecond'']"

definition truncateDate :: "gtime \<Rightarrow> string \<Rightarrow> terr + gtime" where
  "truncateDate d u =
    (let y = t_year d in
     if u = ''millennium'' then newDate (floorDiv y 1000 * 1000) 1 1
     else if u = ''century'' then newDate (floorDiv y 100 * 100) 1 1
     else if u = ''decade'' then newDate (floorDiv y 10 * 10) 1 1
     else if u = ''year'' then newDate y 1 1
     else if u = ''weekyear'' then Inr (isoWeek1Monday (date_weekyear d))
     else if u = ''quarter'' then newDate y ((date_quarter d - 1) * 3 + 1) 1
     else if u = ''month'' then newDate y (t_month d) 1
     else if u = ''week'' then Inr (add_date d 0 0 (- (date_weekday d - 1)))
     else Inr d)"

definition truncateClock :: "int \<Rightarrow> string \<Rightarrow> int" where
  "truncateClock n u =
    (if u = ''hour'' then n sdiv (3600 * nsPerSec) * (3600 * nsPerSec)
     else if u = ''minute'' then n sdiv (60 * nsPerSec) * (60 * nsPerSec)
     else if u = ''second'' then n sdiv nsPerSec * nsPerSec
     else if u = ''millisecond'' then n sdiv 1000000 * 1000000
     else if u = ''microsecond'' then n sdiv 1000 * 1000
     else n)"

definition zoneString :: "zoneSpec \<Rightarrow> string" where
  "zoneString z = (if znamed z then loc_name (zloc z)
     else fmtOffset (t_zone (go_date 2000 1 1 0 0 0 0 (zloc z))))"

definition trunc_args :: "kind \<Rightarrow> zoneSpec option \<Rightarrow> gtime \<Rightarrow> int \<Rightarrow> targs \<Rightarrow> targs" where
  "trunc_args k z date clock m =
    (let m = (if \<not> has_key m ''timezone'' \<and> (k = KindTime \<or> k = KindDateTime) then
                (case z of Some zs \<Rightarrow> alist_set ''timezone'' (AStr (zoneString zs)) m | None \<Rightarrow> m) else m)
     in case k of
         KindDate \<Rightarrow> alist_set ''date'' (ATemp (TDate date)) m
       | KindLocalTime \<Rightarrow> alist_set ''time'' (ATemp (TLocalTime clock)) m
       | KindTime \<Rightarrow> alist_set ''time'' (ATemp (TLocalTime clock)) m
       | KindLocalDateTime \<Rightarrow> alist_set ''datetime'' (ATemp (TLocalDateTime (combineLocal date clock))) m
       | KindDateTime \<Rightarrow> alist_set ''datetime'' (ATemp (TLocalDateTime (combineLocal date clock))) m
       | KindDuration \<Rightarrow> m)"

definition truncate_tval :: "tenv \<Rightarrow> kind \<Rightarrow> string \<Rightarrow> tval \<Rightarrow> targs \<Rightarrow> terr + tval" where
  "truncate_tval env k unit v m =
    (if tkind v = KindDuration then Inl ''%s.truncate needs a temporal value''
     else let p = partsOf v; u = to_lower unit; dateU = u \<in> set dateUnits; timeU = u \<in> set timeUnits in
       if \<not> dateU \<and> \<not> timeU then Inl ''unknown truncation unit %q''
       else if k = KindDate \<and> timeU then Inl ''cannot truncate a date to %s''
       else if wants_date k \<and> pt_date p = None then Inl ''cannot truncate %s to a %s''
       else if k \<noteq> KindDate \<and> pt_time p = None \<and> \<not> (wants_date k \<and> pt_date p \<noteq> None) then Inl ''cannot truncate %s to a %s''
       else
         bindE (case pt_date p of None \<Rightarrow> Inr zero_date
             | Some d \<Rightarrow> if dateU then truncateDate d u else Inr d) (\<lambda>date.
         let clock = (if k = KindDate \<or> dateU then 0 else truncateClock (default0 (pt_time p)) u)
         in fromMap env k (trunc_args k (pt_zone p) date clock m)))"


section \<open>Wall clocks move exactly\<close>

definition good_wall :: "int \<Rightarrow> int \<Rightarrow> int \<Rightarrow> bool" where
  "good_wall n s ns \<longleftrightarrow> \<bar>n\<bar> \<le> far_day \<and> 0 \<le> s \<and> s < 86400 \<and> 0 \<le> ns \<and> ns < nsPerSec"

lemma good_wall_time: "good_wall n s ns \<Longrightarrow> good_time (wall_of n s ns)"
  by (simp add: good_wall_def good_time_def)

lemma local_wall:
  assumes "canonical_local t"
  shows "t = wall_of (t_day t) (t_sod t) (gnano t)" "good_wall (t_day t) (t_sod t) (gnano t)" "\<bar>t_day t\<bar> \<le> max_day"
proof -
  have g: "good_time t" "gloc t = UTC" "\<bar>fst (civil (t_day t))\<bar> \<le> 999999999"
    using assms by (simp_all add: canonical_local_def t_year_def t_date_def)
  show "t = wall_of (t_day t) (t_sod t) (gnano t)" by (rule wall_of_eq [OF g(2)])
  show d: "\<bar>t_day t\<bar> \<le> max_day" by (rule civil_year_day [OF g(3)])
  show "good_wall (t_day t) (t_sod t) (gnano t)"
    using g(1) max_far [OF d] sod_bounds [of t] by (simp add: good_wall_def good_time_def)
qed

lemma wall_nanos:
  assumes "good_wall n s ns"
  shows "wallNanos (wall_of n s ns) = s * nsPerSec + ns" "bigNanos (wall_of n s ns) = n * nsPerDay + (s * nsPerSec + ns)"
  using assms by (simp_all add: wallNanos_eq good_wall_def bigNanos_def algebra_simps)

lemma add_days_wall:
  assumes "good_wall n s ns" "\<bar>n + k\<bar> \<le> far_day"
  shows "add_date (wall_of n s ns) 0 0 k = wall_of (n + k) s ns"
proof -
  let ?t = "wall_of n s ns"
  have w: "0 \<le> s" "s < 86400" "\<bar>n\<bar> \<le> far_day" using assms(1) by (simp_all add: good_wall_def)
  have v: "1 \<le> t_dom ?t" "t_dom ?t \<le> 31"
    using t_date_valid [of ?t] month_len_bounds by (auto simp: valid_civil_def intro: order_trans)
  have y: "\<bar>t_year ?t\<bar> \<le> 30000000000" using year_of_small [OF w(3)] w by (simp add: t_year_def)
  have k: "\<bar>k\<bar> \<le> 2 * far_day" using w(3) assms(2) by linarith
  have "add_date ?t 0 0 k = ?t\<lparr>gsec := gsec ?t + k * 86400\<rparr>"
  proof (rule add_days_utc)
    show "in64 (t_dom ?t + k)" using v k by (simp add: in64_def far_day_def abs_le_iff)
    show "in64 (t_year ?t)" using y by (simp add: in64_def abs_le_iff)
    have "in64 ((n + k) * 86400 + s)" by (rule in64_day [OF assms(2) w(1,2)])
    then show "in64 (gsec ?t + k * 86400)" by (simp add: algebra_simps)
  qed (use good_wall_time [OF assms(1)] in simp_all)
  then show ?thesis by (simp add: wall_of_def algebra_simps)
qed

lemma dayNumber_wall: "good_wall n s ns \<Longrightarrow> dayNumber (wall_of n s ns) = n"
proof -
  let ?t = "wall_of n s ns"
  assume g: "good_wall n s ns"
  then have day: "t_day ?t = n" "\<bar>n\<bar> \<le> far_day" by (simp_all add: good_wall_def)
  have m: "1 \<le> t_month ?t" "t_month ?t \<le> 12" using t_date_valid [of ?t] by (simp_all add: valid_civil_def)
  have "go_date (t_year ?t) (t_month ?t) (t_dom ?t) 0 0 0 0 UTC = date_of n"
    using go_date_day [OF m, of "t_year ?t" "t_dom ?t"] day unfolding t_date_day by simp
  then show ?thesis by (simp add: dayNumber_def floorDiv_div)
qed

text \<open>The step of \<open>adjustEnd\<close>: a day back towards the start, or none.\<close>

definition end_step :: "int \<Rightarrow> int \<Rightarrow> int \<Rightarrow> int \<Rightarrow> int" where
  "end_step na ca nb cb = (if nb > na \<and> cb < ca then -1 else if nb < na \<and> cb > ca then 1 else 0)"

lemma adjustEnd_wall:
  assumes "good_wall na sa ga" "good_wall nb sb gb" "\<bar>nb\<bar> < far_day"
  shows "adjustEnd (wall_of na sa ga) (wall_of nb sb gb)
    = wall_of (nb + end_step na (sa * nsPerSec + ga) nb (sb * nsPerSec + gb)) sb gb"
proof -
  have "\<bar>nb + -1\<bar> \<le> far_day" "\<bar>nb + 1\<bar> \<le> far_day" using assms(3) by linarith+
  note a = add_days_wall [OF assms(2) this(1)] add_days_wall [OF assms(2) this(2)]
  show ?thesis
    unfolding adjustEnd_def dayNumber_wall [OF assms(1)] dayNumber_wall [OF assms(2)]
      wall_nanos(1) [OF assms(1)] wall_nanos(1) [OF assms(2)] a end_step_def
    by auto
qed

lemma end_step_rest:
  assumes "0 \<le> ca" "ca < nsPerDay" "0 \<le> cb" "cb < nsPerDay"
  shows "\<bar>- end_step na ca nb cb * nsPerDay + cb - ca\<bar> < nsPerDay"
  using assms by (auto simp: end_step_def)

text \<open>What is left after the whole days has the sign of the direction of travel.\<close>

lemma end_step_sign:
  assumes "0 \<le> ca" "ca < nsPerDay" "0 \<le> cb" "cb < nsPerDay"
  shows "na * nsPerDay + ca \<le> nb * nsPerDay + cb \<Longrightarrow>
      na \<le> nb + end_step na ca nb cb \<and> 0 \<le> - end_step na ca nb cb * nsPerDay + cb - ca"
    and "nb * nsPerDay + cb \<le> na * nsPerDay + ca \<Longrightarrow>
      nb + end_step na ca nb cb \<le> na \<and> - end_step na ca nb cb * nsPerDay + cb - ca \<le> 0"
proof -
  have lt: "x * nsPerDay + cx < y * nsPerDay + cy" if "x < y" "cx < nsPerDay" "0 \<le> cy" for x y cx cy :: int
  proof -
    have "(x + 1) * nsPerDay \<le> y * nsPerDay" using that(1) by (intro mult_right_mono) auto
    then show ?thesis using that by (simp add: distrib_right)
  qed
  show "na * nsPerDay + ca \<le> nb * nsPerDay + cb \<Longrightarrow>
      na \<le> nb + end_step na ca nb cb \<and> 0 \<le> - end_step na ca nb cb * nsPerDay + cb - ca"
    using assms lt [of nb na cb ca] by (cases na nb rule: linorder_cases) (auto simp: end_step_def)
  show "nb * nsPerDay + cb \<le> na * nsPerDay + ca \<Longrightarrow>
      nb + end_step na ca nb cb \<le> na \<and> - end_step na ca nb cb * nsPerDay + cb - ca \<le> 0"
    using assms lt [of na nb ca cb] by (cases na nb rule: linorder_cases) (auto simp: end_step_def)
qed

text \<open>Adding nanoseconds is exact while the seconds fit a \<open>time.Duration\<close>.\<close>

lemma t_add_exact:
  assumes "good_time t" "in64 (gsec t + (gnano t + k) div nsPerSec)"
  shows "inst_nanos (t_add t k) = inst_nanos t + k"
proof -
  have "(gnano t + k) div nsPerSec * nsPerSec + (gnano t + k) mod nsPerSec = gnano t + k" by (rule div_mult_mod_eq)
  then show ?thesis using assms(2) by (simp add: inst_nanos_def t_add_def w64_id algebra_simps)
qed

lemma addBig_exact:
  assumes "good_time t" "\<bar>r div nsPerSec\<bar> \<le> 9223372036" "\<bar>gsec t\<bar> \<le> 2 ^ 62"
  shows "inst_nanos (addBig t r) = inst_nanos t + r" "gloc (addBig t r) = gloc t" "good_time (addBig t r)"
proof -
  let ?s = "r div nsPerSec" and ?r = "r mod nsPerSec"
  have i: "in64 ?s" "in64 (?s * nsPerSec)" using assms(2) by (simp_all add: in64_def abs_le_iff)
  have g: "0 \<le> gnano t" "gnano t < nsPerSec" using assms(1) by (simp_all add: good_time_def)
  let ?t1 = "t_add t (?s * nsPerSec)"
  have q: "(gnano t + ?s * nsPerSec) div nsPerSec = ?s" using g by (simp add: div_pos_pos_trivial)
  have "in64 (gsec t + ?s)" using assms(2,3) by (simp add: in64_def abs_le_iff)
  then have e1: "inst_nanos ?t1 = inst_nanos t + ?s * nsPerSec" using assms(1) q by (intro t_add_exact) simp_all
  have s1: "gsec ?t1 = gsec t + ?s" "gnano ?t1 = gnano t"
    using q g \<open>in64 (gsec t + ?s)\<close> by (simp_all add: t_add_def w64_id mod_pos_pos_trivial)
  have "0 \<le> ?r" "?r < nsPerSec" by simp_all
  then have "0 \<le> (gnano t + ?r) div nsPerSec" "(gnano t + ?r) div nsPerSec \<le> 1"
    using g div_bounds [of nsPerSec "gnano t + ?r"] by (simp_all add: pos_imp_zdiv_nonneg_iff)
  then have "in64 (gsec ?t1 + (gnano ?t1 + ?r) div nsPerSec)"
    using assms(2,3) unfolding s1 by (simp add: in64_def abs_le_iff)
  then have "inst_nanos (t_add ?t1 ?r) = inst_nanos ?t1 + ?r" by (intro t_add_exact) simp_all
  moreover have "addBig t r = t_add ?t1 ?r" using i by (simp add: addBig_def w64_id)
  ultimately show "inst_nanos (addBig t r) = inst_nanos t + r" using e1 by simp
  show "gloc (addBig t r) = gloc t" "good_time (addBig t r)" by (simp_all add: addBig_def)
qed

lemma inst_nanos_inj:
  assumes "good_time a" "good_time b" "inst_nanos a = inst_nanos b" "gloc a = gloc b"
  shows "a = b"
  using assms inst_nanos_eq t_equal_record by blast

section \<open>Adding back what lies between\<close>

lemma at_wall_utc: "good_wall n s ns \<Longrightarrow> at_wall (wall_of n s ns) UTC = wall_of n s ns"
proof -
  let ?w = "wall_of n s ns"
  assume g: "good_wall n s ns"
  then have day: "t_day ?w = n" "t_sod ?w = s" "\<bar>n\<bar> \<le> far_day" "0 \<le> s" "s < 86400" by (simp_all add: good_wall_def)
  have m: "1 \<le> t_month ?w" "t_month ?w \<le> 12" using t_date_valid [of ?w] by (simp_all add: valid_civil_def)
  have cd: "civil_day (t_year ?w) (t_month ?w) (t_dom ?w) = n" unfolding t_date_day day ..
  have b: "\<bar>civil_day (t_year ?w) (t_month ?w) (t_dom ?w)\<bar> \<le> far_day" unfolding cd by (rule day(3))
  from go_date_wall [OF m b good_wall_time [OF g]] show ?thesis
    unfolding cd at_wall_def day by simp
qed

lemma packed_bound:
  assumes "\<bar>n\<bar> \<le> max_day + 1" "0 \<le> s" "s < 86400"
  shows "\<bar>packed (wall_of n s ns)\<bar> \<le> 423000000000"
proof -
  let ?t = "wall_of n s ns"
  have "\<bar>n\<bar> \<le> max_day + 1" by (rule assms(1))
  then have y: "\<bar>t_year ?t\<bar> \<le> 1100000000"
    using assms(2,3) year_start_linear(1) [of "fst (civil n)"] year_start_linear(2) [of "fst (civil n) + 1"]
      year_of_bounds [of "n + 719162"]
    by (simp add: t_year_def max_day_def civil_def Let_def)
  have v: "1 \<le> t_month ?t" "t_month ?t \<le> 12" "1 \<le> t_dom ?t" "t_dom ?t \<le> 31"
    using t_date_valid [of ?t] month_len_bounds [of "leap (t_year ?t)" "t_month ?t"] by (auto simp: valid_civil_def)
  then show ?thesis using y by (simp add: packed_def abs_le_iff)
qed

lemma wholeMonths_bound:
  assumes "good_wall na sa ga" "good_wall nb sb gb" "\<bar>na\<bar> \<le> max_day" "\<bar>nb\<bar> \<le> max_day"
  shows "\<bar>wholeMonths (wall_of na sa ga) (wall_of nb sb gb)\<bar> \<le> 200000000000"
proof -
  let ?e = "end_step na (sa * nsPerSec + ga) nb (sb * nsPerSec + gb)"
  have b: "0 \<le> sa" "sa < 86400" "0 \<le> sb" "sb < 86400" using assms(1,2) by (simp_all add: good_wall_def)
  have lt: "\<bar>nb\<bar> < far_day" using assms(4) by (simp add: far_day_def max_day_def)
  have "\<bar>?e\<bar> \<le> 1" by (simp add: end_step_def)
  then have "\<bar>nb + ?e\<bar> \<le> max_day + 1" using assms(4) by linarith
  then have p: "\<bar>packed (wall_of (nb + ?e) sb gb)\<bar> \<le> 423000000000" using b by (intro packed_bound)
  have q: "\<bar>packed (wall_of na sa ga)\<bar> \<le> 423000000000" using b assms(3) by (intro packed_bound) auto
  let ?d = "packed (wall_of (nb + ?e) sb gb) - packed (wall_of na sa ga)"
  have "\<bar>?d\<bar> \<le> 846000000000" using p q by linarith
  then have "\<bar>?d sdiv 32\<bar> \<le> 200000000000" using sdiv_range [of 32 ?d] by linarith
  then show ?thesis unfolding wholeMonths_def adjustEnd_wall [OF assms(1,2) lt] .
qed

lemma between_local_shift:
  assumes "canonical_local la" "canonical_local lb" "opn \<noteq> ''inSeconds''" "opn \<noteq> ''inMonths''" "opn \<noteq> ''inDays''"
  shows "\<exists>d. betweenLocal opn la lb utc_zone = Inr d \<and> good_duration d \<and> \<bar>totalNanosBig d\<bar> < nsPerDay
     \<and> shift (TLocalDateTime la) d = Inr (TLocalDateTime lb)"
proof -
  define na sa ga nb sb gb where d: "na = t_day la" "sa = t_sod la" "ga = gnano la" "nb = t_day lb" "sb = t_sod lb" "gb = gnano lb"
  define ca cb where c: "ca = sa * nsPerSec + ga" "cb = sb * nsPerSec + gb"
  note wa = local_wall [OF assms(1), folded d] and wb = local_wall [OF assms(2), folded d]
  define mo where "mo = wholeMonths la lb"
  have mob: "\<bar>mo\<bar> \<le> 200000000000"
    unfolding mo_def by (subst wa(1), subst wb(1)) (rule wholeMonths_bound [OF wa(2) wb(2) wa(3) wb(3)])
  define nm where "nm = plus_months na mo"
  have gla: "good_local la"
    using assms(1) wa(3) d by (simp add: good_local_def canonical_local_def)
  note am = addMonths_eq [OF gla mob, folded d, folded nm_def]
  have wm: "good_wall nm sa ga" using wa(2) am(2) by (simp add: good_wall_def)
  define e where "e = end_step nm ca nb cb"
  have e1: "\<bar>e\<bar> \<le> 1" by (simp add: e_def end_step_def)
  have lt: "\<bar>nb\<bar> < far_day" using wb(3) by (simp add: far_day_def max_day_def)
  have nbe: "\<bar>nb + e\<bar> \<le> far_day" using e1 lt by linarith
  have wbe: "good_wall (nb + e) sb gb" and wae: "good_wall (nb + e) sa ga"
    using wa(2) wb(2) nbe by (simp_all add: good_wall_def)
  define dd where "dd = nb + e - nm"
  have days: "wholeDays (addMonths la mo) lb = dd"
    unfolding wholeDays_def am(1) dd_def
    by (subst wb(1)) (simp only: adjustEnd_wall [OF wm wb(2) lt] dayNumber_wall [OF wm] c [symmetric]
        e_def [symmetric] dayNumber_wall [OF wbe])
  have mid: "add_date (addMonths la mo) 0 0 dd = wall_of (nb + e) sa ga"
    unfolding am(1) using add_days_wall [OF wm, of dd] nbe by (simp add: dd_def)
  define R where "R = - e * nsPerDay + cb - ca"
  have cab: "0 \<le> ca" "ca < nsPerDay" "0 \<le> cb" "cb < nsPerDay"
    using wa(2) wb(2) by (simp_all add: c good_wall_def)
  have Rb: "\<bar>R\<bar> < nsPerDay" unfolding R_def e_def by (rule end_step_rest [OF cab])
  have nanos: "bigNanos lb - bigNanos (wall_of (nb + e) sa ga) = R"
  proof -
    have "bigNanos lb = nb * nsPerDay + cb" by (subst wb(1)) (simp only: wall_nanos(2) [OF wb(2)] c)
    moreover have "bigNanos (wall_of (nb + e) sa ga) = (nb + e) * nsPerDay + ca"
      by (simp only: wall_nanos(2) [OF wae] c)
    ultimately show ?thesis by (simp add: R_def distrib_right)
  qed
  have Rs: "\<bar>R div nsPerSec\<bar> \<le> 86400" using div_bounds [of nsPerSec R] Rb by simp
  then have "in64 (R div nsPerSec)" by (simp add: in64_def abs_le_iff)
  then obtain rest where rest: "durationFromNanos 0 0 R = Inr rest" by (simp add: durationFromNanos_def)
  note rt = durationFromNanos_total [OF rest]
  have lbw: "at_wall lb UTC = lb" using at_wall_utc [OF wb(2)] wb(1) by metis
  let ?d = "rest\<lparr>months := mo, days := dd\<rparr>"
  have btw: "betweenLocal opn la lb utc_zone = Inr ?d"
    using assms(3-5)
    by (simp add: betweenLocal_def Let_def mo_def [symmetric] days mid utc_zone_def at_wall_utc [OF wae] lbw
        secondsBetween_def nanos rest)
  have tot: "totalNanosBig ?d = R" using rt by (simp add: totalNanosBig_def)
  have ddb: "\<bar>dd\<bar> \<le> 2 * far_day" using nbe am(2) by (simp add: dd_def abs_le_iff)
  have gd: "good_duration ?d"
    using rt mob ddb by (simp add: good_duration_def in64_def abs_le_iff far_day_def)
  have gw: "good_time (wall_of (nb + e) sa ga)" by (rule good_wall_time [OF wae])
  have gs: "\<bar>gsec (wall_of (nb + e) sa ga)\<bar> \<le> 2 ^ 62"
    using nbe wa(2) by (simp add: good_wall_def far_day_def abs_le_iff)
  have Rq: "\<bar>R div nsPerSec\<bar> \<le> 9223372036" using Rs by linarith
  note ab = addBig_exact [OF gw Rq gs]
  have bi: "bigNanos t = inst_nanos t" for t by (simp add: bigNanos_def inst_nanos_def)
  have "addBig (wall_of (nb + e) sa ga) R = lb"
  proof (rule inst_nanos_inj)
    show "good_time lb" "gloc (addBig (wall_of (nb + e) sa ga) R) = gloc lb"
      using assms(2) ab(2) by (simp_all add: canonical_local_def)
    show "inst_nanos (addBig (wall_of (nb + e) sa ga) R) = inst_nanos lb"
      using ab(1) nanos unfolding bi by simp
  qed (rule ab(3))
  then have "shift (TLocalDateTime la) ?d = Inr (TLocalDateTime lb)"
    by (simp add: shift_def Let_def tot mid)
  with btw gd tot Rb show ?thesis by blast
qed

lemma between_local_values:
  assumes "canonical_local la" "canonical_local lb"
  shows "between opn (TLocalDateTime la) (TLocalDateTime lb) = betweenLocal opn la lb utc_zone"
proof -
  have "combineLocal (midnight t) (wallNanos t) = t" if "canonical_local t" for t
    using combine_midnight canonical_local_days(1) [OF that] that by (simp add: canonical_local_def)
  then show ?thesis
    using assms by (simp add: between_def operandOf_def partsOf_def no_parts_def between_dates_def default0_def)
qed

end
