(* ===== verification/TemporalTruncate.thy ===== *)
theory TemporalTruncate
  imports TemporalBetween
begin

text \<open>
  What truncation means: the start of a unit is the last of the unit's starts that is not
  after the date. The laws of such an operation are stated once, as a locale, and the
  source's units are its interpretations.
\<close>

section \<open>Operations that go back to a start\<close>

locale start_of =
  fixes starts :: "int set" and f :: "int \<Rightarrow> int"
  assumes f_start: "f n \<in> starts"
    and f_le: "f n \<le> n"
    and f_last: "s \<in> starts \<Longrightarrow> s \<le> n \<Longrightarrow> s \<le> f n"
begin

lemma idem: "f (f n) = f n"
  using f_le [of "f n"] f_last [OF f_start, of n "f n"] by simp

lemma mono: "m \<le> n \<Longrightarrow> f m \<le> f n"
  using f_last [OF f_start, of m n] f_le [of m] by simp

lemma fixed_iff: "f n = n \<longleftrightarrow> n \<in> starts"
  using f_start [of n] f_le [of n] f_last [of n n] by auto

lemma between_starts: "f m \<le> n \<Longrightarrow> n \<le> m \<Longrightarrow> f n = f m"
  using mono [of n m] f_last [OF f_start, of m n] by simp

end

section \<open>The starts of the units\<close>

definition years_start :: "int \<Rightarrow> int \<Rightarrow> int" where
  "years_start k n = civil_day (fst (civil n) div k * k) 1 1"

definition month_day1 :: "int \<Rightarrow> int" where
  "month_day1 n = civil_day (fst (civil n)) (fst (snd (civil n))) 1"

definition quarter_day1 :: "int \<Rightarrow> int" where
  "quarter_day1 n = quarter_day (fst (civil n)) (quarterOf (fst (snd (civil n))))"

definition week_day1 :: "int \<Rightarrow> int" where
  "week_day1 n = n - (n + 3) mod 7"

definition weekyear_day1 :: "int \<Rightarrow> int" where
  "weekyear_day1 n = first_thursday (fst (iso_week_of n)) - 3"

lemma jan1_mono: "y \<le> y' \<Longrightarrow> civil_day y 1 1 \<le> civil_day y' 1 1"
  using year_start_mono [of y y'] by (cases "y = y'") (auto simp: civil_day_def month_start_def)

lemma jan1_le_iff: "civil_day y 1 1 \<le> n \<longleftrightarrow> y \<le> fst (civil n)"
proof -
  note b = civil_year_bounds [OF refl, of n]
  show ?thesis
    using b jan1_mono [of y "fst (civil n)"] jan1_mono [of "fst (civil n) + 1" y] by linarith
qed

lemma mult_le_div: "0 < k \<Longrightarrow> j * k \<le> y \<Longrightarrow> j \<le> y div k" for j k y :: int
  using zdiv_mono1 [of "j * k" y k] by simp

lemma years_start_of:
  assumes "0 < k"
  shows "start_of {civil_day (j * k) 1 1 | j. True} (years_start k)"
proof
  show "years_start k n \<in> {civil_day (j * k) 1 1 | j. True}" for n by (auto simp: years_start_def)
  show "years_start k n \<le> n" for n
    using div_bounds [OF assms, of "fst (civil n)"] by (simp add: years_start_def jan1_le_iff mult.commute)
  show "s \<le> years_start k n" if mem: "s \<in> {civil_day (j * k) 1 1 | j. True}" and below: "s \<le> n" for s n
  proof -
    obtain j where j: "s = civil_day (j * k) 1 1" using mem by blast
    with below have "j * k \<le> fst (civil n)" by (simp add: jan1_le_iff)
    then have "j \<le> fst (civil n) div k" using mult_le_div [OF assms] by blast
    then have "j * k \<le> fst (civil n) div k * k" using assms by (intro mult_right_mono) auto
    then show ?thesis unfolding j years_start_def by (rule jan1_mono)
  qed
qed

text \<open>The first of a month not after a day, in terms of years and months.\<close>

lemma month1_le_iff:
  assumes "1 \<le> m" "m \<le> 12"
  shows "civil_day y m 1 \<le> n \<longleftrightarrow> y < fst (civil n) \<or> y = fst (civil n) \<and> m \<le> fst (snd (civil n))"
proof -
  obtain y' m' d where c: "civil n = (y', m', d)" by (cases "civil n") auto
  note v = civil_day_civil [OF c]
  have vm: "valid_civil y m 1" using assms month_len_bounds [of "leap y" m] by (simp add: valid_civil_def)
  have "n < civil_day y m 1 \<longleftrightarrow> ymd_less y' m' d y m 1"
    using civil_day_less_iff [OF v(2) vm] v(1) by simp
  then show ?thesis using v(2) c by (auto simp: ymd_less_def valid_civil_def)
qed

lemma month_range: "1 \<le> fst (snd (civil n))" "fst (snd (civil n)) \<le> 12"
  using civil_day_civil(2) [of n] by (cases "civil n"; auto simp: valid_civil_def)+

interpretation month: start_of "{civil_day y m 1 | y m. 1 \<le> m \<and> m \<le> 12}" month_day1
proof
  show "month_day1 n \<in> {civil_day y m 1 | y m. 1 \<le> m \<and> m \<le> 12}" for n
    using month_range [of n] by (auto simp: month_day1_def)
  show le: "month_day1 n \<le> n" for n
    using month_range [of n] by (simp add: month_day1_def month1_le_iff)
  show "s \<le> month_day1 n" if mem: "s \<in> {civil_day y m 1 | y m. 1 \<le> m \<and> m \<le> 12}" and below: "s \<le> n" for s n
  proof -
    obtain y m where s: "s = civil_day y m 1" "1 \<le> m" "m \<le> 12" using mem by blast
    have v: "valid_civil (fst (civil n)) (fst (snd (civil n))) 1"
      using month_range [of n] month_len_bounds [of "leap (fst (civil n))" "fst (snd (civil n))"] by (simp add: valid_civil_def)
    have "civil (month_day1 n) = (fst (civil n), fst (snd (civil n)), 1)"
      unfolding month_day1_def by (rule civil_civil_day [OF v])
    then show ?thesis using below s by (simp add: month1_le_iff)
  qed
qed

lemma quarter_of_range: "1 \<le> quarterOf (fst (snd (civil n)))" "quarterOf (fst (snd (civil n))) \<le> 4"
proof -
  have "quarterOf (fst (snd (civil n))) = (fst (snd (civil n)) - 1) div 3 + 1"
    using month_range [of n] by (simp add: quarterOf_def sdiv_nonneg)
  then show "1 \<le> quarterOf (fst (snd (civil n)))" "quarterOf (fst (snd (civil n))) \<le> 4"
    using div_bounds [of 3 "fst (snd (civil n)) - 1"] month_range [of n] by linarith+
qed

interpretation quarter: start_of "{quarter_day y q | y q. 1 \<le> q \<and> q \<le> 4}" quarter_day1
proof
  show "quarter_day1 n \<in> {quarter_day y q | y q. 1 \<le> q \<and> q \<le> 4}" for n
    using quarter_of_range [of n] by (auto simp: quarter_day1_def)
  have bounds: "quarter_day1 n \<le> n \<and> n < quarter_day (fst (civil n)) (quarterOf (fst (snd (civil n))) + 1)" for n
    unfolding quarter_day1_def by (rule quarter_iff [OF quarter_of_range, THEN iffD2]) simp
  then show "quarter_day1 n \<le> n" for n by blast
  show "s \<le> quarter_day1 n" if mem: "s \<in> {quarter_day y q | y q. 1 \<le> q \<and> q \<le> 4}" and below: "s \<le> n" for s n
  proof -
    obtain y q where s: "s = quarter_day y q" "1 \<le> q" "q \<le> 4" using mem by blast
    let ?y = "fst (civil n)" and ?q = "quarterOf (fst (snd (civil n)))"
    have l: "y < ?y \<or> y = ?y \<and> 3 * q - 2 \<le> fst (snd (civil n))"
      using below s month1_le_iff [of "3 * q - 2" y n] by (simp add: quarter_day_def)
    have m: "3 * ?q - 2 \<le> fst (snd (civil n))" "fst (snd (civil n)) < 3 * ?q + 1"
      using quarterOf_eq [OF month_range(1), of n ?q] by simp_all
    have v: "valid_civil ?y (3 * ?q - 2) 1"
      using quarter_of_range [of n] month_len_bounds [of "leap ?y" "3 * ?q - 2"] by (simp add: valid_civil_def)
    have "civil (quarter_day1 n) = (?y, 3 * ?q - 2, 1)"
      unfolding quarter_day1_def quarter_day_def by (rule civil_civil_day [OF v])
    then show ?thesis
      using l m s month1_le_iff [of "3 * q - 2" y "quarter_day1 n"] by (auto simp: quarter_day_def)
  qed
qed

interpretation week: start_of "{s. (s + 3) mod 7 = 0}" week_day1
proof
  show "week_day1 n \<in> {s. (s + 3) mod 7 = 0}" for n
  proof -
    have "n - (n + 3) mod 7 + 3 = (n + 3) - (n + 3) mod 7" by simp
    then show ?thesis by (simp add: week_day1_def minus_mod_eq_mult_div)
  qed
  show "week_day1 n \<le> n" for n by (simp add: week_day1_def)
  show "s \<le> week_day1 n" if mem: "s \<in> {s. (s + 3) mod 7 = 0}" and below: "s \<le> n" for s n
  proof -
    from mem have "7 dvd s + 3" by auto
    then obtain a where a: "s + 3 = 7 * a" by (rule dvdE)
    define q r where "q = (n + 3) div 7" and "r = (n + 3) mod 7"
    have "7 * q + r = n + 3" unfolding q_def r_def by (rule mult_div_mod_eq)
    moreover have "a \<le> q" unfolding q_def using mult_le_div [of 7 a "n + 3"] a below by simp
    ultimately have "s \<le> n - r" using a by linarith
    then show ?thesis by (simp add: week_day1_def r_def)
  qed
qed

lemma thursday_mono: "a \<le> b \<Longrightarrow> thursday_of a \<le> thursday_of b"
  using week.mono [of a b] by (simp add: week_day1_def thursday_of_def)

lemma first_thursday_mono: "y \<le> y' \<Longrightarrow> first_thursday y \<le> first_thursday y'"
  unfolding first_thursday_def using jan1_mono [of y y'] by (intro thursday_mono) (simp add: jan_1_4)

interpretation weekyear: start_of "{first_thursday y - 3 | y. True}" weekyear_day1
proof
  show "weekyear_day1 n \<in> {first_thursday y - 3 | y. True}" for n by (auto simp: weekyear_day1_def)
  fix n
  obtain y w where iso: "iso_week_of n = (y, w)" by fastforce
  note e = iso_week_of_eq [OF iso]
  have "first_thursday y \<le> thursday_of n" using e(1,3) by simp
  then show "weekyear_day1 n \<le> n" using thursday_range(2) [of n] by (simp add: weekyear_day1_def iso)
  show "s \<le> weekyear_day1 n" if mem: "s \<in> {first_thursday y - 3 | y. True}" and below: "s \<le> n" for s
  proof -
    obtain z where z: "s = first_thursday z - 3" using mem by blast
    have "thursday_of (first_thursday z - 3 + 0) = first_thursday z"
      by (rule thursday_shift) (simp_all add: first_thursday_def thursday_mod)
    then have "first_thursday z \<le> thursday_of n" using thursday_mono [OF below] z by simp
    then have "z \<le> y" using civil_year_mono [of "first_thursday z" "thursday_of n"] first_thursday_year [of z] e(2) by simp
    then show ?thesis using first_thursday_mono [of z y] by (simp add: z weekyear_day1_def iso)
  qed
qed

interpretation millennium: start_of "{civil_day (j * 1000) 1 1 | j. True}" "years_start 1000"
  by (rule years_start_of) simp

interpretation century: start_of "{civil_day (j * 100) 1 1 | j. True}" "years_start 100"
  by (rule years_start_of) simp

interpretation decade: start_of "{civil_day (j * 10) 1 1 | j. True}" "years_start 10"
  by (rule years_start_of) simp

interpretation year: start_of "{civil_day (j * 1) 1 1 | j. True}" "years_start 1"
  by (rule years_start_of) simp

section \<open>The source's date units\<close>

definition unit_start :: "string \<Rightarrow> int \<Rightarrow> int" where
  "unit_start u n =
    (if u = ''millennium'' then years_start 1000 n else if u = ''century'' then years_start 100 n
     else if u = ''decade'' then years_start 10 n else if u = ''year'' then years_start 1 n
     else if u = ''weekyear'' then weekyear_day1 n else if u = ''quarter'' then quarter_day1 n
     else if u = ''month'' then month_day1 n else if u = ''week'' then week_day1 n else n)"

lemma unit_start_le: "unit_start u n \<le> n"
  by (simp add: unit_start_def millennium.f_le century.f_le decade.f_le year.f_le weekyear.f_le
      quarter.f_le month.f_le week.f_le)

lemma unit_start_idem: "unit_start u (unit_start u n) = unit_start u n"
  by (simp add: unit_start_def millennium.idem century.idem decade.idem year.idem weekyear.idem
      quarter.idem month.idem week.idem)

lemma unit_start_mono: "m \<le> n \<Longrightarrow> unit_start u m \<le> unit_start u n"
  by (simp add: unit_start_def millennium.mono century.mono decade.mono year.mono weekyear.mono
      quarter.mono month.mono week.mono)

lemma newDate_jan1: "\<bar>y\<bar> \<le> 999999999 \<Longrightarrow> newDate y 1 1 = Inr (date_of (civil_day y 1 1))"
  by (simp add: newDate_Inr valid_civil_def month_len_def)

lemma date_of_fields: "t_year (date_of n) = fst (civil n)" "t_month (date_of n) = fst (snd (civil n))"
  by (simp_all add: t_year_def t_month_def)

lemma years_back: "0 < k \<Longrightarrow> - 999999000 \<le> y \<Longrightarrow> y \<le> 999999999 \<Longrightarrow> k dvd 999999000 \<Longrightarrow> \<bar>y div k * k\<bar> \<le> 999999999"
  for y k :: int
proof -
  assume k: "0 < k" and y: "- 999999000 \<le> y" "y \<le> 999999999" and "k dvd 999999000"
  then obtain c where "999999000 = k * c" by (elim dvdE)
  then have "- c * k \<le> y" using y by (simp add: mult.commute)
  then have "- c \<le> y div k" by (rule mult_le_div [OF k])
  then have "- c * k \<le> y div k * k" using k by (intro mult_right_mono) auto
  then show ?thesis
    using div_bounds [OF k, of y] y \<open>999999000 = k * c\<close> by (simp add: mult.commute abs_le_iff)
qed

lemma truncateDate_start:
  assumes "\<bar>fst (civil n)\<bar> \<le> 999999999" "- 999999000 \<le> fst (civil n)"
  shows "truncateDate (date_of n) u = Inr (date_of (unit_start u n))"
proof -
  let ?y = "fst (civil n)" and ?d = "date_of n"
  have y: "t_year ?d = ?y" "?y \<le> 999999999" using assms(1) by (simp_all add: date_of_fields)
  have fd: "floorDiv ?y k * k = ?y div k * k" if "0 < k" for k using that by (simp add: floorDiv_div)
  have yb: "\<bar>?y div k * k\<bar> \<le> 999999999" if "k \<in> {1000, 100, 10}" for k
    using that assms y by (intro years_back) auto
  have qb: "1 \<le> date_quarter ?d" "date_quarter ?d \<le> 4" "date_quarter ?d = quarterOf (fst (snd (civil n)))"
    using quarter_of_range [of n] by (simp_all add: date_quarter_def date_of_fields)
  have qd: "newDate ?y ((date_quarter ?d - 1) * 3 + 1) 1 = Inr (date_of (quarter_day1 n))"
  proof -
    have e: "(date_quarter ?d - 1) * 3 + 1 = 3 * date_quarter ?d - 2" by simp
    show ?thesis
      unfolding e quarter_day1_def quarter_day_def qb(3) [symmetric] using assms(1) qb(1,2)
        month_len_bounds [of "leap ?y" "3 * date_quarter ?d - 2"]
      by (simp add: newDate_Inr valid_civil_def)
  qed
  have md: "newDate ?y (t_month ?d) 1 = Inr (date_of (month_day1 n))"
    using assms(1) month_range [of n] month_len_bounds [of "leap ?y" "fst (snd (civil n))"]
    by (simp add: newDate_Inr valid_civil_def month_day1_def date_of_fields)
  have wy: "isoWeek1Monday (date_weekyear ?d) = date_of (weekyear_day1 n)"
    using week_fields(1) [OF assms(1)]
    by (simp add: isoWeek1Monday_eq weekyear_day1_def date_weekyear_def t_isoweek_def)
  have wk: "add_date ?d 0 0 (- (date_weekday ?d - 1)) = date_of (week_day1 n)"
    using max_far [OF civil_year_day [OF assms(1)]] pos_mod_sign [of 7 "n + 3"] pos_mod_bound [of 7 "n + 3"]
    by (simp add: add_days_date date_weekday_of week_day1_def far_day_def)
  show ?thesis
    unfolding truncateDate_def Let_def y(1) unit_start_def
    using newDate_jan1 yb fd qd md wy wk assms(1) by (simp add: years_start_def)
qed

lemma unit_start_back:
  assumes "1000 dvd y"
  shows "civil_day y 1 1 - 371 \<le> unit_start u (civil_day y 1 1)"
proof -
  let ?m = "civil_day y 1 1"
  have c: "civil ?m = (y, 1, 1)" by (rule civil_civil_day) (simp add: valid_civil_def month_len_def)
  then have f: "fst (civil ?m) = y" "fst (snd (civil ?m)) = 1" by simp_all
  have d: "y div k * k = y" if "k dvd 1000" for k
    using assms that by (meson dvd_div_mult_self dvd_trans)
  have "?m - 371 \<le> weekyear_day1 ?m"
  proof -
    obtain wy w where iso: "iso_week_of ?m = (wy, w)" by fastforce
    note e = iso_week_of_eq [OF iso]
    have "thursday_of ?m < civil_day (wy + 1) 1 1" using civil_year_bounds(2) [OF e(2)] .
    then have "thursday_of ?m < first_thursday wy + 366"
      using first_thursday_range(1) [of wy] year_len [of wy]
      by (simp add: civil_day_def month_start_def split: if_splits)
    then show ?thesis using thursday_range(1) [of ?m] by (simp add: weekyear_day1_def iso)
  qed
  moreover have "?m - 371 \<le> week_day1 ?m"
    using pos_mod_bound [of 7 "?m + 3"] by (simp add: week_day1_def)
  moreover have "years_start 1000 ?m = ?m" "years_start 100 ?m = ?m" "years_start 10 ?m = ?m" "years_start 1 ?m = ?m"
    using d [of 1000] d [of 100] d [of 10] by (simp_all add: years_start_def f)
  moreover have "quarter_day1 ?m = ?m" "month_day1 ?m = ?m"
    by (simp_all add: quarter_day1_def month_day1_def f quarterOf_def quarter_day_def sdiv_nonneg)
  ultimately show ?thesis by (simp add: unit_start_def)
qed

lemma unit_start_above:
  assumes "1000 dvd y" "y \<le> fst (civil n)"
  shows "y - 2 \<le> fst (civil (unit_start u n))"
proof -
  have "civil_day y 1 1 \<le> n" using assms(2) by (simp add: jan1_le_iff)
  then have "unit_start u (civil_day y 1 1) \<le> unit_start u n" by (rule unit_start_mono)
  moreover have "civil_day (y - 2) 1 1 \<le> civil_day y 1 1 - 371"
    using year_len [of "y - 1"] year_len [of "y - 2"]
    by (simp add: civil_day_def month_start_def split: if_splits)
  ultimately have "civil_day (y - 2) 1 1 \<le> unit_start u n" using unit_start_back [OF assms(1), of u] by linarith
  then show ?thesis by (simp add: jan1_le_iff)
qed

lemma truncateDate_closure:
  assumes "canonical_date d" "canonical_date e" "- 999998000 \<le> t_year d" "inst_nanos d \<le> inst_nanos e"
  shows "\<exists>t s. truncateDate d u = Inr t \<and> truncateDate e u = Inr s
    \<and> inst_nanos t \<le> inst_nanos d \<and> truncateDate t u = Inr t \<and> inst_nanos t \<le> inst_nanos s"
proof -
  have ns: "inst_nanos (date_of a) \<le> inst_nanos (date_of b) \<longleftrightarrow> a \<le> b" for a b
    by (simp add: inst_nanos_def date_of_def)
  obtain m where d: "d = date_of m" and bm: "\<bar>fst (civil m)\<bar> \<le> 999999999"
    using assms(1) by (auto simp: canonical_date_def)
  obtain n where e: "e = date_of n" and bn: "\<bar>fst (civil n)\<bar> \<le> 999999999"
    using assms(2) by (auto simp: canonical_date_def)
  have mn: "m \<le> n" using assms(4) by (simp add: d e ns)
  have lo: "- 999998000 \<le> fst (civil m)" using assms(3) by (simp add: d date_of_fields)
  have lo2: "fst (civil m) \<le> fst (civil n)" by (rule civil_year_mono [OF mn])
  have up: "fst (civil (unit_start u m)) \<le> fst (civil m)" by (rule civil_year_mono [OF unit_start_le])
  have dn: "- 999998002 \<le> fst (civil (unit_start u m))" using unit_start_above [of "- 999998000" m u] lo by simp
  have "truncateDate (date_of (unit_start u m)) u = Inr (date_of (unit_start u m))"
    using truncateDate_start [of "unit_start u m" u] up dn bm by (simp add: unit_start_idem abs_le_iff)
  moreover have "truncateDate d u = Inr (date_of (unit_start u m))" "truncateDate e u = Inr (date_of (unit_start u n))"
    using truncateDate_start [of m u] truncateDate_start [of n u] bm bn lo lo2 by (simp_all add: d e)
  ultimately show ?thesis
    using unit_start_le [of u m] unit_start_mono [OF mn, of u] by (simp add: d ns)
qed

section \<open>Clock units\<close>

lemma multiples_of:
  assumes "0 < k"
  shows "start_of {j * k | j. True} (\<lambda>n. n div k * k)"
proof
  show "n div k * k \<in> {j * k | j. True}" for n by auto
  show "n div k * k \<le> n" for n using div_bounds [OF assms, of n] by (simp add: mult.commute)
  show "s \<le> n div k * k" if mem: "s \<in> {j * k | j. True}" and below: "s \<le> n" for s n
  proof -
    obtain j where "s = j * k" using mem by blast
    then show ?thesis using mult_le_div [OF assms, of j n] below assms by (auto intro: mult_right_mono)
  qed
qed

definition clock_unit :: "string \<Rightarrow> int" where
  "clock_unit u =
    (if u = ''hour'' then 3600 * nsPerSec else if u = ''minute'' then 60 * nsPerSec
     else if u = ''second'' then nsPerSec else if u = ''millisecond'' then 1000000
     else if u = ''microsecond'' then 1000 else 1)"

lemma clock_unit_pos: "0 < clock_unit u" by (simp add: clock_unit_def)

interpretation clock: start_of "{j * clock_unit u | j. True}" "\<lambda>n. n div clock_unit u * clock_unit u" for u
  by (rule multiples_of [OF clock_unit_pos])

lemma truncateClock_eq: "0 \<le> n \<Longrightarrow> truncateClock n u = n div clock_unit u * clock_unit u"
  by (simp add: truncateClock_def clock_unit_def sdiv_nonneg)

lemma truncateClock_floor:
  assumes "good_clock n"
  shows "good_clock (truncateClock n u)" "truncateClock n u \<le> n" "truncateClock (truncateClock n u) u = truncateClock n u"
    "clock_unit u dvd truncateClock n u" "n - truncateClock n u < clock_unit u"
proof -
  have n: "0 \<le> n" "n < nsPerDay" using assms by (simp_all add: good_clock_def)
  have nn: "0 \<le> n div clock_unit u * clock_unit u"
    using n(1) clock_unit_pos [of u] by (simp add: pos_imp_zdiv_nonneg_iff)
  show "truncateClock n u \<le> n" using clock.f_le n(1) by (simp add: truncateClock_eq)
  then show "good_clock (truncateClock n u)" using n nn by (simp add: good_clock_def truncateClock_eq)
  show "truncateClock (truncateClock n u) u = truncateClock n u"
    using n(1) nn clock.idem by (simp add: truncateClock_eq)
  show "clock_unit u dvd truncateClock n u" using n(1) by (simp add: truncateClock_eq)
  show "n - truncateClock n u < clock_unit u"
    using n(1) div_bounds [OF clock_unit_pos, of u n] by (simp add: truncateClock_eq mult.commute)
qed

end
