(* ===== verification/Lexer.thy ===== *)
theory Lexer
  imports Prelude
begin

text \<open>
  The lexer of cypher/syntax: lexer.go, token.go and errors.go. A lexer is the text still to
  be read and the position of its first byte. Go's \<open>unicode\<close> tables are a parameter; the
  UTF-8 coding of \<open>unicode/utf8\<close> is defined here, and so is the pairing of surrogates of
  \<open>unicode/utf16\<close>.
\<close>

section \<open>UTF-8\<close>

type_synonym rune = nat

definition byte :: "char \<Rightarrow> nat" where "byte c = of_char c"

definition runeError :: rune where "runeError = 0xFFFD"
definition maxRune :: rune where "maxRune = 0x10FFFF"

definition is_cont :: "nat \<Rightarrow> bool" where "is_cont b \<longleftrightarrow> 0x80 \<le> b \<and> b \<le> 0xBF"

text \<open>The range the second byte must lie in, and the number of bytes, by the first byte.\<close>

definition lead_info :: "nat \<Rightarrow> (nat \<times> nat \<times> nat) option" where
  "lead_info b =
    (if 0xC2 \<le> b \<and> b \<le> 0xDF then Some (2, 0x80, 0xBF)
     else if b = 0xE0 then Some (3, 0xA0, 0xBF)
     else if b = 0xED then Some (3, 0x80, 0x9F)
     else if 0xE1 \<le> b \<and> b \<le> 0xEF then Some (3, 0x80, 0xBF)
     else if b = 0xF0 then Some (4, 0x90, 0xBF)
     else if 0xF1 \<le> b \<and> b \<le> 0xF3 then Some (4, 0x80, 0xBF)
     else if b = 0xF4 then Some (4, 0x80, 0x8F)
     else None)"

text \<open>\<open>utf8.DecodeRuneInString\<close>: the code point and its width; an invalid byte has width 1.\<close>

definition decode_rune :: "string \<Rightarrow> rune \<times> nat" where
  "decode_rune s = (case map byte s of
       [] \<Rightarrow> (runeError, 0)
     | b0 # bs \<Rightarrow>
         if b0 < 0x80 then (b0, 1)
         else (case lead_info b0 of
             None \<Rightarrow> (runeError, 1)
           | Some (n, lo, hi) \<Rightarrow>
               if length bs < n - 1 \<or> hd bs < lo \<or> hi < hd bs \<or> \<not> list_all is_cont (take (n - 2) (tl bs))
               then (runeError, 1)
               else if n = 2 then ((b0 mod 32) * 64 + hd bs mod 64, 2)
               else if n = 3 then ((b0 mod 16) * 4096 + hd bs mod 64 * 64 + bs ! 1 mod 64, 3)
               else ((b0 mod 8) * 262144 + hd bs mod 64 * 4096 + bs ! 1 mod 64 * 64 + bs ! 2 mod 64, 4)))"

definition is_surrogate :: "rune \<Rightarrow> bool" where
  "is_surrogate r \<longleftrightarrow> 0xD800 \<le> r \<and> r < 0xE000"

text \<open>\<open>utf8.EncodeRune\<close>: a code point that is none is written as the replacement character.\<close>

definition encode_rune :: "rune \<Rightarrow> string" where
  "encode_rune r0 =
    (let r = (if maxRune < r0 \<or> is_surrogate r0 then runeError else r0) in
     map char_of
      (if r < 0x80 then [r]
       else if r < 0x800 then [0xC0 + r div 64, 0x80 + r mod 64]
       else if r < 0x10000 then [0xE0 + r div 4096, 0x80 + r div 64 mod 64, 0x80 + r mod 64]
       else [0xF0 + r div 262144, 0x80 + r div 4096 mod 64, 0x80 + r div 64 mod 64, 0x80 + r mod 64]))"

fun valid_utf8 :: "string \<Rightarrow> bool" where
  "valid_utf8 [] = True"
| "valid_utf8 (c # s) = (case decode_rune (c # s) of (r, w) \<Rightarrow>
     if r = runeError \<and> w \<le> 1 then False else valid_utf8 (drop (w - 1) s))"

record unitab =
  u_letter :: "rune \<Rightarrow> bool"
  u_digit :: "rune \<Rightarrow> bool"
  u_mark :: "rune \<Rightarrow> bool"
  u_space :: "rune \<Rightarrow> bool"

section \<open>Tokens\<close>

record pos =
  p_offset :: nat
  p_line :: nat
  p_col :: nat

datatype token_kind =
    EOF | IDENT | PARAM | INTEGER | FLOAT | STRING
  | LPAREN | RPAREN | LBRACK | RBRACK | LBRACE | RBRACE | COMMA | DOT | DOTDOT | COLON | DOUBLECOLON
  | SEMI | PIPE | PIPEPIPE | AMP | BANG | PERCENT | CARET | STAR | SLASH | PLUS | MINUS
  | EQ | NEQ | LT | GT | LTE | GTE | EQTILDE | PLUSEQ | DOLLAR

record token =
  t_kind :: token_kind
  t_pos :: pos
  t_text :: string
  t_value :: string
  t_keyword :: string

definition tok_end :: "token \<Rightarrow> nat" where
  "tok_end t = p_offset (t_pos t) + length (t_text t)"

definition tok_is :: "token \<Rightarrow> string \<Rightarrow> bool" where
  "tok_is t kw \<longleftrightarrow> t_kind t = IDENT \<and> t_keyword t = kw"

fun kind_string :: "token_kind \<Rightarrow> string" where
  "kind_string EOF = ''end of input''" | "kind_string IDENT = ''identifier''"
| "kind_string PARAM = ''parameter''" | "kind_string INTEGER = ''integer''"
| "kind_string FLOAT = ''float''" | "kind_string STRING = ''string''"
| "kind_string LPAREN = ''(''" | "kind_string RPAREN = '')''" | "kind_string LBRACK = ''[''"
| "kind_string RBRACK = '']''" | "kind_string LBRACE = ''{''" | "kind_string RBRACE = ''}''"
| "kind_string COMMA = '',''" | "kind_string DOT = ''.''" | "kind_string DOTDOT = ''..''"
| "kind_string COLON = '':''" | "kind_string DOUBLECOLON = ''::''" | "kind_string SEMI = '';''"
| "kind_string PIPE = ''|''" | "kind_string PIPEPIPE = ''||''" | "kind_string AMP = ''&''"
| "kind_string BANG = ''!''" | "kind_string PERCENT = ''%''" | "kind_string CARET = ''^''"
| "kind_string STAR = ''*''" | "kind_string SLASH = ''/''" | "kind_string PLUS = ''+''"
| "kind_string MINUS = ''-''" | "kind_string EQ = ''=''" | "kind_string NEQ = ''<>''"
| "kind_string LT = ''<''" | "kind_string GT = ''>''" | "kind_string LTE = ''<=''"
| "kind_string GTE = ''>=''" | "kind_string EQTILDE = ''=~''" | "kind_string PLUSEQ = ''+=''"
| "kind_string DOLLAR = ''$''"

definition allKeywords :: "string list" where
  "allKeywords =
    [''ALL'', ''AND'', ''ANY'', ''AS'', ''ASC'', ''ASCENDING'', ''BY'', ''CALL'', ''CASE'', ''COLLECT'',
     ''CONSTRAINT'', ''CONTAINS'', ''COUNT'', ''CREATE'', ''CSV'', ''CYPHER'', ''DELETE'', ''DESC'',
     ''DESCENDING'', ''DETACH'', ''DISTINCT'', ''DROP'', ''ELSE'', ''END'', ''ENDS'', ''ERROR'',
     ''EXISTS'', ''EXPLAIN'', ''FAIL'', ''FALSE'', ''FIELDTERMINATOR'', ''FILTER'', ''FINISH'', ''FOR'',
     ''FOREACH'', ''FROM'', ''GROUPS'', ''HEADERS'', ''IF'', ''IN'', ''INDEX'', ''INSERT'', ''IS'',
     ''JOIN'', ''LET'', ''LIMIT'', ''LOAD'', ''MATCH'', ''MERGE'', ''NEXT'', ''NODE'', ''NONE'',
     ''NORMALIZED'', ''NOT'', ''NULL'', ''OF'', ''OFFSET'', ''ON'', ''OPTIONAL'', ''OR'', ''ORDER'',
     ''PROFILE'', ''REMOVE'', ''REQUIRE'', ''RETURN'', ''ROWS'', ''SCAN'', ''SET'', ''SHORTEST'',
     ''SHOW'', ''SINGLE'', ''SKIP'', ''STARTS'', ''THEN'', ''TRANSACTIONS'', ''TRUE'', ''TYPED'',
     ''UNION'', ''UNIQUE'', ''UNWIND'', ''USING'', ''WHEN'', ''WHERE'', ''WITH'', ''XOR'', ''YIELD'']"

definition maxKeywordLen :: nat where "maxKeywordLen = 15"

text \<open>The loop over the bytes of a word: None at the first one that is not ASCII.\<close>

fun upper_ascii :: "string \<Rightarrow> string option" where
  "upper_ascii [] = Some []"
| "upper_ascii (c # s) = (if 0x80 \<le> byte c then None else map_option ((#) (upper_char c)) (upper_ascii s))"

definition lookupKeyword :: "string \<Rightarrow> string option" where
  "lookupKeyword word =
    (if length word < 2 \<or> maxKeywordLen < length word then None
     else case upper_ascii word of None \<Rightarrow> None
       | Some kw \<Rightarrow> if kw \<in> set allKeywords then Some kw else None)"

section \<open>The lexer\<close>

record syntax_error =
  se_pos :: pos
  se_found :: string
  se_msg :: string
  se_code :: string

definition errorCode :: "syntax_error \<Rightarrow> string" where
  "errorCode e = (if se_code e = [] then ''UnexpectedSyntax'' else se_code e)"

record lexer =
  l_rest :: string
  l_pos :: pos

definition newLexer :: "string \<Rightarrow> lexer" where
  "newLexer src = \<lparr>l_rest = src, l_pos = \<lparr>p_offset = 0, p_line = 1, p_col = 1\<rparr>\<rparr>"

definition errorc :: "string \<Rightarrow> pos \<Rightarrow> string \<Rightarrow> string \<Rightarrow> syntax_error" where
  "errorc code p found msg = \<lparr>se_pos = p, se_found = found, se_msg = msg, se_code = code\<rparr>"

definition errorf :: "pos \<Rightarrow> string \<Rightarrow> string \<Rightarrow> syntax_error" where
  "errorf p found msg = errorc [] p found msg"

text \<open>One turn of the loops of \<open>advanceTo\<close> and \<open>posAt\<close>.\<close>

definition step_char :: "string \<Rightarrow> pos \<Rightarrow> nat \<times> pos" where
  "step_char s p =
    (if hd s = CHR 0x0A then (1, p\<lparr>p_line := p_line p + 1, p_col := 1, p_offset := p_offset p + 1\<rparr>)
     else if byte (hd s) < 0x80 then (1, p\<lparr>p_col := p_col p + 1, p_offset := p_offset p + 1\<rparr>)
     else let w = snd (decode_rune s) in (w, p\<lparr>p_col := p_col p + 1, p_offset := p_offset p + w\<rparr>))"

lemma lead_info_n: "lead_info b = Some (n, lo, hi) \<Longrightarrow> n = 2 \<or> n = 3 \<or> n = 4"
  unfolding lead_info_def by (simp split: if_split_asm)

lemma decode_rune_width: "s \<noteq> [] \<Longrightarrow> 0 < snd (decode_rune s) \<and> snd (decode_rune s) \<le> length s"
proof -
  assume "s \<noteq> []"
  then obtain c t where s: "s = c # t" by (cases s) auto
  show ?thesis
  proof (cases "byte c < 0x80")
    case True
    then show ?thesis by (simp add: decode_rune_def s)
  next
    case big: False
    show ?thesis
    proof (cases "lead_info (byte c)")
      case None
      then show ?thesis using big by (simp add: decode_rune_def s)
    next
      case (Some x)
      then obtain n lo hi where x: "lead_info (byte c) = Some (n, lo, hi)" by (cases x) auto
      then have "n = 2 \<or> n = 3 \<or> n = 4" by (rule lead_info_n)
      then show ?thesis using big by (auto simp: decode_rune_def s x Suc_le_eq)
    qed
  qed
qed

lemma step_char_width: "s \<noteq> [] \<Longrightarrow> 0 < fst (step_char s p) \<and> fst (step_char s p) \<le> length s"
  using decode_rune_width [of s] by (auto simp: step_char_def Let_def Suc_le_eq)

lemma step_char_drop: "(w, p') = step_char s p \<Longrightarrow> s \<noteq> [] \<Longrightarrow> 0 < w"
  using step_char_width [of s p] by (metis fst_conv)

function advance :: "nat \<Rightarrow> string \<Rightarrow> pos \<Rightarrow> string \<times> pos" where
  "advance n s p = (if n = 0 \<or> s = [] then (s, p)
     else case step_char s p of (w, p') \<Rightarrow> advance (n - w) (drop w s) p')"
  by pat_completeness auto
termination
  by (relation "measure (\<lambda>(n, s, p). length s)") (auto dest!: step_char_drop)

declare advance.simps [simp del]

definition advanceTo :: "nat \<Rightarrow> lexer \<Rightarrow> lexer" where
  "advanceTo n l = (case advance n (l_rest l) (l_pos l) of (s, p) \<Rightarrow> l\<lparr>l_rest := s, l_pos := p\<rparr>)"

definition posAt :: "lexer \<Rightarrow> nat \<Rightarrow> pos" where
  "posAt l n = snd (advance n (l_rest l) (l_pos l))"

definition isIdentStartByte :: "char \<Rightarrow> bool" where
  "isIdentStartByte c \<longleftrightarrow> c = CHR ''_'' \<or> (97 \<le> byte c \<and> byte c \<le> 122) \<or> (65 \<le> byte c \<and> byte c \<le> 90)"

definition isHexDigit :: "char \<Rightarrow> bool" where
  "isHexDigit c \<longleftrightarrow> isDigit c \<or> (97 \<le> byte c \<and> byte c \<le> 102) \<or> (65 \<le> byte c \<and> byte c \<le> 70)"

definition isIdentStartRune :: "unitab \<Rightarrow> rune \<Rightarrow> bool" where
  "isIdentStartRune u r \<longleftrightarrow> r = 95 \<or> u_letter u r"

definition isIdentPartRune :: "unitab \<Rightarrow> rune \<Rightarrow> bool" where
  "isIdentPartRune u r \<longleftrightarrow> r = 95 \<or> u_letter u r \<or> u_digit u r \<or> u_mark u r"

definition isIdentPartByte :: "char \<Rightarrow> bool" where
  "isIdentPartByte c \<longleftrightarrow> isIdentStartByte c \<or> isDigit c"

text \<open>\<open>strings.Index\<close> of a one-byte or two-byte pattern.\<close>

fun index_of :: "string \<Rightarrow> string \<Rightarrow> nat option" where
  "index_of pat [] = (if pat = [] then Some 0 else None)"
| "index_of pat (c # s) = (if prefix pat (c # s) then Some 0 else map_option Suc (index_of pat s))"

definition is_blank :: "char \<Rightarrow> bool" where
  "is_blank c \<longleftrightarrow> c \<in> {CHR '' '', CHR 0x09, CHR 0x0A, CHR 0x0D, CHR 0x0B, CHR 0x0C}"

text \<open>How many bytes of trivia are at the front: 0 when a token or the end is next.\<close>

definition trivia_len :: "unitab \<Rightarrow> string \<Rightarrow> nat option" where
  "trivia_len u s = (case s of
       [] \<Rightarrow> Some 0
     | c # r \<Rightarrow>
         if is_blank c then Some 1
         else if prefix ''//'' s then Some (case index_of [CHR 0x0A] s of None \<Rightarrow> length s | Some e \<Rightarrow> e)
         else if prefix ''/*'' s then map_option (\<lambda>e. 2 + e + 2) (index_of ''*/'' (drop 2 s))
         else if 0x80 \<le> byte c then
           (case decode_rune s of (r, w) \<Rightarrow>
              if r \<noteq> runeError \<and> (u_space u r \<or> r = 0xFEFF) then Some w else Some 0)
         else Some 0)"

lemma advance_le: "length (fst (advance n s p)) \<le> length s"
proof (induction n s p rule: advance.induct)
  case (1 n s p)
  show ?case
  proof (cases "n = 0 \<or> s = []")
    case True
    then show ?thesis by (simp add: advance.simps [of n])
  next
    case False
    obtain w p' where sc: "step_char s p = (w, p')" by fastforce
    have "length (fst (advance (n - w) (drop w s) p')) \<le> length (drop w s)"
      by (rule "1.IH" [OF False sc [symmetric]]) 
    then show ?thesis using False by (simp add: advance.simps [of n] sc)
  qed
qed

lemma advance_less: "0 < n \<Longrightarrow> s \<noteq> [] \<Longrightarrow> length (fst (advance n s p)) < length s"
proof -
  assume n: "0 < n" and s: "s \<noteq> []"
  obtain w p' where sc: "step_char s p = (w, p')" by fastforce
  have "0 < w" "w \<le> length s" using step_char_width [OF s, of p] sc by simp_all
  then have "length (drop w s) < length s" by simp
  then show ?thesis
    using n s advance_le [of "n - w" "drop w s" p'] by (simp add: advance.simps [of n] sc)
qed

lemma advanceTo_less: "0 < n \<Longrightarrow> l_rest l \<noteq> [] \<Longrightarrow> length (l_rest (advanceTo n l)) < length (l_rest l)"
  using advance_less [of n "l_rest l" "l_pos l"] by (auto simp: advanceTo_def split: prod.split)

function skipTrivia :: "unitab \<Rightarrow> lexer \<Rightarrow> syntax_error + lexer" where
  "skipTrivia u l = (case trivia_len u (l_rest l) of
       None \<Rightarrow> Inl (errorf (l_pos l) ''/*'' ''unterminated block comment'')
     | Some n \<Rightarrow> if n = 0 \<or> l_rest l = [] then Inr l else skipTrivia u (advanceTo n l))"
  by pat_completeness auto
termination
  by (relation "measure (\<lambda>(u, l). length (l_rest l))") (auto simp: advanceTo_less)

declare skipTrivia.simps [simp del]

section \<open>Scanning one token\<close>

definition mk_token :: "lexer \<Rightarrow> token_kind \<Rightarrow> nat \<Rightarrow> string \<Rightarrow> string \<Rightarrow> token \<times> lexer" where
  "mk_token l k n v kw =
    (\<lparr>t_kind = k, t_pos = l_pos l, t_text = take n (l_rest l), t_value = v, t_keyword = kw\<rparr>, advanceTo n l)"

definition emit :: "lexer \<Rightarrow> token_kind \<Rightarrow> nat \<Rightarrow> token \<times> lexer" where
  "emit l k n = mk_token l k n (take n (l_rest l)) []"

subsection \<open>Identifiers\<close>

function ident_len :: "unitab \<Rightarrow> string \<Rightarrow> nat" where
  "ident_len u s = (if s = [] then 0
     else if isIdentPartByte (hd s) then Suc (ident_len u (tl s))
     else if byte (hd s) < 0x80 then 0
     else let r = fst (decode_rune s); w = snd (decode_rune s) in
       if r = runeError \<or> \<not> isIdentPartRune u r then 0 else w + ident_len u (drop w s))"
  by pat_completeness auto
termination
  by (relation "measure (\<lambda>(u, s). length s)") (auto simp: decode_rune_width)

declare ident_len.simps [simp del]

definition scan_ident :: "unitab \<Rightarrow> lexer \<Rightarrow> token \<times> lexer" where
  "scan_ident u l =
    (let n = ident_len u (l_rest l); text = take n (l_rest l)
     in mk_token l IDENT n text (case lookupKeyword text of Some kw \<Rightarrow> kw | None \<Rightarrow> []))"

text \<open>Where the closing backtick is, and whether an escaped one was passed.\<close>

function close_tick :: "string \<Rightarrow> (nat \<times> bool) option" where
  "close_tick s = (case index_of ''`'' s of
       None \<Rightarrow> None
     | Some j \<Rightarrow>
         if j + 1 < length s \<and> s ! (j + 1) = CHR ''`''
         then map_option (\<lambda>(i, _). (j + 2 + i, True)) (close_tick (drop (j + 2) s))
         else Some (j, False))"
  by pat_completeness auto
termination
  by (relation "measure length") auto

declare close_tick.simps [simp del]

fun undouble :: "string \<Rightarrow> string" where
  "undouble (c # d # s) = (if c = CHR ''`'' \<and> d = CHR ''`'' then CHR ''`'' # undouble s else c # undouble (d # s))"
| "undouble s = s"

definition quotedIdent :: "lexer \<Rightarrow> syntax_error + token \<times> lexer" where
  "quotedIdent l = (case close_tick (tl (l_rest l)) of
       None \<Rightarrow> Inl (errorf (l_pos l) ''`'' ''unterminated quoted identifier'')
     | Some (i, escaped) \<Rightarrow>
         let value = take i (tl (l_rest l)); value = (if escaped then undouble value else value) in
         if \<not> valid_utf8 value then Inl (errorf (l_pos l) [] ''invalid UTF-8 encoding'')
         else Inr (mk_token l IDENT (i + 2) value []))"

subsection \<open>Parameters\<close>

function param_tail :: "unitab \<Rightarrow> string \<Rightarrow> nat" where
  "param_tail u s = (if s = [] \<or> byte (hd s) < 0x80 then 0
     else let r = fst (decode_rune s); w = snd (decode_rune s) in
       if r = runeError \<or> \<not> isIdentPartRune u r then 0
       else let k = length (takeWhile isIdentPartByte (drop w s)) in w + k + param_tail u (drop k (drop w s)))"
  by pat_completeness auto
termination
proof (relation "measure (\<lambda>(u, s). length s)")
  fix u :: unitab and s :: string and r w k
  assume "\<not> (s = [] \<or> byte (hd s) < 128)" "w = snd (decode_rune s)"
  then have "0 < w" "s \<noteq> []" using decode_rune_width [of s] by simp_all
  then show "((u, drop k (drop w s)), u, s) \<in> measure (\<lambda>(u, s). length s)"
    by (simp add: diff_less_Suc)
qed simp

declare param_tail.simps [simp del]

function rune_run :: "unitab \<Rightarrow> string \<Rightarrow> nat" where
  "rune_run u s = (if s = [] then 0
     else let r = fst (decode_rune s); w = snd (decode_rune s) in
       if r = runeError \<or> \<not> isIdentPartRune u r then 0 else w + rune_run u (drop w s))"
  by pat_completeness auto
termination
  by (relation "measure (\<lambda>(u, s). length s)") (auto simp: decode_rune_width)

declare rune_run.simps [simp del]

definition param_token :: "lexer \<Rightarrow> nat \<Rightarrow> token \<times> lexer" where
  "param_token l n = mk_token l PARAM (Suc n) (take n (tl (l_rest l))) []"

definition param :: "unitab \<Rightarrow> lexer \<Rightarrow> syntax_error + token \<times> lexer" where
  "param u l = (case tl (l_rest l) of
       [] \<Rightarrow> Inr (emit l DOLLAR 1)
     | c # r \<Rightarrow> let s = c # r in
         if isDigit c then Inr (param_token l (length (takeWhile isDigit s)))
         else if isIdentStartByte c then
           (let k = length (takeWhile isIdentPartByte s) in Inr (param_token l (k + param_tail u (drop k s))))
         else if c = CHR ''`'' then
           bindE (quotedIdent (advanceTo 1 l)) (\<lambda>(inner, l').
             Inr (\<lparr>t_kind = PARAM, t_pos = l_pos l,
                   t_text = take (tok_end inner - p_offset (l_pos l)) (l_rest l),
                   t_value = t_value inner, t_keyword = []\<rparr>, l'))
         else if 0x80 \<le> byte c then
           (if \<not> isIdentStartRune u (fst (decode_rune s)) then Inr (emit l DOLLAR 1)
            else Inr (param_token l (rune_run u s)))
         else Inr (emit l DOLLAR 1))"

subsection \<open>Numbers\<close>

definition is_octal :: "char \<Rightarrow> bool" where
  "is_octal c \<longleftrightarrow> 48 \<le> byte c \<and> byte c \<le> 55"

definition number :: "lexer \<Rightarrow> syntax_error + token \<times> lexer" where
  "number l =
    (let s = l_rest l; bad = (\<lambda>n msg. Inl (errorc ''InvalidNumberLiteral'' (l_pos l) (take n s) msg)) in
     if hd s = CHR ''0'' \<and> 1 < length s \<and> (s ! 1 = CHR ''x'' \<or> s ! 1 = CHR ''X'') then
       (let k = length (takeWhile isHexDigit (drop 2 s)) in
        if k = 0 then bad 2 ''malformed hexadecimal literal'' else Inr (mk_token l INTEGER (2 + k) (take (2 + k) s) []))
     else if hd s = CHR ''0'' \<and> 1 < length s \<and> (s ! 1 = CHR ''o'' \<or> s ! 1 = CHR ''O'') then
       (let k = length (takeWhile is_octal (drop 2 s)) in
        if k = 0 then bad 2 ''malformed octal literal'' else Inr (mk_token l INTEGER (2 + k) (take (2 + k) s) []))
     else
       let n = length (takeWhile isDigit s);
           frac = (n + 1 < length s \<and> s ! n = CHR ''.'' \<and> isDigit (s ! (n + 1)));
           n = (if frac then n + 1 + length (takeWhile isDigit (drop (n + 1) s)) else n);
           kind = (if frac then FLOAT else INTEGER)
       in if n < length s \<and> (s ! n = CHR ''e'' \<or> s ! n = CHR ''E'') then
            (let j = n + 1; j = (if j < length s \<and> (s ! j = CHR ''+'' \<or> s ! j = CHR ''-'') then j + 1 else j) in
             if length s \<le> j \<or> \<not> isDigit (s ! j) then bad j ''malformed exponent in numeric literal''
             else (let n = j + length (takeWhile isDigit (drop j s)) in Inr (mk_token l FLOAT n (take n s) [])))
          else Inr (mk_token l kind n (take n s) []))"

subsection \<open>Strings\<close>

definition hex_digit :: "char \<Rightarrow> nat option" where
  "hex_digit c =
    (if isDigit c then Some (byte c - 48)
     else if 97 \<le> byte c \<and> byte c \<le> 102 then Some (byte c - 97 + 10)
     else if 65 \<le> byte c \<and> byte c \<le> 70 then Some (byte c - 65 + 10)
     else None)"

text \<open>A rune is an \<open>int32\<close>: eight hex digits can make it negative.\<close>

definition wrap32 :: "int \<Rightarrow> int" where
  "wrap32 x = (x + 2 ^ 31) mod 2 ^ 32 - 2 ^ 31"

fun hex_value :: "int \<Rightarrow> string \<Rightarrow> int option" where
  "hex_value r [] = Some r"
| "hex_value r (c # s) = (case hex_digit c of None \<Rightarrow> None | Some d \<Rightarrow> hex_value (wrap32 (r * 16 + int d)) s)"

definition hexRune :: "string \<Rightarrow> nat \<Rightarrow> int option" where
  "hexRune s n = (if length s < n then None else hex_value 0 (take n s))"

definition surrogate_int :: "int \<Rightarrow> bool" where
  "surrogate_int r \<longleftrightarrow> 0xD800 \<le> r \<and> r < 0xE000"

text \<open>\<open>WriteRune\<close>: what is no code point is written as the replacement character.\<close>

definition write_rune :: "int \<Rightarrow> string" where
  "write_rune r = (if r < 0 then encode_rune runeError else encode_rune (nat r))"

definition decode_pair :: "int \<Rightarrow> int \<Rightarrow> int option" where
  "decode_pair hi lo =
    (if 0xD800 \<le> hi \<and> hi < 0xDC00 \<and> 0xDC00 \<le> lo \<and> lo < 0xE000
     then Some ((hi - 0xD800) * 1024 + (lo - 0xDC00) + 0x10000) else None)"

definition escape_unicode :: "pos \<Rightarrow> string \<Rightarrow> syntax_error + string \<times> nat" where
  "escape_unicode p s =
    (case hexRune (drop 2 s) 8 of
       Some r \<Rightarrow>
         if r > int maxRune \<or> surrogate_int r
         then Inl (errorc ''InvalidUnicodeLiteral'' p (take 10 s) ''invalid escape: not a Unicode code point'')
         else Inr (write_rune r, 10)
     | None \<Rightarrow> (case hexRune (drop 2 s) 4 of
         None \<Rightarrow> Inl (errorc ''InvalidUnicodeLiteral'' p (take 6 s) (''invalid '' @ CHR 0x5C # ''u escape: expected 4 or 8 hex digits''))
       | Some r \<Rightarrow>
           if surrogate_int r then
             (case (if r < 0xDC00 \<and> 7 < length s \<and> s ! 6 = CHR 0x5C \<and> (s ! 7 = CHR ''u'' \<or> s ! 7 = CHR ''U'')
                    then Option.bind (hexRune (drop 8 s) 4) (decode_pair r) else None) of
                Some pair \<Rightarrow> Inr (write_rune pair, 12)
              | None \<Rightarrow> Inl (errorc ''InvalidUnicodeLiteral'' p (take 6 s) (''invalid '' @ CHR 0x5C # ''u escape: unpaired UTF-16 surrogate'')))
           else Inr (write_rune r, 6)))"

definition escape :: "pos \<Rightarrow> string \<Rightarrow> syntax_error + string \<times> nat" where
  "escape p s = (case tl s of
       [] \<Rightarrow> Inl (errorf p [CHR 0x5C] ''unterminated string literal'')
     | c # r \<Rightarrow>
         if c = CHR 0x5C \<or> c = CHR 0x27 \<or> c = CHR 0x22 \<or> c = CHR ''`'' then Inr ([c], 2)
         else if c = CHR ''b'' \<or> c = CHR ''B'' then Inr ([CHR 0x08], 2)
         else if c = CHR ''f'' \<or> c = CHR ''F'' then Inr ([CHR 0x0C], 2)
         else if c = CHR ''n'' \<or> c = CHR ''N'' then Inr ([CHR 0x0A], 2)
         else if c = CHR ''r'' \<or> c = CHR ''R'' then Inr ([CHR 0x0D], 2)
         else if c = CHR ''t'' \<or> c = CHR ''T'' then Inr ([CHR 0x09], 2)
         else if c = CHR ''u'' \<or> c = CHR ''U'' then escape_unicode p s
         else Inl (errorf p (CHR 0x5C # encode_rune (fst (decode_rune (c # r)))) ''invalid escape sequence in string literal''))"

lemma escape_pos: "escape p s = Inr (w, k) \<Longrightarrow> 0 < k \<and> s \<noteq> []"
  by (cases s) (auto simp: escape_def escape_unicode_def split: list.splits if_splits option.splits)

function str_loop :: "lexer \<Rightarrow> char \<Rightarrow> nat \<Rightarrow> string \<Rightarrow> string \<Rightarrow> syntax_error + nat \<times> string" where
  "str_loop l q n acc s =
    (if s = [] then Inl (errorf (l_pos l) [q] ''unterminated string literal'')
     else if hd s = q then Inr (n + 1, acc)
     else if hd s = CHR 0x5C then
       (case escape (posAt l n) s of Inl e \<Rightarrow> Inl e
        | Inr (w, k) \<Rightarrow> str_loop l q (n + k) (acc @ w) (drop k s))
     else if 0x80 \<le> byte (hd s) then
       (let r = fst (decode_rune s); w = snd (decode_rune s) in
        if r = runeError \<and> w = 1 then Inl (errorf (posAt l n) [] ''invalid UTF-8 encoding'')
        else str_loop l q (n + w) (acc @ take w s) (drop w s))
     else str_loop l q (n + 1) (acc @ [hd s]) (tl s))"
  by pat_completeness auto
termination
  by (relation "measure (\<lambda>(l, q, n, acc, s). length s)") (auto simp: decode_rune_width dest: escape_pos)

declare str_loop.simps [simp del]

definition lex_str :: "lexer \<Rightarrow> char \<Rightarrow> syntax_error + token \<times> lexer" where
  "lex_str l q = bindE (str_loop l q 1 [] (tl (l_rest l))) (\<lambda>(n, v). Inr (mk_token l STRING n v []))"

subsection \<open>Operators\<close>

definition operator :: "lexer \<Rightarrow> syntax_error + token \<times> lexer" where
  "operator l =
    (let c = hd (l_rest l); next = (if 1 < length (l_rest l) then l_rest l ! 1 else CHR 0x00);
         one = (\<lambda>k. Inr (emit l k 1)); two = (\<lambda>k. Inr (emit l k 2)) in
     if c = CHR ''('' then one LPAREN else if c = CHR '')'' then one RPAREN
     else if c = CHR ''['' then one LBRACK else if c = CHR '']'' then one RBRACK
     else if c = CHR ''{'' then one LBRACE else if c = CHR ''}'' then one RBRACE
     else if c = CHR '','' then one COMMA else if c = CHR '';'' then one SEMI
     else if c = CHR ''&'' then one AMP else if c = CHR ''!'' then one BANG
     else if c = CHR ''%'' then one PERCENT else if c = CHR ''^'' then one CARET
     else if c = CHR ''*'' then one STAR else if c = CHR ''-'' then one MINUS
     else if c = CHR ''/'' then one SLASH
     else if c = CHR ''.'' then
       (if isDigit next then number l else if next = CHR ''.'' then two DOTDOT else one DOT)
     else if c = CHR '':'' then (if next = CHR '':'' then two DOUBLECOLON else one COLON)
     else if c = CHR ''|'' then (if next = CHR ''|'' then two PIPEPIPE else one PIPE)
     else if c = CHR ''+'' then (if next = CHR ''='' then two PLUSEQ else one PLUS)
     else if c = CHR ''='' then (if next = CHR ''~'' then two EQTILDE else one EQ)
     else if c = CHR ''<'' then (if next = CHR ''>'' then two NEQ else if next = CHR ''='' then two LTE else one LT)
     else if c = CHR ''>'' then (if next = CHR ''='' then two GTE else one GT)
     else Inl (errorf (l_pos l) [c] ''unexpected character''))"

section \<open>The token stream\<close>

definition scan_token :: "unitab \<Rightarrow> lexer \<Rightarrow> syntax_error + token \<times> lexer" where
  "scan_token u l =
    (if l_rest l = [] then Inr (mk_token l EOF 0 [] [])
     else let c = hd (l_rest l) in
       if isIdentStartByte c then Inr (scan_ident u l)
       else if isDigit c then number l
       else if c = CHR 0x27 \<or> c = CHR 0x22 then lex_str l c
       else if c = CHR ''`'' then quotedIdent l
       else if c = CHR ''$'' then param u l
       else if 0x80 \<le> byte c then
         (let r = fst (decode_rune (l_rest l)); w = snd (decode_rune (l_rest l)) in
          if r = runeError \<and> w = 1 then Inl (errorf (l_pos l) [] ''invalid UTF-8 encoding'')
          else if isIdentStartRune u r then Inr (scan_ident u l)
          else Inl (errorc ''InvalidUnicodeCharacter'' (l_pos l) (encode_rune r) ''unexpected character''))
       else operator l)"

definition next_token :: "unitab \<Rightarrow> lexer \<Rightarrow> syntax_error + token \<times> lexer" where
  "next_token u l = bindE (skipTrivia u l) (scan_token u)"

text \<open>
  \<open>Tokenize\<close>: the tokens, with the error that ended them if there was one. The loop is given a
  number of turns; None is a loop that has not ended by then.
\<close>

fun tokenize_loop :: "unitab \<Rightarrow> nat \<Rightarrow> lexer \<Rightarrow> (token list \<times> syntax_error option) option" where
  "tokenize_loop u 0 l = None"
| "tokenize_loop u (Suc n) l = (case next_token u l of
       Inl e \<Rightarrow> Some ([], Some e)
     | Inr (t, l') \<Rightarrow>
         if t_kind t = EOF then Some ([t], None)
         else map_option (\<lambda>(ts, e). (t # ts, e)) (tokenize_loop u n l'))"

definition tokenize :: "unitab \<Rightarrow> string \<Rightarrow> (token list \<times> syntax_error option) option" where
  "tokenize u src = tokenize_loop u (length src + 1) (newLexer src)"

end
