(* ===== verification/LexerFacts.thy ===== *)
theory LexerFacts
  imports Lexer
begin

text \<open>
  Facts about the lexer: every scanner consumes whole characters and makes its token of exactly
  those bytes; so the loop over the tokens ends, and the tokens and the trivia between them spell
  the text.
\<close>

section \<open>Whole characters\<close>

definition char_width :: "string \<Rightarrow> nat" where
  "char_width s = (if byte (hd s) < 0x80 then 1 else snd (decode_rune s))"

text \<open>n bytes at the front of s are whole characters.\<close>

inductive chars :: "nat \<Rightarrow> string \<Rightarrow> bool" where
  chars_0 [simp, intro]: "chars 0 s"
| chars_step: "s \<noteq> [] \<Longrightarrow> chars n (drop (char_width s) s) \<Longrightarrow> chars (char_width s + n) s"

lemma step_char_fst: "fst (step_char s p) = char_width s"
  by (auto simp: step_char_def char_width_def byte_def Let_def)

lemma char_width_pos: "s \<noteq> [] \<Longrightarrow> 0 < char_width s \<and> char_width s \<le> length s"
  using step_char_width [of s undefined] by (simp add: step_char_fst)

lemma advance_exact:
  "chars n s \<Longrightarrow> fst (advance n s p) = drop n s \<and> p_offset (snd (advance n s p)) = p_offset p + n"
proof (induction n s arbitrary: p rule: chars.induct)
  case (chars_0 s)
  then show ?case by (simp add: advance.simps [of 0])
next
  case (chars_step s n)
  obtain w p' where sc: "step_char s p = (w, p')" by fastforce
  then have w: "w = char_width s" using step_char_fst [of s p] by simp
  have off: "p_offset p' = p_offset p + w"
    using sc by (auto simp: step_char_def Let_def split: if_splits)
  have nz: "char_width s + n \<noteq> 0" using char_width_pos [OF chars_step(1)] by simp
  have "advance (char_width s + n) s p = advance n (drop (char_width s) s) p'"
    using chars_step(1) nz char_width_pos [OF chars_step(1)] by (simp add: advance.simps [of "char_width s + n"] sc w)
  then show ?case using chars_step.IH [of p'] off w by (simp add: add.commute)
qed

lemma chars_append: "chars m s \<Longrightarrow> chars n (drop m s) \<Longrightarrow> chars (m + n) s"
proof (induction m s rule: chars.induct)
  case (chars_0 s)
  then show ?case by simp
next
  case (chars_step s m)
  then have "chars (m + n) (drop (char_width s) s)" by (simp add: add.commute)
  from chars.chars_step [OF chars_step(1) this] show ?case by (simp add: add.assoc)
qed

lemma chars_ascii: "s \<noteq> [] \<Longrightarrow> byte (hd s) < 0x80 \<Longrightarrow> chars 1 s"
  using chars_step [of s 0] by (simp add: char_width_def)

lemma chars_rune: "s \<noteq> [] \<Longrightarrow> 0x80 \<le> byte (hd s) \<Longrightarrow> chars (snd (decode_rune s)) s"
  using chars_step [of s 0] by (simp add: char_width_def)

text \<open>The bytes of a character after the first are not ASCII, so every ASCII byte begins a character.\<close>

lemma char_inner:
  assumes "s \<noteq> []" "0 < i" "i < char_width s"
  shows "0x80 \<le> byte (s ! i)"
proof -
  obtain c t where s: "s = c # t" using assms(1) by (cases s) auto
  have big: "\<not> byte c < 0x80" using assms by (auto simp: char_width_def s)
  then have w: "i < snd (decode_rune s)" using assms by (simp add: char_width_def s)
  then obtain n lo hi where x: "lead_info (byte c) = Some (n, lo, hi)"
    using assms(2) big by (cases "lead_info (byte c)") (auto simp: decode_rune_def s)
  have n: "n = 2 \<or> n = 3 \<or> n = 4" by (rule lead_info_n [OF x])
  have lo: "0x80 \<le> lo" using x by (auto simp: lead_info_def split: if_split_asm)
  let ?bs = "map byte t"
  have ok: "\<not> (length ?bs < n - 1 \<or> hd ?bs < lo \<or> hi < hd ?bs \<or> \<not> list_all is_cont (take (n - 2) (tl ?bs)))"
    using w assms(2) big x by (auto simp: decode_rune_def s split: if_split_asm)
  then have wn: "snd (decode_rune s) = n" using big x n by (auto simp: decode_rune_def s)
  obtain j where j: "i = Suc j" using assms(2) by (cases i) auto
  have jl: "j < n - 1" "j < length t" using w wn j ok by auto
  show ?thesis
  proof (cases j)
    case 0
    then show ?thesis using ok lo jl by (cases t) (auto simp: s j)
  next
    case (Suc k)
    have "take (n - 2) (tl ?bs) ! k = byte (t ! j)" "k < length (take (n - 2) (tl ?bs))"
      using jl Suc by (cases t; auto)+
    then have "is_cont (byte (t ! j))" using ok by (metis list_all_length)
    then show ?thesis by (simp add: s j is_cont_def)
  qed
qed

lemma chars_at:
  "n \<le> length s \<Longrightarrow> n = length s \<or> byte (s ! n) < 0x80 \<Longrightarrow> chars n s"
proof (induction "length s" arbitrary: n s rule: less_induct)
  case less
  show ?case
  proof (cases "n = 0")
    case False
    then have s: "s \<noteq> []" using less.prems(1) by auto
    note w = char_width_pos [OF s]
    have "char_width s \<le> n"
    proof (rule ccontr)
      assume "\<not> char_width s \<le> n"
      then have "0x80 \<le> byte (s ! n)" "n \<noteq> length s"
        using char_inner [OF s, of n] False w by auto
      then show False using less.prems(2) by simp
    qed
    moreover have "chars (n - char_width s) (drop (char_width s) s)"
      using w s less.prems calculation by (intro less.hyps) (auto simp: nth_append)
    ultimately show ?thesis using chars_step [OF s, of "n - char_width s"] by simp
  qed simp
qed

lemma chars_le: "chars n s \<Longrightarrow> n \<le> length s"
proof (induction n s rule: chars.induct)
  case (chars_step s n)
  then show ?case using char_width_pos [of s] by (simp; linarith)
qed simp

lemma chars_Suc: "n < length s \<Longrightarrow> byte (s ! n) < 0x80 \<Longrightarrow> chars (Suc n) s"
  using chars_append [OF chars_at [of n s], of 1] chars_ascii [of "drop n s"] by (simp add: hd_drop_conv_nth)

lemma digit_ascii: "isDigit c \<Longrightarrow> byte c < 0x80" by (simp add: isDigit_def byte_def)
lemma ident_ascii: "isIdentPartByte c \<Longrightarrow> byte c < 0x80"
  by (auto simp: isIdentPartByte_def isIdentStartByte_def isDigit_def byte_def)
lemma hex_ascii: "isHexDigit c \<Longrightarrow> byte c < 0x80" by (auto simp: isHexDigit_def isDigit_def byte_def)
lemma oct_ascii: "is_octal c \<Longrightarrow> byte c < 0x80" by (simp add: is_octal_def)

lemma chars_run:
  assumes "\<And>c. P c \<Longrightarrow> byte c < 0x80"
  shows "chars (length (takeWhile P s)) s"
proof (induction s)
  case (Cons c s)
  show ?case
  proof (cases "P c")
    case True
    then have "chars 1 (c # s)" using assms by (intro chars_ascii) auto
    from chars_append [OF this, of "length (takeWhile P s)"] Cons True show ?thesis by simp
  qed simp
qed simp

lemma chars_ident: "chars (ident_len u s) s"
proof (induction u s rule: ident_len.induct)
  case (1 u s)
  show ?case
  proof (cases "s = []")
    case True
    then show ?thesis by (simp add: ident_len.simps)
  next
    case ne: False
    consider "isIdentPartByte (hd s)" | "\<not> isIdentPartByte (hd s)" "byte (hd s) < 0x80"
      | "\<not> isIdentPartByte (hd s)" "\<not> byte (hd s) < 0x80" by blast
    then show ?thesis
    proof cases
      case 1
      have "chars 1 s" using ne ident_ascii [OF 1] by (rule chars_ascii)
      then have "chars (1 + ident_len u (tl s)) s"
        using "1.IH"(1) [OF ne 1] by (intro chars_append) (simp_all add: drop_Suc)
      then show ?thesis using ne 1 by (simp add: ident_len.simps [of u s])
    next
      case 2
      then show ?thesis using ne by (simp add: ident_len.simps [of u s])
    next
      case 3
      have "chars (snd (decode_rune s)) s" using ne 3(2) by (intro chars_rune) auto
      then show ?thesis
        using "1.IH"(2) [OF ne 3 refl refl] ne 3
        by (subst ident_len.simps) (auto simp: Let_def intro: chars_append)
    qed
  qed
qed

lemma chars_rune_run: "chars (rune_run u s) s"
proof (induction u s rule: rune_run.induct)
  case (1 u s)
  show ?case
  proof (cases "s = [] \<or> fst (decode_rune s) = runeError \<or> \<not> isIdentPartRune u (fst (decode_rune s))")
    case True
    then show ?thesis by (subst rune_run.simps) (auto simp: Let_def)
  next
    case False
    have "snd (decode_rune s) = char_width s"
      using False by (cases s) (auto simp: char_width_def decode_rune_def)
    then have "chars (snd (decode_rune s)) s" using False chars_step [of s 0] by simp
    then show ?thesis
      using "1.IH" [OF _ refl refl] False by (subst rune_run.simps) (auto simp: Let_def intro: chars_append)
  qed
qed

lemma chars_param_tail: "chars (param_tail u s) s"
proof (induction u s rule: param_tail.induct)
  case (1 u s)
  let ?w = "snd (decode_rune s)" and ?k = "length (takeWhile isIdentPartByte (drop (snd (decode_rune s)) s))"
  show ?case
  proof (cases "(s = [] \<or> byte (hd s) < 0x80) \<or> fst (decode_rune s) = runeError \<or> \<not> isIdentPartRune u (fst (decode_rune s))")
    case True
    then show ?thesis by (subst param_tail.simps) (auto simp: Let_def)
  next
    case False
    then have "chars ?w s" by (intro chars_rune) auto
    moreover have "chars ?k (drop ?w s)" by (rule chars_run) (rule ident_ascii)
    moreover have "chars (param_tail u (drop ?k (drop ?w s))) (drop ?k (drop ?w s))"
      using "1.IH" [OF _ refl refl _ refl] False by simp
    ultimately have "chars (?w + (?k + param_tail u (drop ?k (drop ?w s)))) s"
      by (intro chars_append)
    moreover have "param_tail u s = ?w + (?k + param_tail u (drop ?k (drop ?w s)))"
      using False by (subst param_tail.simps) (simp add: Let_def)
    ultimately show ?thesis by simp
  qed
qed

section \<open>A scanner consumes its token\<close>

text \<open>The token t is the first n bytes of the text, and the lexer moves past them.\<close>

definition scanned :: "lexer \<Rightarrow> nat \<Rightarrow> token \<Rightarrow> lexer \<Rightarrow> bool" where
  "scanned l n t l' \<longleftrightarrow> chars n (l_rest l) \<and> t_text t = take n (l_rest l) \<and> t_pos t = l_pos l
     \<and> l_rest l' = drop n (l_rest l) \<and> p_offset (l_pos l') = p_offset (l_pos l) + n"

lemma advanceTo_exact:
  assumes "chars n (l_rest l)"
  shows "l_rest (advanceTo n l) = drop n (l_rest l)" "p_offset (l_pos (advanceTo n l)) = p_offset (l_pos l) + n"
  using advance_exact [OF assms, of "l_pos l"] by (auto simp: advanceTo_def split: prod.split)

lemma scanned_mk: "chars n (l_rest l) \<Longrightarrow> mk_token l k n v kw = (t, l') \<Longrightarrow> scanned l n t l' \<and> t_kind t = k \<and> t_value t = v"
  by (auto simp: mk_token_def scanned_def advanceTo_exact)

definition ok_scan :: "lexer \<Rightarrow> syntax_error + token \<times> lexer \<Rightarrow> bool" where
  "ok_scan l r \<longleftrightarrow> (\<forall>t l'. r = Inr (t, l') \<longrightarrow> (\<exists>n. 0 < n \<and> scanned l n t l' \<and> t_kind t \<noteq> EOF))"

lemma ok_Inl [simp]: "ok_scan l (Inl e)" by (simp add: ok_scan_def)

lemma ok_mk: "0 < n \<Longrightarrow> chars n (l_rest l) \<Longrightarrow> k \<noteq> EOF \<Longrightarrow> ok_scan l (Inr (mk_token l k n v kw))"
  unfolding ok_scan_def by (auto dest!: scanned_mk [rotated])

lemma ok_emit: "0 < n \<Longrightarrow> chars n (l_rest l) \<Longrightarrow> k \<noteq> EOF \<Longrightarrow> ok_scan l (Inr (emit l k n))"
  unfolding emit_def by (rule ok_mk)

lemma ok_ident:
  assumes "l_rest l \<noteq> []"
    "isIdentStartByte (hd (l_rest l)) \<or> 0x80 \<le> byte (hd (l_rest l)) \<and> fst (decode_rune (l_rest l)) \<noteq> runeError
      \<and> isIdentPartRune u (fst (decode_rune (l_rest l)))"
  shows "ok_scan l (Inr (scan_ident u l))"
proof -
  have "0 < ident_len u (l_rest l)"
    using assms decode_rune_width [OF assms(1)]
    by (subst ident_len.simps) (auto simp: Let_def isIdentPartByte_def)
  then show ?thesis unfolding scan_ident_def Let_def by (intro ok_mk chars_ident) auto
qed

lemma index_of_single: "index_of [c] s = Some j \<Longrightarrow> j < length s \<and> s ! j = c"
proof (induction s arbitrary: j)
  case (Cons d s)
  then show ?case by (cases j) (auto split: if_splits)
qed simp

lemma close_tick_at: "close_tick s = Some (i, e) \<Longrightarrow> i < length s \<and> s ! i = CHR ''`''"
proof (induction s arbitrary: i e rule: close_tick.induct)
  case (1 s)
  then obtain j where j: "index_of ''`'' s = Some j" by (subst (asm) close_tick.simps) (auto split: option.splits)
  note at = index_of_single [OF j]
  show ?case
  proof (cases "j + 1 < length s \<and> s ! (j + 1) = CHR ''`''")
    case True
    then obtain i' e' where i: "close_tick (drop (j + 2) s) = Some (i', e')" "i = j + 2 + i'"
      using "1.prems" j by (subst (asm) close_tick.simps) auto
    from "1.IH" [OF j True i(1)] show ?thesis using i(2) True by (auto simp: add.commute less_diff_conv)
  next
    case False
    then show ?thesis using "1.prems" j at by (subst (asm) close_tick.simps) auto
  qed
qed

lemma ok_quoted:
  assumes "l_rest l \<noteq> []" "hd (l_rest l) = CHR ''`''"
  shows "ok_scan l (quotedIdent l)"
proof (cases "close_tick (tl (l_rest l))")
  case None
  then show ?thesis by (simp add: quotedIdent_def)
next
  case (Some x)
  then obtain i e where i: "close_tick (tl (l_rest l)) = Some (i, e)" by (cases x) auto
  note at = close_tick_at [OF i]
  have "chars (Suc (Suc i)) (l_rest l)"
    using at assms(1) by (intro chars_Suc) (auto simp: nth_tl [symmetric] byte_def less_diff_conv)
  then show ?thesis by (auto simp: quotedIdent_def i Let_def intro!: ok_mk)
qed

lemma chars_prefix: "chars 1 s \<Longrightarrow> chars n (tl s) \<Longrightarrow> chars (Suc n) s"
  using chars_append [of 1 s n] by (simp add: drop_Suc)

lemma ok_param_token:
  assumes "l_rest l \<noteq> []" "byte (hd (l_rest l)) < 0x80" "chars n (tl (l_rest l))"
  shows "ok_scan l (Inr (param_token l n))"
  using chars_prefix [OF chars_ascii [OF assms(1,2)] assms(3)] unfolding param_token_def by (intro ok_mk) auto

lemma ok_param:
  assumes "l_rest l \<noteq> []" "hd (l_rest l) = CHR ''$''"
  shows "ok_scan l (param u l)"
proof -
  have c1: "chars 1 (l_rest l)" using assms by (intro chars_ascii) (simp_all add: byte_def)
  have b: "byte (hd (l_rest l)) < 0x80" using assms(2) by (simp add: byte_def)
  note tok = ok_param_token [OF assms(1) b]
  have em: "ok_scan l (Inr (emit l DOLLAR 1))" using c1 by (intro ok_emit) auto
  have run: "chars (length (takeWhile isIdentPartByte s) + param_tail u (drop (length (takeWhile isIdentPartByte s)) s)) s" for s
    by (intro chars_append chars_run chars_param_tail) (rule ident_ascii)
  have dig: "chars (length (takeWhile isDigit s)) s" for s by (rule chars_run) (rule digit_ascii)
  show ?thesis
  proof (cases "tl (l_rest l)")
    case Nil
    then show ?thesis using em by (simp add: param_def)
  next
    case (Cons c r)
    have inner: "ok_scan l (bindE (quotedIdent (advanceTo 1 l)) (\<lambda>(inner, l').
             Inr (\<lparr>t_kind = PARAM, t_pos = l_pos l,
                   t_text = take (tok_end inner - p_offset (l_pos l)) (l_rest l),
                   t_value = t_value inner, t_keyword = []\<rparr>, l')))" if "c = CHR ''`''"
    proof -
      let ?l = "advanceTo 1 l"
      note a = advanceTo_exact [OF c1]
      have r: "l_rest ?l = c # r" using a(1) Cons by (simp add: drop_Suc)
      have "ok_scan ?l (quotedIdent ?l)" using r that by (intro ok_quoted) simp_all
      moreover have "\<exists>n. 0 < n \<and> scanned l n (\<lparr>t_kind = PARAM, t_pos = l_pos l,
          t_text = take (tok_end inner - p_offset (l_pos l)) (l_rest l), t_value = v, t_keyword = []\<rparr>) l'"
        if "0 < m" "scanned ?l m inner l'" for m inner l' v
      proof -
        have m: "chars m (l_rest ?l)" "t_text inner = take m (l_rest ?l)" "t_pos inner = l_pos ?l"
          "l_rest l' = drop m (l_rest ?l)" "p_offset (l_pos l') = p_offset (l_pos ?l) + m"
          using that(2) by (simp_all add: scanned_def)
        have "tok_end inner = p_offset (l_pos l) + Suc m"
          using m chars_le [OF m(1)] a(2) by (simp add: tok_end_def)
        moreover have "chars (Suc m) (l_rest l)"
          using c1 m(1) a(1) by (intro chars_prefix) (simp_all add: drop_Suc)
        ultimately show ?thesis using m a by (intro exI [of _ "Suc m"]) (simp add: scanned_def)
      qed
      ultimately show ?thesis unfolding ok_scan_def by (fastforce simp: bindE_Inr)
    qed
    show ?thesis
      unfolding param_def Cons list.case Let_def
      using em inner tok dig run chars_rune_run Cons by (simp del: takeWhile.simps)
  qed
qed

lemma ok_number:
  assumes "l_rest l \<noteq> []" "isDigit (hd (l_rest l)) \<or> hd (l_rest l) = CHR ''.'' \<and> 1 < length (l_rest l) \<and> isDigit (l_rest l ! 1)"
  shows "ok_scan l (number l)"
proof -
  let ?s = "l_rest l"
  have a: "chars n ?s \<Longrightarrow> 0 < n \<Longrightarrow> k \<noteq> EOF \<Longrightarrow> ok_scan l (Inr (mk_token l k n v kw))" for n k v kw
    by (rule ok_mk)
  have radix: "chars (2 + length (takeWhile P (drop 2 ?s))) ?s"
    if "hd ?s = CHR ''0''" "1 < length ?s" "byte (?s ! 1) < 0x80" "\<And>c. P c \<Longrightarrow> byte c < 0x80" for P
  proof (rule chars_append)
    have "chars (Suc 1) ?s" using that(2,3) by (rule chars_Suc)
    then show "chars 2 ?s" by (simp add: numeral_2_eq_2)
    show "chars (length (takeWhile P (drop 2 ?s))) (drop 2 ?s)" by (rule chars_run) (rule that(4))
  qed
  let ?n1 = "length (takeWhile isDigit ?s)"
  have n1: "chars ?n1 ?s" by (rule chars_run) (rule digit_ascii)
  define frac where "frac = (?n1 + 1 < length ?s \<and> ?s ! ?n1 = CHR ''.'' \<and> isDigit (?s ! (?n1 + 1)))"
  define n2 where "n2 = (if frac then ?n1 + 1 + length (takeWhile isDigit (drop (?n1 + 1) ?s)) else ?n1)"
  have n2: "chars n2 ?s" "0 < n2"
  proof -
    have "chars (?n1 + 1 + length (takeWhile isDigit (drop (?n1 + 1) ?s))) ?s" if frac
    proof (rule chars_append)
      show "chars (?n1 + 1) ?s" using that chars_Suc [of ?n1 ?s] by (simp add: frac_def byte_def)
      show "chars (length (takeWhile isDigit (drop (?n1 + 1) ?s))) (drop (?n1 + 1) ?s)"
        by (rule chars_run) (rule digit_ascii)
    qed
    then show "chars n2 ?s" using n1 by (simp add: n2_def)
    show "0 < n2"
    proof (cases "isDigit (hd ?s)")
      case True
      then show ?thesis using assms(1) by (cases ?s) (auto simp: n2_def)
    next
      case False
      then have "?n1 = 0" using assms(1) by (cases ?s) auto
      moreover have frac using False assms \<open>?n1 = 0\<close> by (cases ?s) (auto simp: frac_def)
      ultimately show ?thesis by (simp add: n2_def)
    qed
  qed
  have ex: "chars (j + length (takeWhile isDigit (drop j ?s))) ?s" if "j < length ?s" "isDigit (?s ! j)" for j
    using that digit_ascii by (intro chars_append chars_run chars_at) auto
  show ?thesis
  proof (cases "hd ?s = CHR ''0'' \<and> 1 < length ?s \<and> (?s ! 1 = CHR ''x'' \<or> ?s ! 1 = CHR ''X'')")
    case True
    then show ?thesis using radix [of isHexDigit] hex_ascii a by (auto simp: number_def Let_def byte_def)
  next
    case nohex: False
    show ?thesis
    proof (cases "hd ?s = CHR ''0'' \<and> 1 < length ?s \<and> (?s ! 1 = CHR ''o'' \<or> ?s ! 1 = CHR ''O'')")
      case True
      then show ?thesis using radix [of is_octal] oct_ascii a nohex by (auto simp: number_def Let_def byte_def)
    next
      case False
      define j where "j = (if n2 + 1 < length ?s \<and> (?s ! (n2 + 1) = CHR ''+'' \<or> ?s ! (n2 + 1) = CHR ''-'')
        then n2 + 1 + 1 else n2 + 1)"
      have j: "n2 < j" by (simp add: j_def)
      have eq: "number l =
        (if n2 < length ?s \<and> (?s ! n2 = CHR ''e'' \<or> ?s ! n2 = CHR ''E'') then
            (if length ?s \<le> j \<or> \<not> isDigit (?s ! j) then Inl (errorc ''InvalidNumberLiteral'' (l_pos l) (take j ?s) ''malformed exponent in numeric literal'')
             else Inr (mk_token l FLOAT (j + length (takeWhile isDigit (drop j ?s))) (take (j + length (takeWhile isDigit (drop j ?s))) ?s) []))
          else Inr (mk_token l (if frac then FLOAT else INTEGER) n2 (take n2 ?s) []))"
        unfolding number_def Let_def if_not_P [OF nohex] if_not_P [OF False] frac_def [symmetric] n2_def [symmetric] j_def [symmetric]
        by (rule refl)
      have "ok_scan l (Inr (mk_token l FLOAT (j + length (takeWhile isDigit (drop j ?s))) (take (j + length (takeWhile isDigit (drop j ?s))) ?s) []))"
        if "\<not> (length ?s \<le> j \<or> \<not> isDigit (?s ! j))"
        using that ex [of j] j by (intro a) auto
      moreover have "ok_scan l (Inr (mk_token l (if frac then FLOAT else INTEGER) n2 (take n2 ?s) []))"
        using n2 by (intro a) auto
      ultimately show ?thesis unfolding eq by (simp only: ok_Inl split: if_split) blast
    qed
  qed
qed

lemma str_loop_at:
  "str_loop l q n acc s = Inr (m, v) \<Longrightarrow> \<exists>k. m = n + k + 1 \<and> k < length s \<and> s ! k = q"
proof (induction l q n acc s rule: str_loop.induct)
  case (1 l q n acc s)
  have shift: "\<exists>k. m = n + k + 1 \<and> k < length s \<and> s ! k = q"
    if ex: "\<exists>k. m = n + w + k + 1 \<and> k < length (drop w s) \<and> drop w s ! k = q" for w
  proof -
    obtain k where k: "m = n + w + k + 1" "k < length (drop w s)" "drop w s ! k = q" using ex by blast
    then show ?thesis by (intro exI [of _ "w + k"]) (auto simp: add.assoc)
  qed
  have ne: "s \<noteq> []" using "1.prems" by (subst (asm) str_loop.simps) auto
  consider "hd s = q" | "hd s \<noteq> q" "hd s = CHR 0x5C" | "hd s \<noteq> q" "hd s \<noteq> CHR 0x5C" "0x80 \<le> byte (hd s)"
    | "hd s \<noteq> q" "hd s \<noteq> CHR 0x5C" "\<not> 0x80 \<le> byte (hd s)" by blast
  then show ?case
  proof cases
    case 1
    then show ?thesis using "1.prems" ne by (subst (asm) str_loop.simps) (auto simp: hd_conv_nth intro: exI [of _ 0])
  next
    case 2
    then obtain w k where e: "escape (posAt l n) s = Inr (w, k)"
      using "1.prems" ne by (subst (asm) str_loop.simps) (auto split: sum.splits)
    then have "str_loop l q (n + k) (acc @ w) (drop k s) = Inr (m, v)"
      using "1.prems" ne 2 by (subst (asm) str_loop.simps) auto
    from "1.IH"(1) [OF ne 2 e refl this] show ?thesis by (rule shift)
  next
    case 3
    let ?w = "snd (decode_rune s)"
    have g: "\<not> (fst (decode_rune s) = runeError \<and> ?w = 1)"
      "str_loop l q (n + ?w) (acc @ take ?w s) (drop ?w s) = Inr (m, v)"
      using "1.prems" ne 3 by (subst (asm) str_loop.simps; auto simp: Let_def split: if_splits)+
    from "1.IH"(2) [OF ne 3 refl refl g] show ?thesis by (rule shift)
  next
    case 4
    have "str_loop l q (n + 1) (acc @ [hd s]) (tl s) = Inr (m, v)"
      using "1.prems" ne 4 by (subst (asm) str_loop.simps) auto
    from "1.IH"(3) [OF ne 4 this] show ?thesis by (intro shift [of 1]) (simp add: drop_Suc)
  qed
qed

lemma ok_str:
  assumes "l_rest l \<noteq> []" "byte q < 0x80"
  shows "ok_scan l (lex_str l q)"
proof (cases "str_loop l q 1 [] (tl (l_rest l))")
  case (Inl e)
  then show ?thesis by (simp add: lex_str_def)
next
  case (Inr x)
  then obtain m v where x: "str_loop l q 1 [] (tl (l_rest l)) = Inr (m, v)" by (cases x) auto
  obtain k where k: "m = 1 + k + 1" "k < length (tl (l_rest l))" "tl (l_rest l) ! k = q"
    using str_loop_at [OF x] by blast
  then have "chars (Suc (Suc k)) (l_rest l)"
    using assms by (intro chars_Suc) (auto simp: nth_tl less_diff_conv)
  then have "ok_scan l (Inr (mk_token l STRING (Suc (Suc k)) v []))" by (intro ok_mk) auto
  moreover have "lex_str l q = Inr (mk_token l STRING (Suc (Suc k)) v [])" using x k(1) by (simp add: lex_str_def)
  ultimately show ?thesis by simp
qed

lemma ok_operator:
  assumes "l_rest l \<noteq> []"
  shows "ok_scan l (operator l)"
proof -
  let ?s = "l_rest l"
  have one: "ok_scan l (Inr (emit l k 1))" if "byte (hd ?s) < 0x80" "k \<noteq> EOF" for k
    using that assms by (intro ok_emit chars_ascii) auto
  define nx where "nx = (if 1 < length ?s then ?s ! 1 else CHR 0x00)"
  have two: "ok_scan l (Inr (emit l k 2))" if "nx \<noteq> CHR 0x00" "byte nx < 0x80" "k \<noteq> EOF" for k
  proof -
    have n: "1 < length ?s" "nx = ?s ! 1" using that(1) by (simp_all add: nx_def split: if_split_asm)
    then have "chars (Suc 1) ?s" using that(2) by (intro chars_Suc) auto
    then show ?thesis using that(3) by (intro ok_emit) (auto simp: numeral_2_eq_2)
  qed
  have num: "ok_scan l (number l)" if "hd ?s = CHR ''.''" "isDigit nx"
  proof -
    have "nx \<noteq> CHR 0x00" using that(2) by (auto simp: isDigit_def)
    then have "1 < length ?s" "nx = ?s ! 1" by (simp_all add: nx_def split: if_split_asm)
    with that assms show ?thesis by (intro ok_number) auto
  qed
  show ?thesis
    unfolding operator_def Let_def nx_def [symmetric]
    using one two num by (auto simp: byte_def)
qed

section \<open>The whole text\<close>

text \<open>
  The replacement character is no letter: this is all that is assumed of the Unicode tables.
\<close>

definition good_tab :: "unitab \<Rightarrow> bool" where
  "good_tab u \<longleftrightarrow> \<not> u_letter u runeError"

lemma ok_scan_token:
  assumes "l_rest l \<noteq> []" "good_tab u"
  shows "ok_scan l (scan_token u l)"
proof -
  let ?c = "hd (l_rest l)" and ?r = "fst (decode_rune (l_rest l))"
  have w: "?r \<noteq> runeError \<and> isIdentPartRune u ?r" if "isIdentStartRune u ?r"
    using that assms(2) by (auto simp: isIdentStartRune_def isIdentPartRune_def runeError_def good_tab_def)
  have i1: "ok_scan l (Inr (scan_ident u l))" if "isIdentStartByte ?c"
    using that assms(1) by (intro ok_ident) auto
  have i2: "ok_scan l (Inr (scan_ident u l))" if "0x80 \<le> byte ?c" "isIdentStartRune u ?r"
    using that w assms(1) by (intro ok_ident) auto
  have n: "ok_scan l (number l)" if "isDigit ?c" using that assms(1) by (intro ok_number) auto
  have s: "ok_scan l (lex_str l ?c)" if "?c = CHR 0x27 \<or> ?c = CHR 0x22"
    using that assms(1) by (intro ok_str) (auto simp: byte_def)
  show ?thesis
    unfolding scan_token_def Let_def if_not_P [OF assms(1)]
    using i1 i2 n s ok_quoted [OF assms(1)] ok_param [OF assms(1)] ok_operator [OF assms(1)]
    by (simp only: ok_Inl split: if_split) blast
qed

text \<open>Trivia is passed over in whole characters.\<close>

lemma index_of_found: "index_of pat s = Some j \<Longrightarrow> j + length pat \<le> length s \<and> prefix pat (drop j s)"
proof (induction s arbitrary: j)
  case Nil
  then show ?case by (simp split: if_split_asm)
next
  case (Cons c s)
  then show ?case by (cases j) (auto split: if_splits dest: prefix_length_le)
qed


lemma trivia_chars: "trivia_len u s = Some n \<Longrightarrow> chars n s"
proof -
  assume t: "trivia_len u s = Some n"
  show "chars n s"
  proof (cases s)
    case Nil
    then show ?thesis using t by (simp add: trivia_len_def)
  next
    case (Cons c r)
    have blank: "chars 1 s" if "is_blank c"
      using that by (intro chars_ascii) (auto simp: Cons is_blank_def byte_def)
    have rune: "chars w s" if "0x80 \<le> byte c" "decode_rune s = (x, w)" for x w
      using chars_rune [of s] that by (simp add: Cons)
    have line: "chars e s" if "index_of [CHR 0x0A] s = Some e" for e
      using index_of_single [OF that] by (intro chars_at) (auto simp: byte_def)
    have block: "chars (2 + e + 2) s" if p: "prefix ''/*'' s" and e: "index_of ''*/'' (drop 2 s) = Some e" for e
    proof -
      note f = index_of_found [OF e]
      obtain z where z: "drop e (drop 2 s) = ''*/'' @ z" using f by (auto simp: prefix_def)
      have l: "e + 4 \<le> length s" using f p by (auto dest: prefix_length_le)
      have "drop (e + 2) s = CHR ''*'' # CHR ''/'' # z" using z by (simp add: add.commute)
      then have "s ! (e + 2 + 1) = CHR ''/''" using l nth_drop [of "e + 2" s 1] by simp
      then have "chars (Suc (e + 3)) s" using l
        by (intro chars_Suc) (simp_all add: byte_def numeral_3_eq_3)
      then show ?thesis by (simp add: numeral_3_eq_3)
    qed
    have rest: "chars (length s) s" by (rule chars_at) simp_all
    show ?thesis
      using t blank rune line block rest unfolding trivia_len_def Cons [symmetric]
      by (auto simp: Cons split: if_split_asm option.splits prod.splits)
  qed
qed


section \<open>The loop over the tokens\<close>

text \<open>n bytes at the front of s are trivia.\<close>

inductive trivia_run :: "unitab \<Rightarrow> nat \<Rightarrow> string \<Rightarrow> bool" for u where
  run_0 [simp, intro]: "trivia_run u 0 s"
| run_step: "trivia_len u s = Some k \<Longrightarrow> 0 < k \<Longrightarrow> trivia_run u n (drop k s) \<Longrightarrow> trivia_run u (k + n) s"

text \<open>
  The tokens spell the text s that begins at offset o: trivia, the bytes of a token, and so on,
  up to the end-of-input token at the end.
\<close>

inductive spells :: "unitab \<Rightarrow> nat \<Rightarrow> string \<Rightarrow> token list \<Rightarrow> bool" for u where
  spells_eof: "trivia_run u (length s) s \<Longrightarrow> t_kind t = EOF \<Longrightarrow> t_text t = []
    \<Longrightarrow> p_offset (t_pos t) = off + length s \<Longrightarrow> spells u off s [t]"
| spells_tok: "trivia_run u g s \<Longrightarrow> t_kind t \<noteq> EOF \<Longrightarrow> t_text t \<noteq> [] \<Longrightarrow> prefix (t_text t) (drop g s)
    \<Longrightarrow> p_offset (t_pos t) = off + g \<Longrightarrow> spells u (tok_end t) (drop (g + length (t_text t)) s) ts
    \<Longrightarrow> spells u off s (t # ts)"

lemma skipTrivia_run:
  "skipTrivia u l = Inr l' \<Longrightarrow> \<exists>n. trivia_run u n (l_rest l) \<and> n \<le> length (l_rest l)
     \<and> l_rest l' = drop n (l_rest l) \<and> p_offset (l_pos l') = p_offset (l_pos l) + n"
proof (induction u l rule: skipTrivia.induct)
  case (1 u l)
  obtain k where k: "trivia_len u (l_rest l) = Some k"
    using "1.prems" by (subst (asm) skipTrivia.simps) (auto split: option.splits)
  note c = trivia_chars [OF k]
  show ?case
  proof (cases "k = 0 \<or> l_rest l = []")
    case True
    then have "l' = l" using "1.prems" k by (subst (asm) skipTrivia.simps) simp
    then show ?thesis by (intro exI [of _ 0]) simp
  next
    case False
    then have s: "skipTrivia u (advanceTo k l) = Inr l'"
      using "1.prems" k by (subst (asm) skipTrivia.simps) simp
    note a = advanceTo_exact [OF c]
    obtain n where n: "trivia_run u n (drop k (l_rest l))" "n \<le> length (drop k (l_rest l))"
      "l_rest l' = drop n (drop k (l_rest l))" "p_offset (l_pos l') = p_offset (l_pos l) + k + n"
      using "1.IH" [OF k False s] a by auto
    have "trivia_run u (k + n) (l_rest l)" using k False n(1) by (intro run_step) auto
    moreover have "k + n \<le> length (l_rest l)" using n(2) chars_le [OF c] by simp
    ultimately show ?thesis using n by (intro exI [of _ "k + n"]) (simp add: add.commute add.left_commute)
  qed
qed

lemma next_token_spells:
  assumes "next_token u l = Inr (t, l')" "good_tab u"
  shows "t_kind t = EOF \<and> spells u (p_offset (l_pos l)) (l_rest l) [t]
    \<or> t_kind t \<noteq> EOF \<and> length (l_rest l') < length (l_rest l)
      \<and> (\<forall>ts. spells u (p_offset (l_pos l')) (l_rest l') ts \<longrightarrow> spells u (p_offset (l_pos l)) (l_rest l) (t # ts))"
proof -
  obtain m where m: "skipTrivia u l = Inr m" and sc: "scan_token u m = Inr (t, l')"
    using assms(1) by (cases "skipTrivia u l") (auto simp: next_token_def)
  obtain n where n: "trivia_run u n (l_rest l)" "n \<le> length (l_rest l)"
    "l_rest m = drop n (l_rest l)" "p_offset (l_pos m) = p_offset (l_pos l) + n"
    using skipTrivia_run [OF m] by auto
  show ?thesis
  proof (cases "l_rest m = []")
    case True
    then have "t_kind t = EOF" "t_text t = []" "t_pos t = l_pos m" "n = length (l_rest l)"
      using sc n by (auto simp: scan_token_def mk_token_def)
    then show ?thesis using n by (auto intro: spells_eof)
  next
    case False
    then obtain k where k: "0 < k" "scanned m k t l'" "t_kind t \<noteq> EOF"
      using ok_scan_token [OF False assms(2)] sc by (auto simp: ok_scan_def)
    have kl: "k \<le> length (l_rest m)" using k(2) chars_le by (auto simp: scanned_def)
    have tx: "t_text t = take k (drop n (l_rest l))" "length (t_text t) = k"
      using k(2) n kl by (auto simp: scanned_def)
    have e: "tok_end t = p_offset (l_pos l')" "drop (n + length (t_text t)) (l_rest l) = l_rest l'"
      using k(2) n tx by (auto simp: scanned_def tok_end_def add.commute)
    have "spells u (p_offset (l_pos l)) (l_rest l) (t # ts)"
      if "spells u (p_offset (l_pos l')) (l_rest l') ts" for ts
      using n k tx(1) that e False k(2)
      by (intro spells_tok [of u n]) (auto simp: scanned_def take_is_prefix)
    moreover have "length (l_rest l') < length (l_rest l)" using k kl n by (auto simp: scanned_def)
    ultimately show ?thesis using k(3) by blast
  qed
qed

lemma tokenize_loop_total:
  "good_tab u \<Longrightarrow> length (l_rest l) < n \<Longrightarrow> \<exists>r. tokenize_loop u n l = Some r"
proof (induction n arbitrary: l)
  case (Suc n)
  show ?case
  proof (cases "next_token u l")
    case (Inr x)
    then obtain t l' where t: "next_token u l = Inr (t, l')" by (cases x) auto
    then show ?thesis
      using next_token_spells [OF t Suc.prems(1)] Suc.IH [of l'] Suc.prems by (auto simp: t)
  qed simp
qed simp

lemma tokenize_loop_spells:
  "good_tab u \<Longrightarrow> tokenize_loop u n l = Some (ts, None) \<Longrightarrow> spells u (p_offset (l_pos l)) (l_rest l) ts"
proof (induction n arbitrary: l ts)
  case (Suc n)
  then obtain t l' where t: "next_token u l = Inr (t, l')"
    by (auto split: sum.splits)
  show ?case
  proof (cases "t_kind t = EOF")
    case True
    then show ?thesis using next_token_spells [OF t Suc.prems(1)] Suc.prems(2) t by auto
  next
    case False
    then obtain us where "tokenize_loop u n l' = Some (us, None)" "ts = t # us"
      using Suc.prems(2) t by auto
    then show ?thesis using Suc.IH [OF Suc.prems(1)] next_token_spells [OF t Suc.prems(1)] False by blast
  qed
qed simp

section \<open>Keywords\<close>

lemma keyword_sizes: "\<forall>kw \<in> set allKeywords. 2 \<le> length kw \<and> length kw \<le> maxKeywordLen"
  by (simp add: allKeywords_def maxKeywordLen_def)

lemma upper_ascii_iff: "upper_ascii s = Some t \<longleftrightarrow> (\<forall>c \<in> set s. byte c < 0x80) \<and> t = map upper_char s"
  by (induction s arbitrary: t) auto

lemma lookupKeyword_iff:
  "lookupKeyword w = Some kw \<longleftrightarrow> (\<forall>c \<in> set w. byte c < 0x80) \<and> kw = map upper_char w \<and> kw \<in> set allKeywords"
proof -
  have len: "2 \<le> length w \<and> length w \<le> maxKeywordLen" if "map upper_char w \<in> set allKeywords"
    using keyword_sizes that by (metis length_map)
  show ?thesis
  proof (cases "upper_ascii w")
    case None
    then have "\<not> (\<forall>c \<in> set w. byte c < 0x80)" using upper_ascii_iff [of w] by auto
    then show ?thesis by (simp add: lookupKeyword_def None)
  next
    case (Some t)
    then have "\<forall>c \<in> set w. byte c < 0x80" "t = map upper_char w" by (simp_all add: upper_ascii_iff)
    then show ?thesis using len Some by (auto simp: lookupKeyword_def)
  qed
qed

end
