(* ===== verification/SchemaText.thy ===== *)
theory SchemaText
  imports LexerFacts
begin

text \<open>
  The statements the Go schema API writes (schema_api.go): a name is quoted before it is put in
  the text. The lexer facts below follow a statement token by token, whatever the names are.
\<close>

section \<open>Quoting\<close>

text \<open>\<open>strings.ReplaceAll(s, "`", "``")\<close>.\<close>

fun double_ticks :: "string \<Rightarrow> string" where
  "double_ticks [] = []"
| "double_ticks (c # s) = (if c = CHR ''`'' then CHR ''`'' # CHR ''`'' # double_ticks s else c # double_ticks s)"

definition quoteName :: "string \<Rightarrow> string" where
  "quoteName s = ''`'' @ double_ticks s @ ''`''"

definition quoteIdent :: "string \<Rightarrow> string + string" where
  "quoteIdent s =
    (if s = [] then Inl ''charta: a schema name cannot be empty''
     else if CHR 0x00 \<in> set s then Inl ''charta: a schema name cannot contain a NUL character''
     else Inr (quoteName s))"

definition createPropertyIndex :: "string \<Rightarrow> string \<Rightarrow> string + string" where
  "createPropertyIndex label property = bindE (quoteIdent label) (\<lambda>l. bindE (quoteIdent property) (\<lambda>p.
     Inr (''CREATE INDEX IF NOT EXISTS FOR (n:'' @ l @ '') ON (n.'' @ p @ '')'')))"

definition createUniqueConstraint :: "string \<Rightarrow> string \<Rightarrow> string + string" where
  "createUniqueConstraint label property = bindE (quoteIdent label) (\<lambda>l. bindE (quoteIdent property) (\<lambda>p.
     Inr (''CREATE CONSTRAINT IF NOT EXISTS FOR (n:'' @ l @ '') REQUIRE n.'' @ p @ '' IS UNIQUE'')))"

definition dropIndex :: "string \<Rightarrow> string + string" where
  "dropIndex name = bindE (quoteIdent name) (\<lambda>n. Inr (''DROP INDEX '' @ n @ '' IF EXISTS''))"

definition dropConstraint :: "string \<Rightarrow> string + string" where
  "dropConstraint name = bindE (quoteIdent name) (\<lambda>n. Inr (''DROP CONSTRAINT '' @ n @ '' IF EXISTS''))"

section \<open>A quoted name is one token\<close>

lemma undouble_double [simp]: "undouble (double_ticks s) = s"
proof (induction s)
  case (Cons c s)
  show ?case
  proof (cases "c = CHR ''`''")
    case False
    then show ?thesis using Cons by (cases "double_ticks s") auto
  qed (simp add: Cons)
qed simp

lemma double_no_tick: "CHR ''`'' \<notin> set s \<Longrightarrow> double_ticks s = s"
  by (induction s) auto

lemma index_of_tick: "CHR ''`'' \<notin> set s \<Longrightarrow> index_of ''`'' (s @ CHR ''`'' # r) = Some (length s)"
  by (induction s) auto

lemma close_tick_double:
  assumes "r = [] \<or> hd r \<noteq> CHR ''`''"
  shows "CHR ''`'' \<notin> set pre \<Longrightarrow> close_tick (pre @ double_ticks s @ CHR ''`'' # r)
    = Some (length pre + length (double_ticks s), CHR ''`'' \<in> set s)"
proof (induction s arbitrary: pre)
  case Nil
  have "\<not> (length pre + 1 < length (pre @ CHR ''`'' # r) \<and> (pre @ CHR ''`'' # r) ! (length pre + 1) = CHR ''`'')"
    using assms by (auto simp: nth_append hd_conv_nth)
  then show ?case using Nil by (subst close_tick.simps) (simp add: index_of_tick)
next
  case (Cons c s)
  show ?case
  proof (cases "c = CHR ''`''")
    case True
    let ?s = "pre @ CHR ''`'' # CHR ''`'' # double_ticks s @ CHR ''`'' # r"
    have i: "index_of ''`'' ?s = Some (length pre)" using index_of_tick [OF Cons.prems] by simp
    have "close_tick ?s = map_option (\<lambda>(i, _). (length pre + 2 + i, True)) (close_tick (drop (length pre + 2) ?s))"
      by (subst close_tick.simps) (simp add: i nth_append)
    also have "drop (length pre + 2) ?s = [] @ double_ticks s @ CHR ''`'' # r" by simp
    also note Cons.IH [of "[]"]
    finally show ?thesis using True by simp
  next
    case False
    then show ?thesis using Cons.IH [of "pre @ [c]"] Cons.prems by simp
  qed
qed

lemma quotedIdent_quoteName:
  assumes "l_rest l = quoteName s @ r" "r = [] \<or> hd r \<noteq> CHR ''`''"
  shows "quotedIdent l = (if valid_utf8 s then Inr (mk_token l IDENT (length (quoteName s)) s [])
    else Inl (errorf (l_pos l) [] ''invalid UTF-8 encoding''))"
proof -
  have c: "close_tick (tl (l_rest l)) = Some (length (double_ticks s), CHR ''`'' \<in> set s)"
    using close_tick_double [OF assms(2), of "[]" s] by (simp add: assms(1) quoteName_def)
  have v: "(if CHR ''`'' \<in> set s then undouble (take (length (double_ticks s)) (tl (l_rest l)))
      else take (length (double_ticks s)) (tl (l_rest l))) = s"
    by (simp add: assms(1) quoteName_def double_no_tick)
  show ?thesis unfolding quotedIdent_def c by (simp add: Let_def v quoteName_def)
qed

section \<open>Following a statement\<close>

definition view :: "token \<Rightarrow> token_kind \<times> string \<times> string" where
  "view t = (t_kind t, t_value t, t_keyword t)"

text \<open>However the lexer got to the text s, it reads tokens that look like vs and then is at the text r.\<close>

definition reads :: "unitab \<Rightarrow> string \<Rightarrow> (token_kind \<times> string \<times> string) list \<Rightarrow> string \<Rightarrow> bool" where
  "reads u s vs r \<longleftrightarrow> (\<forall>l. l_rest l = s \<longrightarrow> (\<exists>ts l'. l_rest l' = r \<and> map view ts = vs
     \<and> (\<forall>n. tokenize_loop u (length vs + n) l = map_option (\<lambda>(us, e). (ts @ us, e)) (tokenize_loop u n l'))))"

lemma reads_trans: "reads u s vs r \<Longrightarrow> reads u r ws q \<Longrightarrow> reads u s (vs @ ws) q"
proof (unfold reads_def, intro allI impI)
  fix l :: lexer
  assume a: "\<forall>l. l_rest l = s \<longrightarrow> (\<exists>ts l'. l_rest l' = r \<and> map view ts = vs
     \<and> (\<forall>n. tokenize_loop u (length vs + n) l = map_option (\<lambda>(us, e). (ts @ us, e)) (tokenize_loop u n l')))"
    and b: "\<forall>l. l_rest l = r \<longrightarrow> (\<exists>ts l'. l_rest l' = q \<and> map view ts = ws
     \<and> (\<forall>n. tokenize_loop u (length ws + n) l = map_option (\<lambda>(us, e). (ts @ us, e)) (tokenize_loop u n l')))"
    and l: "l_rest l = s"
  obtain ts m where m: "l_rest m = r" "map view ts = vs"
    "\<And>n. tokenize_loop u (length vs + n) l = map_option (\<lambda>(us, e). (ts @ us, e)) (tokenize_loop u n m)"
    using a l by blast
  obtain ts' k where k: "l_rest k = q" "map view ts' = ws"
    "\<And>n. tokenize_loop u (length ws + n) m = map_option (\<lambda>(us, e). (ts' @ us, e)) (tokenize_loop u n k)"
    using b m(1) by blast
  have "tokenize_loop u (length (vs @ ws) + n) l = map_option (\<lambda>(us, e). ((ts @ ts') @ us, e)) (tokenize_loop u n k)" for n
    using m(3) [of "length ws + n"] k(3) [of n]
    by (simp add: add.assoc option.map_comp comp_def case_prod_unfold)
  then show "\<exists>ts l'. l_rest l' = q \<and> map view ts = vs @ ws
     \<and> (\<forall>n. tokenize_loop u (length (vs @ ws) + n) l = map_option (\<lambda>(us, e). (ts @ us, e)) (tokenize_loop u n l'))"
    using m(2) k(1,2) by (intro exI [of _ "ts @ ts'"] exI [of _ k]) simp
qed

lemma reads_blank: "is_blank c \<Longrightarrow> reads u (c # r) [] r"
proof (unfold reads_def, intro allI impI)
  fix l :: lexer
  assume c: "is_blank c" and l: "l_rest l = c # r"
  have "chars 1 (l_rest l)" using c l by (intro chars_ascii) (auto simp: is_blank_def byte_def)
  then have rest: "l_rest (advanceTo 1 l) = r" using l advanceTo_exact(1) by simp
  have "skipTrivia u l = skipTrivia u (advanceTo 1 l)"
    using c l by (subst skipTrivia.simps) (simp add: trivia_len_def)
  then have "tokenize_loop u n l = tokenize_loop u n (advanceTo 1 l)" for n
    by (cases n) (simp_all add: next_token_def)
  then show "\<exists>ts l'. l_rest l' = r \<and> map view ts = []
     \<and> (\<forall>n. tokenize_loop u (length [] + n) l = map_option (\<lambda>(us, e). (ts @ us, e)) (tokenize_loop u n l'))"
    using rest by (intro exI [of _ "[]"] exI [of _ "advanceTo 1 l"]) (simp add: option.map_id)
qed

text \<open>No trivia begins here.\<close>

definition plain :: "string \<Rightarrow> bool" where
  "plain s \<longleftrightarrow> s \<noteq> [] \<and> \<not> is_blank (hd s) \<and> byte (hd s) < 0x80 \<and> hd s \<noteq> CHR ''/''"

lemma reads_token:
  assumes "plain s" "\<And>l. l_rest l = s \<Longrightarrow> scan_token u l = Inr (mk_token l k n v kw)" "chars n s" "k \<noteq> EOF"
  shows "reads u s [(k, v, kw)] (drop n s)"
proof (unfold reads_def, intro allI impI)
  fix l :: lexer
  assume l: "l_rest l = s"
  have "trivia_len u s = Some 0" using assms(1) by (cases s) (auto simp: plain_def trivia_len_def)
  then have "skipTrivia u l = Inr l" using l by (subst skipTrivia.simps) simp
  then have "next_token u l = Inr (mk_token l k n v kw)" using assms(2) [OF l] by (simp add: next_token_def)
  moreover obtain t l' where t: "mk_token l k n v kw = (t, l')" by fastforce
  moreover have "view t = (k, v, kw)" "t_kind t = k" using t by (auto simp: mk_token_def view_def)
  moreover have "l_rest l' = drop n s" using scanned_mk [OF _ t] assms(3) l by (simp add: scanned_def)
  ultimately show "\<exists>ts l'. l_rest l' = drop n s \<and> map view ts = [(k, v, kw)]
     \<and> (\<forall>m. tokenize_loop u (length [(k, v, kw)] + m) l = map_option (\<lambda>(us, e). (ts @ us, e)) (tokenize_loop u m l'))"
    using assms(4) by (intro exI [of _ "[t]"] exI [of _ l']) simp
qed


lemma reads_name: "valid_utf8 s \<Longrightarrow> r = [] \<or> hd r \<noteq> CHR ''`'' \<Longrightarrow> reads u (quoteName s @ r) [(IDENT, s, [])] r"
proof -
  assume v: "valid_utf8 s" and r: "r = [] \<or> hd r \<noteq> CHR ''`''"
  let ?n = "length (quoteName s)"
  have "plain (quoteName s @ r)" by (simp add: plain_def quoteName_def is_blank_def byte_def)
  moreover have "scan_token u l = Inr (mk_token l IDENT ?n s [])" if "l_rest l = quoteName s @ r" for l
    using quotedIdent_quoteName [OF that r] v that
    by (simp add: scan_token_def quoteName_def isIdentStartByte_def isDigit_def byte_def)
  moreover have "chars ?n (quoteName s @ r)"
    using chars_Suc [of "length (double_ticks s) + 1" "quoteName s @ r"]
    by (simp add: quoteName_def byte_def nth_append)
  ultimately show ?thesis using reads_token [of "quoteName s @ r" u IDENT ?n s "[]"] by simp
qed

definition kw_of :: "string \<Rightarrow> string" where
  "kw_of w = (case lookupKeyword w of Some kw \<Rightarrow> kw | None \<Rightarrow> [])"

lemma ident_len_word:
  "list_all isIdentPartByte w \<Longrightarrow> r = [] \<or> byte (hd r) < 0x80 \<and> \<not> isIdentPartByte (hd r) \<Longrightarrow> ident_len u (w @ r) = length w"
proof (induction w)
  case Nil
  then show ?case by (subst ident_len.simps) auto
next
  case (Cons c w)
  then show ?case by (subst ident_len.simps) simp
qed

lemma reads_word:
  assumes "w \<noteq> []" "isIdentStartByte (hd w)" "list_all isIdentPartByte w"
    "r = [] \<or> byte (hd r) < 0x80 \<and> \<not> isIdentPartByte (hd r)"
  shows "reads u (w @ r) [(IDENT, w, kw_of w)] r"
proof -
  note n = ident_len_word [OF assms(3,4), of u]
  have "byte (hd w) < 0x80" using assms(2) by (auto simp: isIdentStartByte_def byte_def)
  then have "plain (w @ r)"
    using assms(1,2) by (auto simp: plain_def is_blank_def isIdentStartByte_def byte_def)
  moreover have "scan_token u l = Inr (mk_token l IDENT (length w) w (kw_of w))" if "l_rest l = w @ r" for l
    using that assms(1,2) n by (simp add: scan_token_def scan_ident_def kw_of_def Let_def)
  moreover have "chars (length w) (w @ r)" using chars_ident [of u "w @ r"] n by simp
  ultimately show ?thesis using reads_token [of "w @ r" u IDENT "length w" w "kw_of w"] by simp
qed

text \<open>The operators the statements use, with what must not follow.\<close>

definition simple_op :: "char \<Rightarrow> token_kind \<Rightarrow> string \<Rightarrow> bool" where
  "simple_op c k r \<longleftrightarrow> c = CHR ''('' \<and> k = LPAREN \<or> c = CHR '')'' \<and> k = RPAREN
     \<or> c = CHR '':'' \<and> k = COLON \<and> (r = [] \<or> hd r \<noteq> CHR '':'')
     \<or> c = CHR ''.'' \<and> k = DOT \<and> (r = [] \<or> hd r \<noteq> CHR ''.'' \<and> \<not> isDigit (hd r))"

lemma reads_op: "simple_op c k r \<Longrightarrow> reads u (c # r) [(k, [c], [])] r"
proof -
  assume o: "simple_op c k r"
  then have k: "k \<noteq> EOF" "byte c < 0x80" "plain (c # r)"
    by (auto simp: simple_op_def byte_def plain_def is_blank_def)
  have z: "\<not> isDigit (CHR 0x00)" by (simp add: isDigit_def)
  have "operator l = Inr (emit l k 1)" if l: "l_rest l = c # r" for l
    using o unfolding simple_op_def
    by (elim disjE conjE; cases r; simp add: operator_def l Let_def z)
  moreover have "scan_token u l = operator l" if l: "l_rest l = c # r" for l
    using o unfolding simple_op_def
    by (elim disjE conjE; simp add: scan_token_def l isIdentStartByte_def byte_def isDigit_def)
  ultimately have "scan_token u l = Inr (mk_token l k 1 [c] [])" if "l_rest l = c # r" for l
    using that by (simp add: emit_def)
  from reads_token [OF k(3) this _ k(1)] chars_ascii [of "c # r"] k(2) show ?thesis by simp
qed

subsection \<open>Statements in pieces\<close>

datatype piece = Space | Wd string | Sym char token_kind | Name string

fun piece_text :: "piece \<Rightarrow> string" where
  "piece_text Space = '' ''" | "piece_text (Wd w) = w" | "piece_text (Sym c k) = [c]"
| "piece_text (Name s) = quoteName s"

fun piece_view :: "piece \<Rightarrow> (token_kind \<times> string \<times> string) list" where
  "piece_view Space = []" | "piece_view (Wd w) = [(IDENT, w, kw_of w)]"
| "piece_view (Sym c k) = [(k, [c], [])]" | "piece_view (Name s) = [(IDENT, s, [])]"

definition pieces_text :: "piece list \<Rightarrow> string" where
  "pieces_text ps = concat (map piece_text ps)"

lemma pieces_text_simps [simp]:
  "pieces_text [] = []" "pieces_text (p # ps) = piece_text p @ pieces_text ps"
  by (simp_all add: pieces_text_def)

fun fits :: "piece \<Rightarrow> string \<Rightarrow> bool" where
  "fits Space r = True"
| "fits (Wd w) r = (w \<noteq> [] \<and> isIdentStartByte (hd w) \<and> list_all isIdentPartByte w
     \<and> (r = [] \<or> byte (hd r) < 0x80 \<and> \<not> isIdentPartByte (hd r)))"
| "fits (Sym c k) r = simple_op c k r"
| "fits (Name s) r = (valid_utf8 s \<and> (r = [] \<or> hd r \<noteq> CHR ''`''))"

fun all_fit :: "piece list \<Rightarrow> bool" where
  "all_fit [] = True"
| "all_fit (p # ps) = (fits p (pieces_text ps) \<and> all_fit ps)"

lemma reads_piece: "fits p r \<Longrightarrow> reads u (piece_text p @ r) (piece_view p) r"
  by (cases p) (auto simp: is_blank_def intro: reads_word reads_op reads_name reads_blank)

lemma reads_nil: "reads u s [] s"
  unfolding reads_def by (auto intro!: exI [of _ "[]"] simp: option.map_ident case_prod_unfold)

lemma reads_pieces: "all_fit ps \<Longrightarrow> reads u (pieces_text ps) (concat (map piece_view ps)) []"
proof (induction ps)
  case Nil
  show ?case using reads_nil by simp
next
  case (Cons p ps)
  then show ?case using reads_trans [OF reads_piece [of p "pieces_text ps"]] by simp
qed

lemma piece_small: "fits p r \<Longrightarrow> length (piece_view p) \<le> length (piece_text p)"
  by (cases p) (auto simp: quoteName_def Suc_le_eq)

lemma pieces_small: "all_fit ps \<Longrightarrow> length (concat (map piece_view ps)) \<le> length (pieces_text ps)"
  by (induction ps) (auto dest: piece_small)

lemma tokenize_pieces:
  assumes "all_fit ps"
  shows "\<exists>ts. tokenize u (pieces_text ps) = Some (ts, None)
    \<and> map view ts = concat (map piece_view ps) @ [(EOF, [], [])]"
proof -
  let ?s = "pieces_text ps" and ?vs = "concat (map piece_view ps)"
  obtain ts l' where t: "l_rest l' = []" "map view ts = ?vs"
    "\<And>n. tokenize_loop u (length ?vs + n) (newLexer ?s) = map_option (\<lambda>(us, e). (ts @ us, e)) (tokenize_loop u n l')"
    using reads_pieces [OF assms, of u] unfolding reads_def by (force simp: newLexer_def)
  obtain n where n: "length ?s = length ?vs + n" using pieces_small [OF assms] le_Suc_ex by blast
  have "skipTrivia u l' = Inr l'" using t(1) by (subst skipTrivia.simps) (simp add: trivia_len_def)
  then have e: "next_token u l' = Inr (mk_token l' EOF 0 [] [])"
    by (simp add: next_token_def scan_token_def t(1))
  obtain t0 l0 where m: "mk_token l' EOF 0 [] [] = (t0, l0)" by fastforce
  then have v: "t_kind t0 = EOF" "view t0 = (EOF, [], [])" by (auto simp: mk_token_def view_def)
  then have "tokenize_loop u (Suc n) l' = Some ([t0], None)" by (simp add: e m)
  then have "tokenize u ?s = Some (ts @ [t0], None)" using t(3) [of "Suc n"] n by (simp add: tokenize_def)
  then show ?thesis using t(2) v by (intro exI [of _ "ts @ [t0]"]) simp
qed

text \<open>The texts of the statements as pieces.\<close>

definition index_pieces :: "string \<Rightarrow> string \<Rightarrow> piece list" where
  "index_pieces l p =
    [Wd ''CREATE'', Space, Wd ''INDEX'', Space, Wd ''IF'', Space, Wd ''NOT'', Space, Wd ''EXISTS'', Space, Wd ''FOR'', Space,
     Sym CHR ''('' LPAREN, Wd ''n'', Sym CHR '':'' COLON, Name l, Sym CHR '')'' RPAREN, Space, Wd ''ON'', Space,
     Sym CHR ''('' LPAREN, Wd ''n'', Sym CHR ''.'' DOT, Name p, Sym CHR '')'' RPAREN]"

definition unique_pieces :: "string \<Rightarrow> string \<Rightarrow> piece list" where
  "unique_pieces l p =
    [Wd ''CREATE'', Space, Wd ''CONSTRAINT'', Space, Wd ''IF'', Space, Wd ''NOT'', Space, Wd ''EXISTS'', Space, Wd ''FOR'', Space,
     Sym CHR ''('' LPAREN, Wd ''n'', Sym CHR '':'' COLON, Name l, Sym CHR '')'' RPAREN, Space, Wd ''REQUIRE'', Space,
     Wd ''n'', Sym CHR ''.'' DOT, Name p, Space, Wd ''IS'', Space, Wd ''UNIQUE'']"

definition drop_pieces :: "string \<Rightarrow> string \<Rightarrow> piece list" where
  "drop_pieces what n = [Wd ''DROP'', Space, Wd what, Space, Name n, Space, Wd ''IF'', Space, Wd ''EXISTS'']"

lemmas fit_simps = simple_op_def isIdentStartByte_def isIdentPartByte_def isDigit_def byte_def quoteName_def

lemma index_pieces_fit: "valid_utf8 l \<Longrightarrow> valid_utf8 p \<Longrightarrow> all_fit (index_pieces l p)"
  by (simp add: index_pieces_def fit_simps)

lemma unique_pieces_fit: "valid_utf8 l \<Longrightarrow> valid_utf8 p \<Longrightarrow> all_fit (unique_pieces l p)"
  by (simp add: unique_pieces_def fit_simps)

lemma drop_pieces_fit: "valid_utf8 n \<Longrightarrow> what = ''INDEX'' \<or> what = ''CONSTRAINT'' \<Longrightarrow> all_fit (drop_pieces what n)"
  by (auto simp: drop_pieces_def fit_simps)

lemma quoteIdent_Inr: "quoteIdent s = Inr t \<Longrightarrow> t = quoteName s"
  by (simp add: quoteIdent_def split: if_split_asm)

lemma index_text: "createPropertyIndex l p = Inr t \<Longrightarrow> t = pieces_text (index_pieces l p)"
  by (cases "quoteIdent l"; cases "quoteIdent p")
    (auto simp: createPropertyIndex_def index_pieces_def dest!: quoteIdent_Inr)

lemma unique_text: "createUniqueConstraint l p = Inr t \<Longrightarrow> t = pieces_text (unique_pieces l p)"
  by (cases "quoteIdent l"; cases "quoteIdent p")
    (auto simp: createUniqueConstraint_def unique_pieces_def dest!: quoteIdent_Inr)

lemma drop_text:
  "dropIndex n = Inr t \<Longrightarrow> t = pieces_text (drop_pieces ''INDEX'' n)"
  "dropConstraint n = Inr t \<Longrightarrow> t = pieces_text (drop_pieces ''CONSTRAINT'' n)"
  by (cases "quoteIdent n"; auto simp: dropIndex_def dropConstraint_def drop_pieces_def dest!: quoteIdent_Inr)+


lemma views_of: "map view ts = vs \<Longrightarrow> map t_kind ts = map fst vs \<and> map t_value ts = map (fst \<circ> snd) vs"
  by (auto simp: view_def)

end
