(* ===== verification/FloatOps.thy ===== *)
theory FloatOps
  imports Float64
begin

text \<open>
  Arithmetic on floats (IEEE 754 round to nearest even), conversion to single precision, and the
  shortest decimal text of \<open>strconv.FormatFloat(f, 'g', -1, 64)\<close>, which \<open>fmt\<close> also uses for
  \<open>%v\<close>. The square root and the trigonometric functions of \<open>math\<close> are a parameter.
\<close>

section \<open>Arithmetic\<close>

text \<open>The rational a finite float denotes, and the sign bit.\<close>

fun f_rat :: "f64 \<Rightarrow> rat" where
  "f_rat (Fin x) = x"
| "f_rat a = 0"

fun f_signbit :: "f64 \<Rightarrow> bool" where
  "f_signbit NInf = True"
| "f_signbit NZero = True"
| "f_signbit (Fin x) = (x < 0)"
| "f_signbit a = False"

definition f_finite :: "f64 \<Rightarrow> bool" where
  "f_finite a \<longleftrightarrow> \<not> f_isnan a \<and> \<not> f_isinf a"

definition f_iszero :: "f64 \<Rightarrow> bool" where
  "f_iszero a \<longleftrightarrow> a = NZero \<or> a = Fin 0"

definition f_zero :: "bool \<Rightarrow> f64" where "f_zero neg = (if neg then NZero else Fin 0)"
definition f_infinity :: "bool \<Rightarrow> f64" where "f_infinity neg = (if neg then NInf else PInf)"

definition f_add :: "f64 \<Rightarrow> f64 \<Rightarrow> f64" where
  "f_add a b =
    (if f_isnan a \<or> f_isnan b then NaN
     else if f_isinf a then (if f_isinf b \<and> a \<noteq> b then NaN else a)
     else if f_isinf b then b
     else if a = NZero \<and> b = NZero then NZero
     else f_round (f_rat a + f_rat b))"

definition f_sub :: "f64 \<Rightarrow> f64 \<Rightarrow> f64" where
  "f_sub a b = (if f_isnan b then NaN else f_add a (f_neg b))"

definition f_mul :: "f64 \<Rightarrow> f64 \<Rightarrow> f64" where
  "f_mul a b =
    (let neg = (f_signbit a \<noteq> f_signbit b) in
     if f_isnan a \<or> f_isnan b then NaN
     else if f_isinf a \<or> f_isinf b then (if f_iszero a \<or> f_iszero b then NaN else f_infinity neg)
     else if f_iszero a \<or> f_iszero b then f_zero neg
     else f_round (f_rat a * f_rat b))"

definition f_div :: "f64 \<Rightarrow> f64 \<Rightarrow> f64" where
  "f_div a b =
    (let neg = (f_signbit a \<noteq> f_signbit b) in
     if f_isnan a \<or> f_isnan b then NaN
     else if f_isinf a then (if f_isinf b then NaN else f_infinity neg)
     else if f_isinf b then f_zero neg
     else if f_iszero b then (if f_iszero a then NaN else f_infinity neg)
     else if f_iszero a then f_zero neg
     else f_round (f_rat a / f_rat b))"

definition f_abs :: "f64 \<Rightarrow> f64" where
  "f_abs a = (if f_signbit a then f_neg a else a)"

definition f_le :: "f64 \<Rightarrow> f64 \<Rightarrow> bool" where
  "f_le a b \<longleftrightarrow> f_less a b \<or> f_eq a b"

text \<open>\<open>math.Min\<close>.\<close>

definition f_min :: "f64 \<Rightarrow> f64 \<Rightarrow> f64" where
  "f_min a b =
    (if a = NInf \<or> b = NInf then NInf
     else if f_isnan a \<or> f_isnan b then NaN
     else if f_iszero a \<and> f_iszero b then (if f_signbit a then a else b)
     else if f_less a b then a else b)"

text \<open>The functions of \<open>math\<close> whose last bit is the platform's.\<close>

record fmath =
  m_sqrt :: "f64 \<Rightarrow> f64"
  m_sin :: "f64 \<Rightarrow> f64"
  m_cos :: "f64 \<Rightarrow> f64"
  m_asin :: "f64 \<Rightarrow> f64"

text \<open>\<open>float64(float32(f))\<close>: 24 bits, no finer than \<open>2^-149\<close>.\<close>

definition ulp32 :: "rat \<Rightarrow> rat" where
  "ulp32 x = pow2 (max (ilog2 \<bar>x\<bar> - 23) (- 149))"

definition f32_round :: "f64 \<Rightarrow> f64" where
  "f32_round a = (case a of
       Fin x \<Rightarrow>
         if x = 0 then a
         else let m = round_even (\<bar>x\<bar> / ulp32 x); v = of_int m * ulp32 x in
           if pow2 128 \<le> v then f_infinity (x < 0)
           else if m = 0 then f_zero (x < 0)
           else Fin (if x < 0 then - v else v)
     | _ \<Rightarrow> a)"

section \<open>Shortest decimal text\<close>

text \<open>The power of ten at or below a positive x.\<close>

definition ilog10 :: "rat \<Rightarrow> int" where
  "ilog10 x = (if 1 \<le> x then int (length (dec_nat (nat \<lfloor>x\<rfloor>))) - 1
               else - int (length (dec_nat (nat (\<lceil>1 / x\<rceil> - 1)))))"

definition pow10 :: "int \<Rightarrow> rat" where
  "pow10 e = (if 0 \<le> e then 10 ^ nat e else 1 / 10 ^ nat (- e))"

text \<open>The decimal of n digits nearest to x that rounds back to x, if there is one: its digits and the weight of the last.\<close>

definition digits_at :: "rat \<Rightarrow> nat \<Rightarrow> (int \<times> int) option" where
  "digits_at x n =
    (let e = ilog10 x - int n + 1; m = \<lfloor>x / pow10 e\<rfloor>; ok = (\<lambda>k. f_round (of_int k * pow10 e) = Fin x) in
     if ok m \<and> (\<not> ok (m + 1) \<or> x - of_int m * pow10 e \<le> of_int (m + 1) * pow10 e - x) then Some (m, e)
     else if ok (m + 1) then Some (m + 1, e)
     else None)"

fun shortest_from :: "rat \<Rightarrow> nat \<Rightarrow> nat \<Rightarrow> int \<times> int" where
  "shortest_from x n 0 = (round_even (x / pow10 (ilog10 x - 16)), ilog10 x - 16)"
| "shortest_from x n (Suc k) = (case digits_at x n of Some d \<Rightarrow> d | None \<Rightarrow> shortest_from x (n + 1) k)"

definition shortest :: "rat \<Rightarrow> int \<times> int" where
  "shortest x = shortest_from x 1 17"

definition strip0 :: "string \<Rightarrow> string" where
  "strip0 s = rev (dropWhile (\<lambda>c. c = CHR ''0'') (rev s))"

text \<open>The exponent form is taken when the exponent is below -4 or at least 6.\<close>

definition exp_text :: "int \<Rightarrow> string" where
  "exp_text e = (if e < 0 then ''e-'' else ''e+'') @ pad0 2 (nat \<bar>e\<bar>)"

definition pos_text :: "rat \<Rightarrow> string" where
  "pos_text x =
    (case shortest x of (m, e) \<Rightarrow>
     let all = dec_nat (nat m); dp = int (length all) + e; ds = strip0 all; nd = int (length ds); ex = dp - 1 in
     if ex < - 4 \<or> 6 \<le> ex then
       (if length ds \<le> 1 then ds else hd ds # ''.'' @ tl ds) @ exp_text ex
     else if dp \<le> 0 then ''0.'' @ replicate (nat (- dp)) (CHR ''0'') @ ds
     else if nd \<le> dp then ds @ replicate (nat (dp - nd)) (CHR ''0'')
     else take (nat dp) ds @ ''.'' @ drop (nat dp) ds)"

fun f_text :: "f64 \<Rightarrow> string" where
  "f_text NaN = ''NaN''"
| "f_text PInf = ''+Inf''"
| "f_text NInf = ''-Inf''"
| "f_text NZero = ''-0''"
| "f_text (Fin x) = (if x = 0 then ''0'' else if x < 0 then CHR ''-'' # pos_text (- x) else pos_text x)"

end
