(* ===== verification/Spatial.thy ===== *)
theory Spatial
  imports TemporalMaps FloatOps
begin

text \<open>
  Points: cypher/spatial/spatial.go. A point is a reference system and three floats. Maps of arguments are
  those of the temporal constructors.
\<close>

section \<open>Reference systems\<close>

definition SRIDCartesian :: int where "SRIDCartesian = 7203"
definition SRIDCartesian3D :: int where "SRIDCartesian3D = 9157"
definition SRIDWGS84 :: int where "SRIDWGS84 = 4326"
definition SRIDWGS84_3D :: int where "SRIDWGS84_3D = 4979"

lemmas srid_simps = SRIDCartesian_def SRIDCartesian3D_def SRIDWGS84_def SRIDWGS84_3D_def

definition earthRadius :: f64 where "earthRadius = Fin 6378140"

record point =
  pt_srid :: int
  pt_x :: f64
  pt_y :: f64
  pt_z :: f64

definition srid_3d :: "int \<Rightarrow> bool" where
  "srid_3d s \<longleftrightarrow> s = SRIDCartesian3D \<or> s = SRIDWGS84_3D"

definition is3D :: "point \<Rightarrow> bool" where
  "is3D p = srid_3d (pt_srid p)"

definition geographic :: "point \<Rightarrow> bool" where
  "geographic p \<longleftrightarrow> pt_srid p = SRIDWGS84 \<or> pt_srid p = SRIDWGS84_3D"

definition crs :: "point \<Rightarrow> string" where
  "crs p = (if pt_srid p = SRIDCartesian then ''cartesian''
    else if pt_srid p = SRIDCartesian3D then ''cartesian-3d''
    else if pt_srid p = SRIDWGS84 then ''wgs-84'' else ''wgs-84-3d'')"

definition has_any :: "string \<Rightarrow> string \<Rightarrow> bool" where
  "has_any s cs \<longleftrightarrow> list_ex (\<lambda>c. c \<in> set cs) s"

definition fmtCoord :: "f64 \<Rightarrow> string" where
  "fmtCoord f = (let s = f_text f in
     if \<not> has_any s ''.eEN'' \<and> \<not> f_isinf f then s @ ''.0'' else s)"

definition point_string :: "point \<Rightarrow> string" where
  "point_string p = ''point({srid: '' @ dec_int (pt_srid p) @ '', x: '' @ fmtCoord (pt_x p) @ '', y: '' @ fmtCoord (pt_y p)
     @ (if is3D p then '', z: '' @ fmtCoord (pt_z p) else []) @ ''})''"

section \<open>Construction\<close>

definition num_arg :: "targs \<Rightarrow> string \<Rightarrow> string + f64 option" where
  "num_arg m key = (case map_of m key of
       None \<Rightarrow> Inr None
     | Some (AInt x) \<Rightarrow> Inr (Some (f_of_int x))
     | Some (AFloat x) \<Rightarrow> Inr (Some x)
     | Some _ \<Rightarrow> Inl ''point(): %s must be a number'')"

definition point_keys :: "string list" where
  "point_keys = [''x'', ''y'', ''z'', ''longitude'', ''latitude'', ''height'', ''crs'', ''srid'']"

definition crs_by_name :: "string \<Rightarrow> int option" where
  "crs_by_name n =
    (if n = ''cartesian'' then Some SRIDCartesian else if n = ''cartesian-3d'' then Some SRIDCartesian3D
     else if n = ''wgs-84'' then Some SRIDWGS84 else if n = ''wgs-84-3d'' then Some SRIDWGS84_3D else None)"

definition known_srid :: "int \<Rightarrow> bool" where
  "known_srid s \<longleftrightarrow> s = SRIDCartesian \<or> s = SRIDCartesian3D \<or> s = SRIDWGS84 \<or> s = SRIDWGS84_3D"

text \<open>The reference system asked for; 0 when none is.\<close>

definition requested_srid :: "targs \<Rightarrow> string + int" where
  "requested_srid m =
    bindE (case map_of m ''srid'' of None \<Rightarrow> Inr 0 | Some (AInt n) \<Rightarrow> Inr n | Some _ \<Rightarrow> Inl ''point(): srid must be an integer'') (\<lambda>srid.
    bindE (case map_of m ''crs'' of None \<Rightarrow> Inr srid
       | Some (AStr name) \<Rightarrow> (case crs_by_name (to_lower name) of Some s \<Rightarrow> Inr s
           | None \<Rightarrow> Inl ''point(): unknown coordinate reference system %q'')
       | Some _ \<Rightarrow> Inl ''point(): crs must be a string'') (\<lambda>srid.
    if srid \<noteq> 0 \<and> \<not> known_srid srid then Inl ''point(): unknown SRID %d'' else Inr srid))"

definition mismatch :: string where
  "mismatch = ''point(): coordinates do not match the coordinate reference system''"

text \<open>The point of the coordinates given, before the ranges are checked.\<close>

definition place :: "int \<Rightarrow> f64 option \<Rightarrow> f64 option \<Rightarrow> f64 option \<Rightarrow> f64 option \<Rightarrow> f64 option \<Rightarrow> f64 option \<Rightarrow> string + point" where
  "place srid x y z lon lat h =
    (if lon \<noteq> None \<or> lat \<noteq> None \<or> h \<noteq> None then
       (case (lon, lat) of
          (Some lo, Some la) \<Rightarrow>
            let p = (case h of Some hh \<Rightarrow> \<lparr>pt_srid = SRIDWGS84_3D, pt_x = lo, pt_y = la, pt_z = hh\<rparr>
                     | None \<Rightarrow> \<lparr>pt_srid = SRIDWGS84, pt_x = lo, pt_y = la, pt_z = Fin 0\<rparr>)
            in if srid \<noteq> 0 \<and> srid \<noteq> pt_srid p then Inl mismatch else Inr p
        | _ \<Rightarrow> Inl ''point(): a geographic point needs longitude and latitude'')
     else
       (case (x, y) of
          (Some px, Some py) \<Rightarrow>
            let p = (case z of Some pz \<Rightarrow> \<lparr>pt_srid = SRIDCartesian3D, pt_x = px, pt_y = py, pt_z = pz\<rparr>
                     | None \<Rightarrow> \<lparr>pt_srid = SRIDCartesian, pt_x = px, pt_y = py, pt_z = Fin 0\<rparr>)
            in if srid = 0 then Inr p
               else let p = p\<lparr>pt_srid := srid\<rparr> in if is3D p \<noteq> (z \<noteq> None) then Inl mismatch else Inr p
        | _ \<Rightarrow> Inl ''point(): a point needs x and y (or longitude and latitude)''))"

definition in_range :: "point \<Rightarrow> string + point" where
  "in_range p =
    (if geographic p \<and> (f_less (pt_y p) (Fin (-90)) \<or> f_less (Fin 90) (pt_y p)) then Inl ''point(): latitude %v is outside [-90, 90]''
     else if geographic p \<and> (f_less (pt_x p) (Fin (-180)) \<or> f_less (Fin 180) (pt_x p)) then Inl ''point(): longitude %v is outside [-180, 180]''
     else Inr p)"

definition pointFromMap :: "targs \<Rightarrow> string + point" where
  "pointFromMap m =
    (if \<not> list_all (\<lambda>k. k \<in> set point_keys) (map fst m) then Inl ''point(): unknown key %q''
     else
       bindE (num_arg m ''x'') (\<lambda>x. bindE (num_arg m ''y'') (\<lambda>y. bindE (num_arg m ''z'') (\<lambda>z.
       bindE (num_arg m ''longitude'') (\<lambda>lon. bindE (num_arg m ''latitude'') (\<lambda>lat. bindE (num_arg m ''height'') (\<lambda>h.
       if (lon \<noteq> None \<or> lat \<noteq> None \<or> h \<noteq> None) \<and> (x \<noteq> None \<or> y \<noteq> None \<or> z \<noteq> None)
       then Inl ''point(): cannot mix x/y/z with longitude/latitude/height''
       else bindE (requested_srid m) (\<lambda>srid. bindE (place srid x y z lon lat h) in_range))))))))"

section \<open>Components and functions\<close>

text \<open>A component: None is a name that is none, \<open>Some AOther\<close> the null of a component the point lacks.\<close>

definition point_property :: "point \<Rightarrow> string \<Rightarrow> targ option" where
  "point_property p name =
    (if name = ''x'' then Some (AFloat (pt_x p))
     else if name = ''y'' then Some (AFloat (pt_y p))
     else if name = ''z'' then Some (if is3D p then AFloat (pt_z p) else AOther)
     else if name = ''longitude'' then Some (if geographic p then AFloat (pt_x p) else AOther)
     else if name = ''latitude'' then Some (if geographic p then AFloat (pt_y p) else AOther)
     else if name = ''height'' then Some (if pt_srid p = SRIDWGS84_3D then AFloat (pt_z p) else AOther)
     else if name = ''crs'' then Some (AStr (crs p))
     else if name = ''srid'' then Some (AInt (pt_srid p))
     else None)"

definition f_sq :: "f64 \<Rightarrow> f64" where "f_sq a = f_mul a a"

text \<open>\<open>math.Pi / 180\<close> as a float constant.\<close>

definition radian :: f64 where
  "radian = f_round (314159265358979323846264338327950288419716939937510582097494459 / (180 * 10 ^ 62))"

definition point_distance :: "fmath \<Rightarrow> point \<Rightarrow> point \<Rightarrow> f64 option" where
  "point_distance fm a b =
    (if pt_srid a \<noteq> pt_srid b then None
     else if \<not> geographic a then
       (let d2 = f_add (f_sq (f_sub (pt_x a) (pt_x b))) (f_sq (f_sub (pt_y a) (pt_y b)));
            d2 = (if is3D a then f_add d2 (f_sq (f_sub (pt_z a) (pt_z b))) else d2)
        in Some (m_sqrt fm d2))
     else
       (let lat1 = f_mul (pt_y a) radian; lat2 = f_mul (pt_y b) radian;
            dLat = f_sub lat2 lat1; dLon = f_mul (f_sub (pt_x b) (pt_x a)) radian;
            hs = (\<lambda>x. m_sin fm (f_div x (Fin 2)));
            h = f_add (f_mul (hs dLat) (hs dLat))
                  (f_mul (f_mul (f_mul (m_cos fm lat1) (m_cos fm lat2)) (hs dLon)) (hs dLon));
            d = f_mul (f_mul (Fin 2) earthRadius) (m_asin fm (f_min (Fin 1) (m_sqrt fm h)));
            d = (if is3D a then m_sqrt fm (f_add (f_mul d d) (f_sq (f_sub (pt_z a) (pt_z b)))) else d)
        in Some d))"

definition between_f :: "f64 \<Rightarrow> f64 \<Rightarrow> f64 \<Rightarrow> bool" where
  "between_f lo x hi \<longleftrightarrow> f_le lo x \<and> f_le x hi"

definition withinBBox :: "point \<Rightarrow> point \<Rightarrow> point \<Rightarrow> bool option" where
  "withinBBox p lo hi =
    (if pt_srid p \<noteq> pt_srid lo \<or> pt_srid p \<noteq> pt_srid hi then None
     else Some
       ((if geographic p \<and> f_less (pt_x hi) (pt_x lo) then f_le (pt_x lo) (pt_x p) \<or> f_le (pt_x p) (pt_x hi)
         else between_f (pt_x lo) (pt_x p) (pt_x hi))
        \<and> between_f (pt_y lo) (pt_y p) (pt_y hi)
        \<and> (is3D p \<longrightarrow> between_f (pt_z lo) (pt_z p) (pt_z hi))))"

definition cmp_f :: "f64 \<Rightarrow> f64 \<Rightarrow> int" where
  "cmp_f a b = (if f_less a b then -1 else if f_less b a then 1 else 0)"

definition point_compare :: "point \<Rightarrow> point \<Rightarrow> int" where
  "point_compare a b =
    (if pt_srid a \<noteq> pt_srid b then (if pt_srid a < pt_srid b then -1 else 1)
     else if \<not> f_eq (pt_x a) (pt_x b) then cmp_f (pt_x a) (pt_x b)
     else if \<not> f_eq (pt_y a) (pt_y b) then cmp_f (pt_y a) (pt_y b)
     else cmp_f (pt_z a) (pt_z b))"

text \<open>Go's \<open>==\<close> on points.\<close>

definition point_eq :: "point \<Rightarrow> point \<Rightarrow> bool" where
  "point_eq a b \<longleftrightarrow> pt_srid a = pt_srid b \<and> f_eq (pt_x a) (pt_x b) \<and> f_eq (pt_y a) (pt_y b) \<and> f_eq (pt_z a) (pt_z b)"

section \<open>Facts\<close>

text \<open>What construction accepts: a known system, coordinates in range, a third one exactly in three dimensions.\<close>

definition good_point :: "point \<Rightarrow> bool" where
  "good_point p \<longleftrightarrow> known_srid (pt_srid p)
     \<and> (geographic p \<longrightarrow> \<not> f_less (pt_y p) (Fin (-90)) \<and> \<not> f_less (Fin 90) (pt_y p)
          \<and> \<not> f_less (pt_x p) (Fin (-180)) \<and> \<not> f_less (Fin 180) (pt_x p))
     \<and> (\<not> is3D p \<longrightarrow> pt_z p = Fin 0)"

lemma in_range_Inr: "in_range p = Inr q \<Longrightarrow> q = p \<and> (geographic p \<longrightarrow> \<not> f_less (pt_y p) (Fin (-90)) \<and> \<not> f_less (Fin 90) (pt_y p)
    \<and> \<not> f_less (pt_x p) (Fin (-180)) \<and> \<not> f_less (Fin 180) (pt_x p))"
  by (auto simp: in_range_def split: if_split_asm)

lemma place_Inr:
  assumes "place srid x y z lon lat h = Inr p" "srid = 0 \<or> known_srid srid"
  shows "known_srid (pt_srid p) \<and> (\<not> is3D p \<longrightarrow> pt_z p = Fin 0)"
proof (cases "lon \<noteq> None \<or> lat \<noteq> None \<or> h \<noteq> None")
  case True
  then show ?thesis using assms
    by (auto simp: place_def Let_def known_srid_def is3D_def srid_3d_def split: option.splits if_splits)
next
  case False
  then show ?thesis using assms
    by (cases z) (auto simp: place_def Let_def known_srid_def is3D_def srid_3d_def srid_simps split: option.splits if_splits)
qed

lemma requested_srid_Inr: "requested_srid m = Inr s \<Longrightarrow> s = 0 \<or> known_srid s"
  unfolding requested_srid_def
  by (auto simp: bindE_Inr split: if_split_asm)

lemma pointFromMap_good: "pointFromMap m = Inr p \<Longrightarrow> good_point p"
  unfolding pointFromMap_def good_point_def
  by (auto simp: bindE_Inr split: if_split_asm dest!: in_range_Inr place_Inr [OF _ requested_srid_Inr])

lemma point_compare_anti: "point_compare b a = - point_compare a b"
  by (auto simp: point_compare_def cmp_f_def f_eq_sym dest: f_less_asym)

definition no_nan :: "point \<Rightarrow> bool" where
  "no_nan p \<longleftrightarrow> pt_x p \<noteq> NaN \<and> pt_y p \<noteq> NaN \<and> pt_z p \<noteq> NaN"

lemma cmp_f_0: "a \<noteq> NaN \<Longrightarrow> b \<noteq> NaN \<Longrightarrow> cmp_f a b = 0 \<longleftrightarrow> f_eq a b"
  by (auto simp: cmp_f_def f_eq_def)

lemma point_compare_0: "no_nan a \<Longrightarrow> no_nan b \<Longrightarrow> point_compare a b = 0 \<longleftrightarrow> point_eq a b"
  by (auto simp: point_compare_def point_eq_def no_nan_def cmp_f_0)

end
