(* ===== verification/Vector.thy ===== *)
theory Vector
  imports Spatial
begin

text \<open>
  Vector values: cypher/vector/vector.go. A vector has a coordinate type and its coordinates, integers or
  floats as the type says. The numbers it is built from are arguments as in the other value packages.
\<close>

section \<open>Coordinate types\<close>

datatype vtype = Integer64 | Integer32 | Integer16 | Integer8 | VFloat64 | VFloat32

definition maxDimension :: int where "maxDimension = 4096"

definition parseVType :: "string \<Rightarrow> vtype option" where
  "parseVType s = (let u = to_upper s in
     if u \<in> {''INTEGER64'', ''INTEGER'', ''INT64'', ''INT''} then Some Integer64
     else if u \<in> {''INTEGER32'', ''INT32''} then Some Integer32
     else if u \<in> {''INTEGER16'', ''INT16''} then Some Integer16
     else if u \<in> {''INTEGER8'', ''INT8''} then Some Integer8
     else if u \<in> {''FLOAT64'', ''FLOAT'', ''DOUBLE''} then Some VFloat64
     else if u = ''FLOAT32'' then Some VFloat32
     else None)"

fun vtype_name :: "vtype \<Rightarrow> string" where
  "vtype_name Integer64 = ''INTEGER64''" | "vtype_name Integer32 = ''INTEGER32''"
| "vtype_name Integer16 = ''INTEGER16''" | "vtype_name Integer8 = ''INTEGER8''"
| "vtype_name VFloat64 = ''FLOAT64''" | "vtype_name VFloat32 = ''FLOAT32''"

definition vIsInteger :: "vtype \<Rightarrow> bool" where
  "vIsInteger t \<longleftrightarrow> t = Integer64 \<or> t = Integer32 \<or> t = Integer16 \<or> t = Integer8"

record vec =
  v_type :: vtype
  v_ints :: "int list"
  v_floats :: "f64 list"

definition dimension :: "vec \<Rightarrow> nat" where
  "dimension v = (if vIsInteger (v_type v) then length (v_ints v) else length (v_floats v))"

definition float64s :: "vec \<Rightarrow> f64 list" where
  "float64s v = (if vIsInteger (v_type v) then map f_of_int (v_ints v) else v_floats v)"

section \<open>Construction\<close>

fun v_fits :: "int \<Rightarrow> vtype \<Rightarrow> bool" where
  "v_fits n Integer8 = (- (2 ^ 7) \<le> n \<and> n < 2 ^ 7)"
| "v_fits n Integer16 = (- (2 ^ 15) \<le> n \<and> n < 2 ^ 15)"
| "v_fits n Integer32 = (- (2 ^ 31) \<le> n \<and> n < 2 ^ 31)"
| "v_fits n t = True"

definition roundTo :: "f64 \<Rightarrow> vtype \<Rightarrow> f64" where
  "roundTo f t = (if t = VFloat32 then f32_round f else f)"

definition add_coord :: "vtype \<Rightarrow> targ \<Rightarrow> vec \<Rightarrow> string + vec" where
  "add_coord t x v = (case x of
       AInt n \<Rightarrow>
         if vIsInteger t then
           (if v_fits n t then Inr (v\<lparr>v_ints := v_ints v @ [n]\<rparr>) else Inl ''value %d at position %d does not fit %s'')
         else Inr (v\<lparr>v_floats := v_floats v @ [roundTo (f_of_int n) t]\<rparr>)
     | AFloat n \<Rightarrow>
         if vIsInteger t then Inl ''value %v at position %d is not an integer, which %s requires''
         else if f_isnan n \<or> f_isinf n then Inl ''vector coordinates must be finite''
         else let f = roundTo n t in
           if f_isinf f then Inl ''value %v at position %d does not fit %s''
           else Inr (v\<lparr>v_floats := v_floats v @ [f]\<rparr>)
     | _ \<Rightarrow> Inl ''vector coordinates must be numbers'')"

definition newVector :: "targ list \<Rightarrow> int \<Rightarrow> vtype \<Rightarrow> string + vec" where
  "newVector values dm t =
    (if dm < 1 \<or> maxDimension < dm then Inl ''vector dimension %d is outside [1, %d]''
     else if int (length values) \<noteq> dm then Inl ''vector has %d values but dimension %d was given''
     else foldE (add_coord t) values \<lparr>v_type = t, v_ints = [], v_floats = []\<rparr>)"

section \<open>Equality and text\<close>

definition vec_equal :: "vec \<Rightarrow> vec \<Rightarrow> bool" where
  "vec_equal a b \<longleftrightarrow> v_type a = v_type b \<and> dimension a = dimension b \<and> list_all2 f_eq (float64s a) (float64s b)"

definition join :: "string \<Rightarrow> string list \<Rightarrow> string" where
  "join sep ss = (case ss of [] \<Rightarrow> [] | s # r \<Rightarrow> s @ concat (map (\<lambda>x. sep @ x) r))"

definition float_coord :: "f64 \<Rightarrow> string" where
  "float_coord f = (let s = f_text f in if has_any s ''.eE'' then s else s @ ''.0'')"

definition coord_texts :: "vec \<Rightarrow> string list" where
  "coord_texts v = (if vIsInteger (v_type v) then map dec_int (v_ints v) else map float_coord (v_floats v))"

definition vec_string :: "vec \<Rightarrow> string" where
  "vec_string v = ''vector(['' @ join '', '' (coord_texts v) @ ''], '' @ dec_nat (dimension v) @ '', '' @ vtype_name (v_type v) @ '')''"

section \<open>Metrics\<close>

definition same_dim :: "vec \<Rightarrow> vec \<Rightarrow> string + unit" where
  "same_dim a b = (if dimension a \<noteq> dimension b then Inl ''vectors have different dimensions (%d and %d)'' else Inr ())"

text \<open>A sum over the coordinates of two vectors, from the first.\<close>

definition coord_sum :: "(f64 \<Rightarrow> f64 \<Rightarrow> f64) \<Rightarrow> vec \<Rightarrow> vec \<Rightarrow> f64" where
  "coord_sum g a b = foldl (\<lambda>s (x, y). f_add s (g x y)) (Fin 0) (zip (float64s a) (float64s b))"

definition vec_dot :: "vec \<Rightarrow> vec \<Rightarrow> f64" where
  "vec_dot a b = coord_sum f_mul a b"

definition vec_cosine :: "fmath \<Rightarrow> vec \<Rightarrow> vec \<Rightarrow> string + f64" where
  "vec_cosine fm a b =
    (let na = m_sqrt fm (vec_dot a a); nb = m_sqrt fm (vec_dot b b) in
     if f_iszero na \<or> f_iszero nb then Inl ''cosine similarity is undefined for a zero vector''
     else Inr (f_div (vec_dot a b) (f_mul na nb)))"

definition sq_diff :: "f64 \<Rightarrow> f64 \<Rightarrow> f64" where
  "sq_diff x y = (let d = f_sub x y in f_mul d d)"

definition vec_distance :: "fmath \<Rightarrow> vec \<Rightarrow> vec \<Rightarrow> string \<Rightarrow> string + f64" where
  "vec_distance fm a b metric = bindE (same_dim a b) (\<lambda>_. let m = to_upper metric in
     if m = ''EUCLIDEAN'' then Inr (m_sqrt fm (coord_sum sq_diff a b))
     else if m = ''EUCLIDEAN_SQUARED'' then Inr (coord_sum sq_diff a b)
     else if m = ''MANHATTAN'' then Inr (coord_sum (\<lambda>x y. f_abs (f_sub x y)) a b)
     else if m = ''COSINE'' then bindE (vec_cosine fm a b) (\<lambda>c. Inr (f_sub (Fin 1) c))
     else if m = ''DOT'' then Inr (f_neg (vec_dot a b))
     else if m = ''HAMMING'' then
       Inr (foldl (\<lambda>s (x, y). if f_eq x y then s else f_add s (Fin 1)) (Fin 0) (zip (float64s a) (float64s b)))
     else Inl ''unknown vector metric %q (expected EUCLIDEAN, EUCLIDEAN_SQUARED, MANHATTAN, COSINE, DOT or HAMMING)'')"

definition vec_norm :: "fmath \<Rightarrow> vec \<Rightarrow> string \<Rightarrow> string + f64" where
  "vec_norm fm v k = (let m = to_upper k in
     if m = ''EUCLIDEAN'' then Inr (m_sqrt fm (coord_sum f_mul v v))
     else if m = ''MANHATTAN'' then Inr (coord_sum (\<lambda>x y. f_abs x) v v)
     else Inl ''unknown vector norm %q (expected EUCLIDEAN or MANHATTAN)'')"

definition similarityCosine :: "fmath \<Rightarrow> vec \<Rightarrow> vec \<Rightarrow> string + f64" where
  "similarityCosine fm a b = bindE (same_dim a b) (\<lambda>_. bindE (vec_cosine fm a b) (\<lambda>c.
     Inr (f_div (f_add (Fin 1) c) (Fin 2))))"

definition similarityEuclidean :: "fmath \<Rightarrow> vec \<Rightarrow> vec \<Rightarrow> string + f64" where
  "similarityEuclidean fm a b = bindE (vec_distance fm a b ''EUCLIDEAN_SQUARED'') (\<lambda>d.
     Inr (f_div (Fin 1) (f_add (Fin 1) d)))"

section \<open>Facts\<close>

text \<open>A vector as construction leaves it: exactly the coordinates of its type, each fitting it.\<close>

definition good_vec :: "vec \<Rightarrow> bool" where
  "good_vec v \<longleftrightarrow> 1 \<le> dimension v \<and> int (dimension v) \<le> maxDimension
     \<and> (if vIsInteger (v_type v) then v_floats v = [] \<and> (\<forall>n \<in> set (v_ints v). v_fits n (v_type v)) else v_ints v = [])"

lemma add_coord_Inr:
  assumes "add_coord t x v = Inr w" "v_type v = t"
  shows "v_type w = t" "length (v_ints w) + length (v_floats w) = Suc (length (v_ints v) + length (v_floats v))"
    "vIsInteger t \<Longrightarrow> v_floats w = v_floats v \<and> (\<exists>n. v_ints w = v_ints v @ [n] \<and> v_fits n t)"
    "\<not> vIsInteger t \<Longrightarrow> v_ints w = v_ints v"
  using assms by (auto simp: add_coord_def Let_def split: targ.split_asm if_split_asm)

definition typed_coords :: "vec \<Rightarrow> bool" where
  "typed_coords v \<longleftrightarrow> (if vIsInteger (v_type v) then v_floats v = [] \<and> (\<forall>n \<in> set (v_ints v). v_fits n (v_type v)) else v_ints v = [])"

lemma foldE_coords:
  "foldE (add_coord t) xs v = Inr w \<Longrightarrow> v_type v = t \<Longrightarrow> typed_coords v \<Longrightarrow>
    v_type w = t \<and> typed_coords w
    \<and> length (v_ints w) + length (v_floats w) = length (v_ints v) + length (v_floats v) + length xs"
proof (induction xs arbitrary: v)
  case (Cons x xs)
  obtain u where u: "add_coord t x v = Inr u" "foldE (add_coord t) xs u = Inr w"
    using Cons.prems(1) by (auto simp: bindE_Inr)
  note a = add_coord_Inr [OF u(1) Cons.prems(2)]
  have "typed_coords u" using a Cons.prems(2,3) by (auto simp: typed_coords_def)
  from Cons.IH [OF u(2) a(1) this] a(2) show ?case by simp
qed simp

lemma newVector_good: "newVector xs n t = Inr v \<Longrightarrow> good_vec v \<and> v_type v = t \<and> int (dimension v) = n"
proof -
  assume a: "newVector xs n t = Inr v"
  then have n: "1 \<le> n" "n \<le> maxDimension" "int (length xs) = n"
    and f: "foldE (add_coord t) xs \<lparr>v_type = t, v_ints = [], v_floats = []\<rparr> = Inr v"
    by (auto simp: newVector_def split: if_split_asm)
  have e: "typed_coords \<lparr>v_type = t, v_ints = [], v_floats = []\<rparr>" by (simp add: typed_coords_def)
  have c: "v_type v = t" "typed_coords v" "length (v_ints v) + length (v_floats v) = length xs"
    using foldE_coords [OF f] e by simp_all
  then have "dimension v = length xs" by (simp add: dimension_def typed_coords_def split: if_split_asm)
  then show ?thesis using n c(1,2) by (simp add: good_vec_def typed_coords_def split: if_split_asm)
qed

lemma vec_equal_refl: "(\<forall>x \<in> set (float64s v). x \<noteq> NaN) \<Longrightarrow> vec_equal v v"
  by (auto simp: vec_equal_def list_all2_conv_all_nth f_eq_refl)

lemma vec_equal_sym: "vec_equal a b \<Longrightarrow> vec_equal b a"
  by (auto simp: vec_equal_def list_all2_conv_all_nth f_eq_sym)

lemma parseVType_name: "parseVType (vtype_name t) = Some t"
  by (induct t) code_simp+

end
