(* ===== verification/Value.thy ===== *)
theory Value
  imports Vector
begin

text \<open>
  The run-time values of the interpreter and what compares them: cypher/interp/value.go and errors.go.
  A node or relationship is its id: one statement interns each entity once, so two references to an
  entity share its record, which the graph of the statement holds. A map is the list of its entries in
  the order of the keys.
\<close>

section \<open>Values\<close>

datatype val =
    VNull | VBool bool | VInt int | VFloat f64 | VStr string
  | VList "val list" | VMap "(string \<times> val) list"
  | VNode int | VRel int | VPath "int list" "int list"
  | VTemp tval | VPoint point | VVec vec

type_synonym vmap = "(string \<times> val) list"

text \<open>\<open>m[k] = v\<close> and \<open>delete(m, k)\<close>.\<close>

fun mput :: "string \<Rightarrow> 'v \<Rightarrow> (string \<times> 'v) list \<Rightarrow> (string \<times> 'v) list" where
  "mput k v [] = [(k, v)]"
| "mput k v ((k', v') # m) =
    (if k < k' then (k, v) # (k', v') # m else if k = k' then (k, v) # m else (k', v') # mput k v m)"

definition mdel :: "string \<Rightarrow> (string \<times> 'v) list \<Rightarrow> (string \<times> 'v) list" where
  "mdel k m = filter (\<lambda>(k', _). k' \<noteq> k) m"

definition mget :: "string \<Rightarrow> vmap \<Rightarrow> val" where
  "mget k m = (case map_of m k of Some v \<Rightarrow> v | None \<Rightarrow> VNull)"

abbreviation mkeys :: "(string \<times> 'v) list \<Rightarrow> string list" where "mkeys m \<equiv> map fst m"

definition good_map :: "(string \<times> 'v) list \<Rightarrow> bool" where
  "good_map m \<longleftrightarrow> sorted_wrt (<) (mkeys m)"

section \<open>Errors\<close>

record rerror =
  re_class :: string
  re_code :: string
  re_msg :: string

definition rerr :: "string \<Rightarrow> string \<Rightarrow> string \<Rightarrow> rerror" where
  "rerr cls code msg = \<lparr>re_class = cls, re_code = code, re_msg = msg\<rparr>"

definition typeErr :: "string \<Rightarrow> rerror" where "typeErr msg = rerr ''TypeError'' ''InvalidArgumentType'' msg"
definition argErr :: "string \<Rightarrow> rerror" where "argErr msg = rerr ''ArgumentError'' ''InvalidArgumentValue'' msg"
definition unsupported :: "string \<Rightarrow> rerror" where "unsupported msg = rerr ''SyntaxError'' ''Unsupported'' msg"

section \<open>Names of types\<close>

definition temporalTypeName :: "tval \<Rightarrow> string" where
  "temporalTypeName v = (case tkind v of KindDate \<Rightarrow> ''Date'' | KindLocalTime \<Rightarrow> ''LocalTime'' | KindTime \<Rightarrow> ''Time''
     | KindLocalDateTime \<Rightarrow> ''LocalDateTime'' | KindDateTime \<Rightarrow> ''DateTime'' | KindDuration \<Rightarrow> ''Duration'')"

fun typeName :: "val \<Rightarrow> string" where
  "typeName VNull = ''Null''" | "typeName (VBool b) = ''Boolean''" | "typeName (VInt i) = ''Integer''"
| "typeName (VFloat f) = ''Float''" | "typeName (VStr s) = ''String''" | "typeName (VList l) = ''List''"
| "typeName (VMap m) = ''Map''" | "typeName (VNode n) = ''Node''" | "typeName (VRel r) = ''Relationship''"
| "typeName (VPath ns rs) = ''Path''" | "typeName (VTemp t) = temporalTypeName t"
| "typeName (VPoint p) = ''Point''" | "typeName (VVec v) = ''Vector''"

section \<open>Host values\<close>

text \<open>What a caller may pass as a parameter: Go's other numbers, slices and maps, beside the values themselves.\<close>

datatype host =
    HVal val | HInteger int | HFloat32 f64 | HList "host list" | HStrings "string list" | HInts "int list"
  | HFloats "f64 list" | HBools "bool list" | HMap "(string \<times> host) list"

fun normalize :: "host \<Rightarrow> val" where
  "normalize (HVal v) = v"
| "normalize (HInteger i) = VInt i"
| "normalize (HFloat32 f) = VFloat f"
| "normalize (HList l) = VList (map normalize l)"
| "normalize (HStrings l) = VList (map VStr l)"
| "normalize (HInts l) = VList (map VInt l)"
| "normalize (HFloats l) = VList (map VFloat l)"
| "normalize (HBools l) = VList (map VBool l)"
| "normalize (HMap m) = VMap (map (\<lambda>kv. (fst kv, normalize (snd kv))) m)"

section \<open>Equality\<close>

datatype tri = TriFalse | TriTrue | TriNull

definition triOf :: "bool \<Rightarrow> tri" where "triOf b = (if b then TriTrue else TriFalse)"

fun tri_value :: "tri \<Rightarrow> val" where
  "tri_value TriTrue = VBool True" | "tri_value TriFalse = VBool False" | "tri_value TriNull = VNull"

definition isNumber :: "val \<Rightarrow> bool" where
  "isNumber v = (case v of VInt i \<Rightarrow> True | VFloat f \<Rightarrow> True | _ \<Rightarrow> False)"

definition toFloat :: "val \<Rightarrow> f64" where
  "toFloat v = (case v of VInt i \<Rightarrow> f_of_int i | VFloat f \<Rightarrow> f | _ \<Rightarrow> NaN)"

text \<open>The loops over elements: a false decides, a null leaves the answer open.\<close>

definition tri_all :: "tri \<Rightarrow> tri \<Rightarrow> tri" where
  "tri_all a rest = (if a = TriFalse then TriFalse else if rest = TriFalse then TriFalse else if a = TriNull then TriNull else rest)"

definition is_null :: "val \<Rightarrow> bool" where
  "is_null v = (case v of VNull \<Rightarrow> True | _ \<Rightarrow> False)"

fun equals :: "val \<Rightarrow> val \<Rightarrow> tri"
  and equals_list :: "val list \<Rightarrow> val list \<Rightarrow> tri"
  and equals_map :: "vmap \<Rightarrow> vmap \<Rightarrow> tri" where
  "equals a b =
    (if is_null a \<or> is_null b then TriNull
     else case a of
       VNull \<Rightarrow> TriNull
     | VBool x \<Rightarrow> (case b of VBool y \<Rightarrow> triOf (x = y) | _ \<Rightarrow> TriFalse)
     | VStr x \<Rightarrow> (case b of VStr y \<Rightarrow> triOf (x = y) | _ \<Rightarrow> TriFalse)
     | VInt x \<Rightarrow> (case b of VInt y \<Rightarrow> triOf (x = y) | VFloat y \<Rightarrow> triOf (f_eq (f_of_int x) y) | _ \<Rightarrow> TriFalse)
     | VFloat x \<Rightarrow> (case b of VInt y \<Rightarrow> triOf (f_eq x (f_of_int y)) | VFloat y \<Rightarrow> triOf (f_eq x y) | _ \<Rightarrow> TriFalse)
     | VList x \<Rightarrow> (case b of VList y \<Rightarrow> if length x \<noteq> length y then TriFalse else equals_list x y | _ \<Rightarrow> TriFalse)
     | VMap x \<Rightarrow> (case b of VMap y \<Rightarrow> if length x \<noteq> length y then TriFalse else equals_map x y | _ \<Rightarrow> TriFalse)
     | VNode x \<Rightarrow> (case b of VNode y \<Rightarrow> triOf (x = y) | _ \<Rightarrow> TriFalse)
     | VRel x \<Rightarrow> (case b of VRel y \<Rightarrow> triOf (x = y) | _ \<Rightarrow> TriFalse)
     | VTemp x \<Rightarrow> (case b of VTemp y \<Rightarrow> triOf (tval_equal x y) | _ \<Rightarrow> TriFalse)
     | VPoint x \<Rightarrow> (case b of VPoint y \<Rightarrow> triOf (point_eq x y) | _ \<Rightarrow> TriFalse)
     | VVec x \<Rightarrow> (case b of VVec y \<Rightarrow> triOf (vec_equal x y) | _ \<Rightarrow> TriFalse)
     | VPath xn xr \<Rightarrow> (case b of VPath yn yr \<Rightarrow> triOf (xn = yn \<and> xr = yr) | _ \<Rightarrow> TriFalse))"
| "equals_list (x # xs) (y # ys) = tri_all (equals x y) (equals_list xs ys)"
| "equals_list xs ys = TriTrue"
| "equals_map [] m = TriTrue"
| "equals_map ((k, v) # xs) m = (case map_of m k of None \<Rightarrow> TriFalse | Some w \<Rightarrow> tri_all (equals v w) (equals_map xs m))"

declare equals.simps [simp del]

section \<open>Comparison\<close>

definition cmpFloat :: "f64 \<Rightarrow> f64 \<Rightarrow> int option" where
  "cmpFloat a b = (if f_isnan a \<or> f_isnan b then None
     else if f_less a b then Some (-1) else if f_less b a then Some 1 else Some 0)"

definition cmpBool :: "bool \<Rightarrow> bool \<Rightarrow> int" where
  "cmpBool x y = (if x = y then 0 else if \<not> x then -1 else 1)"

text \<open>The operators \<open><\<close>, \<open><=\<close>, \<open>>\<close>, \<open>>=\<close>: None when the values are not comparable.\<close>

fun compare :: "val \<Rightarrow> val \<Rightarrow> int option"
  and compare_list :: "val list \<Rightarrow> val list \<Rightarrow> int option" where
  "compare VNull b = None"
| "compare (VBool x) b = (case b of VBool y \<Rightarrow> Some (cmpBool x y) | _ \<Rightarrow> None)"
| "compare (VStr x) b = (case b of VStr y \<Rightarrow> Some (cmp_str x y) | _ \<Rightarrow> None)"
| "compare (VInt x) b = (case b of VInt y \<Rightarrow> Some (cmpInt x y) | VFloat y \<Rightarrow> cmpFloat (f_of_int x) y | _ \<Rightarrow> None)"
| "compare (VFloat x) b = (case b of VInt y \<Rightarrow> cmpFloat x (f_of_int y) | VFloat y \<Rightarrow> cmpFloat x y | _ \<Rightarrow> None)"
| "compare (VList x) b = (case b of VList y \<Rightarrow> compare_list x y | _ \<Rightarrow> None)"
| "compare (VTemp x) b = (case b of VTemp y \<Rightarrow> tval_compare x y | _ \<Rightarrow> None)"
| "compare (VMap x) b = None"
| "compare (VNode x) b = None"
| "compare (VRel x) b = None"
| "compare (VPath x y) b = None"
| "compare (VPoint x) b = None"
| "compare (VVec x) b = None"
| "compare_list (x # xs) (y # ys) = (case compare x y of None \<Rightarrow> None
     | Some c \<Rightarrow> if c \<noteq> 0 then Some c else compare_list xs ys)"
| "compare_list [] [] = Some 0"
| "compare_list [] (y # ys) = Some (-1)"
| "compare_list (x # xs) [] = Some 1"

section \<open>Sort order\<close>

fun temporal_rank :: "kind \<Rightarrow> int" where
  "temporal_rank KindDateTime = 6" | "temporal_rank KindLocalDateTime = 7" | "temporal_rank KindDate = 8"
| "temporal_rank KindTime = 9" | "temporal_rank KindLocalTime = 10" | "temporal_rank KindDuration = 11"

fun orderRank :: "val \<Rightarrow> int" where
  "orderRank (VMap m) = 0" | "orderRank (VNode n) = 1" | "orderRank (VRel r) = 2" | "orderRank (VList l) = 3"
| "orderRank (VPath ns rs) = 4" | "orderRank (VPoint p) = 5" | "orderRank (VVec v) = 5"
| "orderRank (VTemp t) = temporal_rank (tkind t)" | "orderRank (VStr s) = 12" | "orderRank (VBool b) = 13"
| "orderRank (VInt i) = 14" | "orderRank (VFloat f) = (if f_isnan f then 15 else 14)" | "orderRank VNull = 16"

text \<open>Paths: node, relationship, node, and so on; the shorter first.\<close>

fun cmp_paths :: "int list \<Rightarrow> int list \<Rightarrow> int list \<Rightarrow> int list \<Rightarrow> int" where
  "cmp_paths (x # xn) xr (y # yn) yr =
    (if cmpInt x y \<noteq> 0 then cmpInt x y
     else case (xr, yr) of
         (a # xr', b # yr') \<Rightarrow> if cmpInt a b \<noteq> 0 then cmpInt a b else cmp_paths xn xr' yn yr'
       | _ \<Rightarrow> cmp_paths xn (tl xr) yn (tl yr))"
| "cmp_paths xn xr yn yr = cmpInt (int (length xn)) (int (length yn))"

text \<open>
  The order of ORDER BY. None is a panic: a point and a vector have the same rank, and the type
  assertion that follows fails.
\<close>

definition cmp_num :: "val \<Rightarrow> val \<Rightarrow> int" where
  "cmp_num a b = (case (a, b) of (VInt x, VInt y) \<Rightarrow> cmpInt x y
     | _ \<Rightarrow> if f_isnan (toFloat a) then 0 else (case cmpFloat (toFloat a) (toFloat b) of Some c \<Rightarrow> c | None \<Rightarrow> 0))"

fun orderCompare :: "val \<Rightarrow> val \<Rightarrow> int option"
  and order_list :: "val list \<Rightarrow> val list \<Rightarrow> int option"
  and order_map :: "vmap \<Rightarrow> vmap \<Rightarrow> int option" where
  "orderCompare a b =
    (if orderRank a \<noteq> orderRank b then Some (cmpInt (orderRank a) (orderRank b))
     else case a of
       VMap x \<Rightarrow> (case b of VMap y \<Rightarrow> order_map x y | _ \<Rightarrow> None)
     | VNode x \<Rightarrow> (case b of VNode y \<Rightarrow> Some (cmpInt x y) | _ \<Rightarrow> None)
     | VRel x \<Rightarrow> (case b of VRel y \<Rightarrow> Some (cmpInt x y) | _ \<Rightarrow> None)
     | VList x \<Rightarrow> (case b of VList y \<Rightarrow> order_list x y | _ \<Rightarrow> None)
     | VPath xn xr \<Rightarrow> (case b of VPath yn yr \<Rightarrow> Some (cmp_paths xn xr yn yr) | _ \<Rightarrow> None)
     | VPoint x \<Rightarrow> (case b of VPoint y \<Rightarrow> Some (point_compare x y) | _ \<Rightarrow> None)
     | VVec x \<Rightarrow> (case b of VVec y \<Rightarrow> Some (cmp_str (vec_string x) (vec_string y)) | _ \<Rightarrow> None)
     | VTemp x \<Rightarrow> (case b of VTemp y \<Rightarrow>
           (case tval_compare x y of Some c \<Rightarrow> Some c | None \<Rightarrow> Some (cmp_str (tval_string x) (tval_string y))) | _ \<Rightarrow> None)
     | VStr x \<Rightarrow> (case b of VStr y \<Rightarrow> Some (cmp_str x y) | _ \<Rightarrow> None)
     | VBool x \<Rightarrow> (case b of VBool y \<Rightarrow> Some (cmpBool x y) | _ \<Rightarrow> None)
     | VInt x \<Rightarrow> Some (cmp_num a b)
     | VFloat x \<Rightarrow> Some (cmp_num a b)
     | VNull \<Rightarrow> Some 0)"
| "order_list (x # xs) (y # ys) = (case orderCompare x y of None \<Rightarrow> None
     | Some c \<Rightarrow> if c \<noteq> 0 then Some c else order_list xs ys)"
| "order_list xs ys = Some (cmpInt (int (length xs)) (int (length ys)))"
| "order_map ((k, v) # xs) ((k', w) # ys) =
    (if k \<noteq> k' then Some (cmp_str k k')
     else case orderCompare v w of None \<Rightarrow> None | Some c \<Rightarrow> if c \<noteq> 0 then Some c else order_map xs ys)"
| "order_map xs ys = Some (cmpInt (int (length xs)) (int (length ys)))"

declare orderCompare.simps [simp del]

section \<open>Grouping keys\<close>

fun f_whole :: "f64 \<Rightarrow> int option" where
  "f_whole (Fin x) = (if x = of_int \<lfloor>x\<rfloor> \<and> \<bar>x\<bar> < 9200000000000000000 then Some \<lfloor>x\<rfloor> else None)"
| "f_whole NZero = Some 0"
| "f_whole a = None"

definition float_key :: "f64 \<Rightarrow> string" where
  "float_key x = (if f_isnan x then ''dNaN;''
     else case f_whole x of Some i \<Rightarrow> CHR ''d'' # dec_int i @ '';'' | None \<Rightarrow> CHR ''d'' # f_text x @ '';'')"

text \<open>The code of a kind, as \<open>strconv.Itoa(int(kind))\<close> writes it.\<close>

definition kind_code :: "kind \<Rightarrow> string" where
  "kind_code k = dec_int (kind_num k)"

fun path_key :: "int list \<Rightarrow> int list \<Rightarrow> string" where
  "path_key [] rs = []"
| "path_key (n # ns) [] = dec_int n @ '','' @ path_key ns []"
| "path_key (n # ns) (r # rs) = dec_int n @ '','' @ dec_int r @ '','' @ path_key ns rs"

fun groupKey :: "val \<Rightarrow> string" where
  "groupKey VNull = ''n;''"
| "groupKey (VBool b) = (if b then ''bt;'' else ''bf;'')"
| "groupKey (VInt i) = CHR ''d'' # dec_int i @ '';''"
| "groupKey (VFloat x) = float_key x"
| "groupKey (VStr s) = CHR ''s'' # dec_nat (length s) @ CHR '':'' # s"
| "groupKey (VList l) = ''l['' @ concat (map groupKey l) @ ''];''"
| "groupKey (VMap m) = ''m{'' @ concat (map (\<lambda>kv. dec_nat (length (fst kv)) @ CHR '':'' # fst kv @ groupKey (snd kv)) m) @ ''};''"
| "groupKey (VNode n) = CHR ''N'' # dec_int n @ '';''"
| "groupKey (VRel r) = CHR ''R'' # dec_int r @ '';''"
| "groupKey (VTemp t) = CHR ''T'' # kind_code (tkind t) @ tval_string t @ '';''"
| "groupKey (VPoint p) = CHR ''S'' # point_string p @ '';''"
| "groupKey (VVec v) = CHR ''V'' # vec_string v @ '';''"
| "groupKey (VPath ns rs) = ''P['' @ path_key ns rs @ ''];''"

end
