(* ===== verification/ValueFacts.thy ===== *)
theory ValueFacts
  imports Value
begin

text \<open>
  The sort order of values is a total preorder on the values without the two defects of the code (integers
  beyond the floats' exact range, and vectors beside points), and grouping keys agree with equality.
\<close>

section \<open>Comparators\<close>

text \<open>The contract of a three-way comparison on the values it is meant for.\<close>

locale comparator =
  fixes cmp :: "'a \<Rightarrow> 'a \<Rightarrow> int" and ok :: "'a \<Rightarrow> bool"
  assumes anti: "ok a \<Longrightarrow> ok b \<Longrightarrow> cmp b a = - cmp a b"
    and trans: "ok a \<Longrightarrow> ok b \<Longrightarrow> ok c \<Longrightarrow> cmp a b \<le> 0 \<Longrightarrow> cmp b c \<le> 0 \<Longrightarrow>
      cmp a c \<le> 0 \<and> (cmp a c = 0 \<longleftrightarrow> cmp a b = 0 \<and> cmp b c = 0)"
begin

lemma self: "ok a \<Longrightarrow> cmp a a = 0"
  using anti [of a a] by simp

text \<open>Adjacent elements in order are enough: the whole list is.\<close>

lemma sorted_adjacent:
  assumes "\<forall>x \<in> set xs. ok x" "\<forall>i. Suc i < length xs \<longrightarrow> cmp (xs ! i) (xs ! Suc i) \<le> 0" "i < j" "j < length xs"
  shows "cmp (xs ! i) (xs ! j) \<le> 0"
  using assms(3,4)
proof (induction j)
  case (Suc j)
  show ?case
  proof (cases "i = j")
    case True
    then show ?thesis using assms(2) Suc.prems by simp
  next
    case False
    then have "cmp (xs ! i) (xs ! j) \<le> 0" using Suc by simp
    then show ?thesis using trans [of "xs ! i" "xs ! j" "xs ! Suc j"] assms(1,2) Suc.prems by simp
  qed
qed simp

end

interpretation ints: comparator cmpInt "\<lambda>_. True"
  by unfold_locales (auto simp: cmpInt_def split: if_splits)

interpretation strs: comparator cmp_str "\<lambda>_. True"
  by unfold_locales (auto simp: cmp_str_def split: if_splits)

interpretation bools: comparator cmpBool "\<lambda>_. True"
  by unfold_locales (auto simp: cmpBool_def split: if_splits)

interpretation floats: comparator cmp_f "\<lambda>a. a \<noteq> NaN"
proof unfold_locales
  show "cmp_f b a = - cmp_f a b" for a b by (auto simp: cmp_f_def dest: f_less_asym)
next
  fix a b c :: f64
  assume n: "a \<noteq> NaN" "b \<noteq> NaN" "c \<noteq> NaN" and "cmp_f a b \<le> 0" "cmp_f b c \<le> 0"
  then have "f_less a b \<or> f_eq a b" "f_less b c \<or> f_eq b c"
    using f_total [of a b] f_total [of b c] by (auto simp: cmp_f_def split: if_splits)
  then show "cmp_f a c \<le> 0 \<and> (cmp_f a c = 0 \<longleftrightarrow> cmp_f a b = 0 \<and> cmp_f b c = 0)"
    using f_less_trans [of a b c] f_eq_trans [of a b c] f_less_eq_trans [of a b c] f_eq_less_trans [of a b c] n
    by (auto simp: cmp_f_0) (auto simp: cmp_f_def f_eq_def)
qed

interpretation points: comparator point_compare no_nan
proof unfold_locales
  show "point_compare b a = - point_compare a b" for a b by (rule point_compare_anti)
next
  fix a b c :: point
  assume n: "no_nan a" "no_nan b" "no_nan c" and le: "point_compare a b \<le> 0" "point_compare b c \<le> 0"
  have lex: "point_compare p q = (if cmpInt (pt_srid p) (pt_srid q) \<noteq> 0 then cmpInt (pt_srid p) (pt_srid q)
      else if cmp_f (pt_x p) (pt_x q) \<noteq> 0 then cmp_f (pt_x p) (pt_x q)
      else if cmp_f (pt_y p) (pt_y q) \<noteq> 0 then cmp_f (pt_y p) (pt_y q) else cmp_f (pt_z p) (pt_z q))"
    if "no_nan p" "no_nan q" for p q
    using that by (auto simp: point_compare_def no_nan_def cmp_f_0 cmpInt_def)
  note i = ints.trans [of "pt_srid a" "pt_srid b" "pt_srid c"]
  have f: "cmp_f (g a) (g b) \<le> 0 \<Longrightarrow> cmp_f (g b) (g c) \<le> 0 \<Longrightarrow> cmp_f (g a) (g c) \<le> 0
      \<and> (cmp_f (g a) (g c) = 0 \<longleftrightarrow> cmp_f (g a) (g b) = 0 \<and> cmp_f (g b) (g c) = 0)"
    if "g \<in> {pt_x, pt_y, pt_z}" for g
    using that n by (intro floats.trans) (auto simp: no_nan_def)
  show "point_compare a c \<le> 0 \<and> (point_compare a c = 0 \<longleftrightarrow> point_compare a b = 0 \<and> point_compare b c = 0)"
    using le i f [of pt_x] f [of pt_y] f [of pt_z] n
    by (simp add: lex split: if_splits)
qed

section \<open>The laws on one pair and on one triple\<close>

definition anti_at :: "('a \<Rightarrow> 'a \<Rightarrow> int option) \<Rightarrow> 'a \<Rightarrow> 'a \<Rightarrow> bool" where
  "anti_at f a b \<longleftrightarrow> (\<exists>c. f a b = Some c \<and> f b a = Some (- c))"

definition trans_at :: "('a \<Rightarrow> 'a \<Rightarrow> int option) \<Rightarrow> 'a \<Rightarrow> 'a \<Rightarrow> 'a \<Rightarrow> bool" where
  "trans_at f a b c \<longleftrightarrow> (\<forall>i j k. f a b = Some i \<longrightarrow> f b c = Some j \<longrightarrow> f a c = Some k \<longrightarrow> i \<le> 0 \<longrightarrow> j \<le> 0
     \<longrightarrow> k \<le> 0 \<and> (k = 0 \<longleftrightarrow> i = 0 \<and> j = 0))"

lemma order_list_anti:
  "\<forall>x \<in> set xs. \<forall>y \<in> set ys. anti_at orderCompare x y \<Longrightarrow> anti_at order_list xs ys"
proof (induction xs arbitrary: ys)
  case Nil
  then show ?case by (cases ys) (simp_all add: anti_at_def cmpInt_def)
next
  case (Cons x xs)
  show ?case
  proof (cases ys)
    case Nil
    then show ?thesis by (simp add: anti_at_def cmpInt_def)
  next
    case ys: (Cons y zs)
    obtain c where c: "orderCompare x y = Some c" "orderCompare y x = Some (- c)"
      using Cons.prems ys by (auto simp: anti_at_def)
    have "anti_at order_list xs zs" using Cons ys by auto
    then show ?thesis using c by (auto simp: ys anti_at_def)
  qed
qed

lemma order_list_trans:
  assumes "\<forall>x \<in> set xs. \<forall>y \<in> set ys. \<forall>z \<in> set zs. trans_at orderCompare x y z"
    "\<forall>x \<in> set xs. \<forall>y \<in> set ys. anti_at orderCompare x y" "\<forall>y \<in> set ys. \<forall>z \<in> set zs. anti_at orderCompare y z"
    "\<forall>x \<in> set xs. \<forall>z \<in> set zs. anti_at orderCompare x z"
  shows "trans_at order_list xs ys zs"
  using assms
proof (induction xs arbitrary: ys zs)
  case Nil
  then show ?case by (cases ys; cases zs) (auto simp: trans_at_def cmpInt_def)
next
  case (Cons x xs)
  show ?case
  proof (cases "ys = [] \<or> zs = []")
    case True
    then show ?thesis by (cases ys; cases zs) (auto simp: trans_at_def cmpInt_def)
  next
    case False
    then obtain y ys' z zs' where yz: "ys = y # ys'" "zs = z # zs'" by (meson neq_Nil_conv)
    obtain c d e where c: "orderCompare x y = Some c" and d: "orderCompare y z = Some d" and e: "orderCompare x z = Some e"
      using Cons.prems(2-4) by (auto simp: yz anti_at_def)
    have t: "c \<le> 0 \<Longrightarrow> d \<le> 0 \<Longrightarrow> e \<le> 0 \<and> (e = 0 \<longleftrightarrow> c = 0 \<and> d = 0)"
      using Cons.prems(1) c d e by (auto simp: yz trans_at_def)
    have ih: "trans_at order_list xs ys' zs'" using Cons.prems by (intro Cons.IH) (auto simp: yz)
    show ?thesis
      unfolding trans_at_def yz using t ih c d e by (auto simp: trans_at_def split: if_splits)
  qed
qed

lemma order_map_anti:
  "\<forall>x \<in> snd ` set xs. \<forall>y \<in> snd ` set ys. anti_at orderCompare x y \<Longrightarrow> anti_at order_map xs ys"
proof (induction xs arbitrary: ys)
  case Nil
  then show ?case by (cases ys) (simp_all add: anti_at_def cmpInt_def)
next
  case (Cons kv xs)
  obtain k v where kv: "kv = (k, v)" by (cases kv)
  show ?case
  proof (cases ys)
    case Nil
    then show ?thesis by (simp add: anti_at_def cmpInt_def kv)
  next
    case ys: (Cons lw zs)
    obtain l w where lw: "lw = (l, w)" by (cases lw)
    obtain c where c: "orderCompare v w = Some c" "orderCompare w v = Some (- c)"
      using Cons.prems ys by (auto simp: anti_at_def kv lw)
    have "anti_at order_map xs zs" using Cons ys by auto
    then show ?thesis using c strs.anti [of k l] by (auto simp: ys anti_at_def kv lw)
  qed
qed

lemma order_map_trans:
  assumes "\<forall>x \<in> snd ` set xs. \<forall>y \<in> snd ` set ys. \<forall>z \<in> snd ` set zs. trans_at orderCompare x y z"
    "\<forall>x \<in> snd ` set xs. \<forall>y \<in> snd ` set ys. anti_at orderCompare x y"
    "\<forall>y \<in> snd ` set ys. \<forall>z \<in> snd ` set zs. anti_at orderCompare y z"
    "\<forall>x \<in> snd ` set xs. \<forall>z \<in> snd ` set zs. anti_at orderCompare x z"
  shows "trans_at order_map xs ys zs"
  using assms
proof (induction xs arbitrary: ys zs)
  case Nil
  then show ?case by (cases ys; cases zs) (auto simp: trans_at_def cmpInt_def)
next
  case (Cons kv xs)
  obtain k v where kv: "kv = (k, v)" by (cases kv)
  show ?case
  proof (cases "ys = [] \<or> zs = []")
    case True
    then show ?thesis using kv by (cases ys; cases zs) (auto simp: trans_at_def cmpInt_def)
  next
    case False
    then obtain l w ys' m u zs' where yz: "ys = (l, w) # ys'" "zs = (m, u) # zs'" by (metis neq_Nil_conv surj_pair)
    obtain c d e where c: "orderCompare v w = Some c" and d: "orderCompare w u = Some d" and e: "orderCompare v u = Some e"
      using Cons.prems(2-4) by (auto simp: yz kv anti_at_def)
    have t: "c \<le> 0 \<Longrightarrow> d \<le> 0 \<Longrightarrow> e \<le> 0 \<and> (e = 0 \<longleftrightarrow> c = 0 \<and> d = 0)"
      using Cons.prems(1) c d e by (auto simp: yz kv trans_at_def)
    have ih: "trans_at order_map xs ys' zs'" using Cons.prems by (intro Cons.IH) (auto simp: yz)
    note st = strs.trans [of k l m]
    show ?thesis
      unfolding trans_at_def yz kv using t ih c d e st by (auto simp: trans_at_def split: if_splits)
  qed
qed

section \<open>Paths\<close>

fun weave :: "int list \<Rightarrow> int list \<Rightarrow> int list" where
  "weave (n # ns) (r # rs) = n # r # weave ns rs"
| "weave ns rs = ns"

lemma orderCompare_int [simp]: "orderCompare (VInt x) (VInt y) = Some (cmpInt x y)"
  by (simp add: orderCompare.simps cmp_num_def)

lemma weave_length: "length ns = Suc (length rs) \<Longrightarrow> length (weave ns rs) = 2 * length rs + 1"
  by (induction ns rs rule: weave.induct) auto

lemma cmp_paths_weave:
  assumes "length xn = Suc (length xr)" "length yn = Suc (length yr)"
  shows "order_list (map VInt (weave xn xr)) (map VInt (weave yn yr)) = Some (cmp_paths xn xr yn yr)"
  using assms
proof (induction xn xr yn yr rule: cmp_paths.induct)
  case (1 x xn xr y yn yr)
  show ?case
  proof (cases "cmpInt x y = 0 \<and> xr \<noteq> [] \<and> yr \<noteq> []")
    case True
    then obtain a xs b ys where r: "xr = a # xs" "yr = b # ys" by (meson neq_Nil_conv)
    show ?thesis using 1 True r by (cases "cmpInt a b = 0") auto
  next
    case False
    then show ?thesis using 1 by (cases xr; cases yr; cases xn; cases yn) (auto simp: cmpInt_def)
  qed
qed (auto simp: cmpInt_def)

section \<open>The sort order\<close>

text \<open>
  The values the order is total on: no vectors, no point with a NaN, and integers that are floats
  exactly. (Infinities, NaN and both zeros are fine as numbers.)
\<close>

fun tame :: "val \<Rightarrow> bool" where
  "tame (VInt i) = (\<bar>i\<bar> \<le> 2 ^ 53)"
| "tame (VVec v) = False"
| "tame (VPoint p) = no_nan p"
| "tame (VTemp t) = timed t"
| "tame (VPath ns rs) = (length ns = Suc (length rs))"
| "tame (VList l) = list_all tame l"
| "tame (VMap m) = list_all (\<lambda>kv. tame (snd kv)) m"
| "tame v = True"

text \<open>The numbers, NaN apart, are ordered as floats.\<close>

lemma cmp_num_float:
  assumes "tame a" "tame b" "orderRank a = 14" "orderRank b = 14"
  shows "orderCompare a b = Some (cmp_f (toFloat a) (toFloat b))" "toFloat a \<noteq> NaN"
proof -
  have r: "temporal_rank k \<noteq> 14" for k by (cases k) simp_all
  have c: "cmpInt x y = cmp_f (f_of_int x) (f_of_int y)" if "\<bar>x\<bar> \<le> 2 ^ 53" "\<bar>y\<bar> \<le> 2 ^ 53" for x y
    using that by (simp add: f_of_int_exact cmpInt_def cmp_f_def)
  have n: "\<bar>x\<bar> \<le> 2 ^ 53 \<Longrightarrow> f_of_int x \<noteq> NaN" for x by (simp add: f_of_int_exact)
  have cf: "cmpFloat x y = Some (cmp_f x y)" if "x \<noteq> NaN" "y \<noteq> NaN" for x y
    using that by (simp add: cmpFloat_def f_isnan_def cmp_f_def)
  show "toFloat a \<noteq> NaN" using assms n r by (cases a) (auto simp: toFloat_def f_isnan_def split: if_splits)
  show "orderCompare a b = Some (cmp_f (toFloat a) (toFloat b))"
    using assms n r c by (cases a; cases b)
      (auto simp: orderCompare.simps cmp_num_def toFloat_def f_isnan_def cf split: if_splits)
qed

lemma orderCompare_ranks: "orderRank a \<noteq> orderRank b \<Longrightarrow> orderCompare a b = Some (cmpInt (orderRank a) (orderRank b))"
  by (simp add: orderCompare.simps)

lemma rank_cases:
  assumes "tame a"
  shows "orderRank a = 0 \<and> (\<exists>m. a = VMap m) \<or> orderRank a = 1 \<and> (\<exists>n. a = VNode n) \<or> orderRank a = 2 \<and> (\<exists>r. a = VRel r)
    \<or> orderRank a = 3 \<and> (\<exists>l. a = VList l) \<or> orderRank a = 4 \<and> (\<exists>ns rs. a = VPath ns rs) \<or> orderRank a = 5 \<and> (\<exists>p. a = VPoint p)
    \<or> orderRank a \<in> {6..11} \<and> (\<exists>t. a = VTemp t \<and> orderRank a = temporal_rank (tkind t)) \<or> orderRank a = 12 \<and> (\<exists>s. a = VStr s)
    \<or> orderRank a = 13 \<and> (\<exists>b. a = VBool b) \<or> orderRank a = 14 \<or> orderRank a = 15 \<and> a = VFloat NaN \<or> orderRank a = 16 \<and> a = VNull"
proof (cases a)
  case (VTemp t)
  then show ?thesis by (cases "tkind t") simp_all
qed (use assms in \<open>auto simp: f_isnan_def\<close>)

lemma temporal_rank_inj: "temporal_rank k = temporal_rank l \<longleftrightarrow> k = l"
  by (cases k; cases l) simp_all

text \<open>Comparing two values of one class that is not a container.\<close>

definition tkey :: "tval \<Rightarrow> tval \<Rightarrow> int" where
  "tkey x y = (if tkind x = KindDuration then cmp_str (tval_string x) (tval_string y) else cmpInt (order_key x) (order_key y))"

lemma orderCompare_same:
  "orderCompare (VNode x) (VNode y) = Some (cmpInt x y)"
  "orderCompare (VRel x) (VRel y) = Some (cmpInt x y)"
  "orderCompare (VPoint p) (VPoint q) = Some (point_compare p q)"
  "orderCompare (VStr s) (VStr t) = Some (cmp_str s t)"
  "orderCompare (VBool b) (VBool c) = Some (cmpBool b c)"
  "orderCompare (VList l) (VList m) = order_list l m"
  "orderCompare (VMap e) (VMap f) = order_map e f"
  "orderCompare VNull VNull = Some 0"
  "orderCompare (VFloat NaN) (VFloat NaN) = Some 0"
  "length xn = Suc (length xr) \<Longrightarrow> length yn = Suc (length yr) \<Longrightarrow>
     orderCompare (VPath xn xr) (VPath yn yr) = order_list (map VInt (weave xn xr)) (map VInt (weave yn yr))"
  "timed u \<Longrightarrow> timed v \<Longrightarrow> tkind u = tkind v \<Longrightarrow> orderCompare (VTemp u) (VTemp v) = Some (tkey u v)"
  by (simp_all add: orderCompare.simps cmp_num_def toFloat_def f_isnan_def cmp_paths_weave tval_compare_key tkey_def)

lemma tkey_anti: "tkind x = tkind y \<Longrightarrow> tkey y x = - tkey x y"
  using strs.anti [of "tval_string x" "tval_string y"] ints.anti [of "order_key x" "order_key y"] by (simp add: tkey_def)

lemma tkey_trans:
  "tkind x = tkind y \<Longrightarrow> tkind y = tkind z \<Longrightarrow> tkey x y \<le> 0 \<Longrightarrow> tkey y z \<le> 0 \<Longrightarrow>
    tkey x z \<le> 0 \<and> (tkey x z = 0 \<longleftrightarrow> tkey x y = 0 \<and> tkey y z = 0)"
  using strs.trans [of "tval_string x" "tval_string y" "tval_string z"]
    ints.trans [of "order_key x" "order_key y" "order_key z"] by (simp add: tkey_def split: if_splits)

lemma anti_atI: "orderCompare a b = Some i \<Longrightarrow> orderCompare b a = Some j \<Longrightarrow> j = - i \<Longrightarrow> anti_at orderCompare a b"
  by (simp add: anti_at_def)

lemma trans_atI:
  "orderCompare a b = Some i \<Longrightarrow> orderCompare b c = Some j \<Longrightarrow> orderCompare a c = Some k \<Longrightarrow>
    (i \<le> 0 \<Longrightarrow> j \<le> 0 \<Longrightarrow> k \<le> 0 \<and> (k = 0 \<longleftrightarrow> i = 0 \<and> j = 0)) \<Longrightarrow> trans_at orderCompare a b c"
  by (simp add: trans_at_def)

lemma ints_anti: "anti_at orderCompare (VInt x) (VInt y)"
  using ints.anti [of x y] by (simp add: anti_at_def)

lemma ints_trans: "trans_at orderCompare (VInt x) (VInt y) (VInt z)"
  using ints.trans [of x y z] by (simp add: trans_at_def)

lemma ints_list_anti: "anti_at order_list (map VInt xs) (map VInt ys)"
  by (rule order_list_anti) (auto intro: ints_anti)

lemma ints_list_trans: "trans_at order_list (map VInt xs) (map VInt ys) (map VInt zs)"
  by (rule order_list_trans) (auto intro: ints_anti ints_trans)

text \<open>Two values of one rank are of one constructor, or are both numbers.\<close>

inductive alike :: "val \<Rightarrow> val \<Rightarrow> bool" where
  "alike (VMap m) (VMap n)"
| "alike (VList l) (VList m)"
| "alike (VNode x) (VNode y)"
| "alike (VRel x) (VRel y)"
| "length xn = Suc (length xr) \<Longrightarrow> length yn = Suc (length yr) \<Longrightarrow> alike (VPath xn xr) (VPath yn yr)"
| "no_nan p \<Longrightarrow> no_nan q \<Longrightarrow> alike (VPoint p) (VPoint q)"
| "timed u \<Longrightarrow> timed v \<Longrightarrow> tkind u = tkind v \<Longrightarrow> alike (VTemp u) (VTemp v)"
| "alike (VStr s) (VStr t)"
| "alike (VBool b) (VBool c)"
| "orderRank a = 14 \<Longrightarrow> orderRank b = 14 \<Longrightarrow> alike a b"
| "alike (VFloat NaN) (VFloat NaN)"
| "alike VNull VNull"

lemma alike_rank:
  assumes "tame a" "tame b" "orderRank a = orderRank b"
  shows "alike a b"
  using rank_cases [OF assms(1)] rank_cases [OF assms(2)] assms
  by (elim disjE conjE exE; simp add: temporal_rank_inj alike.intros)

definition parts_of :: "val \<Rightarrow> val set" where
  "parts_of v = (case v of VList l \<Rightarrow> set l | VMap m \<Rightarrow> snd ` set m | _ \<Rightarrow> {})"

lemma alike_anti:
  assumes "alike a b" "tame a" "tame b" "\<forall>x \<in> parts_of a. \<forall>y \<in> parts_of b. anti_at orderCompare x y"
  shows "anti_at orderCompare a b"
  using assms
proof (induction rule: alike.induct)
  case (1 m n)
  then show ?case using order_map_anti [of m n] by (simp add: parts_of_def anti_at_def orderCompare_same)
next
  case (2 l m)
  then show ?case using order_list_anti [of l m] by (simp add: parts_of_def anti_at_def orderCompare_same)
next
  case (5 xn xr yn yr)
  then show ?case using ints_list_anti [of "weave xn xr" "weave yn yr"] by (simp add: anti_at_def orderCompare_same)
next
  case (3 x y)
  show ?case by (rule anti_atI [OF orderCompare_same(1) orderCompare_same(1) ints.anti]) simp_all
next
  case (4 x y)
  show ?case by (rule anti_atI [OF orderCompare_same(2) orderCompare_same(2) ints.anti]) simp_all
next
  case (6 p q)
  then show ?case by (intro anti_atI [OF orderCompare_same(3) orderCompare_same(3) points.anti])
next
  case (7 u v)
  have "anti_at orderCompare (VTemp u) (VTemp v)"
    using 7(3) by (intro anti_atI [OF orderCompare_same(11) [OF 7(1,2,3)] orderCompare_same(11) [OF 7(2,1) 7(3) [symmetric]]] tkey_anti)
  then show ?case .
next
  case (8 s t)
  show ?case by (rule anti_atI [OF orderCompare_same(4) orderCompare_same(4) strs.anti]) simp_all
next
  case (9 b c)
  show ?case by (rule anti_atI [OF orderCompare_same(5) orderCompare_same(5) bools.anti]) simp_all
next
  case (10 a b)
  have "anti_at orderCompare a b"
    using anti_atI [OF cmp_num_float(1) cmp_num_float(1) floats.anti, of a b] 10 cmp_num_float(2) by blast
  then show ?case .
qed (simp_all add: orderCompare_same anti_at_def)

lemma parts_tame: "x \<in> parts_of a \<Longrightarrow> tame a \<Longrightarrow> tame x"
  by (cases a) (auto simp: parts_of_def list_all_iff)

lemma parts_size: "x \<in> parts_of a \<Longrightarrow> size x < size a"
proof (cases a)
  case (VList l)
  then show "x \<in> parts_of a \<Longrightarrow> size x < size a"
    by (simp add: parts_of_def size_list_estimation' less_Suc_eq_le)
next
  case (VMap m)
  assume "x \<in> parts_of a"
  then obtain k where k: "(k, x) \<in> set m" using VMap by (auto simp: parts_of_def)
  have "size x \<le> size_list (size_prod (\<lambda>_. 0) size) m"
    by (rule size_list_estimation' [OF k]) simp
  then show "size x < size a" by (simp add: VMap)
qed (simp_all add: parts_of_def)

lemma orderCompare_anti: "tame a \<Longrightarrow> tame b \<Longrightarrow> anti_at orderCompare a b"
proof (induction "size a" arbitrary: a b rule: less_induct)
  case less
  show ?case
  proof (cases "orderRank a = orderRank b")
    case False
    then show ?thesis
      using anti_atI [OF orderCompare_ranks orderCompare_ranks ints.anti, of a b] by simp
  next
    case True
    have "\<forall>x \<in> parts_of a. \<forall>y \<in> parts_of b. anti_at orderCompare x y"
      using less by (auto intro: parts_size parts_tame)
    with alike_rank [OF less.prems True] less.prems show ?thesis by (intro alike_anti)
  qed
qed

inductive_simps alike_inv:
  "alike (VMap m) c" "alike (VList l) c" "alike (VNode x) c" "alike (VRel x) c" "alike (VPath xn xr) c" "alike (VPoint p) c"
  "alike (VTemp u) c" "alike (VStr s) c" "alike (VBool b) c" "alike (VFloat NaN) c" "alike VNull c"

lemma temporal_rank_14 [simp]: "temporal_rank k \<noteq> 14"
  by (cases k) simp_all

lemma alike_trans:
  assumes "alike a b" "alike b c" "tame a" "tame b" "tame c" "orderRank b = orderRank c"
    "\<forall>x \<in> parts_of a. \<forall>y \<in> parts_of b. \<forall>z \<in> parts_of c. trans_at orderCompare x y z"
  shows "trans_at orderCompare a b c"
  using assms(1)
proof cases
  case (1 m n)
  then obtain r where r: "c = VMap r" using assms(2) by (auto simp: alike_inv)
  have "trans_at order_map m n r"
  proof (rule order_map_trans)
    show "\<forall>x \<in> snd ` set m. \<forall>y \<in> snd ` set n. \<forall>z \<in> snd ` set r. trans_at orderCompare x y z"
      using assms(7) by (simp add: 1 r parts_of_def)
  qed (use assms(3-5) in \<open>auto simp: 1 r list_all_iff intro!: orderCompare_anti\<close>)
  then show ?thesis by (simp add: 1 r trans_at_def orderCompare_same)
next
  case (2 l m)
  then obtain r where r: "c = VList r" using assms(2) by (auto simp: alike_inv)
  have "trans_at order_list l m r"
    using assms(3-5,7) by (intro order_list_trans ballI orderCompare_anti) (auto simp: 2 r parts_of_def list_all_iff)
  then show ?thesis by (simp add: 2 r trans_at_def orderCompare_same)
next
  case (3 x y)
  then obtain z where "c = VNode z" using assms(2) by (auto simp: alike_inv)
  then show ?thesis using ints.trans [of x y z] by (simp add: 3 trans_at_def orderCompare_same)
next
  case (4 x y)
  then obtain z where "c = VRel z" using assms(2) by (auto simp: alike_inv)
  then show ?thesis using ints.trans [of x y z] by (simp add: 4 trans_at_def orderCompare_same)
next
  case (5 xn xr yn yr)
  then obtain zn zr where "c = VPath zn zr" "length zn = Suc (length zr)" using assms(2) by (auto simp: alike_inv)
  then show ?thesis using 5 ints_list_trans [of "weave xn xr" "weave yn yr" "weave zn zr"]
    by (simp add: trans_at_def orderCompare_same)
next
  case (6 p q)
  then obtain r where "c = VPoint r" "no_nan r" using assms(2) by (auto simp: alike_inv)
  then show ?thesis using 6 points.trans [of p q r] by (simp add: trans_at_def orderCompare_same)
next
  case (7 u v)
  then obtain w where "c = VTemp w" "timed w" "tkind v = tkind w" using assms(2) by (auto simp: alike_inv)
  then show ?thesis using 7 tkey_trans [of u v w] by (simp add: trans_at_def orderCompare_same)
next
  case (8 x y)
  then obtain z where "c = VStr z" using assms(2) by (auto simp: alike_inv)
  then show ?thesis using strs.trans [of x y z] by (simp add: 8 trans_at_def orderCompare_same)
next
  case (9 x y)
  then obtain z where "c = VBool z" using assms(2) by (auto simp: alike_inv)
  then show ?thesis using bools.trans [of x y z] by (simp add: 9 trans_at_def orderCompare_same)
next
  case 10
  then have "orderRank c = 14" using assms(6) by simp
  then show ?thesis
    using trans_atI [OF cmp_num_float(1) cmp_num_float(1) cmp_num_float(1) floats.trans, of a b c]
      cmp_num_float(2) [of a b] cmp_num_float(2) [of b c] cmp_num_float(2) [of c a] 10 assms(3-5) by blast
next
  case 11
  then have "c = VFloat NaN" using assms(2) by (auto simp: alike_inv f_isnan_def)
  then show ?thesis using 11 by (simp add: trans_at_def orderCompare_same)
next
  case 12
  then have "c = VNull" using assms(2) by (auto simp: alike_inv)
  then show ?thesis using 12 by (simp add: trans_at_def orderCompare_same)
qed

lemma orderCompare_trans: "tame a \<Longrightarrow> tame b \<Longrightarrow> tame c \<Longrightarrow> trans_at orderCompare a b c"
proof (induction "size a" arbitrary: a b c rule: less_induct)
  case less
  show ?case
  proof (cases "orderRank a = orderRank b \<and> orderRank b = orderRank c")
    case True
    have "\<forall>x \<in> parts_of a. \<forall>y \<in> parts_of b. \<forall>z \<in> parts_of c. trans_at orderCompare x y z"
      using less by (auto intro: parts_size parts_tame)
    then show ?thesis using True less.prems by (intro alike_trans alike_rank) auto
  next
    case False
    have r: "orderCompare x y = Some (cmpInt (orderRank x) (orderRank y)) \<or> orderRank x = orderRank y" for x y
      using orderCompare_ranks [of x y] by blast
    show ?thesis
      using r [of a b] r [of b c] r [of a c] False by (auto simp: trans_at_def cmpInt_def split: if_splits)
  qed
qed

text \<open>The order as a comparator: it never panics there, and sorting by it is sound.\<close>

definition order_of :: "val \<Rightarrow> val \<Rightarrow> int" where
  "order_of a b = the (orderCompare a b)"

lemma order_of_Some: "tame a \<Longrightarrow> tame b \<Longrightarrow> orderCompare a b = Some (order_of a b)"
  using orderCompare_anti [of a b] by (auto simp: anti_at_def order_of_def)

interpretation order: comparator order_of tame
proof unfold_locales
  show "order_of b a = - order_of a b" if "tame a" "tame b" for a b
    using orderCompare_anti [OF that] by (auto simp: anti_at_def order_of_def)
next
  show "order_of a c \<le> 0 \<and> (order_of a c = 0 \<longleftrightarrow> order_of a b = 0 \<and> order_of b c = 0)"
    if "tame a" "tame b" "tame c" "order_of a b \<le> 0" "order_of b c \<le> 0" for a b c
    using orderCompare_trans [OF that(1-3)] order_of_Some that by (simp add: trans_at_def)
qed

text \<open>Beyond 53 bits the order is not transitive, and a vector beside a point panics.\<close>

lemma order_int_float_cycle:
  "orderCompare (VInt (2 ^ 53)) (VFloat (Fin (2 ^ 53))) = Some 0"
  "orderCompare (VInt (2 ^ 53)) (VInt (2 ^ 53 + 1)) = Some (-1)"
  by (simp_all add: orderCompare.simps cmp_num_def cmpInt_def toFloat_def f_of_int_exact f_isnan_def cmpFloat_def)

lemma order_point_vector_panics: "orderCompare (VPoint p) (VVec v) = None"
  by (simp add: orderCompare.simps)

end
