(* ===== verification/VTypes.thy ===== *)
theory VTypes
  imports ValueFacts
begin

text \<open>
  Value types: cypher/interp/typepred.go. A type is read from its normalised text, a value is checked
  against it, and \<open>valueType()\<close> writes the most specific type of a value; every value is of that type.
\<close>

section \<open>Types and their text\<close>

datatype vtyp = VTyp (vt_name: string) (vt_bits: int) (vt_elem: "vtyp list option") (vt_notnull: bool)
  (vt_vectype: "vtype option") (vt_vecdim: int)

definition is_space :: "char \<Rightarrow> bool" where
  "is_space c \<longleftrightarrow> c \<in> {CHR '' '', CHR 0x09, CHR 0x0A, CHR 0x0B, CHR 0x0C, CHR 0x0D}"

definition trimSpace :: "string \<Rightarrow> string" where
  "trimSpace s = rev (dropWhile is_space (rev (dropWhile is_space s)))"

text \<open>\<open>strings.IndexByte\<close>.\<close>

fun indexByte :: "string \<Rightarrow> char \<Rightarrow> nat option" where
  "indexByte [] b = None"
| "indexByte (c # s) b = (if c = b then Some 0 else map_option Suc (indexByte s b))"

text \<open>The value \<open>strconv.Atoi\<close> returns beside its error: 0 for what is no number, the nearest end for what does not fit.\<close>

definition atoi_or :: "string \<Rightarrow> int" where
  "atoi_or s =
    (let (neg, ds) = (case s of [] \<Rightarrow> (False, [])
       | c # r \<Rightarrow> if c = CHR ''-'' then (True, r) else if c = CHR ''+'' then (False, r) else (False, s))
     in if ds = [] \<or> \<not> list_all isDigit ds then 0
        else let n = (if neg then - int (dec_val ds) else int (dec_val ds)) in
          if n < - (2 ^ 63) then - (2 ^ 63) else if 2 ^ 63 \<le> n then 2 ^ 63 - 1 else n)"

fun split_top :: "char \<Rightarrow> int \<Rightarrow> string \<Rightarrow> string \<Rightarrow> string list" where
  "split_top sep depth acc [] = [acc]"
| "split_top sep depth acc (c # s) =
    (if c = CHR ''<'' \<or> c = CHR ''('' then split_top sep (depth + 1) (acc @ [c]) s
     else if c = CHR ''>'' \<or> c = CHR '')'' then split_top sep (depth - 1) (acc @ [c]) s
     else if c = sep \<and> depth = 0 then acc # split_top sep depth [] s
     else split_top sep depth (acc @ [c]) s)"

definition splitTop :: "string \<Rightarrow> char \<Rightarrow> string list" where
  "splitTop s sep = split_top sep 0 [] s"

definition canonicalTypeName :: "string \<Rightarrow> string \<times> int" where
  "canonicalTypeName s =
    (if s \<in> {''BOOLEAN'', ''BOOL''} then (''BOOLEAN'', 0)
     else if s \<in> {''STRING'', ''VARCHAR''} then (''STRING'', 0)
     else if s \<in> {''INTEGER'', ''INT'', ''SIGNED INTEGER'', ''INTEGER64'', ''INT64'', ''SIGNED INTEGER64''} then (''INTEGER'', 64)
     else if s \<in> {''INTEGER32'', ''INT32''} then (''INTEGER'', 32)
     else if s \<in> {''INTEGER16'', ''INT16''} then (''INTEGER'', 16)
     else if s \<in> {''INTEGER8'', ''INT8''} then (''INTEGER'', 8)
     else if s \<in> {''FLOAT'', ''FLOAT64'', ''DOUBLE'', ''REAL'', ''DOUBLE PRECISION''} then (''FLOAT'', 64)
     else if s = ''FLOAT32'' then (''FLOAT'', 32)
     else if s = ''DATE'' then (''DATE'', 0)
     else if s \<in> {''LOCAL TIME'', ''TIME WITHOUT TIMEZONE'', ''TIME WITHOUT TIME ZONE''} then (''LOCAL TIME'', 0)
     else if s \<in> {''ZONED TIME'', ''TIME'', ''TIME WITH TIMEZONE'', ''TIME WITH TIME ZONE''} then (''ZONED TIME'', 0)
     else if s \<in> {''LOCAL DATETIME'', ''TIMESTAMP WITHOUT TIMEZONE'', ''TIMESTAMP WITHOUT TIME ZONE'', ''TIMESTAMP''} then (''LOCAL DATETIME'', 0)
     else if s \<in> {''ZONED DATETIME'', ''DATETIME'', ''TIMESTAMP WITH TIMEZONE'', ''TIMESTAMP WITH TIME ZONE''} then (''ZONED DATETIME'', 0)
     else if s = ''DURATION'' then (''DURATION'', 0)
     else if s = ''POINT'' then (''POINT'', 0)
     else if s \<in> {''NODE'', ''VERTEX''} then (''NODE'', 0)
     else if s \<in> {''RELATIONSHIP'', ''EDGE''} then (''RELATIONSHIP'', 0)
     else if s = ''MAP'' then (''MAP'', 0)
     else if s = ''PATH'' then (''PATH'', 0)
     else if s \<in> {''LIST'', ''ARRAY''} then (''LIST'', 0)
     else if s \<in> {''ANY'', ''ANY VALUE''} then (''ANY'', 0)
     else if s \<in> {''PROPERTY VALUE'', ''ANY PROPERTY VALUE''} then (''PROPERTY VALUE'', 0)
     else if s = ''NOTHING'' then (''NOTHING'', 0)
     else if s = ''NULL'' then (''NULL'', 0)
     else if s = ''VECTOR'' then (''VECTOR'', 0)
     else (s, 0))"

definition not_null :: string where "not_null = '' NOT NULL''"

definition cut_suffix :: "string \<Rightarrow> string \<Rightarrow> string option" where
  "cut_suffix s suf = (if suffix suf s then Some (take (length s - length suf) s) else None)"

text \<open>The reader recurses on the text between the brackets, which is shorter.\<close>

lemma trimSpace_length: "length (trimSpace s) \<le> length s"
  unfolding trimSpace_def
  by (metis length_dropWhile_le length_rev order_trans)

lemma split_top_length: "p \<in> set (split_top sep d acc s) \<Longrightarrow> length p \<le> length acc + length s"
proof (induction s arbitrary: d acc)
  case (Cons c s)
  have "p \<in> set (split_top sep d' (acc @ [c]) s) \<Longrightarrow> ?case" for d' using Cons.IH [of d' "acc @ [c]"] by simp
  moreover have "p \<in> set (split_top sep d [] s) \<Longrightarrow> ?case" using Cons.IH [of d "[]"] by simp
  ultimately show ?case using Cons.prems by (auto split: if_splits)
qed simp

lemma splitTop_length: "p \<in> set (splitTop s sep) \<Longrightarrow> length p \<le> length s"
  unfolding splitTop_def by (drule split_top_length) simp

lemma indexByte_less: "indexByte s b = Some i \<Longrightarrow> i < length s"
  by (induction s arbitrary: i) (auto split: if_splits)

lemma cut_suffix_length: "cut_suffix s suf = Some r \<Longrightarrow> length r \<le> length s"
  by (auto simp: cut_suffix_def split: if_splits)

text \<open>The text between the first bracket and the last byte.\<close>

definition inside :: "string \<Rightarrow> nat \<Rightarrow> string" where
  "inside s i = take (length s - 1 - (i + 1)) (drop (i + 1) s)"

lemma inside_length: "i < length s \<Longrightarrow> length (inside s i) < length s"
  by (simp add: inside_def)

definition vector_atom :: "bool \<Rightarrow> string \<Rightarrow> vtyp" where
  "vector_atom nn rest =
    (let (dm, rest) = (case indexByte rest (CHR ''('') of
          Some i \<Rightarrow> if suffix '')'' rest then (atoi_or (inside rest i), take i rest) else (0, rest)
        | None \<Rightarrow> (0, rest));
       vt = (if prefix ''<'' rest \<and> suffix ''>'' rest then parseVType (trimSpace (take (length rest - 2) (drop 1 rest))) else None)
     in VTyp ''VECTOR'' 0 None nn vt dm)"

function parseVTypes :: "string \<Rightarrow> vtyp list"
  and parseVAtom :: "string \<Rightarrow> vtyp" where
  "parseVTypes text = map (\<lambda>part. parseVAtom (trimSpace part)) (splitTop text (CHR ''|''))"
| "parseVAtom s0 =
    (let nn = suffix not_null s0; s = (case cut_suffix s0 not_null of Some r \<Rightarrow> r | None \<Rightarrow> s0) in
     if prefix ''VECTOR'' s then vector_atom nn (drop 6 s)
     else
       let i = indexByte s (CHR ''<''); bracket = (i \<noteq> None \<and> suffix ''>'' s);
         el = (if bracket then Some (parseVTypes (inside s (the i))) else None);
         s = (if bracket then take (the i) s else s);
         s = (case indexByte s (CHR ''('') of Some i \<Rightarrow> trimSpace (take i s) | None \<Rightarrow> s);
         nb = canonicalTypeName (trimSpace s)
       in VTyp (fst nb) (snd nb) el nn None 0)"
  by pat_completeness auto
termination
proof (relation "measure (\<lambda>x. case x of Inl t \<Rightarrow> 2 * length t + 1 | Inr s \<Rightarrow> 2 * length s)")
  fix tx part
  assume "part \<in> set (splitTop tx CHR ''|'')"
  then have "length (trimSpace part) \<le> length tx"
    using splitTop_length trimSpace_length [of part] by fastforce
  then show "(Inr (trimSpace part), Inl tx) \<in> measure (\<lambda>x. case x of Inl t \<Rightarrow> 2 * length t + 1 | Inr s \<Rightarrow> 2 * length s)"
    by simp
next
  fix s0 nn s i bracket
  assume a: "s = (case cut_suffix s0 not_null of Some r \<Rightarrow> r | None \<Rightarrow> s0)" "i = indexByte s (CHR ''<'')"
    "bracket = (i \<noteq> None \<and> suffix ''>'' s)" "bracket"
  then obtain k where "indexByte s (CHR ''<'') = Some k" "the i = k" by auto
  then have "length (inside s (the i)) < length s" using inside_length indexByte_less by blast
  moreover have "length s \<le> length s0" using a(1) cut_suffix_length by (auto split: option.splits)
  ultimately show "(Inl (inside s (the i)), Inr s0) \<in> measure (\<lambda>x. case x of Inl t \<Rightarrow> 2 * length t + 1 | Inr s \<Rightarrow> 2 * length s)"
    by simp
qed simp

declare parseVTypes.simps [simp del] parseVAtom.simps [simp del]

section \<open>The most specific type\<close>

definition temporalVType :: "tval \<Rightarrow> string" where
  "temporalVType v = (case tkind v of KindDate \<Rightarrow> ''DATE'' | KindLocalTime \<Rightarrow> ''LOCAL TIME'' | KindTime \<Rightarrow> ''ZONED TIME''
     | KindLocalDateTime \<Rightarrow> ''LOCAL DATETIME'' | KindDateTime \<Rightarrow> ''ZONED DATETIME'' | KindDuration \<Rightarrow> ''DURATION'')"

text \<open>What a list of the types of its elements is called: null is there for a null element.\<close>

definition elem_type :: "string option list \<Rightarrow> string" where
  "elem_type ts =
    (if ts = [] then ''NOTHING''
     else let names = [n. Some n \<leftarrow> ts]; hasNull = None \<in> set ts in
       if names = [] then ''NULL''
       else let inner = (if list_all (\<lambda>n. n = hd names) names then hd names else ''ANY'')
         in if hasNull then inner else inner @ not_null)"

fun type_base :: "val \<Rightarrow> string" where
  "type_base VNull = ''NULL''"
| "type_base (VBool b) = ''BOOLEAN''"
| "type_base (VInt i) = ''INTEGER''"
| "type_base (VFloat f) = ''FLOAT''"
| "type_base (VStr s) = ''STRING''"
| "type_base (VNode n) = ''NODE''"
| "type_base (VRel r) = ''RELATIONSHIP''"
| "type_base (VPath ns rs) = ''PATH''"
| "type_base (VMap m) = ''MAP''"
| "type_base (VTemp t) = temporalVType t"
| "type_base (VVec v) = ''VECTOR<'' @ vtype_name (v_type v) @ ''>('' @ dec_nat (dimension v) @ '')''"
| "type_base (VList l) = ''LIST<'' @ elem_type (map (\<lambda>e. if is_null e then None else Some (type_base e)) l) @ ''>''"
| "type_base (VPoint p) = to_upper (typeName (VPoint p))"

definition valueTypeName :: "val \<Rightarrow> bool \<Rightarrow> string" where
  "valueTypeName v nullability = (if is_null v then ''NULL'' else if nullability then type_base v @ not_null else type_base v)"

section \<open>Checking a value\<close>

text \<open>What may be stored as a property.\<close>

definition scalar_property :: "val \<Rightarrow> bool" where
  "scalar_property v = (case v of VBool b \<Rightarrow> True | VInt i \<Rightarrow> True | VFloat f \<Rightarrow> True | VStr s \<Rightarrow> True | VTemp t \<Rightarrow> True
     | VPoint p \<Rightarrow> True | VVec w \<Rightarrow> True | _ \<Rightarrow> False)"

definition isPropertyValue :: "val \<Rightarrow> bool" where
  "isPropertyValue v = (case v of
       VList l \<Rightarrow> list_all scalar_property l \<and> list_all (\<lambda>e. valueTypeName e False = valueTypeName (hd l) False) l
     | _ \<Rightarrow> scalar_property v)"

fun fits_bits :: "int \<Rightarrow> int \<Rightarrow> bool" where
  "fits_bits bits i =
    (if bits = 8 then - (2 ^ 7) \<le> i \<and> i < 2 ^ 7 else if bits = 16 then - (2 ^ 15) \<le> i \<and> i < 2 ^ 15
     else if bits = 32 then - (2 ^ 31) \<le> i \<and> i < 2 ^ 31 else True)"

fun vt_matches :: "vtyp \<Rightarrow> val \<Rightarrow> bool" where
  "vt_matches (VTyp nm bits el nn vt dm) v =
    (if is_null v then nm = ''NULL'' \<or> \<not> nn
     else if nm = ''NOTHING'' \<or> nm = ''NULL'' then False
     else if nm = ''ANY'' then True
     else if nm = ''BOOLEAN'' then (case v of VBool b \<Rightarrow> True | _ \<Rightarrow> False)
     else if nm = ''STRING'' then (case v of VStr s \<Rightarrow> True | _ \<Rightarrow> False)
     else if nm = ''INTEGER'' then (case v of VInt i \<Rightarrow> fits_bits bits i | _ \<Rightarrow> False)
     else if nm = ''FLOAT'' then (case v of
         VFloat f \<Rightarrow> if bits = 32 \<and> \<not> f_isnan f \<and> \<not> f_isinf f then f_eq (f32_round f) f else True | _ \<Rightarrow> False)
     else if nm \<in> {''DATE'', ''LOCAL TIME'', ''ZONED TIME'', ''LOCAL DATETIME'', ''ZONED DATETIME'', ''DURATION''} then
       (case v of VTemp t \<Rightarrow> temporalVType t = nm | _ \<Rightarrow> False)
     else if nm = ''NODE'' then (case v of VNode n \<Rightarrow> True | _ \<Rightarrow> False)
     else if nm = ''RELATIONSHIP'' then (case v of VRel r \<Rightarrow> True | _ \<Rightarrow> False)
     else if nm = ''MAP'' then (case v of VMap m \<Rightarrow> True | _ \<Rightarrow> False)
     else if nm = ''PATH'' then (case v of VPath ns rs \<Rightarrow> True | _ \<Rightarrow> False)
     else if nm = ''LIST'' then (case v of
         VList l \<Rightarrow> (case el of None \<Rightarrow> True | Some ts \<Rightarrow> list_all (\<lambda>e. list_ex (\<lambda>t. vt_matches t e) ts) l) | _ \<Rightarrow> False)
     else if nm = ''PROPERTY VALUE'' then isPropertyValue v
     else if nm = ''VECTOR'' then (case v of
         VVec w \<Rightarrow> (vt = None \<or> vt = Some (v_type w)) \<and> (dm = 0 \<or> int (dimension w) = dm) | _ \<Rightarrow> False)
     else if nm = ''POINT'' then (case v of VPoint p \<Rightarrow> True | _ \<Rightarrow> False)
     else False)"

declare vt_matches.simps [simp del]

definition matchesVTypes :: "val \<Rightarrow> vtyp list \<Rightarrow> bool" where
  "matchesVTypes v ts = list_ex (\<lambda>t. vt_matches t v) ts"

section \<open>Every value is of the type valueType() gives it\<close>

lemma split_plain: "sep \<notin> set s \<Longrightarrow> split_top sep d acc s = [acc @ s]"
  by (induction s arbitrary: d acc) auto

lemma splitTop_plain: "sep \<notin> set s \<Longrightarrow> splitTop s sep = [s]"
  by (simp add: splitTop_def split_plain)

lemma trimSpace_id:
  assumes "s \<noteq> []" "\<not> is_space (hd s)" "\<not> is_space (last s)"
  shows "trimSpace s = s"
proof -
  have "dropWhile is_space s = s" using assms by (cases s) auto
  moreover have "dropWhile is_space (rev s) = rev s" using assms by (cases "rev s") (auto simp: hd_rev [symmetric])
  ultimately show ?thesis by (simp add: trimSpace_def)
qed

text \<open>The reader after the nullability is known.\<close>

definition parse_core :: "bool \<Rightarrow> string \<Rightarrow> vtyp" where
  "parse_core nn s =
    (if prefix ''VECTOR'' s then vector_atom nn (drop 6 s)
     else
       let i = indexByte s (CHR ''<''); bracket = (i \<noteq> None \<and> suffix ''>'' s);
         el = (if bracket then Some (parseVTypes (inside s (the i))) else None);
         s = (if bracket then take (the i) s else s);
         s = (case indexByte s (CHR ''('') of Some i \<Rightarrow> trimSpace (take i s) | None \<Rightarrow> s);
         nb = canonicalTypeName (trimSpace s)
       in VTyp (fst nb) (snd nb) el nn None 0)"

text \<open>A text that reads as the type t, and as t that is not null with the suffix.\<close>

definition reads_as :: "string \<Rightarrow> (bool \<Rightarrow> vtyp) \<Rightarrow> bool" where
  "reads_as s t \<longleftrightarrow> CHR ''|'' \<notin> set s \<and> parseVTypes s = [t False] \<and> parseVTypes (s @ not_null) = [t True]"

lemma reads_core:
  assumes "CHR ''|'' \<notin> set s" "s \<noteq> []" "\<not> is_space (hd s)" "\<not> is_space (last s)" "\<not> suffix not_null s"
  shows "reads_as s (\<lambda>nn. parse_core nn s)"
proof -
  have nn: "not_null = '' NOT NUL'' @ [CHR ''L'']" by (simp add: not_null_def)
  have l: "last (s @ not_null) = CHR ''L''" unfolding nn by simp
  have 1: "parseVTypes s = [parseVAtom s]"
    using assms by (simp add: parseVTypes.simps splitTop_plain trimSpace_id)
  have "CHR ''|'' \<notin> set (s @ not_null)" using assms(1) by (simp add: not_null_def)
  moreover have "trimSpace (s @ not_null) = s @ not_null"
    using assms by (intro trimSpace_id) (simp_all add: l is_space_def)
  ultimately have 2: "parseVTypes (s @ not_null) = [parseVAtom (s @ not_null)]"
    by (simp add: parseVTypes.simps splitTop_plain)
  have sf: "suffix not_null (s @ not_null)" by (simp add: suffix_def)
  have "cut_suffix s not_null = None" "cut_suffix (s @ not_null) not_null = Some s"
    using assms(5) sf by (simp_all add: cut_suffix_def)
  then have "parseVAtom s = parse_core False s" "parseVAtom (s @ not_null) = parse_core True s"
    using assms(5) sf by (simp_all add: parseVAtom.simps parse_core_def Let_def)
  then show ?thesis using 1 2 assms(1) by (simp add: reads_as_def)
qed

lemma suffix_not_null: "suffix not_null s \<Longrightarrow> last s = CHR ''L'' \<and> 9 \<le> length s"
  by (auto simp: suffix_def not_null_def)

definition plain_names :: "string list" where
  "plain_names = [''BOOLEAN'', ''INTEGER'', ''FLOAT'', ''STRING'', ''NODE'', ''RELATIONSHIP'', ''PATH'', ''MAP'', ''POINT'', ''DATE'',
    ''LOCAL TIME'', ''ZONED TIME'', ''LOCAL DATETIME'', ''ZONED DATETIME'', ''DURATION'', ''ANY'', ''NOTHING'', ''NULL'']"

definition name_bits :: "string \<Rightarrow> int" where
  "name_bits s = (if s = ''INTEGER'' \<or> s = ''FLOAT'' then 64 else 0)"

lemma plain_names_text:
  "\<forall>s \<in> set plain_names. CHR ''|'' \<notin> set s \<and> s \<noteq> [] \<and> \<not> is_space (hd s) \<and> \<not> is_space (last s)
     \<and> (last s \<noteq> CHR ''L'' \<or> length s < 9) \<and> indexByte s (CHR ''<'') = None \<and> indexByte s (CHR ''('') = None
     \<and> canonicalTypeName s = (s, name_bits s) \<and> \<not> prefix ''VECTOR'' s"
  by code_simp

lemma vt_reads_name:
  assumes "s \<in> set plain_names"
  shows "reads_as s (\<lambda>nn. VTyp s (name_bits s) None nn None 0)"
proof -
  note p = bspec [OF plain_names_text assms]
  have "reads_as s (\<lambda>nn. parse_core nn s)"
    using p suffix_not_null [of s] by (intro reads_core) auto
  moreover have "parse_core nn s = VTyp s (name_bits s) None nn None 0" for nn
    using p by (simp add: parse_core_def trimSpace_id)
  ultimately show ?thesis by simp
qed

lemma parse_list: "parse_core nn (''LIST<'' @ e @ ''>'') = VTyp ''LIST'' 0 (Some (parseVTypes e)) nn None 0"
proof -
  have "suffix ''>'' (''LIST<'' @ e @ ''>'')" by (simp add: suffix_def)
  moreover have "inside (''LIST<'' @ e @ ''>'') 4 = e" by (simp add: inside_def)
  moreover have "canonicalTypeName (trimSpace ''LIST'') = (''LIST'', 0)" by code_simp
  ultimately show ?thesis by (simp add: parse_core_def numeral_eq_Suc)
qed

lemma reads_list:
  assumes "CHR ''|'' \<notin> set e"
  shows "reads_as (''LIST<'' @ e @ ''>'') (\<lambda>nn. VTyp ''LIST'' 0 (Some (parseVTypes e)) nn None 0)"
proof -
  have "last (''LIST<'' @ e @ ''>'') = CHR ''>''" by simp
  then have "\<not> suffix not_null (''LIST<'' @ e @ ''>'')" using suffix_not_null by fastforce
  then have "reads_as (''LIST<'' @ e @ ''>'') (\<lambda>nn. parse_core nn (''LIST<'' @ e @ ''>''))"
    using assms by (intro reads_core) (simp_all add: is_space_def)
  then show ?thesis by (simp only: parse_list)
qed

lemma atoi_or_dec_nat:
  assumes "n < 2 ^ 63"
  shows "atoi_or (dec_nat n) = int n"
proof -
  obtain c t where d: "dec_nat n = c # t" using dec_nat_nonempty [of n] by (cases "dec_nat n") auto
  have dd: "list_all isDigit (dec_nat n)" using dec_nat_digits [of n] by (simp add: list_all_iff)
  then have c: "c \<noteq> CHR ''-''" "c \<noteq> CHR ''+''" unfolding d by (auto simp: isDigit_def)
  have v: "dec_val (c # t) = n" using dec_val_dec_nat [of n] by (simp add: d)
  have "int n < 2 ^ 63" using assms by (metis of_nat_less_iff of_nat_numeral of_nat_power)
  then show ?thesis using c dd v unfolding d atoi_or_def by simp
qed

lemma vtype_name_text: "set (vtype_name t) \<inter> {CHR ''|'', CHR ''('', CHR ''<'', CHR '')''} = {}"
  "vtype_name t \<noteq> []" "\<not> is_space (hd (vtype_name t))" "\<not> is_space (last (vtype_name t))"
  by (cases t; simp add: is_space_def)+

lemma indexByte_append: "b \<notin> set s \<Longrightarrow> indexByte (s @ b # t) b = Some (length s)"
  by (induction s) auto

lemma parse_vector:
  assumes "n < 2 ^ 63"
  shows "parse_core nn (''VECTOR<'' @ vtype_name t @ ''>('' @ dec_nat n @ '')'') = VTyp ''VECTOR'' 0 None nn (Some t) (int n)"
proof -
  let ?pre = "''<'' @ vtype_name t @ ''>''"
  let ?rest = "?pre @ CHR ''('' # dec_nat n @ '')''"
  have i: "indexByte ?rest (CHR ''('') = Some (length ?pre)"
    using vtype_name_text(1) [of t] by (intro indexByte_append) auto
  have sf: "suffix '')'' ?rest" by (simp add: suffix_def)
  have ins: "inside ?rest (length ?pre) = dec_nat n" by (simp add: inside_def)
  have tk: "take (length ?pre) ?rest = ?pre" by (simp only: take_append length_append) simp
  have sp: "suffix ''>'' ?pre" by (simp add: suffix_def)
  have nm: "take (length ?pre - 2) (drop 1 ?pre) = vtype_name t" by simp
  have "vector_atom nn ?rest = VTyp ''VECTOR'' 0 None nn (Some t) (int n)"
    unfolding vector_atom_def i option.case if_P [OF sf] ins tk Let_def prod.case atoi_or_dec_nat [OF assms]
    using sp nm vtype_name_text [of t] by (simp add: trimSpace_id parseVType_name)
  then show ?thesis by (simp add: parse_core_def)
qed

text \<open>Every vector inside the value has the size construction allows.\<close>

fun vecs_ok :: "val \<Rightarrow> bool" where
  "vecs_ok (VVec v) = (dimension v < 2 ^ 63)"
| "vecs_ok (VList l) = list_all vecs_ok l"
| "vecs_ok v = True"

lemma digits_no_bar: "CHR ''|'' \<notin> set (dec_nat n)"
  using dec_nat_digits [of n] by (auto simp: isDigit_def)

lemma reads_vector:
  assumes "dimension v < 2 ^ 63"
  shows "reads_as (type_base (VVec v)) (\<lambda>nn. VTyp ''VECTOR'' 0 None nn (Some (v_type v)) (int (dimension v)))"
proof -
  let ?s = "''VECTOR<'' @ vtype_name (v_type v) @ ''>('' @ dec_nat (dimension v) @ '')''"
  have l: "last ?s = CHR '')''" by simp
  then have "\<not> suffix not_null ?s" using suffix_not_null by fastforce
  moreover have "CHR ''|'' \<notin> set ?s"
    using vtype_name_text(1) [of "v_type v"] digits_no_bar by auto
  ultimately have "reads_as ?s (\<lambda>nn. parse_core nn ?s)" using l by (intro reads_core) (simp_all add: is_space_def)
  then show ?thesis using parse_vector [OF assms, of _ "v_type v"] by simp
qed

lemma reads_unique: "reads_as s t \<Longrightarrow> reads_as s t' \<Longrightarrow> t = t'"
  by (rule ext, case_tac x) (simp_all add: reads_as_def)

text \<open>What is proved of a value that is not null.\<close>

definition typed :: "val \<Rightarrow> bool" where
  "typed v \<longleftrightarrow> (\<exists>t. reads_as (type_base v) t \<and> (\<forall>nn. vt_matches (t nn) v) \<and> vt_matches (t False) VNull)"

lemma typed_name:
  assumes "type_base v \<in> set plain_names"
    "\<And>nn. vt_matches (VTyp (type_base v) (name_bits (type_base v)) None nn None 0) v"
  shows "typed v"
proof -
  have "vt_matches (VTyp (type_base v) (name_bits (type_base v)) None False None 0) VNull"
    by (simp add: vt_matches.simps is_null_def)
  then show ?thesis unfolding typed_def using vt_reads_name [OF assms(1)] assms(2) by blast
qed

lemma typed_point: "typed (VPoint p)"
proof -
  have "type_base (VPoint p) = ''POINT''" by code_simp
  then show ?thesis
    by (intro typed_name) (auto simp: plain_names_def vt_matches.simps name_bits_def is_null_def)
qed

lemma typed_temporal: "typed (VTemp t)"
  by (rule typed_name)
    (auto simp: temporalVType_def plain_names_def vt_matches.simps name_bits_def is_null_def split: kind.splits)

lemma typed_vector: "dimension w < 2 ^ 63 \<Longrightarrow> typed (VVec w)"
  unfolding typed_def
  by (rule exI, rule conjI, erule reads_vector) (simp add: vt_matches.simps is_null_def)

definition elem_names :: "val list \<Rightarrow> string option list" where
  "elem_names l = map (\<lambda>e. if is_null e then None else Some (type_base e)) l"

text \<open>The element type of a list reads as a type that every element has.\<close>

lemma elem_reads:
  assumes "\<And>e. e \<in> set l \<Longrightarrow> \<not> is_null e \<Longrightarrow> typed e"
  shows "CHR ''|'' \<notin> set (elem_type (elem_names l))
    \<and> list_all (\<lambda>e. list_ex (\<lambda>t. vt_matches t e) (parseVTypes (elem_type (elem_names l)))) l"
proof -
  let ?ts = "elem_names l"
  let ?names = "[n. Some n \<leftarrow> ?ts]"
  have nulls: "None \<in> set ?ts \<longleftrightarrow> (\<exists>e \<in> set l. is_null e)" by (auto simp: elem_names_def)
  have in_names: "n \<in> set ?names \<longleftrightarrow> (\<exists>e \<in> set l. \<not> is_null e \<and> n = type_base e)" for n
    by (auto simp: elem_names_def split: if_splits)
  have nul: "reads_as ''NULL'' (\<lambda>nn. VTyp ''NULL'' 0 None nn None 0)"
    "reads_as ''ANY'' (\<lambda>nn. VTyp ''ANY'' 0 None nn None 0)"
    using vt_reads_name [of "''NULL''"] vt_reads_name [of "''ANY''"] by (simp_all add: plain_names_def name_bits_def)
  have from_reads: ?thesis
    if r: "reads_as s t" and e: "elem_type ?ts = (if None \<in> set ?ts then s else s @ not_null)"
      and m: "\<And>e. e \<in> set l \<Longrightarrow> if is_null e then vt_matches (t False) e else (\<forall>nn. vt_matches (t nn) e)" for s t
  proof (cases "None \<in> set ?ts")
    case True
    then have "elem_type ?ts = s" using e by simp
    then show ?thesis using r m by (force simp: reads_as_def list_all_iff split: if_splits)
  next
    case False
    then have "elem_type ?ts = s @ not_null" "\<And>e. e \<in> set l \<Longrightarrow> vt_matches (t True) e" using e m nulls by auto
    then show ?thesis using r by (auto simp: reads_as_def list_all_iff not_null_def)
  qed
  consider "l = []" | "l \<noteq> []" "?names = []" | n where "?names \<noteq> []" "\<forall>m \<in> set ?names. m = n" "hd ?names = n"
    | "?names \<noteq> []" "\<not> list_all (\<lambda>n. n = hd ?names) ?names"
    by (auto simp: list_all_iff)
  then show ?thesis
  proof cases
    case 1
    then show ?thesis by (simp add: elem_names_def elem_type_def)
  next
    case 2
    then have "\<And>e. e \<in> set l \<Longrightarrow> is_null e" using in_names by (metis empty_iff list.set(1))
    moreover have "elem_type ?ts = (if None \<in> set ?ts then ''NULL'' else ''NULL'' @ not_null)"
      using 2 calculation nulls by (simp add: elem_type_def) (metis hd_in_set elem_names_def list.map_disc_iff)
    ultimately show ?thesis using nul(1) by (intro from_reads) (auto simp: vt_matches.simps)
  next
    case (3 n)
    then obtain e0 where e0: "e0 \<in> set l" "\<not> is_null e0" "n = type_base e0" using in_names hd_in_set by metis
    then obtain t where t: "reads_as n t" "vt_matches (t False) VNull" using assms typed_def by blast
    have "vt_matches (t nn) e" if "e \<in> set l" "\<not> is_null e" for e nn
      using assms [OF that] 3(2) in_names that reads_unique [OF t(1)] unfolding typed_def by metis
    moreover have "vt_matches (t False) e" if "is_null e" for e
      using that t(2) by (cases e) (simp_all add: is_null_def)
    moreover have "elem_type ?ts = (if None \<in> set ?ts then n else n @ not_null)"
      using 3 e0 by (auto simp: elem_type_def Let_def list_all_iff)
    ultimately show ?thesis using t(1) by (intro from_reads) auto
  next
    case 4
    then have "elem_type ?ts = (if None \<in> set ?ts then ''ANY'' else ''ANY'' @ not_null)"
      by (auto simp: elem_type_def Let_def)
    then show ?thesis using nul(2) by (intro from_reads) (auto simp: vt_matches.simps)
  qed
qed

theorem typed_all: "vecs_ok v \<Longrightarrow> \<not> is_null v \<Longrightarrow> typed v"
proof (induction v rule: vecs_ok.induct)
  case (2 l)
  then have el: "\<And>e. e \<in> set l \<Longrightarrow> \<not> is_null e \<Longrightarrow> typed e" by (auto simp: list_all_iff)
  have b: "type_base (VList l) = ''LIST<'' @ elem_type (elem_names l) @ ''>''" by (simp add: elem_names_def)
  show ?case unfolding typed_def b using elem_reads [OF el] reads_list [of "elem_type (elem_names l)"]
    by (intro exI [of _ "\<lambda>nn. VTyp ''LIST'' 0 (Some (parseVTypes (elem_type (elem_names l)))) nn None 0"])
      (simp add: vt_matches.simps is_null_def)
qed (auto simp: typed_temporal typed_vector typed_point intro!: typed_name
    simp: plain_names_def vt_matches.simps name_bits_def is_null_def)

lemma valueType_matches:
  assumes "vecs_ok v"
  shows "matchesVTypes v (parseVTypes (valueTypeName v nullability))"
proof (cases "is_null v")
  case True
  then show ?thesis using vt_reads_name [of "''NULL''"]
    by (simp add: valueTypeName_def matchesVTypes_def reads_as_def plain_names_def vt_matches.simps)
next
  case False
  then show ?thesis using typed_all [OF assms False]
    by (auto simp: typed_def valueTypeName_def matchesVTypes_def reads_as_def)
qed

end
