(* ===== verification/Ast.thy ===== *)
theory Ast
  imports Float64 "HOL-Library.Char_ord"
begin

text \<open>
  The typed syntax tree of cypher/syntax/ast.go. Every node of the source also holds the position it
  starts at (\<open>Loc\<close>); positions only reach error messages, and two trees that differ in nothing else
  are dumped alike, so they are left out. A field that may be nil is an option, an item of a list
  without a type of its own a tuple in the order of its fields. The nodes of expressions and patterns
  are given over the type of query bodies, which come last: the source's \<open>Expr\<close> is \<open>body expr\<close>.
\<close>

section \<open>Enumerations\<close>

datatype explain_mode = ModeNone | ModeExplain | ModeProfile
datatype constraint_kind = ConstraintUnique | ConstraintNotNull | ConstraintKey | ConstraintType
datatype match_mode = MatchModeDefault | MatchDifferentRelationships | MatchRepeatableElements
datatype set_kind = SetProperty | SetReplace | SetMerge | SetLabels
datatype shortest_func = FuncNone | FuncShortestPath | FuncAllShortestPaths
datatype selector_kind = SelectorAny | SelectorAll | SelectorAnyShortest | SelectorAllShortest | SelectorShortest
  | SelectorShortestGroups
datatype direction = DirNone | DirRight | DirLeft | DirBoth
datatype unary_op = OpPlus | OpMinus | OpNot
datatype binary_op = OpOr | OpXor | OpAnd | OpAdd | OpSub | OpMul | OpDiv | OpMod | OpPow | OpConcat | OpIn
  | OpStartsWith | OpEndsWith | OpContains | OpRegexMatch
datatype compare_op = CmpEq | CmpNeq | CmpLt | CmpGt | CmpLte | CmpGte
datatype quantifier_kind = QuantAll | QuantAny | QuantNone | QuantSingle
datatype subquery_kind = SubqueryExists | SubqueryCount | SubqueryCollect
datatype map_proj_kind = ProjProperty | ProjLiteral | ProjVariable | ProjAll

section \<open>Leaves\<close>

text \<open>A planner hint, a range \<open>*min..max\<close> (a missing bound is open), a quantifier and an item of YIELD.\<close>

type_synonym hint = "string \<times> string"
type_synonym range = "int option \<times> int option"
type_synonym path_quant = "int \<times> int option"
type_synonym yield_item = "string \<times> string"

section \<open>Expressions and patterns\<close>

datatype 'b expr =
    IntLit int string
  | FloatLit f64 string
  | StringLit string
  | BoolLit bool
  | NullLit
  | ListLit "'b expr list"
  | MapLit "(string \<times> 'b expr) list"
  | Param string
  | Ident string
  | Property "'b expr" string
  | Subscript "'b expr" "'b expr"
  | Slice "'b expr" "'b expr option" "'b expr option"
  | Unary unary_op "'b expr"
  | Binary binary_op "'b expr" "'b expr"
  | Comparison "'b expr list" "compare_op list"
  | IsNull "'b expr" bool
  | TypePredicate "'b expr" string bool
  | Normalized "'b expr" string bool
  | HasLabels "'b expr" "'b label_expr"
  | FuncCall "string list" string bool bool "'b expr list"
  | CaseExpr "'b expr option" "('b expr \<times> 'b expr) list" "'b expr option"
  | ListComp string "'b expr" "'b expr option" "'b expr option"
  | PatternComp "'b pattern_part" "'b expr option" "'b expr"
  | Quantifier quantifier_kind string "'b expr" "'b expr option"
  | Reduce string "'b expr" string "'b expr" "'b expr"
  | SubqueryExpr subquery_kind "'b option" "'b pattern_part list" "'b expr option"
  | PatternExpr "'b pattern_part"
  | MapProjection "'b expr" "(map_proj_kind \<times> string \<times> 'b expr option) list"
and 'b label_expr =
    LabelName string "'b expr option"
  | LabelWildcard
  | LabelNot "'b label_expr"
  | LabelAnd "'b label_expr" "'b label_expr"
  | LabelOr "'b label_expr" "'b label_expr"
and 'b pattern_part =
    PatternPart string "(selector_kind \<times> 'b expr option) option" shortest_func "'b pattern_elem list"
and 'b pattern_elem =
    NodePattern string "'b label_expr option" "'b expr option" "'b expr option"
  | RelPattern string "'b label_expr option" direction "range option" "'b expr option" "'b expr option" "path_quant option"
  | GroupPattern string "'b pattern_elem list" "'b expr option" "path_quant option"

section \<open>Clauses and bodies\<close>

datatype 'b set_item =
    SetItem set_kind "'b expr" "'b label_expr option" "'b expr option"

datatype 'b yield =
    Yield bool "yield_item list" "'b expr option"

datatype 'b in_transactions =
    InTransactions bool "'b expr option" "'b expr option" string string string "'b expr option" string

datatype 'b projection =
    Projection bool bool "('b expr \<times> string \<times> string) list" "('b expr \<times> bool) list" "'b expr option" "'b expr option"

datatype clause =
    CMatch bool match_mode "body pattern_part list" "hint list" "body expr option"
  | CUnwind "body expr" string
  | CCreate "body pattern_part list"
  | CMerge "body pattern_part" "(bool \<times> body set_item list) list"
  | CSet "body set_item list"
  | CRemove "(body expr \<times> body label_expr option) list"
  | CDelete bool "body expr list"
  | CForeach string "body expr" "clause list"
  | CCall bool "string list" "body expr list" bool "body yield option"
  | CSubquery bool bool bool "string list" body "body in_transactions option"
  | CLoadCSV bool "body expr" string "body expr option"
  | CWith "body projection" "body expr option"
  | CReturn "body projection"
  | CFilter "body expr"
  | CLet "(string \<times> body expr) list"
  | CFinish
  | CConditional "(body expr \<times> body) list" "body option"
and body =
    BSingle "clause list"
  | BUnion "clause list list" bool
  | BCreateIndex string string bool "body pattern_elem" "body expr list" bool "body expr option"
  | BCreateConstraint string bool "body pattern_elem" "body expr list" constraint_kind string "body expr option"
  | BDropSchema bool string bool
  | BShow string "body yield option" "body expr option" "body projection option"
  | BServerCommand string
  | BConditional "(body expr \<times> body) list" "body option"

record statement =
  st_src :: string
  st_mode :: explain_mode
  st_version :: string
  st_options :: "(string \<times> string) list"
  st_params :: "string list"
  st_body :: body

end
