(* ===== verification/GroupKeys.thy ===== *)
theory GroupKeys
  imports ValueFacts
begin

text \<open>
  Grouping keys: on values without nulls, NaN, fractional floats, points and vectors, two keys are the
  same text exactly when the values are equal. The proof reads a key back: every value's key ends where it
  can be seen to end.
\<close>

section \<open>Texts without a semicolon\<close>

lemma semi_split:
  assumes "CHR '';'' \<notin> set x" "CHR '';'' \<notin> set y" "x @ CHR '';'' # s = y @ CHR '';'' # t"
  shows "x = y \<and> s = t"
  using assms
proof (induction x arbitrary: y)
  case Nil
  then show ?case by (cases y) auto
next
  case (Cons c x)
  then show ?case by (cases y) auto
qed

lemma digits_no: "\<not> isDigit c \<Longrightarrow> c \<notin> set (dec_nat n)" "\<not> isDigit c \<Longrightarrow> c \<notin> set (pad0 w n)"
  using dec_nat_digits pad0_digits by auto

lemma semi_nodigit [simp]: "\<not> isDigit (CHR '';'')" by (simp add: isDigit_def)
lemma comma_nodigit [simp]: "\<not> isDigit (CHR '','')" by (simp add: isDigit_def)
lemma colon_nodigit [simp]: "\<not> isDigit (CHR '':'')" by (simp add: isDigit_def)

lemma dec_int_no: "\<not> isDigit c \<Longrightarrow> c \<noteq> CHR ''-'' \<Longrightarrow> c \<notin> set (dec_int i)"
  by (simp add: dec_int_def digits_no)

lemma dec_int_inj: "dec_int i = dec_int j \<Longrightarrow> i = j"
proof -
  assume e: "dec_int i = dec_int j"
  have h: "hd (dec_nat n) \<noteq> CHR ''-''" for n
    using dec_nat_digits [of n] dec_nat_nonempty [of n] by (cases "dec_nat n") (auto simp: isDigit_def)
  have ne: "dec_nat n \<noteq> CHR ''-'' # t" for n t using h [of n] by auto
  from e ne ne [symmetric] show ?thesis by (auto simp: dec_int_def dec_nat_inj split: if_splits)
qed

lemma sdigits_no: "\<not> isDigit c \<Longrightarrow> c \<notin> set (take k (pad0 w n))"
  using digits_no in_set_takeD by fastforce

lemma tval_string_semi: "canonical t \<Longrightarrow> CHR '';'' \<notin> set (tval_string t)"
proof -
  assume c: "canonical t"
  have y: "CHR '';'' \<notin> set (fmtYear y)" for y by (simp add: fmtYear_def digits_no)
  have d: "CHR '';'' \<notin> set (date_string x)" for x by (simp add: date_string_def y digits_no split: prod.split)
  have f: "CHR '';'' \<notin> set (fraction n)" for n by (simp add: fraction_def Let_def digits_no sdigits_no)
  have l: "CHR '';'' \<notin> set (localtime_string n)" for n by (simp add: localtime_string_def f digits_no split: prod.split)
  have z: "CHR '';'' \<notin> set (fmtOffset n)" for n by (simp add: fmtOffset_def Let_def digits_no)
  have tz: "CHR '';'' \<notin> set (trim_zeros (pad0 w n))" for w n
    using digits_no(2) [OF semi_nodigit, of w n] set_dropWhileD unfolding trim_zeros_def by fastforce
  have dd: "CHR '';'' \<notin> set (dur_date_string x)" for x by (simp add: dur_date_string_def Let_def dec_int_no)
  have du: "CHR '';'' \<notin> set (duration_string x)" for x
    by (simp add: duration_string_def Let_def dd dec_int_no tz digits_no split: prod.split)
  show ?thesis using c
    by (cases t) (simp_all add: d l z du time_string_def localdatetime_string_def datetime_string_def)
qed

section \<open>The values considered\<close>

text \<open>
  A value without nulls and without the kinds of number, point and vector whose text is left out here;
  integers must be floats exactly, as equality compares them with floats.
\<close>

fun discrete :: "val \<Rightarrow> bool" where
  "discrete VNull = False"
| "discrete (VInt i) = (\<bar>i\<bar> \<le> 2 ^ 53)"
| "discrete (VFloat x) = (\<exists>i. f_whole x = Some i \<and> \<bar>i\<bar> \<le> 2 ^ 53)"
| "discrete (VTemp t) = canonical t"
| "discrete (VPoint p) = False"
| "discrete (VVec v) = False"
| "discrete (VPath ns rs) = (length ns = Suc (length rs))"
| "discrete (VList l) = list_all discrete l"
| "discrete (VMap m) = (good_map m \<and> list_all (\<lambda>kv. discrete (snd kv)) m)"
| "discrete v = True"

lemma parts_discrete: "x \<in> parts_of a \<Longrightarrow> discrete a \<Longrightarrow> discrete x"
  by (cases a) (auto simp: parts_of_def list_all_iff)

text \<open>A number is the whole number it stands for.\<close>

definition whole :: "val \<Rightarrow> int option" where
  "whole v = (case v of VInt i \<Rightarrow> Some i | VFloat x \<Rightarrow> f_whole x | _ \<Rightarrow> None)"

lemma f_whole_eq: "f_whole x = Some i \<Longrightarrow> f_whole y = Some j \<Longrightarrow> f_eq x y \<longleftrightarrow> i = j"
  by (cases x; cases y) (auto simp: f_eq_def split: if_splits)

lemma f_whole_of_int: "\<bar>i\<bar> \<le> 2 ^ 53 \<Longrightarrow> f_whole (f_of_int i) = Some i"
proof -
  assume i: "\<bar>i\<bar> \<le> 2 ^ 53"
  have "\<bar>of_int i :: rat\<bar> = of_int \<bar>i\<bar>" by simp
  also have "\<dots> \<le> of_int (2 ^ 53)" using i of_int_le_iff by blast
  finally have "\<bar>of_int i :: rat\<bar> < 9200000000000000000" by simp
  then show ?thesis using i by (simp add: f_of_int_exact)
qed

lemma equals_simps:
  "equals (VList l) (VList m) = (if length l \<noteq> length m then TriFalse else equals_list l m)"
  "equals (VMap e1) (VMap e2) = (if length e1 \<noteq> length e2 then TriFalse else equals_map e1 e2)"
  "equals (VTemp t) (VTemp u) = triOf (tval_equal t u)"
  "equals (VStr x1) (VStr y1) = triOf (x1 = y1)"
  "equals (VBool x2) (VBool y2) = triOf (x2 = y2)"
  "equals (VNode i) (VNode j) = triOf (i = j)"
  "equals (VRel i) (VRel j) = triOf (i = j)"
  "equals (VPath n1 r1) (VPath n2 r2) = triOf (n1 = n2 \<and> r1 = r2)"
  "equals (VInt i) (VInt j) = triOf (i = j)"
  "equals (VInt i) (VFloat y) = triOf (f_eq (f_of_int i) y)"
  "equals (VFloat z) (VInt j) = triOf (f_eq z (f_of_int j))"
  "equals (VFloat z) (VFloat y) = triOf (f_eq z y)"
  by (subst equals.simps; simp add: is_null_def)+

text \<open>What two equal values look like.\<close>

lemma equals_shape:
  assumes "equals a b = TriTrue"
  shows "(isNumber a \<and> isNumber b) \<or> (\<exists>l m. a = VList l \<and> b = VList m) \<or> (\<exists>x y. a = VMap x \<and> b = VMap y)
    \<or> (\<exists>t u. a = VTemp t \<and> b = VTemp u) \<or> (\<exists>p q. a = VPoint p \<and> b = VPoint q) \<or> (\<exists>v w. a = VVec v \<and> b = VVec w)
    \<or> a = b \<and> a \<noteq> VNull"
  using assms
  by (subst (asm) equals.simps)
    (auto simp: is_null_def isNumber_def triOf_def split: val.splits if_splits)

lemma whole_equals:
  assumes "discrete a" "discrete b" "whole a = Some i" "whole b = Some j"
  shows "equals a b = triOf (i = j)"
  using assms f_whole_eq [of _ i _ j] f_whole_of_int
  by (cases a; cases b) (auto simp: whole_def equals_simps)

lemma whole_key: "discrete a \<Longrightarrow> whole a = Some i \<Longrightarrow> groupKey a = CHR ''d'' # dec_int i @ '';''"
  by (cases a) (auto simp: whole_def float_key_def f_isnan_def)

section \<open>Equal values have one key\<close>

lemma equals_list_True: "length xs = length ys \<Longrightarrow>
    equals_list xs ys = TriTrue \<longleftrightarrow> list_all2 (\<lambda>x y. equals x y = TriTrue) xs ys"
proof (induction xs ys rule: list_induct2)
  case (Cons x xs y ys)
  then show ?case by (cases "equals x y"; cases "equals_list xs ys") (auto simp: tri_all_def)
qed simp

lemma equals_map_True: "equals_map xs m = TriTrue \<longleftrightarrow> (\<forall>(k, v) \<in> set xs. \<exists>w. map_of m k = Some w \<and> equals v w = TriTrue)"
proof (induction xs)
  case (Cons kv xs)
  obtain k v where kv: "kv = (k, v)" by (cases kv)
  show ?case
  proof (cases "map_of m k")
    case (Some w)
    then show ?thesis using Cons
      by (cases "equals v w"; cases "equals_map xs m") (auto simp: kv tri_all_def)
  qed (simp add: kv)
qed simp

lemma sorted_keys_eq:
  "sorted_wrt (<) (xs :: string list) \<Longrightarrow> sorted_wrt (<) ys \<Longrightarrow> set xs \<subseteq> set ys \<Longrightarrow> length xs = length ys \<Longrightarrow> xs = ys"
  by (metis card_subset_eq distinct_card strict_sorted_equal strict_sorted_iff List.finite_set)

lemma good_map_distinct: "good_map m \<Longrightarrow> distinct (mkeys m)"
  unfolding good_map_def by (simp add: strict_sorted_iff)

text \<open>Two maps of one size are equal when their entries are, side by side.\<close>

lemma equal_maps:
  assumes "good_map x" "good_map y" "length x = length y"
  shows "equals_map x y = TriTrue \<longleftrightarrow> list_all2 (\<lambda>a b. fst a = fst b \<and> equals (snd a) (snd b) = TriTrue) x y"
proof
  assume e: "equals_map x y = TriTrue"
  have "set (mkeys x) \<subseteq> set (mkeys y)"
    using e by (force simp: equals_map_True dest: map_of_SomeD)
  then have k: "mkeys x = mkeys y" using assms by (intro sorted_keys_eq) (simp_all add: good_map_def)
  show "list_all2 (\<lambda>a b. fst a = fst b \<and> equals (snd a) (snd b) = TriTrue) x y"
    unfolding list_all2_conv_all_nth
  proof (intro conjI allI impI)
    fix i assume i: "i < length x"
    show f: "fst (x ! i) = fst (y ! i)" using k i assms(3) by (metis nth_map)
    obtain w where w: "map_of y (fst (x ! i)) = Some w" "equals (snd (x ! i)) w = TriTrue"
      using e i by (force simp: equals_map_True)
    have "map_of y (fst (y ! i)) = Some (snd (y ! i))"
      using i assms(2,3) by (intro map_of_is_SomeI) (simp_all add: good_map_distinct)
    then show "equals (snd (x ! i)) (snd (y ! i)) = TriTrue" using w f by simp
  qed (fact assms(3))
next
  assume l: "list_all2 (\<lambda>a b. fst a = fst b \<and> equals (snd a) (snd b) = TriTrue) x y"
  show "equals_map x y = TriTrue"
    unfolding equals_map_True
  proof (intro ballI, clarify)
    fix k v assume "(k, v) \<in> set x"
    then obtain i where i: "i < length x" "x ! i = (k, v)" by (auto simp: in_set_conv_nth)
    then have e: "fst (y ! i) = k" "equals v (snd (y ! i)) = TriTrue" using l by (auto simp: list_all2_conv_all_nth)
    have "map_of y (fst (y ! i)) = Some (snd (y ! i))"
      using i assms(2,3) by (intro map_of_is_SomeI) (simp_all add: good_map_distinct)
    then show "\<exists>w. map_of y k = Some w \<and> equals v w = TriTrue" using e by auto
  qed
qed


lemma discrete_tri: "discrete a \<Longrightarrow> \<not> is_null a"
  by (cases a) (simp_all add: is_null_def)

lemma all2_map_eq: "list_all2 (\<lambda>x y. f x = f y) xs ys \<longleftrightarrow> map f xs = map f ys"
  by (auto simp: list_all2_conv_all_nth list_eq_iff_nth_eq)

lemma equals_key:
  "discrete a \<Longrightarrow> discrete b \<Longrightarrow> equals a b = TriTrue \<Longrightarrow> groupKey a = groupKey b"
proof (induction "size a" arbitrary: a b rule: less_induct)
  case less
  have ih: "groupKey x = groupKey y" if "x \<in> parts_of a" "y \<in> parts_of b" "equals x y = TriTrue" for x y
    using less that by (auto intro: less.hyps parts_size parts_discrete)
  from equals_shape [OF less.prems(3)] show ?case
  proof (elim disjE exE conjE)
    assume "isNumber a" "isNumber b"
    then obtain i j where w: "whole a = Some i" "whole b = Some j"
      using less.prems by (cases a; cases b) (auto simp: whole_def isNumber_def)
    then show ?thesis using whole_equals [OF less.prems(1,2) w] less.prems(3)
      by (simp add: triOf_def whole_key [OF less.prems(1)] whole_key [OF less.prems(2)] split: if_splits)
  next
    fix l m assume ab: "a = VList l" "b = VList m"
    then have "list_all2 (\<lambda>x y. equals x y = TriTrue) l m"
      using less.prems(3) by (simp add: equals_simps equals_list_True split: if_splits)
    then have "list_all2 (\<lambda>x y. groupKey x = groupKey y) l m"
      using ih by (simp add: list_all2_conv_all_nth ab parts_of_def)
    then show ?thesis by (simp add: ab all2_map_eq)
  next
    fix x y assume ab: "a = VMap x" "b = VMap y"
    have "list_all2 (\<lambda>a b. fst a = fst b \<and> equals (snd a) (snd b) = TriTrue) x y"
      using less.prems equal_maps [of x y] by (simp add: ab equals_simps split: if_splits)
    then have "list_all2 (\<lambda>u v. dec_nat (length (fst u)) @ CHR '':'' # fst u @ groupKey (snd u)
        = dec_nat (length (fst v)) @ CHR '':'' # fst v @ groupKey (snd v)) x y"
      using ih by (simp add: list_all2_conv_all_nth ab parts_of_def)
    then show ?thesis by (simp add: ab all2_map_eq)
  next
    fix t u assume ab: "a = VTemp t" "b = VTemp u"
    then show ?thesis using less.prems by (simp add: equals_simps triOf_def canonical_equal split: if_splits)
  qed (use less.prems in auto)
qed

section \<open>One key means equal values\<close>

lemma key_head: "\<exists>c t. groupKey a = c # t \<and> c \<noteq> CHR '']'' \<and> \<not> isDigit c"
  by (cases a) (auto simp: float_key_def isDigit_def split: option.splits)

text \<open>The key of a value, and what follows it, can be told apart from those of another.\<close>

definition decodes :: "val \<Rightarrow> val \<Rightarrow> bool" where
  "decodes a b \<longleftrightarrow> (\<forall>s t. groupKey a @ s = groupKey b @ t \<longrightarrow> equals a b = TriTrue \<and> s = t)"

lemma list_decodes:
  "\<forall>x \<in> set l. \<forall>y \<in> set m. decodes x y \<Longrightarrow>
    concat (map groupKey l) @ CHR '']'' # s = concat (map groupKey m) @ CHR '']'' # t \<Longrightarrow>
    list_all2 (\<lambda>x y. equals x y = TriTrue) l m \<and> s = t"
proof (induction l arbitrary: m)
  case Nil
  obtain c u where "m = [] \<or> groupKey (hd m) = c # u \<and> c \<noteq> CHR '']''" using key_head by blast
  then show ?case using Nil by (cases m) auto
next
  case (Cons x l)
  obtain c u where h: "groupKey x = c # u" "c \<noteq> CHR '']''" using key_head by blast
  then obtain y m' where m: "m = y # m'" using Cons.prems(2) by (cases m) auto
  have "groupKey x @ (concat (map groupKey l) @ CHR '']'' # s) = groupKey y @ (concat (map groupKey m') @ CHR '']'' # t)"
    using Cons.prems(2) by (simp add: m)
  then have "equals x y = TriTrue" "concat (map groupKey l) @ CHR '']'' # s = concat (map groupKey m') @ CHR '']'' # t"
    using Cons.prems(1) unfolding m decodes_def by auto
  then show ?case using Cons.IH [of m'] Cons.prems(1) by (simp add: m)
qed

lemma digits_colon:
  "dec_nat i @ CHR '':'' # s = dec_nat j @ CHR '':'' # t \<Longrightarrow> i = j \<and> s = t"
proof -
  assume e: "dec_nat i @ CHR '':'' # s = dec_nat j @ CHR '':'' # t"
  have "takeWhile isDigit (dec_nat n @ CHR '':'' # u) = dec_nat n" for n u
    by (rule takeWhile_digits) (simp_all add: dec_nat_digits)
  then have "dec_nat i = dec_nat j" using e by metis
  then show ?thesis using e by (simp add: dec_nat_inj)
qed

definition entry_key :: "string \<times> val \<Rightarrow> string" where
  "entry_key kv = dec_nat (length (fst kv)) @ CHR '':'' # fst kv @ groupKey (snd kv)"

lemma entry_key_app: "entry_key kv @ s = dec_nat (length (fst kv)) @ CHR '':'' # (fst kv @ groupKey (snd kv) @ s)"
  by (simp add: entry_key_def)

lemma entry_head: "\<exists>c t. entry_key kv = c # t \<and> isDigit c"
  using dec_nat_digits [of "length (fst kv)"] dec_nat_nonempty [of "length (fst kv)"]
  by (cases "dec_nat (length (fst kv))") (auto simp: entry_key_def)

lemma map_decodes:
  "\<forall>x \<in> snd ` set l. \<forall>y \<in> snd ` set m. decodes x y \<Longrightarrow>
    concat (map entry_key l) @ CHR ''}'' # s = concat (map entry_key m) @ CHR ''}'' # t \<Longrightarrow>
    list_all2 (\<lambda>a b. fst a = fst b \<and> equals (snd a) (snd b) = TriTrue) l m \<and> s = t"
proof (induction l arbitrary: m)
  case Nil
  obtain c u where "m = [] \<or> entry_key (hd m) = c # u \<and> isDigit c" using entry_head by blast
  then show ?case using Nil by (cases m) (auto simp: isDigit_def)
next
  case (Cons x l)
  obtain c u where "entry_key x = c # u" "isDigit c" using entry_head by blast
  then obtain y m' where m: "m = y # m'" using Cons.prems(2) by (cases m) (auto simp: isDigit_def)
  have "entry_key x @ (concat (map entry_key l) @ CHR ''}'' # s) = entry_key y @ (concat (map entry_key m') @ CHR ''}'' # t)"
    using Cons.prems(2) by (simp add: m)
  note d = digits_colon [OF this [unfolded entry_key_app]]
  have f: "fst x = fst y"
    using d append_eq_append_conv [of "fst x" "fst y" "groupKey (snd x) @ (concat (map entry_key l) @ CHR ''}'' # s)"
      "groupKey (snd y) @ (concat (map entry_key m') @ CHR ''}'' # t)"] by simp
  then have "equals (snd x) (snd y) = TriTrue"
    "concat (map entry_key l) @ CHR ''}'' # s = concat (map entry_key m') @ CHR ''}'' # t"
    using Cons.prems(1) d unfolding m decodes_def by auto
  then show ?case using Cons.IH [of m'] Cons.prems(1) f by (simp add: m)
qed


fun nums_key :: "int list \<Rightarrow> string" where
  "nums_key [] = []"
| "nums_key (n # ns) = dec_int n @ '','' @ nums_key ns"

lemma path_key_weave: "length ns = Suc (length rs) \<Longrightarrow> path_key ns rs = nums_key (weave ns rs)"
  by (induction ns rs rule: path_key.induct) auto

lemma comma_split:
  "dec_int i @ CHR '','' # s = dec_int j @ CHR '','' # t \<Longrightarrow> i = j \<and> s = t"
proof -
  assume e: "dec_int i @ CHR '','' # s = dec_int j @ CHR '','' # t"
  have "takeWhile (\<lambda>c. c \<noteq> CHR '','') (dec_int n @ CHR '','' # u) = dec_int n" for n u
    using dec_int_no [OF comma_nodigit, of n] by (subst takeWhile_append2) auto
  then have "dec_int i = dec_int j" using e by metis
  then show ?thesis using e dec_int_inj by simp
qed

lemma dec_int_head: "\<exists>c t. dec_int n = c # t \<and> c \<noteq> CHR '']''"
proof (cases "n < 0")
  case False
  then show ?thesis
    using dec_nat_digits [of "nat n"] dec_nat_nonempty [of "nat n"]
    by (cases "dec_nat (nat n)") (auto simp: dec_int_def isDigit_def)
qed (simp add: dec_int_def)

lemma nums_decode: "nums_key xs @ CHR '']'' # s = nums_key ys @ CHR '']'' # t \<Longrightarrow> xs = ys \<and> s = t"
proof (induction xs arbitrary: ys)
  case Nil
  obtain c u where "ys = [] \<or> dec_int (hd ys) = c # u \<and> c \<noteq> CHR '']''" using dec_int_head by blast
  then show ?case using Nil by (cases ys) auto
next
  case (Cons x xs)
  obtain c u where "dec_int x = c # u" "c \<noteq> CHR '']''" using dec_int_head by blast
  then obtain y ys' where y: "ys = y # ys'" using Cons.prems by (cases ys) auto
  have "dec_int x @ CHR '','' # (nums_key xs @ CHR '']'' # s) = dec_int y @ CHR '','' # (nums_key ys' @ CHR '']'' # t)"
    using Cons.prems by (simp add: y)
  from comma_split [OF this] show ?case using Cons.IH [of ys'] by (simp add: y)
qed

lemma weave_inj:
  "length ns = Suc (length rs) \<Longrightarrow> length ms = Suc (length qs) \<Longrightarrow> weave ns rs = weave ms qs \<Longrightarrow> ns = ms \<and> rs = qs"
proof (induction rs arbitrary: ns ms qs)
  case Nil
  then obtain u where us: "ns = [u]" by (cases ns) auto
  obtain m ms' where m: "ms = m # ms'" using Nil by (cases ms) auto
  show ?case using Nil us m by (cases qs) auto
next
  case (Cons r rs)
  then obtain n ns' where n: "ns = n # ns'" by (cases ns) auto
  obtain m ms' where m: "ms = m # ms'" using Cons by (cases ms) auto
  show ?case using Cons n m by (cases qs) auto
qed

text \<open>Keys of different constructors differ at the first byte.\<close>

definition key_tag :: "val \<Rightarrow> char" where
  "key_tag v = hd (groupKey v)"

lemma tags:
  "discrete a \<Longrightarrow> key_tag a = (case a of VNull \<Rightarrow> CHR ''n'' | VBool b \<Rightarrow> CHR ''b'' | VInt i \<Rightarrow> CHR ''d'' | VFloat f \<Rightarrow> CHR ''d''
    | VStr s \<Rightarrow> CHR ''s'' | VList l \<Rightarrow> CHR ''l'' | VMap m \<Rightarrow> CHR ''m'' | VNode n \<Rightarrow> CHR ''N'' | VRel r \<Rightarrow> CHR ''R''
    | VPath ns rs \<Rightarrow> CHR ''P'' | VTemp t \<Rightarrow> CHR ''T'' | VPoint p \<Rightarrow> CHR ''S'' | VVec v \<Rightarrow> CHR ''V'')"
  by (cases a) (auto simp: key_tag_def float_key_def f_isnan_def)

lemma int_key_split: "dec_int i @ CHR '';'' # s = dec_int j @ CHR '';'' # t \<Longrightarrow> i = j \<and> s = t"
  using semi_split [of "dec_int i" "dec_int j" s t] dec_int_no [OF semi_nodigit] dec_int_inj by auto

lemma kind_code_one: "\<exists>c. kind_code k = [c]"
  by (cases k) (auto simp: kind_code_def dec_int_def dec_nat.simps)

lemma kind_code_inj: "kind_code k = kind_code l \<Longrightarrow> k = l"
  by (cases k; cases l) (auto simp: kind_code_def dest: dec_int_inj)

lemma discrete_decodes: "discrete a \<Longrightarrow> discrete b \<Longrightarrow> decodes a b"
proof (induction "size a" arbitrary: a b rule: less_induct)
  case less
  have ih: "\<forall>x \<in> parts_of a. \<forall>y \<in> parts_of b. decodes x y"
    using less by (auto intro: parts_size parts_discrete)
  show ?case
    unfolding decodes_def
  proof (intro allI impI)
    fix s t assume e: "groupKey a @ s = groupKey b @ t"
    have "key_tag a = key_tag b"
      unfolding key_tag_def using e key_head by (metis hd_append list.distinct(1))
    note tag = this [unfolded tags [OF less.prems(1)] tags [OF less.prems(2)]]
    show "equals a b = TriTrue \<and> s = t"
    proof (cases "isNumber a \<or> isNumber b")
      case True
      then obtain i j where w: "whole a = Some i" "whole b = Some j"
        using less.prems tag by (cases a; cases b) (auto simp: whole_def isNumber_def)
      then have "i = j \<and> s = t"
        using e int_key_split by (simp add: whole_key [OF less.prems(1)] whole_key [OF less.prems(2)])
      then show ?thesis using whole_equals [OF less.prems w] by (simp add: triOf_def)
    next
      case nn: False
      show ?thesis
      proof (cases a)
        case (VList l)
        then obtain m where b: "b = VList m" using tag by (cases b) auto
        have "list_all2 (\<lambda>x y. equals x y = TriTrue) l m \<and> CHR '';'' # s = CHR '';'' # t"
          using e ih by (intro list_decodes) (simp_all add: VList b parts_of_def)
        then show ?thesis by (auto simp: VList b equals_simps equals_list_True dest: list_all2_lengthD)
      next
        case (VMap x)
        then obtain y where b: "b = VMap y" using tag by (cases b) auto
        have "list_all2 (\<lambda>a b. fst a = fst b \<and> equals (snd a) (snd b) = TriTrue) x y \<and> CHR '';'' # s = CHR '';'' # t"
          using e ih by (intro map_decodes) (simp_all add: VMap b parts_of_def entry_key_def [abs_def])
        then show ?thesis using less.prems equal_maps [of x y]
          by (auto simp: VMap b equals_simps dest: list_all2_lengthD)
      next
        case (VTemp u)
        then obtain v where b: "b = VTemp v" using tag by (cases b) auto
        obtain c d where cd: "kind_code (tkind u) = [c]" "kind_code (tkind v) = [d]" using kind_code_one by meson
        have "c = d" "tval_string u @ CHR '';'' # s = tval_string v @ CHR '';'' # t"
          using e by (simp_all add: VTemp b cd)
        moreover from this have "tval_string u = tval_string v \<and> s = t"
          using less.prems by (intro semi_split tval_string_semi) (simp_all add: VTemp b)
        moreover have "tkind u = tkind v" using kind_code_inj cd calculation by simp
        ultimately have "u = v \<and> s = t" using tval_string_inj [of u v] less.prems by (simp add: VTemp b)
        then show ?thesis using less.prems by (simp add: VTemp b equals_simps canonical_equal triOf_def)
      next
        case (VPath ns rs)
        then obtain ms qs where b: "b = VPath ms qs" using tag by (cases b) auto
        have "nums_key (weave ns rs) @ CHR '']'' # CHR '';'' # s = nums_key (weave ms qs) @ CHR '']'' # CHR '';'' # t"
          using e less.prems by (simp add: VPath b path_key_weave)
        from nums_decode [OF this] have "weave ns rs = weave ms qs" "s = t" by simp_all
        then show ?thesis using weave_inj less.prems by (simp add: VPath b equals_simps triOf_def)
      next
        case (VStr x)
        then obtain y where b: "b = VStr y" using tag by (cases b) auto
        have "dec_nat (length x) @ CHR '':'' # (x @ s) = dec_nat (length y) @ CHR '':'' # (y @ t)"
          using e by (simp add: VStr b)
        from digits_colon [OF this] have "x = y \<and> s = t" by auto
        then show ?thesis by (simp add: VStr b equals_simps triOf_def)
      next
        case (VNode x)
        then obtain y where b: "b = VNode y" using tag by (cases b) auto
        then show ?thesis using e int_key_split [of x s y t] by (simp add: VNode equals_simps triOf_def)
      next
        case (VRel x)
        then obtain y where b: "b = VRel y" using tag by (cases b) auto
        then show ?thesis using e int_key_split [of x s y t] by (simp add: VRel equals_simps triOf_def)
      next
        case (VBool x)
        then obtain y where b: "b = VBool y" using tag by (cases b) auto
        then show ?thesis using e by (simp add: VBool equals_simps triOf_def split: if_splits)
      qed (use nn less.prems in \<open>auto simp: isNumber_def\<close>)
    qed
  qed
qed

text \<open>On these values, one group or one distinct row is one class of equal values.\<close>

lemma groupKey_equals:
  assumes "discrete a" "discrete b"
  shows "groupKey a = groupKey b \<longleftrightarrow> equals a b = TriTrue"
  using equals_key [OF assms] discrete_decodes [OF assms] unfolding decodes_def by blast

text \<open>
  Outside these values the two part: the integer \<open>92 * 10^17\<close> and the float of the same value are equal
  and have two keys.
\<close>

lemma f_of_int_9200: "f_of_int 9200000000000000000 = Fin 9200000000000000000"
proof -
  have u: "ulp 9200000000000000000 = 1024"
  proof -
    have "ilog2 9200000000000000000 = 62"
    proof (rule ilog2_unique)
      show "pow2 62 \<le> 9200000000000000000" "9200000000000000000 < pow2 (62 + 1)" by (simp_all add: pow2_def)
    qed
    then show ?thesis by (simp add: ulp_def pow2_def)
  qed
  have "f_round 9200000000000000000 = Fin 9200000000000000000"
  proof (rule f_round_exact)
    show "\<bar>9200000000000000000\<bar> = of_int 8984375000000000 * ulp 9200000000000000000" by (simp add: u)
    show "\<bar>9200000000000000000\<bar> < pow2 1024" by (simp add: pow2_def)
  qed
  then show ?thesis by (simp add: f_of_int_def)
qed

lemma large_keys_differ:
  defines "i \<equiv> VInt 9200000000000000000" and "f \<equiv> VFloat (Fin 9200000000000000000)"
  shows "equals i f = TriTrue" "groupKey f = CHR ''d'' # f_text (Fin 9200000000000000000) @ '';''"
  by (simp_all add: i_def f_def equals_simps f_of_int_9200 f_eq_refl triOf_def float_key_def f_isnan_def)

text \<open>Equality is not transitive: two integers are equal to one float.\<close>

lemma equals_not_transitive:
  "equals (VInt (2 ^ 53)) (VFloat (Fin (2 ^ 53))) = TriTrue"
  "equals (VFloat (Fin (2 ^ 53))) (VInt (2 ^ 53 + 1)) = TriTrue"
  "equals (VInt (2 ^ 53)) (VInt (2 ^ 53 + 1)) = TriFalse"
  using f_of_int_tie by (simp_all add: equals_simps f_of_int_exact f_eq_refl triOf_def)

end
