(* ===== verification/Runtime.thy ===== *)
theory Runtime
  imports VTypes Ast GroupKeys LexerFacts
begin

text \<open>
  What evaluation works on and what can go wrong: the entities of cypher/interp/value.go, the
  outcomes of an evaluation, and the surroundings of a statement (the \<open>exec\<close> of
  cypher/interp/eval.go). A Go function that returns a value and an error gives a \<open>fault + 'a\<close>;
  an index out of range is a fault of its own, since it is a panic and not an error value.
\<close>

section \<open>Entities\<close>

record node =
  n_id :: int
  n_labels :: "string list"
  n_props :: vmap
  n_deleted :: bool

record rel =
  r_id :: int
  r_type :: string
  r_start :: int
  r_end :: int
  r_props :: vmap
  r_deleted :: bool

definition hasLabel :: "node \<Rightarrow> string \<Rightarrow> bool" where
  "hasLabel n l \<longleftrightarrow> l \<in> set (n_labels n)"

section \<open>Outcomes\<close>

datatype fault = Thrown rerror | DbError string | GoPanic string

abbreviation type_fault :: "string \<Rightarrow> fault + 'a" where "type_fault msg \<equiv> Inl (Thrown (typeErr msg))"
abbreviation arg_fault :: "string \<Rightarrow> fault + 'a" where "arg_fault msg \<equiv> Inl (Thrown (argErr msg))"
abbreviation no_support :: "string \<Rightarrow> fault + 'a" where "no_support msg \<equiv> Inl (Thrown (unsupported msg))"
abbreviation raise_err :: "string \<Rightarrow> string \<Rightarrow> string \<Rightarrow> fault + 'a" where "raise_err c k m \<equiv> Inl (Thrown (rerr c k m))"
abbreviation index_panic :: "fault + 'a" where "index_panic \<equiv> Inl (GoPanic ''index out of range'')"

definition deletedAccess :: "fault + 'a" where
  "deletedAccess = raise_err ''EntityNotFound'' ''DeletedEntityAccess'' ''the entity has been deleted in this statement''"

definition intOverflow :: "fault + 'a" where
  "intOverflow = raise_err ''ArithmeticError'' ''IntegerOverflow'' ''integer overflow''"

definition divByZero :: "fault + 'a" where
  "divByZero = raise_err ''ArithmeticError'' ''DivisionByZero'' ''/ by zero''"

text \<open>An error of a package below becomes an error of the interpreter.\<close>

definition wrap_err :: "rerror \<Rightarrow> string + 'a \<Rightarrow> fault + 'a" where
  "wrap_err e m = (case m of Inl _ \<Rightarrow> Inl (Thrown e) | Inr x \<Rightarrow> Inr x)"

section \<open>Surroundings of a statement\<close>

text \<open>
  The parts of the standard library whose tables or last bits are not code: the functions of
  \<open>math\<close>, case mapping, white space and normal forms of Unicode, and regular expressions.
\<close>

record gomath = fmath +
  m_pow :: "f64 \<Rightarrow> f64 \<Rightarrow> f64"
  m_atan2 :: "f64 \<Rightarrow> f64 \<Rightarrow> f64"
  m_fun :: "string \<Rightarrow> f64 \<Rightarrow> f64"
  m_e :: f64
  m_pi :: f64

record gotext =
  t_lower :: "string \<Rightarrow> string"
  t_upper :: "string \<Rightarrow> string"
  t_space :: "rune \<Rightarrow> bool"
  t_norm :: "string \<Rightarrow> string \<Rightarrow> string"
  t_is_norm :: "string \<Rightarrow> string \<Rightarrow> bool"
  t_regex :: "string \<Rightarrow> (string \<Rightarrow> bool) option"

text \<open>
  The graph as the statement sees it, and what it reads from outside: the clock, a random number, a
  random UUID and the time of day in milliseconds.
\<close>

record world =
  w_node :: "int \<Rightarrow> node option"
  w_rel :: "int \<Rightarrow> rel option"
  w_tenv :: tenv
  w_clock :: gtime
  w_math :: gomath
  w_text :: gotext
  w_rand :: f64
  w_uuid :: string
  w_millis :: int

text \<open>Following a pointer to an entity, and \<open>graph.node\<close>: a missing row is an error of the database.\<close>

definition the_node :: "world \<Rightarrow> int \<Rightarrow> fault + node" where
  "the_node w i = (case w_node w i of Some n \<Rightarrow> Inr n | None \<Rightarrow> Inl (DbError ''sql: no rows in result set''))"

definition the_rel :: "world \<Rightarrow> int \<Rightarrow> fault + rel" where
  "the_rel w i = (case w_rel w i of Some r \<Rightarrow> Inr r | None \<Rightarrow> Inl (DbError ''sql: no rows in result set''))"

text \<open>The property map of an entity that has not been deleted.\<close>

definition node_props :: "world \<Rightarrow> int \<Rightarrow> fault + vmap" where
  "node_props w i = bindE (the_node w i) (\<lambda>n. if n_deleted n then deletedAccess else Inr (n_props n))"

definition rel_props :: "world \<Rightarrow> int \<Rightarrow> fault + vmap" where
  "rel_props w i = bindE (the_rel w i) (\<lambda>r. if r_deleted r then deletedAccess else Inr (r_props r))"

text \<open>A row: the variables an expression sees.\<close>

type_synonym row = vmap

definition row_var :: "row \<Rightarrow> string \<Rightarrow> fault + val" where
  "row_var r x = (case map_of r x of Some v \<Rightarrow> Inr v
     | None \<Rightarrow> raise_err ''SyntaxError'' ''UndefinedVariable'' ''variable `%s` not defined'')"

section \<open>Values of other packages\<close>

text \<open>An argument of a temporal, spatial or vector constructor.\<close>

fun to_targ :: "val \<Rightarrow> targ" where
  "to_targ (VInt i) = AInt i"
| "to_targ (VFloat f) = AFloat f"
| "to_targ (VStr s) = AStr s"
| "to_targ (VTemp t) = ATemp t"
| "to_targ (VMap m) = AMap (map (\<lambda>kv. (fst kv, to_targ (snd kv))) m)"
| "to_targ v = AOther"

abbreviation to_targs :: "vmap \<Rightarrow> targs" where
  "to_targs m \<equiv> map (\<lambda>kv. (fst kv, to_targ (snd kv))) m"

fun of_tprop :: "tprop \<Rightarrow> val" where
  "of_tprop (PInt i) = VInt i"
| "of_tprop (PStr s) = VStr s"

fun of_targ :: "targ \<Rightarrow> val" where
  "of_targ (AInt i) = VInt i"
| "of_targ (AFloat f) = VFloat f"
| "of_targ (AStr s) = VStr s"
| "of_targ (ATemp t) = VTemp t"
| "of_targ (AMap m) = VMap (map (\<lambda>kv. (fst kv, of_targ (snd kv))) m)"
| "of_targ AOther = VNull"

section \<open>Facts on maps\<close>

lemma mput_keys: "set (mkeys (mput k v m)) = insert k (set (mkeys m))"
  by (induction k v m rule: mput.induct) auto

lemma mput_good: "good_map m \<Longrightarrow> good_map (mput k v m)"
proof (induction k v m rule: mput.induct)
  case (2 k v k' v' m)
  then show ?case using mput_keys [of k v m] by (auto simp: good_map_def)
qed (simp add: good_map_def)

lemma mput_lookup: "good_map m \<Longrightarrow> map_of (mput k v m) = (map_of m)(k \<mapsto> v)"
proof (induction k v m rule: mput.induct)
  case (2 k v k' v' m)
  have "k < k' \<Longrightarrow> k \<notin> set (mkeys m)" using "2.prems" by (auto simp: good_map_def)
  then show ?case using 2 by (auto simp: good_map_def fun_eq_iff)
qed simp

lemma mdel_good: "good_map m \<Longrightarrow> good_map (mdel k m)"
proof (induction m)
  case (Cons a m)
  have "set (mkeys (mdel k m)) \<subseteq> set (mkeys m)" by (auto simp: mdel_def)
  then show ?case using Cons by (cases a) (auto simp: mdel_def good_map_def)
qed (simp add: mdel_def)

lemma mdel_lookup: "map_of (mdel k m) = (map_of m)(k := None)"
  by (induction m) (auto simp: mdel_def fun_eq_iff)

lemma mget_mput: "good_map m \<Longrightarrow> mget x (mput k v m) = (if x = k then v else mget x m)"
  by (simp add: mget_def mput_lookup)

text \<open>Two maps with the same lookups are the same list: the representation is canonical.\<close>

lemma good_map_ext:
  fixes m m' :: "(string \<times> 'v) list"
  shows "good_map m \<Longrightarrow> good_map m' \<Longrightarrow> map_of m = map_of m' \<Longrightarrow> m = m'"
proof -
  assume a: "good_map m" "good_map m'" "map_of m = map_of m'"
  then have d: "distinct (mkeys m)" "distinct (mkeys m')" and s: "sorted (mkeys m)" "sorted (mkeys m')"
    by (auto simp: good_map_def strict_sorted_iff)
  have "set (mkeys m) = set (mkeys m')" using a(3) by (metis dom_map_of_conv_image_fst set_map)
  then have k: "mkeys m = mkeys m'" using sorted_distinct_set_unique [OF s(1) d(1) s(2) d(2)] by simp
  have listing: "map (\<lambda>x. (x, the (map_of n x))) (mkeys n) = n" if "distinct (mkeys n)" for n :: "(string \<times> 'v) list"
    using that by (auto simp: comp_def intro!: map_idI)
  show ?thesis using listing [OF d(1)] listing [OF d(2)] a(3) k by metis
qed

end
