(* ===== verification/Operators.thy ===== *)
theory Operators
  imports Runtime
begin

text \<open>
  The operators of cypher/interp/eval.go on values: access by key, index and range, the connectives of
  three-valued logic, arithmetic with its overflow checks, concatenation, membership, comparison, and
  the text of a float. Temporal arithmetic is cypher/interp/temporalfn.go.
\<close>

section \<open>Property access, indices and ranges\<close>

definition val_property :: "world \<Rightarrow> val \<Rightarrow> string \<Rightarrow> fault + val" where
  "val_property w v key = (case v of
       VNull \<Rightarrow> Inr VNull
     | VNode i \<Rightarrow> bindE (node_props w i) (\<lambda>m. Inr (mget key m))
     | VRel i \<Rightarrow> bindE (rel_props w i) (\<lambda>m. Inr (mget key m))
     | VMap m \<Rightarrow> Inr (mget key m)
     | VTemp t \<Rightarrow> (case tval_property t key of Some p \<Rightarrow> Inr (of_tprop p) | None \<Rightarrow> arg_fault ''%s has no component `%s`'')
     | VPoint p \<Rightarrow> (case point_property p key of Some x \<Rightarrow> Inr (of_targ x) | None \<Rightarrow> arg_fault ''a point has no component `%s`'')
     | _ \<Rightarrow> type_fault ''cannot access property `%s` of %s'')"

definition non_string_key :: "string \<Rightarrow> fault + 'a" where
  "non_string_key msg = raise_err ''TypeError'' ''MapElementAccessByNonString'' msg"

definition subscript_of :: "world \<Rightarrow> val \<Rightarrow> val \<Rightarrow> fault + val" where
  "subscript_of w v ix = (case v of
       VNull \<Rightarrow> Inr VNull
     | VList x \<Rightarrow> (case ix of
           VNull \<Rightarrow> Inr VNull
         | VInt i0 \<Rightarrow>
             let n = int (length x); i = (if i0 < 0 then w64 (i0 + n) else i0) in
             if i < 0 \<or> n \<le> i then Inr VNull else Inr (x ! nat i)
         | _ \<Rightarrow> type_fault ''list index must be an integer, got %s'')
     | VMap x \<Rightarrow> (case ix of VNull \<Rightarrow> Inr VNull | VStr k \<Rightarrow> Inr (mget k x)
         | _ \<Rightarrow> non_string_key ''map keys must be strings, got %s'')
     | VNode _ \<Rightarrow> (case ix of VNull \<Rightarrow> Inr VNull | VStr k \<Rightarrow> val_property w v k
         | _ \<Rightarrow> non_string_key ''property keys must be strings, got %s'')
     | VRel _ \<Rightarrow> (case ix of VNull \<Rightarrow> Inr VNull | VStr k \<Rightarrow> val_property w v k
         | _ \<Rightarrow> non_string_key ''property keys must be strings, got %s'')
     | _ \<Rightarrow> type_fault ''cannot index into %s'')"

definition clamp :: "int \<Rightarrow> int \<Rightarrow> int \<Rightarrow> int" where
  "clamp v lo hi = (if v < lo then lo else if hi < v then hi else v)"

text \<open>A bound that is not written is absent, not null.\<close>

definition slice_bound :: "val option \<Rightarrow> int \<Rightarrow> fault + int" where
  "slice_bound b d = (case b of None \<Rightarrow> Inr d | Some (VInt i) \<Rightarrow> Inr i | Some _ \<Rightarrow> type_fault ''slice bounds must be integers'')"

definition slice_of :: "val \<Rightarrow> val option \<Rightarrow> val option \<Rightarrow> fault + val" where
  "slice_of v from to =
    (if v = VNull \<or> from = Some VNull \<or> to = Some VNull then Inr VNull
     else case v of
       VList l \<Rightarrow>
         let n = int (length l) in
         bindE (slice_bound from 0) (\<lambda>lo. bindE (slice_bound to n) (\<lambda>hi.
           let lo = (if lo < 0 then w64 (lo + n) else lo);
               hi = (if hi < 0 then w64 (hi + n) else hi);
               lo = clamp lo 0 n; hi = clamp hi 0 n
           in if hi \<le> lo then Inr (VList []) else Inr (VList (drop (nat lo) (take (nat hi) l)))))
     | _ \<Rightarrow> type_fault ''cannot slice %s'')"

section \<open>Logic\<close>

definition asTri :: "val \<Rightarrow> string \<Rightarrow> fault + tri" where
  "asTri v op = (case v of VNull \<Rightarrow> Inr TriNull | VBool b \<Rightarrow> Inr (triOf b) | _ \<Rightarrow> type_fault ''%s expects a boolean, got %s'')"

text \<open>What is left to do once the left operand of AND or OR is known: an answer, or the right operand's turn.\<close>

definition logic_left :: "bool \<Rightarrow> tri \<Rightarrow> val option" where
  "logic_left isAnd lt =
    (if isAnd \<and> lt = TriFalse then Some (VBool False) else if \<not> isAnd \<and> lt = TriTrue then Some (VBool True) else None)"

definition logic_both :: "bool \<Rightarrow> tri \<Rightarrow> tri \<Rightarrow> val" where
  "logic_both isAnd lt rt =
    (if isAnd then
       (if rt = TriFalse then VBool False else if lt = TriNull \<or> rt = TriNull then VNull else VBool True)
     else
       (if rt = TriTrue then VBool True else if lt = TriNull \<or> rt = TriNull then VNull else VBool False))"

definition xor_of :: "val \<Rightarrow> val \<Rightarrow> fault + val" where
  "xor_of l r = bindE (asTri l ''XOR'') (\<lambda>lt. bindE (asTri r ''XOR'') (\<lambda>rt.
     Inr (if lt = TriNull \<or> rt = TriNull then VNull else VBool (lt \<noteq> rt))))"

definition unary_of :: "unary_op \<Rightarrow> val \<Rightarrow> fault + val" where
  "unary_of op v = (case op of
       OpNot \<Rightarrow> bindE (asTri v ''NOT'') (\<lambda>t. Inr (case t of TriTrue \<Rightarrow> VBool False | TriFalse \<Rightarrow> VBool True | TriNull \<Rightarrow> VNull))
     | OpPlus \<Rightarrow> if v = VNull \<or> isNumber v then Inr v else type_fault ''unary + expects a number, got %s''
     | OpMinus \<Rightarrow> (case v of VNull \<Rightarrow> Inr VNull
         | VInt x \<Rightarrow> if x = - (2 ^ 63) then intOverflow else Inr (VInt (w64 (- x)))
         | VFloat x \<Rightarrow> Inr (VFloat (f_neg x))
         | _ \<Rightarrow> type_fault ''unary - expects a number, got %s''))"

section \<open>The text of a float\<close>

text \<open>The digits of the shortest decimal of a positive x, and where its point goes.\<close>

definition float_digits :: "rat \<Rightarrow> string \<times> int" where
  "float_digits x = (case shortest x of (m, e) \<Rightarrow> let all = dec_nat (nat m) in (strip0 all, int (length all) + e))"

text \<open>\<open>strconv.FormatFloat(x, 'f', -1, 64)\<close> for a positive x.\<close>

definition fixed_text :: "rat \<Rightarrow> string" where
  "fixed_text x = (case float_digits x of (ds, dp) \<Rightarrow>
     if dp \<le> 0 then ''0.'' @ replicate (nat (- dp)) (CHR ''0'') @ ds
     else if int (length ds) \<le> dp then ds @ replicate (nat dp - length ds) (CHR ''0'')
     else take (nat dp) ds @ ''.'' @ drop (nat dp) ds)"

text \<open>\<open>strconv.FormatFloat(x, 'E', -1, 64)\<close>, cut at the E.\<close>

definition mantissa_text :: "rat \<Rightarrow> string" where
  "mantissa_text x = (case float_digits x of (ds, dp) \<Rightarrow> if length ds \<le> 1 then ds else hd ds # ''.'' @ tl ds)"

definition exponent_text :: "rat \<Rightarrow> string" where
  "exponent_text x = (let ex = snd (float_digits x) - 1 in (if ex < 0 then ''-'' else ''+'') @ pad0 2 (nat \<bar>ex\<bar>))"

definition with_point :: "string \<Rightarrow> string" where
  "with_point s = (if CHR ''.'' \<in> set s then s else s @ ''.0'')"

definition trim_exponent :: "string \<Rightarrow> string" where
  "trim_exponent e0 =
    (let e = (if prefix ''+'' e0 then tl e0 else e0); neg = prefix ''-'' e;
         ds = dropWhile (\<lambda>c. c = CHR ''0'') (if neg then tl e else e);
         ds = (if ds = [] then ''0'' else ds)
     in if neg then CHR ''-'' # ds else ds)"

definition positive_text :: "rat \<Rightarrow> string" where
  "positive_text x =
    (if f_le (f_round (1 / 1000)) (Fin x) \<and> f_less (Fin x) (Fin 10000000) then with_point (fixed_text x)
     else with_point (mantissa_text x) @ ''E'' @ trim_exponent (exponent_text x))"

fun formatFloat :: "f64 \<Rightarrow> string" where
  "formatFloat NaN = ''NaN''"
| "formatFloat PInf = ''Infinity''"
| "formatFloat NInf = ''-Infinity''"
| "formatFloat NZero = ''-0.0''"
| "formatFloat (Fin x) = (if x = 0 then ''0.0'' else if x < 0 then CHR ''-'' # positive_text (- x) else positive_text x)"

definition bool_text :: "bool \<Rightarrow> string" where
  "bool_text b = (if b then ''true'' else ''false'')"

section \<open>Arithmetic\<close>

text \<open>\<open>math.Mod\<close> is exact; its result has the sign of x.\<close>

definition f_mod :: "f64 \<Rightarrow> f64 \<Rightarrow> f64" where
  "f_mod x y =
    (if f_isnan x \<or> f_isnan y \<or> f_isinf x \<or> f_iszero y then NaN
     else if f_isinf y \<or> f_iszero x then x
     else let a = \<bar>f_rat x\<bar>; b = \<bar>f_rat y\<bar>; m = a - of_int \<lfloor>a / b\<rfloor> * b in
       if m = 0 then f_zero (f_signbit x) else Fin (if f_signbit x then - m else m))"

fun is_temporal :: "val \<Rightarrow> bool" where
  "is_temporal (VTemp t) = True"
| "is_temporal v = False"

definition temporal_result :: "terr + tval \<Rightarrow> fault + val" where
  "temporal_result m = (case m of Inl _ \<Rightarrow> raise_err ''ArithmeticError'' ''InvalidArgumentValue'' ''%v'' | Inr t \<Rightarrow> Inr (VTemp t))"

text \<open>\<open>temporalArith\<close>: \<open>None\<close> when no operand is temporal.\<close>

definition cannot_apply :: "fault + 'a" where
  "cannot_apply = type_fault ''cannot apply %s to %s and %s''"

definition scale_by :: "binary_op \<Rightarrow> duration \<Rightarrow> val \<Rightarrow> fault + val" where
  "scale_by op d r =
    (if \<not> isNumber r then cannot_apply
     else if op = OpMul then temporal_result (bindE (dur_scale d (toFloat r)) (\<lambda>d. Inr (TDuration d)))
     else case dur_div d (toFloat r) of
         Some (Inr q) \<Rightarrow> Inr (VTemp (TDuration q))
       | _ \<Rightarrow> raise_err ''ArithmeticError'' ''DivisionByZero'' ''%v'')"

definition temporalArith :: "binary_op \<Rightarrow> val \<Rightarrow> val \<Rightarrow> (fault + val) option" where
  "temporalArith op l r =
    (if \<not> is_temporal l \<and> \<not> is_temporal r then None
     else Some (
       if op = OpAdd then (case (l, r) of (VTemp a, VTemp b) \<Rightarrow> temporal_result (tval_add a b) | _ \<Rightarrow> cannot_apply)
       else if op = OpSub then (case (l, r) of (VTemp a, VTemp b) \<Rightarrow> temporal_result (tval_sub a b) | _ \<Rightarrow> cannot_apply)
       else if op = OpMul \<or> op = OpDiv then
         (case l of
            VTemp (TDuration d) \<Rightarrow>
              if \<not> is_temporal r then scale_by op d r else cannot_apply
          | _ \<Rightarrow>
              (case r of
                 VTemp (TDuration d) \<Rightarrow> if op = OpMul \<and> isNumber l then scale_by op d l else cannot_apply
               | _ \<Rightarrow> cannot_apply))
       else cannot_apply))"

definition int_sum :: "int \<Rightarrow> int \<Rightarrow> fault + int" where
  "int_sum x y = (let s = w64 (x + y) in if (0 < x \<and> 0 < y \<and> s < 0) \<or> (x < 0 \<and> y < 0 \<and> 0 \<le> s) then intOverflow else Inr s)"

definition add_values :: "val \<Rightarrow> val \<Rightarrow> fault + val" where
  "add_values l r =
    (if l = VNull \<or> r = VNull then Inr VNull
     else case temporalArith OpAdd l r of
       Some res \<Rightarrow> res
     | None \<Rightarrow>
       (case (l, r) of
          (VInt x, VInt y) \<Rightarrow> bindE (int_sum x y) (\<lambda>s. Inr (VInt s))
        | (VInt x, VFloat y) \<Rightarrow> Inr (VFloat (f_add (f_of_int x) y))
        | (VInt x, VStr y) \<Rightarrow> Inr (VStr (dec_int x @ y))
        | (VFloat x, VInt y) \<Rightarrow> Inr (VFloat (f_add x (f_of_int y)))
        | (VFloat x, VFloat y) \<Rightarrow> Inr (VFloat (f_add x y))
        | (VFloat x, VStr y) \<Rightarrow> Inr (VStr (formatFloat x @ y))
        | (VStr x, VStr y) \<Rightarrow> Inr (VStr (x @ y))
        | (VStr x, VInt y) \<Rightarrow> Inr (VStr (x @ dec_int y))
        | (VStr x, VFloat y) \<Rightarrow> Inr (VStr (x @ formatFloat y))
        | (VStr x, VBool y) \<Rightarrow> Inr (VStr (x @ bool_text y))
        | (VBool x, VStr y) \<Rightarrow> Inr (VStr (bool_text x @ y))
        | (VList x, VList y) \<Rightarrow> Inr (VList (x @ y))
        | (VList x, _) \<Rightarrow> Inr (VList (x @ [r]))
        | (_, VList y) \<Rightarrow> Inr (VList (l # y))
        | _ \<Rightarrow> type_fault ''cannot add %s and %s''))"

text \<open>Integers: each operation computes at 64 bits and then looks for the signs of an overflow.\<close>

definition int_diff :: "int \<Rightarrow> int \<Rightarrow> fault + int" where
  "int_diff x y = (let d = w64 (x - y) in if (0 \<le> x \<and> y < 0 \<and> d < 0) \<or> (x < 0 \<and> 0 < y \<and> 0 \<le> d) then intOverflow else Inr d)"

definition int_product :: "int \<Rightarrow> int \<Rightarrow> fault + int" where
  "int_product x y =
    (if x = 0 \<or> y = 0 then Inr 0
     else let p = w64 (x * y) in
       if w64 (p sdiv y) \<noteq> x \<or> (x = - (2 ^ 63) \<and> y = -1) \<or> (y = - (2 ^ 63) \<and> x = -1) then intOverflow else Inr p)"

definition int_quotient :: "int \<Rightarrow> int \<Rightarrow> fault + int" where
  "int_quotient x y =
    (if y = 0 then divByZero else if x = - (2 ^ 63) \<and> y = -1 then intOverflow else Inr (x sdiv y))"

definition int_remainder :: "int \<Rightarrow> int \<Rightarrow> fault + int" where
  "int_remainder x y = (if y = 0 then divByZero else if y = -1 then Inr 0 else Inr (x smod y))"

definition float_op :: "gomath \<Rightarrow> binary_op \<Rightarrow> f64 \<Rightarrow> f64 \<Rightarrow> fault + val" where
  "float_op g op x y = (case op of
       OpSub \<Rightarrow> Inr (VFloat (f_sub x y)) | OpMul \<Rightarrow> Inr (VFloat (f_mul x y)) | OpDiv \<Rightarrow> Inr (VFloat (f_div x y))
     | OpMod \<Rightarrow> Inr (VFloat (f_mod x y)) | OpPow \<Rightarrow> Inr (VFloat (m_pow g x y))
     | _ \<Rightarrow> no_support ''operator %s'')"

definition arith :: "gomath \<Rightarrow> binary_op \<Rightarrow> val \<Rightarrow> val \<Rightarrow> fault + val" where
  "arith g op l r =
    (if l = VNull \<or> r = VNull then Inr VNull
     else case temporalArith op l r of
       Some res \<Rightarrow> res
     | None \<Rightarrow>
       if \<not> isNumber l \<or> \<not> isNumber r then type_fault ''operator %s expects numbers, got %s and %s''
       else case (l, r, op) of
           (VInt x, VInt y, OpSub) \<Rightarrow> bindE (int_diff x y) (\<lambda>d. Inr (VInt d))
         | (VInt x, VInt y, OpMul) \<Rightarrow> bindE (int_product x y) (\<lambda>p. Inr (VInt p))
         | (VInt x, VInt y, OpDiv) \<Rightarrow> bindE (int_quotient x y) (\<lambda>q. Inr (VInt q))
         | (VInt x, VInt y, OpMod) \<Rightarrow> bindE (int_remainder x y) (\<lambda>m. Inr (VInt m))
         | _ \<Rightarrow> float_op g op (toFloat l) (toFloat r))"

section \<open>Text, membership and comparison\<close>

definition concat_values :: "val \<Rightarrow> val \<Rightarrow> fault + val" where
  "concat_values l r = (case (l, r) of
       (VNull, _) \<Rightarrow> Inr VNull | (_, VNull) \<Rightarrow> Inr VNull
     | (VStr x, VStr y) \<Rightarrow> Inr (VStr (x @ y))
     | (VList x, VList y) \<Rightarrow> Inr (VList (x @ y))
     | _ \<Rightarrow> type_fault ''|| expects two strings or two lists'')"

definition text_test :: "binary_op \<Rightarrow> val \<Rightarrow> val \<Rightarrow> val" where
  "text_test op l r = (case (l, r) of
       (VStr x, VStr y) \<Rightarrow> VBool (if op = OpStartsWith then prefix y x else if op = OpEndsWith then suffix y x else sublist y x)
     | _ \<Rightarrow> VNull)"

definition regex_test :: "gotext \<Rightarrow> val \<Rightarrow> val \<Rightarrow> fault + val" where
  "regex_test t l r = (case (l, r) of
       (VNull, _) \<Rightarrow> Inr VNull | (_, VNull) \<Rightarrow> Inr VNull
     | (VStr x, VStr y) \<Rightarrow>
         (case t_regex t (''^(?:'' @ y @ '')$'') of
            Some matches \<Rightarrow> Inr (VBool (matches x))
          | None \<Rightarrow> raise_err ''ArgumentError'' ''InvalidArgumentValue'' ''invalid regular expression %q: %v'')
     | _ \<Rightarrow> type_fault ''=~ expects strings'')"

definition in_list :: "val \<Rightarrow> val list \<Rightarrow> val" where
  "in_list l list =
    (if TriTrue \<in> set (map (equals l) list) then VBool True
     else if TriNull \<in> set (map (equals l) list) then VNull else VBool False)"

definition in_values :: "val \<Rightarrow> val \<Rightarrow> fault + val" where
  "in_values l r = (case r of VNull \<Rightarrow> Inr VNull | VList list \<Rightarrow> Inr (in_list l list) | _ \<Rightarrow> type_fault ''IN expects a list, got %s'')"

definition isNaNValue :: "val \<Rightarrow> bool" where
  "isNaNValue v = (case v of VFloat f \<Rightarrow> f_isnan f | _ \<Rightarrow> False)"

definition tri_not :: "tri \<Rightarrow> tri" where
  "tri_not t = (case t of TriTrue \<Rightarrow> TriFalse | TriFalse \<Rightarrow> TriTrue | TriNull \<Rightarrow> TriNull)"

definition compareOp :: "compare_op \<Rightarrow> val \<Rightarrow> val \<Rightarrow> tri" where
  "compareOp op a b =
    (if op = CmpEq then equals a b
     else if op = CmpNeq then tri_not (equals a b)
     else if (isNaNValue a \<and> isNumber b) \<or> (isNaNValue b \<and> isNumber a) then TriFalse
     else case compare a b of
         None \<Rightarrow> TriNull
       | Some c \<Rightarrow> triOf (case op of CmpLt \<Rightarrow> c < 0 | CmpLte \<Rightarrow> c \<le> 0 | CmpGt \<Rightarrow> 0 < c | _ \<Rightarrow> 0 \<le> c))"

text \<open>A chain: the first comparison that is false decides it.\<close>

fun chain :: "tri \<Rightarrow> compare_op list \<Rightarrow> val list \<Rightarrow> val" where
  "chain res (op # ops) (a # b # vs) =
    (case compareOp op a b of
       TriFalse \<Rightarrow> VBool False
     | TriNull \<Rightarrow> chain TriNull ops (b # vs)
     | TriTrue \<Rightarrow> chain res ops (b # vs))"
| "chain res ops vs = tri_value res"

definition binary_of :: "world \<Rightarrow> binary_op \<Rightarrow> val \<Rightarrow> val \<Rightarrow> fault + val" where
  "binary_of w op l r = (case op of
       OpXor \<Rightarrow> xor_of l r
     | OpAdd \<Rightarrow> add_values l r
     | OpConcat \<Rightarrow> concat_values l r
     | OpIn \<Rightarrow> in_values l r
     | OpStartsWith \<Rightarrow> Inr (text_test op l r) | OpEndsWith \<Rightarrow> Inr (text_test op l r) | OpContains \<Rightarrow> Inr (text_test op l r)
     | OpRegexMatch \<Rightarrow> regex_test (w_text w) l r
     | _ \<Rightarrow> arith (w_math w) op l r)"

end
