(* ===== verification/Strconv.thy ===== *)
theory Strconv
  imports Operators
begin

text \<open>
  What the interpreter uses of \<open>strconv\<close> to read numbers, and that the texts it writes are read back:
  the shortest decimal of a float has at most 17 digits and rounds to the float.
\<close>

section \<open>Rounding near a float\<close>

lemma round_even_near: "\<bar>y - of_int k\<bar> < 1 / 2 \<Longrightarrow> round_even y = k"
proof -
  assume a: "\<bar>y - of_int k\<bar> < 1 / 2"
  show ?thesis
  proof (cases "of_int k \<le> y")
    case True
    then have "\<lfloor>y\<rfloor> = k" using a by (intro floor_unique) linarith+
    moreover have "y - of_int k < 1 / 2" using a by linarith
    ultimately show ?thesis by (simp add: round_even_def Let_def)
  next
    case False
    then have "\<lfloor>y\<rfloor> = k - 1" using a by (intro floor_unique) auto
    moreover have "1 / 2 < y - of_int (k - 1)" using a False by simp
    ultimately show ?thesis unfolding round_even_def Let_def by simp
  qed
qed

lemma f_round_by:
  assumes "0 < d" "0 < k" "x = of_int k * ulp d" "\<bar>d - x\<bar> < ulp d / 2" "x < pow2 1024"
  shows "f_round d = Fin x"
proof -
  have u: "0 < ulp d" by simp
  have "d / ulp d - of_int k = (d - x) / ulp d" using less_imp_neq [OF u] by (simp add: assms(3) diff_divide_distrib)
  then have "\<bar>d / ulp d - of_int k\<bar> = \<bar>d - x\<bar> / ulp d" using u by (simp add: abs_divide abs_of_pos del: ulp_pos)
  moreover have "\<bar>d - x\<bar> / ulp d < 1 / 2" using assms(4) u by (simp add: pos_divide_less_eq)
  ultimately have "round_even (d / ulp d) = k" by (intro round_even_near) simp
  then have "round_even (\<bar>d\<bar> / ulp d) = k" using assms(1) by simp
  then show ?thesis using assms(1,2,5) unfolding f_round_def by (auto simp: Let_def assms(3) [symmetric])
qed

text \<open>The positive floats.\<close>

definition is_pos_float :: "rat \<Rightarrow> bool" where
  "is_pos_float x \<longleftrightarrow> 0 < x \<and> f_round x = Fin x"

lemma pos_float_parts:
  assumes "is_pos_float x"
  obtains k where "0 < k" "x = of_int k * ulp x" "x < pow2 1024"
proof -
  define m where "m = round_even (\<bar>x\<bar> / ulp x)"
  have x: "0 < x" "f_round x = Fin x" using assms by (simp_all add: is_pos_float_def)
  then have "x = of_int m * ulp x" "x < pow2 1024"
    unfolding f_round_def m_def [symmetric] by (auto simp: Let_def split: if_splits)
  moreover have "0 < m" using calculation(1) x ulp_pos [of x] by (metis of_int_0_less_iff zero_less_mult_pos2)
  ultimately show ?thesis using that by blast
qed

lemma f_round_near:
  assumes "is_pos_float x" "\<bar>d - x\<bar> < x / 2 ^ 54"
  shows "f_round d = Fin x"
proof -
  obtain k where k: "0 < k" "x = of_int k * ulp x" "x < pow2 1024" using assms(1) by (rule pos_float_parts)
  have x: "0 < x" using assms(1) by (simp add: is_pos_float_def)
  define e j where "e = ilog2 x" and "j = max (e - 52) (- 1074)"
  have u: "ulp x = pow2 j" using x by (simp add: ulp_def e_def j_def)
  have b: "pow2 e \<le> x" "x < pow2 (e + 1)" using ilog2_bounds [OF x] by (simp_all add: e_def)
  have k1: "1 \<le> (of_int k :: rat)" using k(1) by simp
  have ux: "pow2 j \<le> x" using k(2) k1 mult_right_mono [OF k1, of "pow2 j"] by (simp add: u less_imp_le)
  have je: "j \<le> e" using pow2_less_iff [of j "e + 1"] ux b(2) by linarith
  then obtain n where n: "e = j + int n" using zle_iff_zadd by auto
  then have pe: "pow2 e = 2 ^ n * pow2 j" by (simp add: pow2_add_nat)
  have pe1: "pow2 (e + 1) = 2 ^ Suc n * pow2 j" using pow2_Suc [of e] by (simp add: pe)
  have p54: "pow2 (e + 1) / 2 ^ 54 \<le> pow2 j / 2"
  proof -
    have "pow2 (e + 1) = pow2 ((e - 53) + int 54)" by (rule arg_cong [of _ _ pow2]) simp
    then have "pow2 (e + 1) / 2 ^ 54 = pow2 (e - 53)" by (simp only: pow2_add_nat) simp
    also have "\<dots> \<le> pow2 (j - 1)" by (rule pow2_mono) (simp add: j_def)
    also have "\<dots> = pow2 j / 2" using pow2_Suc [of "j - 1"] by simp
    finally show ?thesis .
  qed
  have near: "\<bar>d - x\<bar> < pow2 j / 2" 
  proof -
    have "x / 2 ^ 54 < pow2 (e + 1) / 2 ^ 54" using b(2) by (intro divide_strict_right_mono) simp_all
    then show ?thesis using assms(2) p54 by linarith
  qed
  have d: "0 < d"
  proof -
    have "x / 2 ^ 54 < x" using x by simp
    then show ?thesis using assms(2) by linarith
  qed
  have pj: "0 < pow2 j" by simp
  have "of_int k < (2 ^ Suc n :: rat)" using b(2) unfolding k(2) [unfolded u] pe1 by (simp add: u)
  then have "k < 2 ^ Suc n" by (metis of_int_less_iff of_int_numeral of_int_power)
  then have "k + 1 \<le> 2 ^ Suc n" by simp
  then have "of_int (k + 1) \<le> (2 ^ Suc n :: rat)" by (metis of_int_le_iff of_int_numeral of_int_power)
  then have "of_int (k + 1) * pow2 j \<le> pow2 (e + 1)" unfolding pe1 using pj by (intro mult_right_mono) (auto simp: less_imp_le)
  then have "x + pow2 j \<le> pow2 (e + 1)" using k(2) by (simp add: u algebra_simps)
  then have hi: "d < pow2 (e + 1)" using near pj by linarith
  show ?thesis
  proof (cases "pow2 e \<le> d")
    case True
    have "ilog2 d = e" by (rule ilog2_unique [OF True hi])
    then have "ulp d = pow2 j" using d by (simp add: ulp_def j_def)
    then show ?thesis using near k u by (intro f_round_by [OF d k(1)]) simp_all
  next
    case False
    have "2 ^ n \<le> k"
    proof -
      have "2 ^ n * pow2 j \<le> of_int k * pow2 j" using b(1) k(2) pe u by simp
      then have "(2 ^ n :: rat) \<le> of_int k" using pj by (simp add: mult_le_cancel_right)
      then show ?thesis by (metis of_int_le_iff of_int_numeral of_int_power)
    qed
    moreover have "k < 2 ^ n + 1"
    proof -
      have "x < pow2 e + pow2 j / 2" using near False by linarith
      then have "of_int k * pow2 j < (2 ^ n + 1) * pow2 j" using k(2) [unfolded u] pe pj unfolding distrib_right by linarith
      then have "of_int k < (2 ^ n + 1 :: rat)" using pj by (simp add: mult_less_cancel_right)
      then have "of_int k < (of_int (2 ^ n + 1) :: rat)" by simp
      then show ?thesis by (simp only: of_int_less_iff)
    qed
    ultimately have xe: "x = pow2 e" using k(2) pe u by simp
    have d2: "\<bar>d - x\<bar> < pow2 (e - 54)"
    proof -
      have "pow2 ((e - 54) + int 54) / 2 ^ 54 = pow2 (e - 54)" by (simp only: pow2_add_nat) simp
      then show ?thesis using assms(2) xe by simp
    qed
    have "pow2 (e - 54) \<le> pow2 (e - 1)" by (rule pow2_mono) simp
    moreover have "pow2 e = 2 * pow2 (e - 1)" using pow2_Suc [of "e - 1"] by simp
    ultimately have "pow2 (e - 1) \<le> d" using d2 xe by linarith
    then have l: "ilog2 d = e - 1" using False by (intro ilog2_unique) simp_all
    define i where "i = max (e - 53) (- 1074)"
    have ud: "ulp d = pow2 i" using d l by (simp add: ulp_def i_def)
    have ie: "i \<le> e" using je by (auto simp: i_def j_def)
    then obtain p where p: "e = i + int p" using zle_iff_zadd by auto
    have xi: "x = of_int (2 ^ p) * ulp d" unfolding xe ud p by (simp add: pow2_add_nat)
    have "pow2 (e - 54) \<le> pow2 (i - 1)" by (rule pow2_mono) (simp add: i_def)
    then have "\<bar>d - x\<bar> < ulp d / 2" using d2 pow2_Suc [of "i - 1"] unfolding ud by simp
    then show ?thesis using xi k(3) by (intro f_round_by [OF d _ xi]) simp_all
  qed
qed

section \<open>The shortest decimal rounds to the float\<close>

lemma dec_nat_lower: "0 < n \<Longrightarrow> 10 ^ (length (dec_nat n) - 1) \<le> n"
proof (induction n rule: dec_nat.induct)
  case (1 n)
  show ?case
  proof (cases "n < 10")
    case True
    then show ?thesis using 1 by (simp add: dec_nat.simps)
  next
    case False
    then have ih: "10 ^ (length (dec_nat (n div 10)) - 1) \<le> n div 10" using 1 by simp
    have l: "length (dec_nat n) - 1 = Suc (length (dec_nat (n div 10)) - 1)"
      using False by (subst dec_nat.simps) simp
    have "10 * 10 ^ (length (dec_nat (n div 10)) - 1) \<le> 10 * (n div 10)" using ih by simp
    also have "\<dots> \<le> n" by simp
    finally show ?thesis unfolding l power_Suc .
  qed
qed

lemma dec_nat_upper: "n < 10 ^ length (dec_nat n)"
  using dec_val_less [OF dec_nat_digits, of n] by simp

lemma pow10_pos [simp]: "0 < pow10 e"
  by (simp add: pow10_def)

lemma pow10_add: "pow10 (a + b) = pow10 a * pow10 b"
proof -
  have p: "pow10 i = (10 :: rat) powi i" for i by (auto simp: pow10_def power_int_def inverse_eq_divide power_divide)
  show ?thesis unfolding p by (rule power_int_add) simp
qed

lemma pow10_nat [simp]: "pow10 (int n) = 10 ^ n"
  by (simp add: pow10_def)

lemma pow10_neg: "pow10 (- e) = 1 / pow10 e"
  using pow10_add [of e "- e"] pow10_pos [of e] by (simp add: pow10_def field_simps split: if_splits)

lemma ilog10_le: "0 < x \<Longrightarrow> pow10 (ilog10 x) \<le> x"
proof -
  assume x: "0 < x"
  show ?thesis
  proof (cases "1 \<le> x")
    case True
    define n where "n = nat \<lfloor>x\<rfloor>"
    have f: "1 \<le> \<lfloor>x\<rfloor>" using True by (simp add: le_floor_iff)
    then have n: "0 < n" "int n = \<lfloor>x\<rfloor>" by (simp_all add: n_def)
    have "ilog10 x = int (length (dec_nat n) - 1)" using True dec_nat_nonempty [of n] unfolding ilog10_def n_def [symmetric]
      by (simp add: of_nat_diff Suc_le_eq)
    then have "pow10 (ilog10 x) = of_nat (10 ^ (length (dec_nat n) - 1))" by simp
    also have "\<dots> \<le> of_nat n" using dec_nat_lower [OF n(1)] by (simp only: of_nat_le_iff)
    also have "\<dots> = of_int \<lfloor>x\<rfloor>" using n(2) by (metis of_int_of_nat_eq)
    also have "\<dots> \<le> x" by (rule of_int_floor_le)
    finally show ?thesis .
  next
    case False
    define n where "n = nat (\<lceil>1 / x\<rceil> - 1)"
    have "1 < 1 / x" using False x by simp
    then have "0 \<le> \<lceil>1 / x\<rceil> - 1" by linarith
    then have n: "int n = \<lceil>1 / x\<rceil> - 1" by (simp add: n_def)
    have "1 / x \<le> of_int \<lceil>1 / x\<rceil>" by (rule le_of_int_ceiling)
    also have "\<dots> = of_nat (Suc n)" using n by (metis add.commute add_diff_cancel_left' diff_add_cancel of_int_of_nat_eq of_nat_Suc)
    also have "\<dots> \<le> of_nat (10 ^ length (dec_nat n))" using dec_nat_upper [of n] by (simp only: of_nat_le_iff Suc_le_eq)
    finally have "1 / x \<le> 10 ^ length (dec_nat n)" by simp
    then have "1 / 10 ^ length (dec_nat n) \<le> x" using x by (simp add: field_simps)
    moreover have "pow10 (ilog10 x) = 1 / 10 ^ length (dec_nat n)"
      using False pow10_neg [of "int (length (dec_nat n))"] unfolding ilog10_def n_def [symmetric] by simp
    ultimately show ?thesis by simp
  qed
qed

text \<open>With 17 digits, the nearer of the two decimals around x rounds to x.\<close>

lemma digits_at_17:
  assumes "is_pos_float x"
  shows "digits_at x 17 \<noteq> None"
proof -
  define e p where "e = ilog10 x - int 17 + 1" and "p = pow10 e"
  define m where "m = \<lfloor>x / p\<rfloor>"
  have x: "0 < x" using assms by (simp add: is_pos_float_def)
  have p0: "0 < p" by (simp add: p_def)
  have "pow10 (ilog10 x) = pow10 e * pow10 (int 16)" unfolding pow10_add [symmetric] by (simp add: e_def)
  then have "p * 10 ^ 16 \<le> x" using ilog10_le [OF x] unfolding pow10_nat by (simp add: p_def)
  then have half: "p / 2 < x / 2 ^ 54" using x by simp
  have lo: "of_int m * p \<le> x" using p0 floor_divide_lower [OF p0, of x] by (simp add: m_def)
  have hi: "x < (of_int m + 1) * p" using p0 floor_divide_upper [OF p0, of x] by (simp add: m_def)
  have ok: "f_round (of_int k * p) = Fin x" if "\<bar>of_int k * p - x\<bar> \<le> p / 2" for k
    using f_round_near [OF assms] that half by (meson order_le_less_trans)
  have "f_round (of_int m * p) = Fin x \<or> f_round (of_int (m + 1) * p) = Fin x"
  proof (cases "x - of_int m * p \<le> p / 2")
    case True
    then show ?thesis using lo by (intro disjI1 ok) simp
  next
    case False
    then show ?thesis using hi lo by (intro disjI2 ok) (simp add: algebra_simps abs_if)
  qed
  then show ?thesis unfolding digits_at_def Let_def e_def [symmetric] p_def [symmetric] m_def [symmetric] by auto
qed

lemma digits_at_ok: "digits_at x n = Some (m, e) \<Longrightarrow> f_round (of_int m * pow10 e) = Fin x"
  by (auto simp: digits_at_def Let_def split: if_splits)

lemma digits_at_nonneg: "0 < x \<Longrightarrow> digits_at x n = Some (m, e) \<Longrightarrow> 0 \<le> m"
proof -
  assume a: "0 < x" "digits_at x n = Some (m, e)"
  then have "0 \<le> \<lfloor>x / pow10 (ilog10 x - int n + 1)\<rfloor>" by (simp add: less_imp_le)
  then show ?thesis using a(2) by (auto simp: digits_at_def Let_def split: if_splits)
qed

lemma shortest_from_ok:
  "is_pos_float x \<Longrightarrow> n + Suc k = 18 \<Longrightarrow> \<exists>n'. n \<le> n' \<and> n' \<le> 17 \<and> digits_at x n' = Some (shortest_from x n (Suc k))"
proof (induction k arbitrary: n)
  case 0
  then show ?case using digits_at_17 [of x] by (cases "digits_at x 17") auto
next
  case (Suc k)
  obtain n' where "Suc n \<le> n'" "n' \<le> 17" "digits_at x n' = Some (shortest_from x (Suc n) (Suc k))"
    using Suc.IH [OF Suc.prems(1), of "Suc n"] Suc.prems(2) by (auto simp del: shortest_from.simps)
  then show ?case using Suc.prems
    by (cases "digits_at x n") (auto simp del: shortest_from.simps(2) simp: shortest_from.simps(2) [of x n] intro: exI [of _ n'] exI [of _ n])
qed

theorem shortest_rounds:
  assumes "is_pos_float x" "shortest x = (m, e)"
  shows "0 < m" "f_round (of_int m * pow10 e) = Fin x" "\<exists>n. 1 \<le> n \<and> n \<le> 17 \<and> digits_at x n = Some (m, e)"
proof -
  show ex: "\<exists>n. 1 \<le> n \<and> n \<le> 17 \<and> digits_at x n = Some (m, e)"
    using shortest_from_ok [OF assms(1), of 1 16] assms(2) by (auto simp: shortest_def)
  then obtain n where n: "digits_at x n = Some (m, e)" by blast
  show r: "f_round (of_int m * pow10 e) = Fin x" by (rule digits_at_ok [OF n])
  have x: "0 < x" using assms(1) by (simp add: is_pos_float_def)
  have "m \<noteq> 0" using r x by (auto simp: f_round_def)
  then show "0 < m" using digits_at_nonneg [OF x n] by simp
qed

section \<open>Reading numbers\<close>

text \<open>\<open>strconv.ParseInt(s, 10, 64)\<close>, \<open>None\<close> for its errors.\<close>

definition split_sign :: "string \<Rightarrow> bool \<times> string" where
  "split_sign s = (case s of [] \<Rightarrow> (False, [])
     | c # r \<Rightarrow> if c = CHR ''-'' then (True, r) else if c = CHR ''+'' then (False, r) else (False, s))"

definition parseInt :: "string \<Rightarrow> int option" where
  "parseInt s = (case split_sign s of (neg, ds) \<Rightarrow>
     if ds = [] \<or> \<not> list_all isDigit ds then None
     else let n = (if neg then - int (dec_val ds) else int (dec_val ds)) in if in64 n then Some n else None)"

text \<open>
  \<open>strconv.ParseFloat(s, 64)\<close>: the digits before an exponent with the number of them after the point,
  in base 10 or 16; underscores are passed over here and checked apart.
\<close>

definition hex_val :: "char \<Rightarrow> nat option" where
  "hex_val c = (let n = byte c in
     if 48 \<le> n \<and> n \<le> 57 then Some (n - 48) else if 97 \<le> n \<and> n \<le> 102 then Some (n - 87)
     else if 65 \<le> n \<and> n \<le> 70 then Some (n - 55) else None)"

fun mantissa :: "nat \<Rightarrow> bool \<Rightarrow> string \<Rightarrow> nat list \<times> nat \<times> string" where
  "mantissa b dot [] = ([], 0, [])"
| "mantissa b dot (c # s) =
    (if c = CHR ''_'' then mantissa b dot s
     else if c = CHR ''.'' then (if dot then ([], 0, c # s) else mantissa b True s)
     else (case hex_val c of
         Some d \<Rightarrow> if d < b then (case mantissa b dot s of (ds, k, r) \<Rightarrow> (d # ds, if dot then Suc k else k, r)) else ([], 0, c # s)
       | None \<Rightarrow> ([], 0, c # s)))"

text \<open>The exponent stops growing at five digits.\<close>

definition exponent :: "string \<Rightarrow> int option" where
  "exponent r = (case split_sign r of (neg, ds) \<Rightarrow>
     if ds = [] \<or> \<not> isDigit (hd ds) \<or> \<not> list_all (\<lambda>c. isDigit c \<or> c = CHR ''_'') ds then None
     else let n = int (foldl (\<lambda>e c. if c = CHR ''_'' then e else if e < 10000 then 10 * e + digit_val c else e) 0 ds)
       in Some (if neg then - n else n))"

text \<open>Underscores stand between digits or after the base prefix; saw is the last thing seen.\<close>

datatype seen = SawStart | SawDigit | SawUnder | SawOther

fun underscores :: "bool \<Rightarrow> seen \<Rightarrow> string \<Rightarrow> bool" where
  "underscores hex saw [] = (saw \<noteq> SawUnder)"
| "underscores hex saw (c # s) =
    (if isDigit c \<or> (hex \<and> hex_val c \<noteq> None) then underscores hex SawDigit s
     else if c = CHR ''_'' then saw = SawDigit \<and> underscores hex SawUnder s
     else saw \<noteq> SawUnder \<and> underscores hex SawOther s)"

definition base_prefix :: "string \<Rightarrow> bool" where
  "base_prefix s = (case s of a # b # _ \<Rightarrow> a = CHR ''0'' \<and> lower_char b \<in> {CHR ''b'', CHR ''o'', CHR ''x''} | _ \<Rightarrow> False)"

definition hex_prefix :: "string \<Rightarrow> bool" where
  "hex_prefix s = (case s of a # b # _ \<Rightarrow> a = CHR ''0'' \<and> lower_char b = CHR ''x'' | _ \<Rightarrow> False)"

definition underscoreOK :: "string \<Rightarrow> bool" where
  "underscoreOK s = (if base_prefix s then underscores (hex_prefix s) SawDigit (drop 2 s) else underscores False SawStart s)"

definition from_digits :: "nat \<Rightarrow> nat list \<Rightarrow> nat" where
  "from_digits b ds = foldl (\<lambda>v d. b * v + d) 0 ds"

text \<open>The exact number an unsigned text denotes: the exponent applied to the digits.\<close>

definition read_rest :: "bool \<Rightarrow> nat list \<Rightarrow> nat \<Rightarrow> string \<Rightarrow> rat option" where
  "read_rest hex ds k t =
    (case t of
       [] \<Rightarrow> if hex then None else Some (of_nat (from_digits 10 ds) * pow10 (- int k))
     | c # r \<Rightarrow>
         if lower_char c \<noteq> (if hex then CHR ''p'' else CHR ''e'') then None
         else map_option (\<lambda>e. if hex then of_nat (from_digits 16 ds) * pow2 (e - 4 * int k)
                              else of_nat (from_digits 10 ds) * pow10 (e - int k)) (exponent r))"

definition read_number :: "string \<Rightarrow> rat option" where
  "read_number s =
    (let hex = hex_prefix s in
     case mantissa (if hex then 16 else 10) False (if hex then drop 2 s else s) of (ds, k, t) \<Rightarrow>
       if ds = [] \<or> (CHR ''_'' \<in> set s \<and> \<not> underscoreOK s) then None else read_rest hex ds k t)"

text \<open>The float, infinite where the number is out of range (an error for \<open>ParseFloat\<close>).\<close>

definition special_float :: "bool \<Rightarrow> bool \<Rightarrow> string \<Rightarrow> f64 option" where
  "special_float has_sign neg u =
    (let l = to_lower u in
     if l = ''inf'' \<or> l = ''infinity'' then Some (f_infinity neg)
     else if l = ''nan'' \<and> \<not> has_sign then Some NaN else None)"

definition read_float :: "string \<Rightarrow> f64 option" where
  "read_float s = (case split_sign s of (neg, u) \<Rightarrow>
     map_option (\<lambda>q. let f = f_round q in if neg then f_neg f else f) (read_number u))"

definition parseFloat :: "string \<Rightarrow> f64 option" where
  "parseFloat s = (case split_sign s of (neg, u) \<Rightarrow>
     (case special_float (u \<noteq> s) neg u of
        Some f \<Rightarrow> Some f
      | None \<Rightarrow> (case read_float s of Some f \<Rightarrow> if f_isinf f then None else Some f | None \<Rightarrow> None)))"

section \<open>The texts written are read back\<close>

lemma parseInt_dec_int:
  assumes "in64 i"
  shows "parseInt (dec_int i) = Some i"
proof -
  have d: "list_all isDigit (dec_nat n)" for n using dec_nat_digits [of n] by (simp add: list_all_iff)
  show ?thesis
  proof (cases "i < 0")
    case True
    then show ?thesis using assms d by (simp add: parseInt_def split_sign_def dec_int_def)
  next
    case False
    have s: "split_sign (dec_nat n) = (False, dec_nat n)" for n
      using d [of n] by (cases "dec_nat n") (auto simp: split_sign_def isDigit_def)
    show ?thesis using False assms d by (simp add: parseInt_def s dec_int_def)
  qed
qed

lemma hex_val_digit: "isDigit c \<Longrightarrow> hex_val c = Some (digit_val c) \<and> digit_val c < 10 \<and> c \<noteq> CHR ''_'' \<and> c \<noteq> CHR ''.''"
  by (auto simp: hex_val_def byte_def isDigit_def digit_val_def Let_def)

lemma from_digits_dec: "from_digits 10 (map digit_val s) = dec_val s"
  by (simp add: from_digits_def dec_val_def foldl_map)

lemma mantissa_digits:
  assumes "list_all isDigit ds"
  shows "mantissa 10 dot (ds @ s) = (case mantissa 10 dot s of (es, k, r) \<Rightarrow>
    (map digit_val ds @ es, (if dot then length ds else 0) + k, r))"
  using assms
proof (induction ds)
  case Nil
  then show ?case by (simp split: prod.split)
next
  case (Cons c ds)
  then show ?case using hex_val_digit [of c] by (auto split: prod.split)
qed

text \<open>A decimal text: digits, perhaps a point and digits, perhaps an exponent.\<close>

definition exp_part :: "string \<Rightarrow> int \<Rightarrow> bool" where
  "exp_part t e \<longleftrightarrow> t = [] \<and> e = 0
     \<or> (\<exists>c r. t = c # r \<and> (c = CHR ''e'' \<or> c = CHR ''E'') \<and> exponent r = Some e \<and> CHR ''_'' \<notin> set r)"

lemma exp_part_mantissa: "exp_part t e \<Longrightarrow> mantissa 10 dot t = ([], 0, t)"
  by (auto simp: exp_part_def hex_val_def byte_def)

lemma lower_E: "lower_char (CHR ''E'') = CHR ''e''" "lower_char (CHR ''e'') = CHR ''e''"
  "lower_char (CHR ''.'') = CHR ''.''"
  by code_simp+

lemma no_hex_prefix:
  assumes "list_all isDigit ds" "ds \<noteq> []" "t = [] \<or> hd t \<in> set ''.eE''"
  shows "\<not> hex_prefix (ds @ t)"
proof -
  have x: "lower_char c \<noteq> CHR ''x''" if "isDigit c" for c
    using that by (auto simp: isDigit_def lower_char_def Let_def)
  obtain c r where ds: "ds = c # r" using assms(2) by (cases ds) auto
  show ?thesis
  proof (cases r)
    case Nil
    then show ?thesis using assms(3) ds by (cases t) (auto simp: hex_prefix_def lower_E)
  next
    case (Cons b r')
    then show ?thesis using x [of b] assms(1) ds by (auto simp: hex_prefix_def)
  qed
qed

lemma read_tail: "exp_part t e \<Longrightarrow> read_rest False ds k t = Some (of_nat (from_digits 10 ds) * pow10 (e - int k))"
  by (auto simp: exp_part_def read_rest_def lower_E)

lemma digits_no_underscore: "list_all isDigit ds \<Longrightarrow> CHR ''_'' \<notin> set ds"
  by (auto simp: list_all_iff isDigit_def)

lemma exp_part_hd: "exp_part t e \<Longrightarrow> t = [] \<or> hd t \<in> set ''.eE''"
  by (auto simp: exp_part_def)

lemma exp_part_underscore: "exp_part t e \<Longrightarrow> CHR ''_'' \<notin> set t"
  by (auto simp: exp_part_def)

lemma read_whole:
  assumes "list_all isDigit ds" "ds \<noteq> []" "exp_part t e"
  shows "read_number (ds @ t) = Some (of_nat (dec_val ds) * pow10 e)"
proof -
  have m: "mantissa 10 False (ds @ t) = (map digit_val ds, 0, t)"
    using mantissa_digits [OF assms(1), of False t] exp_part_mantissa [OF assms(3)] by simp
  have "\<not> hex_prefix (ds @ t)" using no_hex_prefix [OF assms(1,2)] exp_part_hd [OF assms(3)] by blast
  then show ?thesis unfolding read_number_def Let_def
    using digits_no_underscore [OF assms(1)] exp_part_underscore [OF assms(3)] assms(2) read_tail [OF assms(3), of _ 0]
    by (simp add: m from_digits_dec)
qed

lemma read_point:
  assumes "list_all isDigit ds" "ds \<noteq> []" "list_all isDigit fs" "exp_part t e"
  shows "read_number (ds @ ''.'' @ fs @ t) = Some (of_nat (dec_val (ds @ fs)) * pow10 (e - int (length fs)))"
proof -
  have "mantissa 10 True (fs @ t) = (map digit_val fs, length fs, t)"
    using mantissa_digits [OF assms(3), of True t] exp_part_mantissa [OF assms(4)] by simp
  then have m: "mantissa 10 False (ds @ CHR ''.'' # fs @ t) = (map digit_val ds @ map digit_val fs, length fs, t)"
    using mantissa_digits [OF assms(1), of False "CHR ''.'' # fs @ t"] by simp
  have v: "from_digits 10 (map digit_val ds @ map digit_val fs) = dec_val (ds @ fs)"
    using from_digits_dec [of "ds @ fs"] by simp
  have "\<not> hex_prefix (ds @ CHR ''.'' # fs @ t)" using no_hex_prefix [OF assms(1,2), of "CHR ''.'' # fs @ t"] by simp
  then show ?thesis unfolding read_number_def Let_def
    using digits_no_underscore [OF assms(1)] digits_no_underscore [OF assms(3)] exp_part_underscore [OF assms(4)] assms(2)
      read_tail [OF assms(4)]
    by (simp add: m v)
qed

text \<open>Exponents as they are written.\<close>

lemma exponent_digits:
  assumes "list_all isDigit ds" "ds \<noteq> []" "dec_val ds < 10000"
  shows "exponent ds = Some (int (dec_val ds))" "exponent (CHR ''-'' # ds) = Some (- int (dec_val ds))"
    "exponent (CHR ''+'' # ds) = Some (int (dec_val ds))"
proof -
  let ?step = "\<lambda>e c. if c = CHR ''_'' then e else if e < 10000 then 10 * e + digit_val c else e"
  have cap: "foldl ?step v ds = foldl (\<lambda>e c. 10 * e + digit_val c) v ds"
    if "list_all isDigit ds" "foldl (\<lambda>e c. 10 * e + digit_val c) v ds < 10000" for v :: nat and ds
    using that
  proof (induction ds arbitrary: v)
    case (Cons c ds)
    have "u \<le> foldl (\<lambda>e c. 10 * e + digit_val c) u xs" for u :: nat and xs
    proof (induction xs arbitrary: u)
      case (Cons c xs)
      have "10 * u + digit_val c \<le> foldl (\<lambda>e c. 10 * e + digit_val c) (10 * u + digit_val c) xs" by (rule Cons)
      then have "u \<le> foldl (\<lambda>e c. 10 * e + digit_val c) (10 * u + digit_val c) xs" by linarith
      then show ?case by simp
    qed simp
    from this [of v "c # ds"] have "v < 10000" "c \<noteq> CHR ''_''" using Cons.prems by (auto simp: isDigit_def)
    then show ?case using Cons by simp
  qed simp
  have v: "foldl ?step 0 ds = dec_val ds" using cap [OF assms(1), of 0] assms(3) by (simp add: dec_val_def)
  have d: "list_all (\<lambda>c. isDigit c \<or> c = CHR ''_'') ds" "isDigit (hd ds)"
    using assms(1,2) by (auto simp: list_all_iff)
  have s: "split_sign ds = (False, ds)" using assms(1,2) by (cases ds) (auto simp: split_sign_def isDigit_def)
  show "exponent ds = Some (int (dec_val ds))" "exponent (CHR ''-'' # ds) = Some (- int (dec_val ds))"
    "exponent (CHR ''+'' # ds) = Some (int (dec_val ds))"
    unfolding exponent_def s using d assms(2) v by (simp_all add: split_sign_def)
qed

lemma pad0_is_digits: "list_all isDigit (pad0 w n)" "pad0 w n \<noteq> []"
  using dec_nat_digits [of n] by (auto simp: pad0_def list_all_iff isDigit_def)

lemma exponent_sign:
  assumes "n < 10000"
  shows "exponent ((if neg then CHR ''-'' else CHR ''+'') # pad0 w n) = Some (if neg then - int n else int n)"
  using exponent_digits [OF pad0_is_digits] assms by simp

section \<open>Floats\<close>

lemma pow10_less_iff: "pow10 a < pow10 b \<Longrightarrow> a < b"
proof (rule ccontr)
  assume l: "pow10 a < pow10 b" "\<not> a < b"
  then obtain k where "a = b + int k" by (metis linorder_not_less zle_iff_zadd)
  then have "pow10 a = pow10 b * 10 ^ k" by (simp add: pow10_add)
  moreover have "pow10 b * 1 \<le> pow10 b * 10 ^ k" by (intro mult_left_mono) (simp_all add: less_imp_le)
  ultimately show False using l(1) by simp
qed

lemma pow2_1024: "pow2 1024 < pow10 309" "pow10 (- 324) < pow2 (- 1074)"
  by (simp_all add: pow2_def pow10_def)

lemma pos_float_range:
  assumes "is_pos_float x"
  shows "pow10 (- 324) < x" "x < pow10 309"
proof -
  obtain k where k: "0 < k" "x = of_int k * ulp x" "x < pow2 1024" using assms by (rule pos_float_parts)
  have "pow2 (- 1074) \<le> ulp x" unfolding ulp_def by (rule pow2_mono) simp
  also have "\<dots> \<le> of_int k * ulp x" using k(1) mult_right_mono [of 1 "of_int k" "ulp x"] by (simp add: less_imp_le)
  finally show "pow10 (- 324) < x" using k(2) pow2_1024(2) by simp
  show "x < pow10 309" using k(3) pow2_1024(1) by simp
qed

lemma ilog10_range:
  assumes "is_pos_float x"
  shows "- 400 \<le> ilog10 x" "ilog10 x < 309"
proof -
  have x: "0 < x" using assms by (simp add: is_pos_float_def)
  note r = pos_float_range [OF assms]
  show "ilog10 x < 309" using pow10_less_iff [of "ilog10 x" 309] ilog10_le [OF x] r(2) by linarith
  show "- 400 \<le> ilog10 x"
  proof (cases "1 \<le> x")
    case True
    then show ?thesis by (simp add: ilog10_def)
  next
    case False
    define n where "n = nat (\<lceil>1 / x\<rceil> - 1)"
    define k :: nat where "k = 324"
    have k: "(324 :: int) = int k" by (simp add: k_def)
    have "1 / x < 1 / pow10 (- 324)" using r(1) x by (intro divide_strict_left_mono) simp_all
    also have "1 / pow10 (- 324) = of_int (10 ^ k)" unfolding pow10_neg k by simp
    finally have "\<lceil>1 / x\<rceil> \<le> 10 ^ k" by (simp only: ceiling_le_iff less_imp_le)
    moreover have "0 < (10 ^ k :: int)" by simp
    ultimately have "\<lceil>1 / x\<rceil> - 1 < 10 ^ k" by linarith
    then have "nat (\<lceil>1 / x\<rceil> - 1) < nat (10 ^ k)" by (simp add: zless_nat_conj)
    then have "n < 10 ^ k" by (simp add: n_def nat_power_eq)
    then have "length (dec_nat n) \<le> k" by (rule dec_nat_length) (simp add: k_def)
    then show ?thesis using False unfolding ilog10_def n_def [symmetric] k_def by simp
  qed
qed

lemma strip0_value: "\<exists>k. s = strip0 s @ replicate k (CHR ''0'')"
proof -
  have "\<exists>k. takeWhile (\<lambda>c. c = CHR ''0'') s = replicate k (CHR ''0'')" for s
    by (intro exI [of _ "length (takeWhile (\<lambda>c. c = CHR ''0'') s)"] replicate_eqI) (auto dest: set_takeWhileD)
  then obtain k where "takeWhile (\<lambda>c. c = CHR ''0'') (rev s) = replicate k (CHR ''0'')" by blast
  then have "rev s = replicate k (CHR ''0'') @ dropWhile (\<lambda>c. c = CHR ''0'') (rev s)"
    using takeWhile_dropWhile_id [of "\<lambda>c. c = CHR ''0''" "rev s"] by simp
  then have "rev (rev s) = rev (replicate k (CHR ''0'') @ dropWhile (\<lambda>c. c = CHR ''0'') (rev s))" by (rule arg_cong)
  then show ?thesis by (auto simp: strip0_def)
qed

lemma float_digits:
  assumes "is_pos_float x" "float_digits x = (ds, dp)"
  shows "list_all isDigit ds" "ds \<noteq> []" "f_round (of_nat (dec_val ds) * pow10 (dp - int (length ds))) = Fin x"
    "\<bar>dp - 1\<bar> < 10000"
proof -
  obtain m e where me: "shortest x = (m, e)" by (cases "shortest x")
  define all where "all = dec_nat (nat m)"
  have d: "ds = strip0 all" "dp = int (length all) + e" using assms(2) by (simp_all add: float_digits_def me all_def Let_def)
  note sh = shortest_rounds [OF assms(1) me]
  obtain k where k: "all = ds @ replicate k (CHR ''0'')" using strip0_value [of all] d by blast
  have va: "dec_val all = nat m" by (simp add: all_def)
  then have v: "dec_val ds * 10 ^ k = nat m" unfolding k by (simp add: dec_val_append)
  show "ds \<noteq> []" using v sh(1) by auto
  have "list_all isDigit all" by (simp add: all_def list_all_iff dec_nat_digits)
  then show "list_all isDigit ds" unfolding k by simp
  have "of_nat (dec_val ds) * pow10 (dp - int (length ds)) = of_nat (dec_val ds) * pow10 (e + int k)"
    using d(2) k by (simp add: algebra_simps)
  also have "\<dots> = of_nat (dec_val ds * 10 ^ k) * pow10 e" by (simp add: pow10_add)
  also have "\<dots> = of_int m * pow10 e" unfolding v using sh(1) by simp
  finally show "f_round (of_nat (dec_val ds) * pow10 (dp - int (length ds))) = Fin x" using sh(2) by simp
  obtain n where n: "1 \<le> n" "n \<le> 17" "digits_at x n = Some (m, e)" using sh(3) by blast
  have e: "e = ilog10 x - int n + 1" using n(3) by (auto simp: digits_at_def Let_def split: if_splits)
  have x: "0 < x" using assms(1) by (simp add: is_pos_float_def)
  have "m \<le> \<lfloor>x / pow10 e\<rfloor> + 1" using n(3) unfolding e by (auto simp: digits_at_def Let_def split: if_splits)
  then have "of_int m \<le> (x / pow10 e + 1 :: rat)" by linarith
  then have "of_int m * pow10 e \<le> (x / pow10 e + 1) * pow10 e" by (intro mult_right_mono) (simp_all add: less_imp_le)
  also have "\<dots> = x + pow10 e" using less_imp_neq [OF pow10_pos [of e]] by (simp add: distrib_right)
  also have "\<dots> \<le> x + x"
  proof -
    have "\<not> pow10 (ilog10 x) < pow10 e" using pow10_less_iff [of "ilog10 x" e] n(1) by (auto simp: e)
    then show ?thesis using ilog10_le [OF x] by linarith
  qed
  also have "\<dots> < 10 * pow10 309" using pos_float_range(2) [OF assms(1)] pow10_pos [of 309] by linarith
  finally have up: "of_int m * pow10 e < pow10 310" by (simp add: pow10_def)
  have "10 ^ (length all - 1) \<le> nat m" using dec_nat_lower [of "nat m"] sh(1) by (simp add: all_def)
  then have "(10 :: int) ^ (length all - 1) \<le> m" using sh(1) by (simp add: le_nat_iff)
  then have "(10 :: rat) ^ (length all - 1) \<le> of_int m" by (metis of_int_le_iff of_int_numeral of_int_power)
  then have "pow10 (int (length all - 1) + e) \<le> of_int m * pow10 e" unfolding pow10_add pow10_nat
    by (intro mult_right_mono) (simp_all add: less_imp_le)
  with up have "int (length all - 1) + e < 310" using pow10_less_iff [of "int (length all - 1) + e" 310] by linarith
  moreover have "all \<noteq> []" by (simp add: all_def)
  ultimately show "\<bar>dp - 1\<bar> < 10000" using d(2) e n(2) ilog10_range [OF assms(1)] by (cases all) auto
qed

text \<open>A text of a positive number: it starts with a digit and reads as a number that rounds to x.\<close>

definition reads_float :: "string \<Rightarrow> rat \<Rightarrow> bool" where
  "reads_float s x \<longleftrightarrow> s \<noteq> [] \<and> isDigit (hd s) \<and> (\<exists>q. read_number s = Some q \<and> f_round q = Fin x)"

lemma reads_parse:
  assumes "reads_float s x" "0 < x"
  shows "parseFloat s = Some (Fin x)" "parseFloat (CHR ''-'' # s) = Some (Fin (- x))"
proof -
  obtain q where q: "read_number s = Some q" "f_round q = Fin x" using assms(1) by (auto simp: reads_float_def)
  obtain c r where s: "s = c # r" "isDigit c" using assms(1) by (cases s) (auto simp: reads_float_def)
  have c: "c \<noteq> CHR ''-''" "c \<noteq> CHR ''+''" "lower_char c \<noteq> CHR ''i''" "lower_char c \<noteq> CHR ''n''"
    using s(2) by (auto simp: isDigit_def lower_char_def Let_def)
  then have sp: "special_float b n s = None" for b n by (auto simp: special_float_def s Let_def)
  show "parseFloat s = Some (Fin x)" using c sp q by (simp add: parseFloat_def read_float_def split_sign_def s(1) f_isinf_def)
  show "parseFloat (CHR ''-'' # s) = Some (Fin (- x))"
    using c sp q assms(2) by (simp add: parseFloat_def read_float_def split_sign_def s(1) f_isinf_def)
qed

lemma fixed_reads:
  assumes "is_pos_float x"
  shows "reads_float (with_point (fixed_text x)) x" "reads_float (fixed_text x) x"
proof -
  obtain ds dp where dd: "float_digits x = (ds, dp)" by (cases "float_digits x")
  note f = float_digits [OF assms dd]
  have e0: "exp_part [] 0" by (simp add: exp_part_def)
  have z: "list_all isDigit (replicate k (CHR ''0''))" for k by (simp add: list_all_iff isDigit_def)
  have nd: "CHR ''.'' \<notin> set t" if "list_all isDigit t" for t using that by (auto simp: list_all_iff isDigit_def)
  have hd: "isDigit (hd t)" if "list_all isDigit t" "t \<noteq> []" for t using that by (cases t) auto
  consider "dp \<le> 0" | "0 < dp" "int (length ds) \<le> dp" | "0 < dp" "dp < int (length ds)" by linarith
  then have "reads_float (with_point (fixed_text x)) x \<and> reads_float (fixed_text x) x"
  proof cases
    case 1
    define zs where "zs = replicate (nat (- dp)) (CHR ''0'') @ ds"
    have t: "fixed_text x = ''0'' @ ''.'' @ zs @ []" using 1 by (simp add: fixed_text_def dd zs_def)
    have "read_number (fixed_text x) = Some (of_nat (dec_val (''0'' @ zs)) * pow10 (0 - int (length zs)))"
      unfolding t using f(1) z e0 by (intro read_point) (simp_all add: zs_def isDigit_def)
    moreover have "dec_val (''0'' @ zs) = dec_val ds" by (simp add: zs_def dec_val_append dec_val_Cons digit_val_def)
    moreover have "0 - int (length zs) = dp - int (length ds)" using 1 by (simp add: zs_def)
    ultimately have "reads_float (fixed_text x) x" using f(3) by (simp add: reads_float_def t isDigit_def)
    moreover have "with_point (fixed_text x) = fixed_text x" by (simp add: with_point_def t)
    ultimately show ?thesis by simp
  next
    case 2
    define k where "k = nat dp - length ds"
    have t: "fixed_text x = (ds @ replicate k (CHR ''0'')) @ []" using 2 by (simp add: fixed_text_def dd k_def)
    have dig: "list_all isDigit (ds @ replicate k (CHR ''0''))" using f(1) z by simp
    have kk: "dp - int (length ds) = int k" using 2 by (simp add: k_def)
    have v: "of_nat (dec_val (ds @ replicate k (CHR ''0''))) = of_nat (dec_val ds) * pow10 (dp - int (length ds))"
      by (simp add: dec_val_append kk)
    have "read_number (fixed_text x) = Some (of_nat (dec_val (ds @ replicate k (CHR ''0''))) * pow10 0)"
      unfolding t using dig f(2) e0 by (intro read_whole) simp_all
    then have a: "reads_float (fixed_text x) x" using f(2,3) hd [OF f(1,2)]
      by (simp add: reads_float_def v t pow10_def [of 0])
    have w: "with_point (fixed_text x) = (ds @ replicate k (CHR ''0'')) @ ''.'' @ ''0'' @ []"
      using nd [OF dig] by (simp add: with_point_def t)
    have "read_number (with_point (fixed_text x)) = Some (of_nat (dec_val ((ds @ replicate k (CHR ''0'')) @ ''0'')) * pow10 (0 - int (length ''0'')))"
      unfolding w using dig f(2) e0 by (intro read_point) (simp_all add: isDigit_def)
    moreover have "of_nat (dec_val ((ds @ replicate k (CHR ''0'')) @ ''0'')) * pow10 (0 - int (length ''0''))
        = of_nat (dec_val ds) * pow10 (dp - int (length ds))"
      unfolding dec_val_append [of _ "''0''"] using v by (simp add: pow10_def digit_val_def)
    ultimately have "reads_float (with_point (fixed_text x)) x" using f(2,3) hd [OF f(1,2)]
      by (simp add: reads_float_def w)
    with a show ?thesis by simp
  next
    case 3
    define n where "n = nat dp"
    have n: "0 < n" "n < length ds" using 3 by (auto simp: n_def)
    have t: "fixed_text x = take n ds @ ''.'' @ drop n ds @ []" using 3 by (simp add: fixed_text_def dd n_def)
    have "list_all isDigit (take n ds)" "list_all isDigit (drop n ds)" "take n ds \<noteq> []"
      using f(1) n by (auto simp: list_all_iff dest: in_set_takeD in_set_dropD)
    note tk = this
    have "read_number (fixed_text x) = Some (of_nat (dec_val (take n ds @ drop n ds)) * pow10 (0 - int (length (drop n ds))))"
      unfolding t using tk e0 by (intro read_point) simp_all
    moreover have "0 - int (length (drop n ds)) = dp - int (length ds)" using n by (simp add: n_def of_nat_diff)
    ultimately have "reads_float (fixed_text x) x" using f(3) hd [OF tk(1,3)] tk(3)
      by (simp add: reads_float_def t)
    moreover have "with_point (fixed_text x) = fixed_text x" by (simp add: with_point_def t)
    ultimately show ?thesis by simp
  qed
  then show "reads_float (with_point (fixed_text x)) x" "reads_float (fixed_text x) x" by simp_all
qed

text \<open>The exponent form, with and without a point in its mantissa.\<close>

lemma exp_reads:
  assumes "is_pos_float x" "float_digits x = (ds, dp)" "exp_part t (dp - 1)"
  shows "reads_float (mantissa_text x @ t) x" "reads_float (with_point (mantissa_text x) @ t) x"
proof -
  note f = float_digits [OF assms(1,2)]
  obtain c r where ds: "ds = c # r" using f(2) by (cases ds) auto
  have c: "isDigit c" "list_all isDigit r" using f(1) ds by simp_all
  have no: "CHR ''.'' \<notin> set ds" using f(1) by (auto simp: list_all_iff isDigit_def)
  have p: "of_nat (dec_val ds) * pow10 (dp - 1 - int (length r)) = of_nat (dec_val ds) * pow10 (dp - int (length ds))"
    by (simp add: ds algebra_simps)
  have "reads_float (mantissa_text x @ t) x \<and> reads_float (with_point (mantissa_text x) @ t) x"
  proof (cases r)
    case Nil
    have m: "mantissa_text x = [c]" by (simp add: mantissa_text_def assms(2) ds Nil)
    have "read_number ([c] @ t) = Some (of_nat (dec_val [c]) * pow10 (dp - 1))"
      using c assms(3) by (intro read_whole) simp_all
    then have a: "reads_float ([c] @ t) x" using f(3) c by (simp add: reads_float_def ds Nil)
    have w: "with_point [c] @ t = [c] @ ''.'' @ ''0'' @ t" using no by (simp add: with_point_def ds)
    have "read_number (with_point [c] @ t) = Some (of_nat (dec_val ([c] @ ''0'')) * pow10 (dp - 1 - int (length ''0'')))"
      unfolding w using c assms(3) by (intro read_point) (simp_all add: isDigit_def)
    moreover have "of_nat (dec_val ([c] @ ''0'')) * pow10 (dp - 1 - int (length ''0'')) = of_nat (dec_val [c]) * pow10 (dp - 1)"
      unfolding dec_val_append using pow10_add [of "dp - 2" 1] by (simp add: digit_val_def pow10_def [of 1])
    ultimately have "reads_float (with_point [c] @ t) x" using f(3) c w by (simp add: reads_float_def ds Nil)
    with a show ?thesis by (simp add: m)
  next
    case (Cons b r')
    have m: "mantissa_text x = [c] @ ''.'' @ r" by (simp add: mantissa_text_def assms(2) ds Cons)
    have "read_number ([c] @ ''.'' @ r @ t) = Some (of_nat (dec_val ([c] @ r)) * pow10 (dp - 1 - int (length r)))"
      using c assms(3) by (intro read_point) simp_all
    then have "reads_float ([c] @ ''.'' @ r @ t) x" using f(3) c p unfolding p [symmetric] by (simp add: reads_float_def ds)
    moreover have "with_point (mantissa_text x) = mantissa_text x" by (simp add: with_point_def m)
    ultimately show ?thesis by (simp add: m)
  qed
  then show "reads_float (mantissa_text x @ t) x" "reads_float (with_point (mantissa_text x) @ t) x" by simp_all
qed

lemma positive_text_reads:
  assumes "is_pos_float x"
  shows "reads_float (positive_text x) x"
proof (cases "f_le (f_round (1 / 1000)) (Fin x) \<and> f_less (Fin x) (Fin 10000000)")
  case True
  then show ?thesis using fixed_reads(1) [OF assms] by (simp add: positive_text_def)
next
  case False
  obtain ds dp where dd: "float_digits x = (ds, dp)" by (cases "float_digits x")
  define n where "n = nat \<bar>dp - 1\<bar>"
  have n: "n < 10000" using float_digits(4) [OF assms dd] by (simp add: n_def)
  define zs where "zs = dropWhile (\<lambda>c. c = CHR ''0'') (pad0 2 n)"
  define es where "es = (if zs = [] then ''0'' else zs)"
  note dig = pad0_is_digits(1) [of 2 n]
  have es: "list_all isDigit es" "es \<noteq> []" "dec_val es = n"
  proof -
    have "\<exists>k. pad0 2 n = replicate k (CHR ''0'') @ zs"
    proof -
      have "takeWhile (\<lambda>c. c = CHR ''0'') (pad0 2 n) = replicate (length (takeWhile (\<lambda>c. c = CHR ''0'') (pad0 2 n))) (CHR ''0'')"
        by (intro replicate_eqI) (auto dest: set_takeWhileD)
      then show ?thesis unfolding zs_def by (metis takeWhile_dropWhile_id)
    qed
    then obtain k where k: "pad0 2 n = replicate k (CHR ''0'') @ zs" by blast
    then have v: "dec_val zs = n" using dec_val_pad0 [of 2 n] by (simp add: dec_val_append)
    have "list_all isDigit zs" using dig unfolding k by simp
    then show "list_all isDigit es" "es \<noteq> []" "dec_val es = n"
      using v by (auto simp: es_def isDigit_def digit_val_def)
  qed
  have tr: "trim_exponent (exponent_text x) = (if dp - 1 < 0 then CHR ''-'' # es else es)"
  proof -
    have "hd (pad0 2 n) \<noteq> CHR ''-''" "hd (pad0 2 n) \<noteq> CHR ''+''" "pad0 2 n \<noteq> []"
      using dig by (cases "pad0 2 n"; auto simp: isDigit_def pad0_def)+
    moreover have "prefix [b] t \<longleftrightarrow> t \<noteq> [] \<and> hd t = b" for b :: char and t by (cases t) auto
    ultimately show ?thesis
      by (simp add: trim_exponent_def exponent_text_def dd n_def [symmetric] zs_def [symmetric] es_def Let_def)
  qed
  have cap: "exponent (if neg then CHR ''-'' # es else es) = Some (if neg then - int n else int n)" for neg
    using exponent_digits [OF es(1,2)] es(3) n by simp
  have "exp_part (CHR ''E'' # trim_exponent (exponent_text x)) (dp - 1)"
    using cap [of "dp - 1 < 0"] digits_no_underscore [OF es(1)] unfolding tr exp_part_def by (auto simp: n_def split: if_splits)
  then have "reads_float (with_point (mantissa_text x) @ CHR ''E'' # trim_exponent (exponent_text x)) x"
    by (rule exp_reads(2) [OF assms dd])
  then show ?thesis unfolding positive_text_def if_not_P [OF False] by simp
qed

lemma pos_text_digits: "float_digits x = (ds, dp) \<Longrightarrow>
  pos_text x = (if dp - 1 < - 4 \<or> 6 \<le> dp - 1 then mantissa_text x @ exp_text (dp - 1) else fixed_text x)"
  by (auto simp: pos_text_def float_digits_def mantissa_text_def fixed_text_def Let_def nat_diff_distrib split: prod.splits)

lemma pos_text_reads:
  assumes "is_pos_float x"
  shows "reads_float (pos_text x) x"
proof -
  obtain ds dp where dd: "float_digits x = (ds, dp)" by (cases "float_digits x")
  define n where "n = nat \<bar>dp - 1\<bar>"
  have n: "n < 10000" using float_digits(4) [OF assms dd] by (simp add: n_def)
  have "exp_part (exp_text (dp - 1)) (dp - 1)"
    using exponent_sign [OF n, of "dp - 1 < 0" 2] digits_no_underscore [OF pad0_is_digits(1), of 2 n]
    unfolding exp_part_def exp_text_def n_def [symmetric] by (auto simp: n_def split: if_splits)
  then show ?thesis using exp_reads(1) [OF assms dd] fixed_reads(2) [OF assms] by (simp add: pos_text_digits [OF dd])
qed

text \<open>A float: every finite one is a rational that rounds to itself, and zero has its sign apart.\<close>

definition is_float :: "f64 \<Rightarrow> bool" where
  "is_float f = (case f of Fin x \<Rightarrow> f_round x = Fin x | _ \<Rightarrow> True)"

lemma ulp_minus: "ulp (- x) = ulp x"
  by (simp add: ulp_def)

lemma f_round_minus: "f_round x = Fin x \<Longrightarrow> x \<noteq> 0 \<Longrightarrow> f_round (- x) = Fin (- x)"
  by (auto simp: f_round_def ulp_minus Let_def split: if_splits)

lemma parse_signed:
  assumes "is_float (Fin x)" "\<And>y. is_pos_float y \<Longrightarrow> reads_float (t y) y" "x \<noteq> 0"
  shows "parseFloat (if x < 0 then CHR ''-'' # t (- x) else t x) = Some (Fin x)"
proof -
  have "is_pos_float \<bar>x\<bar>" using assms(1,3) f_round_minus [of x] by (auto simp: is_float_def is_pos_float_def abs_if)
  then show ?thesis using reads_parse [OF assms(2)] assms(3) by (auto simp: abs_if is_pos_float_def split: if_splits)
qed

theorem parseFloat_f_text: "is_float f \<Longrightarrow> parseFloat (f_text f) = Some f"
proof (cases f)
  case (Fin x)
  assume f: "is_float f"
  show ?thesis
  proof (cases "x = 0")
    case False
    then show ?thesis using parse_signed [of x pos_text] f pos_text_reads by (simp add: Fin)
  qed (simp add: Fin, code_simp)
qed (simp_all, code_simp+)

theorem parseFloat_formatFloat: "is_float f \<Longrightarrow> parseFloat (formatFloat f) = Some f"
proof (cases f)
  case (Fin x)
  assume f: "is_float f"
  show ?thesis
  proof (cases "x = 0")
    case False
    then show ?thesis using parse_signed [of x positive_text] f positive_text_reads by (simp add: Fin)
  qed (simp add: Fin, code_simp)
qed (simp_all, code_simp+)

end
