(* ===== verification/GoText.thy ===== *)
theory GoText
  imports Strconv
begin

text \<open>
  The functions on UTF-8 text the interpreter takes from \<open>strings\<close> and \<open>utf8\<close>: splitting a text into
  its characters (an invalid byte counts as one), trimming, searching and replacing.
\<close>

section \<open>Characters\<close>

function explode_text :: "string \<Rightarrow> string list" where
  "explode_text s = (if s = [] then [] else let n = snd (decode_rune s) in take n s # explode_text (drop n s))"
  by pat_completeness auto
termination
proof (relation "measure length")
  fix s :: string and n
  assume "s \<noteq> []" "n = snd (decode_rune s)"
  then have "1 \<le> n" using decode_rune_width [of s] by simp
  then show "(drop n s, s) \<in> measure length" using \<open>s \<noteq> []\<close> by (cases s) auto
qed simp

declare explode_text.simps [simp del]

text \<open>\<open>[]rune(s)\<close> and \<open>string(rs)\<close>.\<close>

definition runes :: "string \<Rightarrow> rune list" where
  "runes s = map (\<lambda>p. fst (decode_rune p)) (explode_text s)"

definition of_runes :: "rune list \<Rightarrow> string" where
  "of_runes rs = concat (map encode_rune rs)"

lemma explode_concat: "concat (explode_text s) = s"
proof (induction s rule: explode_text.induct)
  case (1 s)
  then show ?case by (subst explode_text.simps) (simp add: Let_def)
qed

section \<open>Trimming\<close>

definition rune_of :: "string \<Rightarrow> rune" where "rune_of p = fst (decode_rune p)"

definition trimLeftFunc :: "(rune \<Rightarrow> bool) \<Rightarrow> string \<Rightarrow> string" where
  "trimLeftFunc f s = concat (dropWhile (\<lambda>p. f (rune_of p)) (explode_text s))"

definition trimRightFunc :: "(rune \<Rightarrow> bool) \<Rightarrow> string \<Rightarrow> string" where
  "trimRightFunc f s = concat (rev (dropWhile (\<lambda>p. f (rune_of p)) (rev (explode_text s))))"

definition trimFunc :: "(rune \<Rightarrow> bool) \<Rightarrow> string \<Rightarrow> string" where
  "trimFunc f s = trimRightFunc f (trimLeftFunc f s)"

section \<open>Searching\<close>

text \<open>The text before and after the first occurrence of d.\<close>

fun cut_at :: "string \<Rightarrow> string \<Rightarrow> (string \<times> string) option" where
  "cut_at d [] = (if d = [] then Some ([], []) else None)"
| "cut_at d (c # s) =
    (if prefix d (c # s) then Some ([], drop (length d) (c # s))
     else map_option (\<lambda>(a, b). (c # a, b)) (cut_at d s))"

lemma cut_at_length: "cut_at d s = Some (a, b) \<Longrightarrow> length a + length d + length b = length s"
proof (induction s arbitrary: a)
  case (Cons c s)
  then show ?case by (auto split: if_splits dest: prefix_length_le)
qed (simp split: if_splits)

text \<open>\<open>strings.Split\<close> with a separator that is not empty.\<close>

function split_on :: "string \<Rightarrow> string \<Rightarrow> string list" where
  "split_on d s = (if d = [] then [s] else case cut_at d s of None \<Rightarrow> [s] | Some (a, b) \<Rightarrow> a # split_on d b)"
  by pat_completeness auto
termination
proof (relation "measure (length \<circ> snd)")
  fix d s :: string and p a b
  assume "d \<noteq> []" "cut_at d s = Some p" "(a, b) = p"
  then have "length a + length d + length b = length s" using cut_at_length by metis
  then have "length b < length s" using \<open>d \<noteq> []\<close> by (cases d) simp_all
  then show "((d, b), d, s) \<in> measure (length \<circ> snd)" by simp
qed simp

declare split_on.simps [simp del]

definition splitText :: "string \<Rightarrow> string \<Rightarrow> string list" where
  "splitText s d = (if d = [] then explode_text s else split_on d s)"

definition replaceAll :: "string \<Rightarrow> string \<Rightarrow> string \<Rightarrow> string" where
  "replaceAll s a b = (if a = b then s else if a = [] then b @ concat (map (\<lambda>p. p @ b) (explode_text s)) else join b (split_on a s))"

section \<open>Facts\<close>

lemma split_on_nonempty: "split_on d s \<noteq> []"
  by (subst split_on.simps) (auto split: option.splits)

lemma cut_at_Some: "cut_at d s = Some (a, b) \<Longrightarrow> s = a @ d @ b"
proof (induction s arbitrary: a)
  case (Cons c s)
  then show ?case by (auto split: if_splits elim!: prefixE)
qed (simp split: if_splits)

lemma join_Cons: "ps \<noteq> [] \<Longrightarrow> join d (p # ps) = p @ d @ join d ps"
  by (cases ps) (simp_all add: join_def)

text \<open>Splitting is undone by joining.\<close>

lemma split_join: "join d (split_on d s) = s"
proof (induction d s rule: split_on.induct)
  case (1 d s)
  show ?case
  proof (cases "d = []")
    case True
    then show ?thesis by (subst split_on.simps) (simp add: join_def)
  next
    case False
    show ?thesis
    proof (cases "cut_at d s")
      case None
      then show ?thesis by (subst split_on.simps) (simp add: join_def)
    next
      case (Some p)
      obtain a b where p: "p = (a, b)" by (cases p)
      have "split_on d s = a # split_on d b" using False Some p by (subst split_on.simps) simp
      then have "join d (split_on d s) = a @ d @ join d (split_on d b)"
        by (simp add: join_Cons split_on_nonempty)
      then show ?thesis using 1 [OF False Some, of a b] p cut_at_Some [of d s a b] Some by simp
    qed
  qed
qed

text \<open>In ASCII text every byte is a character.\<close>

definition ascii :: "string \<Rightarrow> bool" where
  "ascii s \<longleftrightarrow> list_all (\<lambda>c. byte c < 0x80) s"

lemma decode_ascii: "byte c < 0x80 \<Longrightarrow> decode_rune (c # s) = (byte c, 1)"
  by (simp add: decode_rune_def)

lemma explode_ascii: "ascii s \<Longrightarrow> explode_text s = map (\<lambda>c. [c]) s"
proof (induction s)
  case (Cons c s)
  then show ?case by (subst explode_text.simps) (simp add: ascii_def decode_ascii)
qed (simp add: explode_text.simps)

lemma runes_ascii: "ascii s \<Longrightarrow> runes s = map byte s"
  by (simp add: runes_def explode_ascii) (simp add: ascii_def list_all_iff decode_ascii)

lemma concat_singles: "concat (map (\<lambda>c. [c]) s) = s"
  by (induction s) auto

lemma trim_ascii_id:
  assumes "ascii s" "s \<noteq> []" "\<not> f (byte (hd s))" "\<not> f (byte (last s))"
  shows "trimFunc f s = s"
proof -
  have r: "rune_of [c] = byte c" if "c \<in> set s" for c
    using that assms(1) by (simp add: rune_of_def decode_ascii ascii_def list_all_iff)
  have e: "explode_text s = map (\<lambda>c. [c]) s" by (rule explode_ascii [OF assms(1)])
  have "dropWhile (\<lambda>p. f (rune_of p)) (explode_text s) = explode_text s"
    using assms(2,3) r [of "hd s"] unfolding e by (cases s) auto
  then have l: "trimLeftFunc f s = s" by (simp add: trimLeftFunc_def explode_concat)
  have "dropWhile (\<lambda>p. f (rune_of p)) (rev (explode_text s)) = rev (explode_text s)"
    using assms(2,4) r [of "last s"] unfolding e by (cases s rule: rev_cases) auto
  then have "trimRightFunc f s = s" by (simp add: trimRightFunc_def explode_concat)
  then show ?thesis by (simp add: trimFunc_def l)
qed

end
