(* ===== verification/Functions.thy ===== *)
theory Functions
  imports GoText
begin

text \<open>
  The built-in functions of cypher/interp/funcs.go, stringfn.go, temporalfn.go and vectorfn.go on
  evaluated arguments. Indexing the arguments of a call that has none is a panic, as in Go: only some
  functions check how many they are given.
\<close>

section \<open>Arguments\<close>

definition argc :: "val list \<Rightarrow> nat \<Rightarrow> nat \<Rightarrow> (fault + 'a) \<Rightarrow> fault + 'a" where
  "argc args lo hi k =
    (if length args < lo \<or> hi < length args
     then raise_err ''SyntaxError'' ''InvalidNumberOfArguments'' ''function %s() was called with %d arguments''
     else k)"

definition anyNil :: "val list \<Rightarrow> bool" where "anyNil args \<longleftrightarrow> VNull \<in> set args"

section \<open>Conversions\<close>

definition argTypeErr :: "fault + 'a" where
  "argTypeErr = raise_err ''TypeError'' ''InvalidArgumentValue'' ''%s() does not accept %s''"

definition or_null :: "bool \<Rightarrow> fault + val" where
  "or_null orNull = (if orNull then Inr VNull else argTypeErr)"

definition go_trim :: "world \<Rightarrow> string \<Rightarrow> string" where
  "go_trim w s = trimFunc (t_space (w_text w)) s"

definition go_int :: "world \<Rightarrow> f64 \<Rightarrow> int" where
  "go_int w f = int_of_f64 (platform_int (w_tenv w)) f"

definition toInteger :: "world \<Rightarrow> val \<Rightarrow> bool \<Rightarrow> fault + val" where
  "toInteger w v orNull = (case v of
       VInt i \<Rightarrow> Inr v
     | VFloat x \<Rightarrow>
         if f_isnan x \<or> f_isinf x \<or> f_le (Fin (2 ^ 63)) x \<or> f_less x (Fin (- (2 ^ 63))) then Inr VNull
         else Inr (VInt (go_int w x))
     | VBool b \<Rightarrow> Inr (VInt (if b then 1 else 0))
     | VStr x \<Rightarrow>
         let s = go_trim w x in
         (case parseInt s of
            Some i \<Rightarrow> Inr (VInt i)
          | None \<Rightarrow> (case parseFloat s of
              Some f \<Rightarrow> if \<not> f_isnan f \<and> \<not> f_isinf f then Inr (VInt (go_int w f)) else Inr VNull
            | None \<Rightarrow> Inr VNull))
     | _ \<Rightarrow> or_null orNull)"

definition toFloatFn :: "world \<Rightarrow> val \<Rightarrow> bool \<Rightarrow> fault + val" where
  "toFloatFn w v orNull = (case v of
       VInt i \<Rightarrow> Inr (VFloat (f_of_int i))
     | VFloat x \<Rightarrow> Inr v
     | VStr x \<Rightarrow> (case parseFloat (go_trim w x) of Some f \<Rightarrow> Inr (VFloat f) | None \<Rightarrow> Inr VNull)
     | _ \<Rightarrow> or_null orNull)"

definition toBooleanFn :: "world \<Rightarrow> val \<Rightarrow> bool \<Rightarrow> fault + val" where
  "toBooleanFn w v orNull = (case v of
       VBool b \<Rightarrow> Inr v
     | VStr x \<Rightarrow> let s = t_lower (w_text w) (go_trim w x) in
         Inr (if s = ''true'' then VBool True else if s = ''false'' then VBool False else VNull)
     | VInt i \<Rightarrow> Inr (VBool (i \<noteq> 0))
     | _ \<Rightarrow> or_null orNull)"

definition toStringFn :: "val \<Rightarrow> bool \<Rightarrow> fault + val" where
  "toStringFn v orNull = (case v of
       VStr x \<Rightarrow> Inr v
     | VInt i \<Rightarrow> Inr (VStr (dec_int i))
     | VFloat x \<Rightarrow> Inr (VStr (formatFloat x))
     | VBool b \<Rightarrow> Inr (VStr (bool_text b))
     | VTemp t \<Rightarrow> Inr (VStr (tval_string t))
     | VPoint p \<Rightarrow> Inr (VStr (point_string p))
     | VVec x \<Rightarrow> Inr (VStr (vec_string x))
     | _ \<Rightarrow> or_null orNull)"

text \<open>The four conversions by name; their list forms convert each element, null for what is none.\<close>

definition conversion :: "world \<Rightarrow> string \<Rightarrow> val \<Rightarrow> bool \<Rightarrow> fault + val" where
  "conversion w name v orNull =
    (if name = ''tointeger'' then toInteger w v orNull else if name = ''tofloat'' then toFloatFn w v orNull
     else if name = ''toboolean'' then toBooleanFn w v orNull else toStringFn v orNull)"

definition conversion_list :: "world \<Rightarrow> string \<Rightarrow> val \<Rightarrow> fault + val" where
  "conversion_list w name v = (case v of
       VList l \<Rightarrow> bindE (mapE (\<lambda>e. if e = VNull then Inr VNull else conversion w name e True) l) (\<lambda>out. Inr (VList out))
     | _ \<Rightarrow> type_fault ''%s() expects a list, got %s'')"

section \<open>Numbers\<close>

definition f_floor :: "f64 \<Rightarrow> f64" where
  "f_floor a = (case a of Fin x \<Rightarrow> Fin (of_int \<lfloor>x\<rfloor>) | _ \<Rightarrow> a)"

definition f_ceil :: "f64 \<Rightarrow> f64" where
  "f_ceil a = f_neg (f_floor (f_neg a))"

text \<open>\<open>math.Round\<close>: halves go away from zero.\<close>

definition f_roundaway :: "f64 \<Rightarrow> f64" where
  "f_roundaway a = (case a of
       Fin x \<Rightarrow> if x < 0 then f_neg (Fin (of_int \<lfloor>- x + 1 / 2\<rfloor>)) else Fin (of_int \<lfloor>x + 1 / 2\<rfloor>)
     | _ \<Rightarrow> a)"

definition math_names :: "string list" where
  "math_names = [''ceil'', ''floor'', ''sqrt'', ''exp'', ''log'', ''log10'', ''sin'', ''cos'', ''tan'', ''cot'', ''asin'', ''acos'', ''atan'',
    ''degrees'', ''radians'', ''haversin'', ''sinh'', ''cosh'', ''tanh'', ''coth'']"

definition mathFn :: "gomath \<Rightarrow> string \<Rightarrow> f64 \<Rightarrow> f64" where
  "mathFn g name x =
    (if name = ''ceil'' then f_ceil x
     else if name = ''floor'' then f_floor x
     else if name = ''sqrt'' then m_sqrt g x
     else if name = ''sin'' then m_sin g x
     else if name = ''cos'' then m_cos g x
     else if name = ''asin'' then m_asin g x
     else if name = ''cot'' then f_div (Fin 1) (m_fun g ''tan'' x)
     else if name = ''degrees'' then f_div (f_mul x (Fin 180)) (m_pi g)
     else if name = ''radians'' then f_div (f_mul x (m_pi g)) (Fin 180)
     else if name = ''haversin'' then f_div (f_sub (Fin 1) (m_cos g x)) (Fin 2)
     else if name = ''coth'' then f_div (Fin 1) (m_fun g ''tanh'' x)
     else m_fun g name x)"

definition roundHalfUp :: "f64 \<Rightarrow> f64" where
  "roundHalfUp x = (if f_isnan x \<or> f_isinf x then x else f_roundaway x)"

definition fnRound :: "gomath \<Rightarrow> val list \<Rightarrow> fault + val" where
  "fnRound g args = argc args 1 3
    (if \<not> isNumber (args ! 0) then type_fault ''round() expects a number, got %s''
     else let x = toFloat (args ! 0) in
       if length args = 1 then Inr (VFloat (roundHalfUp x))
       else (case args ! 1 of
           VNull \<Rightarrow> Inr VNull
         | VInt p \<Rightarrow> let scale = m_pow g (Fin 10) (f_of_int p) in Inr (VFloat (f_div (roundHalfUp (f_mul x scale)) scale))
         | _ \<Rightarrow> type_fault ''round() precision must be an integer''))"

definition fn_abs :: "val \<Rightarrow> fault + val" where
  "fn_abs v = (case v of
       VInt x \<Rightarrow> if x = - (2 ^ 63) then intOverflow else Inr (VInt (if x < 0 then w64 (- x) else x))
     | VFloat x \<Rightarrow> Inr (VFloat (f_abs x))
     | _ \<Rightarrow> type_fault ''abs() expects a number, got %s'')"

definition fn_sign :: "val \<Rightarrow> fault + val" where
  "fn_sign v = (case v of
       VInt x \<Rightarrow> Inr (VInt (cmpInt x 0))
     | VFloat x \<Rightarrow> Inr (if f_isnan x then VNull else if f_less (Fin 0) x then VInt 1 else if f_less x (Fin 0) then VInt (-1) else VInt 0)
     | _ \<Rightarrow> type_fault ''sign() expects a number, got %s'')"

section \<open>Ranges\<close>

text \<open>The two loops of \<open>fnRange\<close>: each stops before its counter would leave the 64 bits.\<close>

function range_up :: "int \<Rightarrow> int \<Rightarrow> int \<Rightarrow> int list" where
  "range_up i hi step =
    (if 0 < step \<and> i \<le> hi then i # (if 2 ^ 63 - 1 - step < i then [] else range_up (i + step) hi step) else [])"
  by pat_completeness auto
termination by (relation "measure (\<lambda>(i, hi, step). nat (hi - i + 1))") auto

function range_down :: "int \<Rightarrow> int \<Rightarrow> int \<Rightarrow> int list" where
  "range_down i lo step =
    (if step < 0 \<and> lo \<le> i then i # (if i < - (2 ^ 63) - step then [] else range_down (i + step) lo step) else [])"
  by pat_completeness auto
termination by (relation "measure (\<lambda>(i, lo, step). nat (i - lo + 1))") auto

declare range_up.simps [simp del] range_down.simps [simp del]

fun int_arg :: "val \<Rightarrow> fault + int" where
  "int_arg (VInt i) = Inr i"
| "int_arg v = raise_err ''ArgumentError'' ''InvalidArgumentType'' ''range() expects integers, got %s''"

definition fnRange :: "val list \<Rightarrow> fault + val" where
  "fnRange args = argc args 2 3
    (if anyNil args then Inr VNull
     else bindE (mapE int_arg args) (\<lambda>nums.
       let step = (if length nums = 3 then nums ! 2 else 1) in
       if step = 0 then raise_err ''ArgumentError'' ''NumberOutOfRange'' ''range() step must not be zero''
       else Inr (VList (map VInt (if 0 < step then range_up (nums ! 0) (nums ! 1) step else range_down (nums ! 0) (nums ! 1) step)))))"

section \<open>Text\<close>

definition negative_arg :: "string \<Rightarrow> fault + 'a" where
  "negative_arg msg = raise_err ''SyntaxError'' ''NegativeIntegerArgument'' msg"

text \<open>\<open>rs[start:end]\<close> panics when the end is before the start.\<close>

definition fnSubstring :: "val list \<Rightarrow> fault + val" where
  "fnSubstring args = argc args 2 3
    (if anyNil args then Inr VNull
     else case (args ! 0, args ! 1) of
       (VStr s, VInt start) \<Rightarrow>
         if start < 0 then negative_arg ''substring() start must not be negative''
         else let rs = runes s; n = int (length rs) in
           if n < start then Inr (VStr [])
           else bindE
             (if length args = 3 then
                (case args ! 2 of
                   VInt m \<Rightarrow> if m < 0 then negative_arg ''substring() length must not be negative''
                     else let e = w64 (start + m) in Inr (if e < n then e else n)
                 | _ \<Rightarrow> type_fault ''substring() length must be an integer'')
              else Inr n)
             (\<lambda>e. if e < start then index_panic else Inr (VStr (of_runes (drop (nat start) (take (nat e) rs)))))
     | _ \<Rightarrow> type_fault ''substring() expects a string and integers'')"

definition fn_left_right :: "bool \<Rightarrow> val list \<Rightarrow> fault + val" where
  "fn_left_right left args = argc args 2 2
    (if args ! 1 = VNull then Inr VNull
     else case (args ! 0, args ! 1) of
       (VStr s, VInt n0) \<Rightarrow>
         if n0 < 0 then negative_arg ''%s() length must not be negative''
         else let rs = runes s; n = (if int (length rs) < n0 then length rs else nat n0) in
           Inr (VStr (of_runes (if left then take n rs else drop (length rs - n) rs)))
     | _ \<Rightarrow> type_fault ''%s() expects a string and an integer'')"

fun str_arg :: "string \<Rightarrow> val \<Rightarrow> fault + string" where
  "str_arg msg (VStr s) = Inr s"
| "str_arg msg v = type_fault msg"

definition splitMulti :: "string \<Rightarrow> string list \<Rightarrow> val" where
  "splitMulti s delims = VList (map VStr (fold (\<lambda>d parts. concat (map (\<lambda>p. splitText p d) parts)) delims [s]))"

definition fn_split :: "val list \<Rightarrow> fault + val" where
  "fn_split args = argc args 2 2
    (if args ! 1 = VNull then Inr VNull
     else bindE (str_arg ''split() expects a string, got %s'' (args ! 0)) (\<lambda>s.
       bindE (case args ! 1 of
           VStr d \<Rightarrow> Inr [d]
         | VList ds \<Rightarrow> mapE (str_arg ''split() delimiters must be strings'') ds
         | _ \<Rightarrow> type_fault ''split() expects a string delimiter, got %s'') (\<lambda>delims.
       Inr (splitMulti s delims))))"

definition fn_replace :: "val list \<Rightarrow> fault + val" where
  "fn_replace args = argc args 3 3
    (if args ! 1 = VNull \<or> args ! 2 = VNull then Inr VNull
     else case (args ! 0, args ! 1, args ! 2) of
       (VStr s, VStr a, VStr b) \<Rightarrow> Inr (VStr (replaceAll s a b))
     | _ \<Rightarrow> type_fault ''replace() expects strings'')"

definition stringArg1 :: "val list \<Rightarrow> (string \<Rightarrow> string) \<Rightarrow> fault + val" where
  "stringArg1 args f = argc args 1 1 (bindE (str_arg ''%s() expects a string, got %s'' (args ! 0)) (\<lambda>s. Inr (VStr (f s))))"

definition fnTrim :: "gotext \<Rightarrow> string \<Rightarrow> val list \<Rightarrow> fault + val" where
  "fnTrim t name args = argc args 1 2
    (if anyNil args then Inr VNull
     else bindE (str_arg ''%s() expects a string, got %s'' (args ! 0)) (\<lambda>s.
       bindE (if length args = 2
              then bindE (str_arg ''%s() trim characters must be a string, got %s'' (args ! 1)) (\<lambda>cs. Inr (\<lambda>r. r \<in> set (runes cs)))
              else Inr (t_space t)) (\<lambda>f.
       Inr (VStr (if name = ''ltrim'' then trimLeftFunc f s else if name = ''rtrim'' then trimRightFunc f s else trimFunc f s)))))"

text \<open>The normal forms; the empty name is NFC.\<close>

definition normForm :: "gotext \<Rightarrow> string \<Rightarrow> fault + string" where
  "normForm t name = (let u = t_upper t name in
     if u = [] \<or> u = ''NFC'' then Inr ''NFC'' else if u \<in> {''NFD'', ''NFKC'', ''NFKD''} then Inr u
     else arg_fault ''unknown normalization form %q (expected NFC, NFD, NFKC or NFKD)'')"

definition fn_normalize :: "gotext \<Rightarrow> val list \<Rightarrow> fault + val" where
  "fn_normalize t args = argc args 1 2
    (bindE (str_arg ''normalize() expects a string, got %s'' (args ! 0)) (\<lambda>s.
     bindE (if length args = 2 then str_arg ''normalize() form must be NFC, NFD, NFKC or NFKD'' (args ! 1) else Inr ''NFC'') (\<lambda>name.
     bindE (normForm t name) (\<lambda>form. Inr (VStr (t_norm t form s))))))"

section \<open>Lists, maps and entities\<close>

definition keysOf :: "vmap \<Rightarrow> val" where "keysOf m = VList (map VStr (mkeys m))"

text \<open>\<open>head\<close>, \<open>last\<close> and \<open>tail\<close>.\<close>

definition fn_ends :: "string \<Rightarrow> val \<Rightarrow> fault + val" where
  "fn_ends name v = (case v of
       VList l \<Rightarrow> Inr (if name = ''head'' then (case l of [] \<Rightarrow> VNull | x # _ \<Rightarrow> x)
         else if name = ''last'' then (if l = [] then VNull else last l) else VList (tl l))
     | _ \<Rightarrow> type_fault ''%s() expects a list, got %s'')"

definition fn_reverse :: "val \<Rightarrow> fault + val" where
  "fn_reverse v = (case v of
       VStr x \<Rightarrow> Inr (VStr (of_runes (rev (runes x))))
     | VList x \<Rightarrow> Inr (VList (rev x))
     | _ \<Rightarrow> type_fault ''reverse() expects a list or string, got %s'')"

definition fn_size :: "val \<Rightarrow> fault + val" where
  "fn_size v = (case v of VList x \<Rightarrow> Inr (VInt (int (length x))) | VStr x \<Rightarrow> Inr (VInt (int (length (explode_text x))))
     | _ \<Rightarrow> type_fault ''size() expects a list or string, got %s'')"

definition fn_isempty :: "val \<Rightarrow> fault + val" where
  "fn_isempty v = (case v of VNull \<Rightarrow> Inr VNull | VStr x \<Rightarrow> Inr (VBool (x = [])) | VList x \<Rightarrow> Inr (VBool (x = []))
     | VMap x \<Rightarrow> Inr (VBool (x = [])) | _ \<Rightarrow> type_fault ''isEmpty() expects a list, map or string, got %s'')"

text \<open>\<open>keys\<close> and \<open>properties\<close> of an entity or a map.\<close>

definition props_of :: "world \<Rightarrow> string \<Rightarrow> val \<Rightarrow> fault + vmap" where
  "props_of w msg v = (case v of VNode i \<Rightarrow> node_props w i | VRel i \<Rightarrow> rel_props w i | VMap m \<Rightarrow> Inr m | _ \<Rightarrow> type_fault msg)"

definition fn_labels :: "world \<Rightarrow> val \<Rightarrow> fault + val" where
  "fn_labels w v = (case v of
       VNode i \<Rightarrow> bindE (the_node w i) (\<lambda>n. if n_deleted n then deletedAccess else Inr (VList (map VStr (n_labels n))))
     | _ \<Rightarrow> type_fault ''labels() expects a node, got %s'')"

text \<open>The functions of one entity or path, by name.\<close>

definition entity_fn :: "world \<Rightarrow> string \<Rightarrow> val \<Rightarrow> fault + val" where
  "entity_fn w name v =
    (if name = ''length'' then (case v of VPath ns rs \<Rightarrow> Inr (VInt (int (length rs))) | _ \<Rightarrow> type_fault ''length() expects a path, got %s'')
     else if name = ''labels'' then fn_labels w v
     else if name = ''type'' then (case v of VRel i \<Rightarrow> bindE (the_rel w i) (\<lambda>r. Inr (VStr (r_type r))) | _ \<Rightarrow> type_fault ''type() expects a relationship, got %s'')
     else if name = ''id'' then (case v of VNode i \<Rightarrow> Inr (VInt i) | VRel i \<Rightarrow> Inr (VInt i) | _ \<Rightarrow> type_fault ''id() expects a node or relationship, got %s'')
     else if name = ''elementid'' then (case v of VNode i \<Rightarrow> Inr (VStr (dec_int i)) | VRel i \<Rightarrow> Inr (VStr (dec_int i))
       | _ \<Rightarrow> type_fault ''elementId() expects a node or relationship, got %s'')
     else if name = ''nodes'' then (case v of VPath ns rs \<Rightarrow> Inr (VList (map VNode ns)) | _ \<Rightarrow> type_fault ''nodes() expects a path, got %s'')
     else if name = ''relationships'' \<or> name = ''rels'' then (case v of VPath ns rs \<Rightarrow> Inr (VList (map VRel rs)) | _ \<Rightarrow> type_fault ''relationships() expects a path, got %s'')
     else if name = ''keys'' then bindE (props_of w ''keys() expects a node, relationship or map, got %s'' v) (\<lambda>m. Inr (keysOf m))
     else if name = ''properties'' then bindE (props_of w ''properties() expects a node, relationship or map, got %s'' v) (\<lambda>m. Inr (VMap m))
     else (case v of
         VRel i \<Rightarrow> bindE (the_rel w i) (\<lambda>r. let e = (if name = ''endnode'' then r_end r else r_start r) in bindE (the_node w e) (\<lambda>n. Inr (VNode (n_id n))))
       | _ \<Rightarrow> type_fault ''%s() expects a relationship, got %s''))"

definition entity_names :: "string list" where
  "entity_names = [''labels'', ''type'', ''id'', ''elementid'', ''nodes'', ''relationships'', ''rels'', ''keys'', ''properties'', ''startnode'', ''endnode'']"

section \<open>Dispatch\<close>

definition conv_names :: "string list" where "conv_names = [''tointeger'', ''tofloat'', ''toboolean'', ''tostring'']"

text \<open>The functions that look at their first argument without counting their arguments.\<close>

definition unary_builtin :: "world \<Rightarrow> string \<Rightarrow> val \<Rightarrow> (fault + val) option" where
  "unary_builtin w name v =
    (if name \<in> {''char_length'', ''character_length''} then
       Some (bindE (str_arg ''%s() expects a string, got %s'' v) (\<lambda>s. Inr (VInt (int (length (explode_text s))))))
     else if name \<in> {''head'', ''last'', ''tail''} then Some (fn_ends name v)
     else if name = ''reverse'' then Some (fn_reverse v)
     else if name = ''isempty'' then Some (fn_isempty v)
     else if name \<in> set entity_names then Some (entity_fn w name v)
     else if name \<in> set conv_names then Some (conversion w name v False)
     else if name \<in> set (map (\<lambda>n. n @ ''ornull'') conv_names) then Some (conversion w (take (length name - 6) name) v True)
     else if name \<in> set (map (\<lambda>n. n @ ''list'') conv_names) then Some (conversion_list w (take (length name - 4) name) v)
     else if name = ''abs'' then Some (fn_abs v)
     else if name = ''sign'' then Some (fn_sign v)
     else if name \<in> set math_names then
       Some (if \<not> isNumber v then type_fault ''%s() expects a number, got %s'' else Inr (VFloat (mathFn (w_math w) name (toFloat v))))
     else None)"

text \<open>The functions that count their arguments first.\<close>

definition counted_builtin :: "world \<Rightarrow> string \<Rightarrow> val list \<Rightarrow> fault + val" where
  "counted_builtin w name args =
    (if name = ''size'' then argc args 1 1 (fn_size (args ! 0))
     else if name = ''length'' then argc args 1 1 (entity_fn w name (args ! 0))
     else if name = ''range'' then fnRange args
     else if name = ''round'' then fnRound (w_math w) args
     else if name = ''atan2'' then argc args 2 2
       (if args ! 1 = VNull then Inr VNull
        else if \<not> isNumber (args ! 0) \<or> \<not> isNumber (args ! 1) then type_fault ''atan2() expects numbers''
        else Inr (VFloat (m_atan2 (w_math w) (toFloat (args ! 0)) (toFloat (args ! 1)))))
     else if name = ''tolower'' \<or> name = ''lower'' then stringArg1 args (t_lower (w_text w))
     else if name = ''toupper'' \<or> name = ''upper'' then stringArg1 args (t_upper (w_text w))
     else if name \<in> {''trim'', ''btrim'', ''ltrim'', ''rtrim''} then fnTrim (w_text w) name args
     else if name = ''normalize'' then fn_normalize (w_text w) args
     else if name = ''isnan'' then argc args 1 1
       (case args ! 0 of VFloat x \<Rightarrow> Inr (VBool (f_isnan x)) | VInt x \<Rightarrow> Inr (VBool False) | _ \<Rightarrow> type_fault ''isNaN() expects a number, got %s'')
     else if name = ''valuetype'' then argc args 1 1 (Inr (VStr (valueTypeName (args ! 0) (args ! 0 \<noteq> VNull))))
     else if name = ''replace'' then fn_replace args
     else if name = ''substring'' then fnSubstring args
     else if name = ''left'' \<or> name = ''right'' then fn_left_right (name = ''left'') args
     else if name = ''split'' then fn_split args
     else no_support ''function %s()'')"

definition builtin :: "world \<Rightarrow> string \<Rightarrow> val list \<Rightarrow> fault + val" where
  "builtin w name args =
    (if name = ''coalesce'' then Inr (case filter (\<lambda>a. a \<noteq> VNull) args of [] \<Rightarrow> VNull | a # _ \<Rightarrow> a)
     else if name = ''nullif'' then argc args 2 2 (Inr (if equals (args ! 0) (args ! 1) = TriTrue then VNull else args ! 0))
     else if name = ''timestamp'' then Inr (VInt (w_millis w))
     else if name = ''rand'' then Inr (VFloat (w_rand w))
     else if name = ''e'' then Inr (VFloat (m_e (w_math w)))
     else if name = ''pi'' then Inr (VFloat (m_pi (w_math w)))
     else if name = ''randomuuid'' then Inr (VStr (w_uuid w))
     else case args of
         [] \<Rightarrow> if unary_builtin w name VNull \<noteq> None then index_panic else counted_builtin w name []
       | a # _ \<Rightarrow>
           if a = VNull \<and> name \<noteq> ''isempty'' \<and> name \<noteq> ''valuetype'' then Inr VNull
           else (case unary_builtin w name a of Some r \<Rightarrow> r | None \<Rightarrow> counted_builtin w name args))"

section \<open>Facts\<close>

text \<open>A range is the arithmetic progression from its first number up to its last; no step of it wraps.\<close>

definition progression :: "int \<Rightarrow> int \<Rightarrow> int \<Rightarrow> int list" where
  "progression i step n = map (\<lambda>k. i + int k * step) [0..<nat n]"

lemma progression_Nil: "n \<le> 0 \<Longrightarrow> progression i step n = []"
  by (simp add: progression_def)

lemma progression_Cons: "0 \<le> n \<Longrightarrow> progression i step (n + 1) = i # progression (i + step) step n"
proof -
  assume n: "0 \<le> n"
  have "nat (n + 1) = Suc (nat n)" using n by simp
  then show ?thesis
    by (simp add: progression_def upt_conv_Cons map_Suc_upt [symmetric] comp_def algebra_simps del: upt_Suc)
qed

lemma steps_left:
  assumes "0 < (step :: int)" "0 \<le> d"
  shows "d div step = (d - step) div step + 1" "0 \<le> (d - step) div step + 1"
proof -
  show "d div step = (d - step) div step + 1" using assms(1) div_add_self2 [of step "d - step"] by simp
  moreover have "0 \<le> d div step" using assms by (simp add: pos_imp_zdiv_nonneg_iff)
  ultimately show "0 \<le> (d - step) div step + 1" by simp
qed

lemma steps_none: "0 < (step :: int) \<Longrightarrow> d < 0 \<Longrightarrow> d div step + 1 \<le> 0"
  using pos_imp_zdiv_neg_iff [of step d] by linarith

lemma range_up_progression:
  assumes "0 < step" "hi < 2 ^ 63"
  shows "range_up i hi step = progression i step ((hi - i) div step + 1)"
  using assms
proof (induction i hi step rule: range_up.induct)
  case (1 i hi step)
  have none: "progression j step ((hi - j) div step + 1) = []" if "hi < j" for j
    using that "1.prems"(1) by (intro progression_Nil steps_none) simp_all
  show ?case
  proof (cases "i \<le> hi")
    case True
    have rest: "(if 2 ^ 63 - 1 - step < i then [] else range_up (i + step) hi step)
        = progression (i + step) step ((hi - (i + step)) div step + 1)"
      using 1 True none [of "i + step"] by simp
    have eq: "hi - i - step = hi - (i + step)" by simp
    have "range_up i hi step = i # progression (i + step) step ((hi - (i + step)) div step + 1)"
      using True "1.prems"(1) rest by (subst range_up.simps) simp
    also have "\<dots> = progression i step ((hi - i) div step + 1)"
      using steps_left [OF "1.prems"(1), of "hi - i"] True unfolding eq by (simp only: progression_Cons)
    finally show ?thesis .
  next
    case False
    then show ?thesis using none [of i] by (subst range_up.simps) simp
  qed
qed

lemma range_down_progression:
  assumes "step < 0" "- (2 ^ 63) \<le> lo"
  shows "range_down i lo step = progression i step ((i - lo) div (- step) + 1)"
  using assms
proof (induction i lo step rule: range_down.induct)
  case (1 i lo step)
  have pos: "0 < - step" using "1.prems"(1) by simp
  have none: "progression j step ((j - lo) div (- step) + 1) = []" if "j < lo" for j
    using that pos by (intro progression_Nil steps_none) simp_all
  show ?case
  proof (cases "lo \<le> i")
    case True
    have rest: "(if i < - (2 ^ 63) - step then [] else range_down (i + step) lo step)
        = progression (i + step) step ((i + step - lo) div (- step) + 1)"
      using 1 True none [of "i + step"] by simp
    have eq: "i - lo - - step = i + step - lo" by simp
    have "range_down i lo step = i # progression (i + step) step ((i + step - lo) div (- step) + 1)"
      using True "1.prems"(1) rest by (subst range_down.simps) simp
    also have "\<dots> = progression i step ((i - lo) div (- step) + 1)"
      using steps_left [OF pos, of "i - lo"] True unfolding eq by (simp only: progression_Cons)
    finally show ?thesis .
  next
    case False
    then show ?thesis using none [of i] by (subst range_down.simps) simp
  qed
qed

lemma fnRange_progression:
  assumes "in64 a" "in64 b" "s \<noteq> 0"
  shows "fnRange [VInt a, VInt b, VInt s] = Inr (VList (map VInt (progression a s ((b - a) div s + 1))))"
proof -
  have e: "(a - b) div - s = (b - a) div s" using div_minus_minus [of "b - a" s] by simp
  show ?thesis using assms range_up_progression [of s b a] range_down_progression [of s b a]
    by (simp add: fnRange_def argc_def anyNil_def in64_def e)
qed

text \<open>Texts of numbers are read back by the conversions, given that no digit, sign or letter is white space.\<close>

definition plain_spaces :: "gotext \<Rightarrow> bool" where
  "plain_spaces t \<longleftrightarrow> (\<forall>r \<in> {43..122}. \<not> t_space t r)"

definition number_char :: "char \<Rightarrow> bool" where
  "number_char c \<longleftrightarrow> byte c \<in> {43..122}"

lemma trim_number:
  assumes "list_all number_char s" "s \<noteq> []" "plain_spaces (w_text w)"
  shows "go_trim w s = s"
proof -
  have "ascii s" using assms(1) by (auto simp: ascii_def list_all_iff number_char_def)
  moreover have "number_char (hd s)" "number_char (last s)" using assms(1,2) by (simp_all add: list_all_iff)
  ultimately show ?thesis unfolding go_trim_def using assms(2,3)
    by (intro trim_ascii_id) (auto simp: plain_spaces_def number_char_def)
qed

lemma number_char_digit: "isDigit c \<Longrightarrow> number_char c"
  by (auto simp: isDigit_def number_char_def byte_def)

lemma dec_nat_number: "list_all number_char (dec_nat n)"
  using dec_nat_digits [of n] by (auto simp: list_all_iff intro: number_char_digit)

lemma dec_int_number: "list_all number_char (dec_int i)" "dec_int i \<noteq> []"
  using dec_nat_number by (auto simp: dec_int_def number_char_def byte_def)

lemma toInteger_text:
  assumes "in64 i" "plain_spaces (w_text w)"
  shows "toInteger w (VStr (dec_int i)) orNull = Inr (VInt i)"
  using trim_number [OF dec_int_number assms(2)] parseInt_dec_int [OF assms(1)] by (simp add: toInteger_def)

lemma float_digits_number: "float_digits x = (ds, dp) \<Longrightarrow> list_all number_char ds"
proof -
  assume "float_digits x = (ds, dp)"
  then obtain n where "ds = strip0 (dec_nat n)" by (auto simp: float_digits_def Let_def split: prod.splits)
  then have "set ds \<subseteq> set (dec_nat n)" by (auto simp: strip0_def dest: set_dropWhileD)
  then show ?thesis using dec_nat_number [of n] by (auto simp: list_all_iff)
qed

lemma list_all_trim_exponent:
  assumes "list_all P e" "P (CHR ''-'')" "P (CHR ''0'')"
  shows "list_all P (trim_exponent e)"
proof -
  have t: "list_all P (tl l)" "list_all P (dropWhile q l)" if "list_all P l" for l q
    using that by (cases l; auto simp: list_all_iff dest: set_dropWhileD)+
  have "list_all P (if b then tl l else l)" if "list_all P l" for b l using t(1) that by simp
  then show ?thesis unfolding trim_exponent_def Let_def using assms t by (simp add: t)
qed

lemma positive_text_number: "list_all number_char (positive_text x)"
proof -
  obtain ds dp where d: "float_digits x = (ds, dp)" by (cases "float_digits x")
  note n = float_digits_number [OF d]
  have c: "number_char (CHR ''.'')" "number_char (CHR ''0'')" "number_char (CHR ''E'')" "number_char (CHR ''-'')" "number_char (CHR ''+'')"
    by (simp_all add: number_char_def byte_def)
  have f: "list_all number_char (fixed_text x)"
    using n c by (auto simp: fixed_text_def d list_all_iff dest: in_set_takeD in_set_dropD)
  have m: "list_all number_char (mantissa_text x)"
    using n c by (cases ds) (auto simp: mantissa_text_def d)
  have p: "list_all number_char (pad0 2 k)" for k using dec_nat_number [of k] c by (auto simp: pad0_def list_all_iff)
  have "list_all number_char (exponent_text x)" using p c by (simp add: exponent_text_def Let_def)
  then have "list_all number_char (trim_exponent (exponent_text x))"
    by (rule list_all_trim_exponent) (rule c)+
  then show ?thesis using f m c by (simp add: positive_text_def with_point_def)
qed

lemma formatFloat_number: "list_all number_char (formatFloat f)" "formatFloat f \<noteq> []"
proof -
  have "with_point s \<noteq> []" if "s \<noteq> [] \<or> True" for s by (auto simp: with_point_def)
  then have "positive_text x \<noteq> []" for x by (simp add: positive_text_def)
  moreover have "list_all number_char (formatFloat f)"
    using positive_text_number by (cases f) (auto simp: number_char_def byte_def)
  ultimately show "list_all number_char (formatFloat f)" "formatFloat f \<noteq> []" by (cases f; simp)+
qed

lemma toFloat_text:
  assumes "is_float f" "plain_spaces (w_text w)"
  shows "toFloatFn w (VStr (formatFloat f)) orNull = Inr (VFloat f)"
  using trim_number [OF formatFloat_number assms(2)] parseFloat_formatFloat [OF assms(1)] by (simp add: toFloatFn_def)

text \<open>A length that overflows the end of the text, and a call without the argument it looks at, end the process.\<close>

lemma substring_overflow:
  assumes "1 \<le> i" "i < 2 ^ 63" "i \<le> int (length (runes s))"
  shows "fnSubstring [VStr s, VInt i, VInt (2 ^ 63 - 1)] = index_panic"
proof -
  have "(i - 1 + 2 ^ 64) mod 2 ^ 64 = i - 1" 
    using assms(1,2) by (simp only: mod_add_self2) (simp add: mod_pos_pos_trivial)
  moreover have "i + (2 ^ 63 - 1) + 2 ^ 63 = i - 1 + 2 ^ 64" by simp
  ultimately have "w64 (i + (2 ^ 63 - 1)) = i - (2 ^ 63 + 1)" unfolding w64_def by simp
  then show ?thesis using assms by (simp add: fnSubstring_def argc_def anyNil_def Let_def)
qed

lemma builtin_no_argument:
  "builtin w ''head'' [] = index_panic" "builtin w ''abs'' [] = index_panic" "builtin w ''keys'' [] = index_panic"
  "builtin w ''tointeger'' [] = index_panic"
  by code_simp+

end
