(* ===== verification/Calls.thy ===== *)
theory Calls
  imports Functions TemporalTruncate
begin

text \<open>
  The temporal, spatial and vector functions (cypher/interp/temporalfn.go, vectorfn.go) and the order
  in which a call tries the families of functions (cypher/interp/funcs.go). A family that does not know
  a name gives \<open>None\<close>.
\<close>

section \<open>Temporal functions\<close>

definition temporal_value :: "terr + tval \<Rightarrow> fault + val" where
  "temporal_value m = bindE (wrap_err (argErr ''%v'') m) (\<lambda>t. Inr (VTemp t))"

definition temporalFunction :: "world \<Rightarrow> string \<Rightarrow> val list \<Rightarrow> (fault + val) option" where
  "temporalFunction w name args =
    map_option (\<lambda>kind.
      case args of
        [] \<Rightarrow> if kind = KindDuration then arg_fault ''duration() needs an argument''
              else temporal_value (temporal_now (w_tenv w) kind [] (w_clock w))
      | [a] \<Rightarrow> if a = VNull then Inr VNull else temporal_value (construct (w_tenv w) kind (to_targ a))
      | _ \<Rightarrow> arg_fault ''%s() takes at most one argument'') (kind_by_name name)"

text \<open>\<open>date.statement()\<close> and the like, with an optional map.\<close>

definition clock_function :: "world \<Rightarrow> kind \<Rightarrow> bool \<Rightarrow> val list \<Rightarrow> fault + val" where
  "clock_function w kind realtime args =
    (let now = (if realtime then now_at (w_tenv w) else w_clock w) in
     case args of
       [VNull] \<Rightarrow> Inr VNull
     | [VMap m] \<Rightarrow> temporal_value (temporal_now (w_tenv w) kind (to_targs m) now)
     | [_] \<Rightarrow> arg_fault ''%s.%s() expects a map''
     | _ \<Rightarrow> temporal_value (temporal_now (w_tenv w) kind [] now))"

definition truncate_function :: "world \<Rightarrow> kind \<Rightarrow> val list \<Rightarrow> fault + val" where
  "truncate_function w kind args =
    (if length args < 2 \<or> 3 < length args then arg_fault ''%s.truncate() takes 2 or 3 arguments''
     else if anyNil args then Inr VNull
     else case (args ! 0, args ! 1) of
       (VStr unit, VTemp other) \<Rightarrow>
         bindE (if length args = 3
                then (case args ! 2 of VMap m \<Rightarrow> Inr (to_targs m) | _ \<Rightarrow> type_fault ''%s.truncate() expects a map as its third argument'')
                else Inr [])
           (\<lambda>m. temporal_value (truncate_tval (w_tenv w) kind unit other m))
     | _ \<Rightarrow> type_fault ''%s.truncate() expects a unit string and a temporal value'')"

definition epoch_function :: "bool \<Rightarrow> val list \<Rightarrow> fault + val" where
  "epoch_function millis args =
    (if anyNil args then Inr VNull
     else if \<not> millis then
       (case args of
          [VInt s, VInt n] \<Rightarrow> Inr (VTemp (fromEpoch s n))
        | [_, _] \<Rightarrow> type_fault ''datetime.fromepoch() expects integers''
        | _ \<Rightarrow> arg_fault ''datetime.fromepoch() takes 2 arguments'')
     else
       (case args of
          [VInt ms] \<Rightarrow> Inr (VTemp (fromEpochMillis ms))
        | [_] \<Rightarrow> type_fault ''datetime.fromepochmillis() expects an integer''
        | _ \<Rightarrow> arg_fault ''datetime.fromepochmillis() takes 1 argument''))"

definition between_function :: "string \<Rightarrow> val list \<Rightarrow> fault + val" where
  "between_function op args = (case args of
       [a, b] \<Rightarrow>
         if a = VNull \<or> b = VNull then Inr VNull
         else (case (a, b) of
             (VTemp x, VTemp y) \<Rightarrow> temporal_value (bindE (between op x y) (\<lambda>d. Inr (TDuration d)))
           | _ \<Rightarrow> type_fault ''duration.%s() expects temporal values'')
     | _ \<Rightarrow> arg_fault ''duration.%s() takes 2 arguments'')"

definition between_op :: "string \<Rightarrow> string option" where
  "between_op name = map_of [(''between'', ''between''), (''inmonths'', ''inMonths''), (''indays'', ''inDays''), (''inseconds'', ''inSeconds'')] name"

definition namespacedTemporal :: "world \<Rightarrow> string \<Rightarrow> string \<Rightarrow> val list \<Rightarrow> (fault + val) option" where
  "namespacedTemporal w ns name0 args =
    (case kind_by_name ns of
       None \<Rightarrow> None
     | Some kind \<Rightarrow>
         let name = t_lower (w_text w) name0 in
         if name \<in> {''transaction'', ''statement'', ''realtime''} then
           (if kind = KindDuration then None else Some (clock_function w kind (name = ''realtime'') args))
         else if name = ''truncate'' then
           (if kind = KindDuration then None else Some (truncate_function w kind args))
         else if name = ''fromepoch'' \<or> name = ''fromepochmillis'' then
           (if kind \<noteq> KindDateTime then None else Some (epoch_function (name = ''fromepochmillis'') args))
         else (case between_op name of
             Some op \<Rightarrow> if kind \<noteq> KindDuration then None else Some (between_function op args)
           | None \<Rightarrow> None))"

section \<open>Spatial functions\<close>

definition point_function :: "val list \<Rightarrow> fault + val" where
  "point_function args = argc args 1 1
    (case args ! 0 of
       VNull \<Rightarrow> Inr VNull
     | VMap m \<Rightarrow>
         if VNull \<in> snd ` set m then Inr VNull
         else bindE (wrap_err (argErr ''%v'') (pointFromMap (to_targs m))) (\<lambda>p. Inr (VPoint p))
     | _ \<Rightarrow> type_fault ''point() expects a map, got %s'')"

definition spatialDistance :: "world \<Rightarrow> val list \<Rightarrow> fault + val" where
  "spatialDistance w args = argc args 2 2
    (case (args ! 0, args ! 1) of
       (VNull, _) \<Rightarrow> Inr VNull | (_, VNull) \<Rightarrow> Inr VNull
     | (VPoint a, VPoint b) \<Rightarrow>
         Inr (case point_distance (fmath.truncate (w_math w)) a b of Some d \<Rightarrow> VFloat d | None \<Rightarrow> VNull)
     | _ \<Rightarrow> type_fault ''%s() expects points, got %s and %s'')"

text \<open>The points of withinBBox, up to the first argument that is null.\<close>

fun bbox_points :: "val list \<Rightarrow> fault + point list option" where
  "bbox_points [] = Inr (Some [])"
| "bbox_points (VNull # vs) = Inr None"
| "bbox_points (VPoint p # vs) = bindE (bbox_points vs) (\<lambda>r. Inr (map_option (\<lambda>ps. p # ps) r))"
| "bbox_points (v # vs) = type_fault ''point.withinBBox() expects points, got %s''"

definition bbox_function :: "val list \<Rightarrow> fault + val" where
  "bbox_function args = argc args 3 3
    (bindE (bbox_points args) (\<lambda>r. case r of
       Some [a, b, c] \<Rightarrow> Inr (case withinBBox a b c of Some x \<Rightarrow> VBool x | None \<Rightarrow> VNull)
     | _ \<Rightarrow> Inr VNull))"

definition spatialFunction :: "world \<Rightarrow> string list \<Rightarrow> string \<Rightarrow> val list \<Rightarrow> (fault + val) option" where
  "spatialFunction w ns name args =
    (if ns = [] then (if name = ''point'' then Some (point_function args) else None)
     else if ns \<noteq> [''point''] then None
     else let n = t_lower (w_text w) name in
       if n = ''distance'' then Some (spatialDistance w args)
       else if n = ''withinbbox'' then Some (bbox_function args)
       else None)"

section \<open>Vector functions\<close>

definition parse_coord :: "world \<Rightarrow> string \<Rightarrow> string + targ" where
  "parse_coord w part0 =
    (let part = go_trim w part0 in
     case parseInt part of Some i \<Rightarrow> Inr (AInt i)
     | None \<Rightarrow> (case parseFloat part of Some f \<Rightarrow> Inr (AFloat f) | None \<Rightarrow> Inl ''%q is not a number''))"

definition parse_vector_text :: "world \<Rightarrow> string \<Rightarrow> string + targ list" where
  "parse_vector_text w s0 =
    (let s = go_trim w s0 in
     if \<not> prefix ''['' s \<or> \<not> suffix '']'' s then Inl ''a vector string must look like [1, 2, 3]''
     else let inner = go_trim w (take (length s - 2) (drop 1 s)) in
       if inner = [] then Inr [] else mapE (parse_coord w) (splitText inner '',''))"

definition vector_values :: "world \<Rightarrow> val \<Rightarrow> fault + targ list" where
  "vector_values w v = (case v of
       VList x \<Rightarrow> if VNull \<in> set x then arg_fault ''a vector cannot contain null'' else Inr (map to_targ x)
     | VStr x \<Rightarrow> wrap_err (argErr ''%v'') (parse_vector_text w x)
     | _ \<Rightarrow> type_fault ''vector() expects a list of numbers or a string, got %s'')"

definition vector_function :: "world \<Rightarrow> val list \<Rightarrow> fault + val" where
  "vector_function w args = argc args 3 3
    (if anyNil args then Inr VNull
     else case args ! 1 of
       VInt dm \<Rightarrow>
         (case args ! 2 of
            VStr tname \<Rightarrow>
              (case parseVType tname of
                 None \<Rightarrow> arg_fault ''unknown vector coordinate type %q''
               | Some t \<Rightarrow> bindE (vector_values w (args ! 0)) (\<lambda>vs.
                   bindE (wrap_err (argErr ''%v'') (newVector vs dm t)) (\<lambda>v. Inr (VVec v))))
          | _ \<Rightarrow> type_fault ''vector() coordinate type must be a type name'')
     | _ \<Rightarrow> type_fault ''vector() dimension must be an integer, got %s'')"

definition vector_float :: "string + f64 \<Rightarrow> fault + val" where
  "vector_float m = bindE (wrap_err (argErr ''%v'') m) (\<lambda>d. Inr (VFloat d))"

definition vector_norm_function :: "world \<Rightarrow> val list \<Rightarrow> fault + val" where
  "vector_norm_function w args = argc args 2 2
    (if anyNil args then Inr VNull
     else case (args ! 0, args ! 1) of
       (VVec v, VStr k) \<Rightarrow> vector_float (vec_norm (fmath.truncate (w_math w)) v k)
     | _ \<Rightarrow> type_fault ''vector_norm() expects a vector and a norm name'')"

text \<open>The functions of two vectors.\<close>

definition vector_pair_function :: "world \<Rightarrow> string \<Rightarrow> val list \<Rightarrow> fault + val" where
  "vector_pair_function w fn args =
    (let want = (if fn = ''vector_distance'' then 3 else 2); g = fmath.truncate (w_math w) in
     argc args want want
      (if anyNil args then Inr VNull
       else case (args ! 0, args ! 1) of
         (VVec a, VVec b) \<Rightarrow>
           if fn = ''vector_distance'' then
             (case args ! 2 of VStr m \<Rightarrow> vector_float (vec_distance g a b m) | _ \<Rightarrow> type_fault ''vector_distance() metric must be a name'')
           else if fn = ''vector.similarity.cosine'' then vector_float (similarityCosine g a b)
           else vector_float (similarityEuclidean g a b)
       | _ \<Rightarrow> type_fault ''%s() expects vectors, got %s and %s''))"

definition vectorFunction :: "world \<Rightarrow> string list \<Rightarrow> string \<Rightarrow> val list \<Rightarrow> (fault + val) option" where
  "vectorFunction w ns name args =
    (let l = t_lower (w_text w) name in
     case (case ns of [] \<Rightarrow> Some l
           | [a, b] \<Rightarrow> if to_lower a = ''vector'' \<and> to_lower b = ''similarity'' then Some (''vector.similarity.'' @ l) else None
           | _ \<Rightarrow> None) of
       None \<Rightarrow> None
     | Some fn \<Rightarrow>
         if fn = ''vector'' then Some (vector_function w args)
         else if fn = ''vector_dimension_count'' then
           Some (argc args 1 1 (case args ! 0 of VNull \<Rightarrow> Inr VNull | VVec v \<Rightarrow> Inr (VInt (int (dimension v)))
             | _ \<Rightarrow> type_fault ''%s() expects a vector, got %s''))
         else if fn = ''vector_norm'' then Some (vector_norm_function w args)
         else if fn \<in> {''vector_distance'', ''vector.similarity.cosine'', ''vector.similarity.euclidean''} then
           Some (vector_pair_function w fn args)
         else None)"

section \<open>Calls\<close>

definition first_of :: "(fault + val) option list \<Rightarrow> (fault + val) \<Rightarrow> fault + val" where
  "first_of rs d = (case filter (\<lambda>r. r \<noteq> None) rs of Some r # _ \<Rightarrow> r | _ \<Rightarrow> d)"

definition plain_call :: "world \<Rightarrow> string \<Rightarrow> val list \<Rightarrow> fault + val" where
  "plain_call w name args =
    first_of [temporalFunction w name args, spatialFunction w [] name args, vectorFunction w [] name args] (builtin w name args)"

definition namespaced_call :: "world \<Rightarrow> string list \<Rightarrow> string \<Rightarrow> val list \<Rightarrow> fault + val" where
  "namespaced_call w ns name args =
    first_of [if length ns = 1 then namespacedTemporal w (hd ns) name args else None,
        spatialFunction w ns name args, vectorFunction w ns name args]
      (no_support ''function %s.%s'')"

definition aggregates :: "string list" where
  "aggregates = [''count'', ''sum'', ''avg'', ''min'', ''max'', ''collect'', ''percentilecont'', ''percentiledisc'', ''stdev'', ''stdevp'']"

definition isAggregate :: "world \<Rightarrow> string list \<Rightarrow> string \<Rightarrow> bool" where
  "isAggregate w ns name \<longleftrightarrow> ns = [] \<and> t_lower (w_text w) name \<in> set aggregates"

end
