(* ===== verification/Eval.thy ===== *)
theory Eval
  imports Calls
begin

text \<open>
  Evaluation of expressions: \<open>exec.eval\<close> of cypher/interp/eval.go. A row binds the variables; the graph,
  the clock and the tables of the standard library are in the \<open>world\<close>. Patterns and subqueries inside an
  expression run the matcher, which is a parameter here. The substitutions are keyed by the tree itself
  where the source keys them by its dump, and the aggregates by the tree where it uses its address:
  two equal calls in one projection aggregate the same rows.
\<close>

section \<open>The statement\<close>

record 'b exec =
  x_world :: world
  x_params :: "(string \<times> host) list"
  x_agg :: "('b expr \<times> val) list"
  x_subst :: "('b expr \<times> val) list"
  x_patternExpr :: "'b pattern_part \<Rightarrow> row \<Rightarrow> fault + val"
  x_patternComp :: "'b pattern_part \<Rightarrow> 'b expr option \<Rightarrow> 'b expr \<Rightarrow> row \<Rightarrow> fault + val"
  x_subquery :: "subquery_kind \<Rightarrow> 'b option \<Rightarrow> 'b pattern_part list \<Rightarrow> 'b expr option \<Rightarrow> row \<Rightarrow> fault + val"

section \<open>Steps\<close>

text \<open>\<open>exec.list\<close>: a list, null, or an error.\<close>

definition as_list :: "string \<Rightarrow> val \<Rightarrow> fault + val list option" where
  "as_list what v = (case v of VNull \<Rightarrow> Inr None | VList l \<Rightarrow> Inr (Some l) | _ \<Rightarrow> type_fault ''%s expects a list, got %s'')"

text \<open>Continue with the list, or give null.\<close>

definition on_list :: "val \<Rightarrow> (val list \<Rightarrow> fault + val) \<Rightarrow> fault + val" where
  "on_list v f = bindE (as_list [] v) (\<lambda>l. case l of None \<Rightarrow> Inr VNull | Some xs \<Rightarrow> f xs)"

lemma on_list_cong [fundef_cong]: "v = v' \<Longrightarrow> (\<And>l. v' = VList l \<Longrightarrow> f l = g l) \<Longrightarrow> on_list v f = on_list v' g"
  by (cases v') (auto simp: on_list_def as_list_def)

text \<open>The counts of a quantifier: true, false and null.\<close>

definition count_truth :: "val \<Rightarrow> nat \<times> nat \<times> nat \<Rightarrow> fault + nat \<times> nat \<times> nat" where
  "count_truth c n = (case (c, n) of
       (VBool True, (t, f, u)) \<Rightarrow> Inr (Suc t, f, u)
     | (VBool False, (t, f, u)) \<Rightarrow> Inr (t, Suc f, u)
     | (VNull, (t, f, u)) \<Rightarrow> Inr (t, f, Suc u)
     | _ \<Rightarrow> type_fault ''%s() predicate must be a boolean, got %s'')"

definition decide :: "quantifier_kind \<Rightarrow> nat \<times> nat \<times> nat \<Rightarrow> val" where
  "decide k n = (case n of (trues, falses, nulls) \<Rightarrow>
     (case k of
        QuantAll \<Rightarrow> if 0 < falses then VBool False else if 0 < nulls then VNull else VBool True
      | QuantAny \<Rightarrow> if 0 < trues then VBool True else if 0 < nulls then VNull else VBool False
      | QuantNone \<Rightarrow> if 0 < trues then VBool False else if 0 < nulls then VNull else VBool True
      | QuantSingle \<Rightarrow> if 1 < trues then VBool False else if trues = 1 \<and> nulls = 0 then VBool True
          else if 0 < nulls then VNull else VBool False))"

text \<open>What a map projection takes from \<open>.*\<close>.\<close>

definition all_props :: "world \<Rightarrow> val \<Rightarrow> fault + vmap" where
  "all_props w v = (case v of
       VNode i \<Rightarrow> bindE (the_node w i) (\<lambda>n. Inr (n_props n))
     | VRel i \<Rightarrow> bindE (the_rel w i) (\<lambda>r. Inr (r_props r))
     | VMap m \<Rightarrow> Inr m
     | _ \<Rightarrow> type_fault ''cannot project %s'')"

definition mput_all :: "(string \<times> 'v) list \<Rightarrow> (string \<times> 'v) list \<Rightarrow> (string \<times> 'v) list" where
  "mput_all kvs m = fold (\<lambda>(k, v). mput k v) kvs m"

text \<open>The labels a label expression is checked against.\<close>

definition label_set :: "world \<Rightarrow> val \<Rightarrow> fault + string list option" where
  "label_set w v = (case v of
       VNull \<Rightarrow> Inr None
     | VNode i \<Rightarrow> bindE (the_node w i) (\<lambda>n. Inr (Some (n_labels n)))
     | VRel i \<Rightarrow> bindE (the_rel w i) (\<lambda>r. Inr (Some [r_type r]))
     | _ \<Rightarrow> type_fault ''cannot check labels of %s'')"

text \<open>A dynamic label is a string or a list of strings, all of which must be there.\<close>

fun has_all :: "string list \<Rightarrow> val list \<Rightarrow> fault + bool" where
  "has_all ls [] = Inr True"
| "has_all ls (VStr s # vs) = (if s \<in> set ls then has_all ls vs else Inr False)"
| "has_all ls (v # vs) = type_fault ''dynamic labels must be strings''"

definition dynamic_label :: "string list \<Rightarrow> val \<Rightarrow> fault + bool" where
  "dynamic_label ls v = (case v of VStr s \<Rightarrow> Inr (s \<in> set ls) | VList l \<Rightarrow> has_all ls l | _ \<Rightarrow> type_fault ''dynamic labels must be strings'')"

text \<open>\<open>linenumber()\<close> and \<open>file()\<close> read variables no query can name.\<close>

definition csv_variable :: "string \<Rightarrow> string" where
  "csv_variable name = (if name = ''linenumber'' then CHR 0x00 # ''csvline'' else CHR 0x00 # ''csvfile'')"

definition is_true :: "val \<Rightarrow> bool" where "is_true v \<longleftrightarrow> v = VBool True"

definition exists_value :: "'b expr \<Rightarrow> val \<Rightarrow> val" where
  "exists_value a v = (case a of
       Property _ _ \<Rightarrow> VBool (v \<noteq> VNull)
     | _ \<Rightarrow> (case v of VBool b \<Rightarrow> VBool b | _ \<Rightarrow> VBool (v \<noteq> VNull)))"

definition normalized_test :: "gotext \<Rightarrow> string \<Rightarrow> bool \<Rightarrow> val \<Rightarrow> fault + val" where
  "normalized_test t form negated v = (case v of
       VNull \<Rightarrow> Inr VNull
     | VStr s \<Rightarrow> bindE (normForm t form) (\<lambda>f. Inr (VBool (t_is_norm t f s \<noteq> negated)))
     | _ \<Rightarrow> type_fault ''IS NORMALIZED expects a string, got %s'')"

lemma size_member: "x \<in> set xs \<Longrightarrow> f x \<le> size_list f xs"
  by (induction xs) auto

section \<open>Evaluation\<close>

function eval :: "'b exec \<Rightarrow> 'b expr \<Rightarrow> row \<Rightarrow> fault + val"
  and eval_node :: "'b exec \<Rightarrow> 'b expr \<Rightarrow> row \<Rightarrow> fault + val"
  and eval_whens :: "'b exec \<Rightarrow> val option \<Rightarrow> ('b expr \<times> 'b expr) list \<Rightarrow> 'b expr option \<Rightarrow> row \<Rightarrow> fault + val"
  and matchLabelExpr :: "'b exec \<Rightarrow> 'b label_expr \<Rightarrow> string list \<Rightarrow> row \<Rightarrow> fault + bool" where
  "eval ex e r = (case map_of (x_subst ex) e of Some v \<Rightarrow> Inr v | None \<Rightarrow> eval_node ex e r)"
| "eval_node ex (IntLit i txt) r = Inr (VInt i)"
| "eval_node ex (FloatLit f txt) r = Inr (VFloat f)"
| "eval_node ex (StringLit s) r = Inr (VStr s)"
| "eval_node ex (BoolLit b) r = Inr (VBool b)"
| "eval_node ex NullLit r = Inr VNull"
| "eval_node ex (Param p) r =
    (case map_of (x_params ex) p of Some v \<Rightarrow> Inr (normalize v)
     | None \<Rightarrow> raise_err ''ParameterMissing'' ''MissingParameter'' ''expected a parameter named %s'')"
| "eval_node ex (Ident x) r = row_var r x"
| "eval_node ex (ListLit es) r = bindE (mapE (\<lambda>e. eval ex e r) es) (\<lambda>vs. Inr (VList vs))"
| "eval_node ex (MapLit kes) r =
    bindE (mapE (\<lambda>ke. bindE (eval ex (snd ke) r) (\<lambda>v. Inr (fst ke, v))) kes) (\<lambda>kvs. Inr (VMap (mput_all kvs [])))"
| "eval_node ex (TypePredicate e ty neg) r = bindE (eval ex e r) (\<lambda>v. Inr (VBool (matchesVTypes v (parseVTypes ty) \<noteq> neg)))"
| "eval_node ex (Normalized e form neg) r = bindE (eval ex e r) (normalized_test (w_text (x_world ex)) form neg)"
| "eval_node ex (Property e k) r = bindE (eval ex e r) (\<lambda>v. val_property (x_world ex) v k)"
| "eval_node ex (Subscript e i) r = bindE (eval ex e r) (\<lambda>v. bindE (eval ex i r) (\<lambda>ix. subscript_of (x_world ex) v ix))"
| "eval_node ex (Slice e from to) r =
    bindE (eval ex e r) (\<lambda>v.
    bindE (case from of None \<Rightarrow> Inr None | Some a \<Rightarrow> bindE (eval ex a r) (\<lambda>x. Inr (Some x))) (\<lambda>lo.
    bindE (case to of None \<Rightarrow> Inr None | Some a \<Rightarrow> bindE (eval ex a r) (\<lambda>x. Inr (Some x))) (\<lambda>hi. slice_of v lo hi)))"
| "eval_node ex (Unary op e) r = bindE (eval ex e r) (unary_of op)"
| "eval_node ex (Binary op a b) r =
    (if op = OpAnd \<or> op = OpOr then
       bindE (eval ex a r) (\<lambda>l. bindE (asTri l []) (\<lambda>lt.
         case logic_left (op = OpAnd) lt of
           Some v \<Rightarrow> Inr v
         | None \<Rightarrow> bindE (eval ex b r) (\<lambda>rv. bindE (asTri rv []) (\<lambda>rt. Inr (logic_both (op = OpAnd) lt rt)))))
     else bindE (eval ex a r) (\<lambda>l. bindE (eval ex b r) (\<lambda>rv. binary_of (x_world ex) op l rv)))"
| "eval_node ex (Comparison es ops) r = bindE (mapE (\<lambda>e. eval ex e r) es) (\<lambda>vs. Inr (chain TriTrue ops vs))"
| "eval_node ex (IsNull e neg) r = bindE (eval ex e r) (\<lambda>v. Inr (VBool ((v = VNull) \<noteq> neg)))"
| "eval_node ex (HasLabels e le) r =
    bindE (eval ex e r) (\<lambda>v. bindE (label_set (x_world ex) v) (\<lambda>ls.
      case ls of None \<Rightarrow> Inr VNull | Some l \<Rightarrow> bindE (matchLabelExpr ex le l r) (\<lambda>b. Inr (VBool b))))"
| "eval_node ex (FuncCall ns f uniq star args) r =
    (let w = x_world ex; name = t_lower (w_text w) f in
     if isAggregate w ns f then
       (case map_of (x_agg ex) (FuncCall ns f uniq star args) of Some v \<Rightarrow> Inr v
        | None \<Rightarrow> raise_err ''SyntaxError'' ''InvalidAggregation'' ''invalid use of aggregate function %s'')
     else if ns = [] \<and> (name = ''linenumber'' \<or> name = ''file'') \<and> args = [] then
       Inr (mget (csv_variable name) r)
     else if ns \<noteq> [] then bindE (mapE (\<lambda>a. eval ex a r) args) (namespaced_call w ns f)
     else if name = ''exists'' \<and> length args = 1 then
       bindE (mapE (\<lambda>a. bindE (eval ex a r) (\<lambda>v. Inr (exists_value a v))) args) (\<lambda>vs. Inr (hd vs))
     else bindE (mapE (\<lambda>a. eval ex a r) args) (plain_call w name))"
| "eval_node ex (CaseExpr subj whens els) r =
    bindE (case subj of None \<Rightarrow> Inr None | Some s \<Rightarrow> bindE (eval ex s r) (\<lambda>v. Inr (Some v))) (\<lambda>sv. eval_whens ex sv whens els r)"
| "eval_node ex (ListComp x src wh proj) r =
    bindE (eval ex src r) (\<lambda>v. on_list v (\<lambda>l.
      bindE (mapE (\<lambda>el. let inner = mput x el r in
          bindE (case wh of None \<Rightarrow> Inr (VBool True) | Some c \<Rightarrow> eval ex c inner) (\<lambda>c.
            if \<not> is_true c then Inr None
            else (case proj of None \<Rightarrow> Inr (Some el) | Some p \<Rightarrow> bindE (eval ex p inner) (\<lambda>y. Inr (Some y))))) l)
        (\<lambda>ys. Inr (VList [y. Some y \<leftarrow> ys]))))"
| "eval_node ex (Quantifier k x src wh) r =
    bindE (eval ex src r) (\<lambda>v. on_list v (\<lambda>l.
      bindE (foldE (\<lambda>el n. bindE (case wh of None \<Rightarrow> Inr (VBool True) | Some c \<Rightarrow> eval ex c (mput x el r)) (\<lambda>c. count_truth c n)) l (0, 0, 0))
        (\<lambda>n. Inr (decide k n))))"
| "eval_node ex (Reduce acc ini x src e) r =
    bindE (eval ex ini r) (\<lambda>a. bindE (eval ex src r) (\<lambda>v. on_list v (\<lambda>l.
      foldE (\<lambda>el a. eval ex e (mput x el (mput acc a r))) l a)))"
| "eval_node ex (PatternComp p wh proj) r = x_patternComp ex p wh proj r"
| "eval_node ex (PatternExpr p) r = x_patternExpr ex p r"
| "eval_node ex (SubqueryExpr k b ps wh) r = x_subquery ex k b ps wh r"
| "eval_node ex (MapProjection e items) r =
    bindE (eval ex e r) (\<lambda>v.
      if v = VNull then Inr VNull
      else bindE (foldE (\<lambda>it out. case it of (k, key, value) \<Rightarrow>
          (case k of
             ProjProperty \<Rightarrow> bindE (val_property (x_world ex) v key) (\<lambda>y. Inr (mput key y out))
           | ProjLiteral \<Rightarrow> (case value of Some a \<Rightarrow> bindE (eval ex a r) (\<lambda>y. Inr (mput key y out)) | None \<Rightarrow> no_support ''expression %T'')
           | ProjVariable \<Rightarrow> bindE (row_var r key) (\<lambda>y. Inr (mput key y out))
           | ProjAll \<Rightarrow> bindE (all_props (x_world ex) v) (\<lambda>m. Inr (mput_all m out)))) items [])
        (\<lambda>m. Inr (VMap m)))"
| "eval_whens ex sv [] els r = (case els of None \<Rightarrow> Inr VNull | Some e \<Rightarrow> eval ex e r)"
| "eval_whens ex sv ((c, t) # ws) els r =
    bindE (eval ex c r) (\<lambda>cond.
      if (case sv of Some s \<Rightarrow> equals s cond = TriTrue | None \<Rightarrow> is_true cond) then eval ex t r
      else eval_whens ex sv ws els r)"
| "matchLabelExpr ex (LabelName name dyn) ls r =
    (case dyn of None \<Rightarrow> Inr (name \<in> set ls) | Some e \<Rightarrow> bindE (eval ex e r) (dynamic_label ls))"
| "matchLabelExpr ex LabelWildcard ls r = Inr (ls \<noteq> [])"
| "matchLabelExpr ex (LabelNot a) ls r = bindE (matchLabelExpr ex a ls r) (\<lambda>b. Inr (\<not> b))"
| "matchLabelExpr ex (LabelAnd a b) ls r = bindE (matchLabelExpr ex a ls r) (\<lambda>x. if x then matchLabelExpr ex b ls r else Inr False)"
| "matchLabelExpr ex (LabelOr a b) ls r = bindE (matchLabelExpr ex a ls r) (\<lambda>x. if x then Inr True else matchLabelExpr ex b ls r)"
  by pat_completeness auto
termination
  by (relation "measure (\<lambda>x. case x of
      Inl (Inl (_, e, _)) \<Rightarrow> 2 * size e + 1
    | Inl (Inr (_, e, _)) \<Rightarrow> 2 * size e
    | Inr (Inl (_, _, ws, els, _)) \<Rightarrow> 2 * (size_list (size_prod size size) ws + size_option size els) + 1
    | Inr (Inr (_, le, _, _)) \<Rightarrow> 2 * size le + 1)")
    (auto dest!: size_member [of _ _ size] size_member [of _ _ "size_prod (\<lambda>x. 0) size"]
      size_member [of _ _ "size_prod (\<lambda>x. 0) (size_prod (\<lambda>x. 0) (size_option size))"])

end
