(* ===== verification/EvalFacts.thy ===== *)
theory EvalFacts
  imports Eval
begin

text \<open>
  What evaluation guarantees: integer arithmetic is exact or reports an overflow, the connectives, chains
  of comparisons, membership and quantifiers follow three-valued logic, and an operand that decides a
  result hides the other one.
\<close>

section \<open>Integer arithmetic\<close>

definition checked :: "int \<Rightarrow> fault + int" where
  "checked z = (if in64 z then Inr z else intOverflow)"

lemma w64_offset: obtains k where "w64 z = z + 2 ^ 64 * k"
proof -
  have "w64 z = z + 2 ^ 64 * - ((z + 2 ^ 63) div 2 ^ 64)"
    unfolding w64_def minus_mult_div_eq_mod [symmetric] by simp
  then show ?thesis by (rule that)
qed

text \<open>A number out of range by less than one turn of the wheel.\<close>

lemma w64_above: "2 ^ 63 \<le> z \<Longrightarrow> z < 2 ^ 63 + 2 ^ 64 \<Longrightarrow> w64 z = z - 2 ^ 64"
  using w64_shift [of "z - 2 ^ 64" 1] by (simp add: w64_id in64_def)

lemma w64_below: "z < - (2 ^ 63) \<Longrightarrow> - (2 ^ 63) - 2 ^ 64 \<le> z \<Longrightarrow> w64 z = z + 2 ^ 64"
  using w64_shift [of "z + 2 ^ 64" "-1"] by (simp add: w64_id in64_def)

lemma int_sum_exact:
  assumes "in64 x" "in64 y"
  shows "int_sum x y = checked (x + y)"
proof -
  consider "in64 (x + y)" | "2 ^ 63 \<le> x + y" | "x + y < - (2 ^ 63)" by (fastforce simp: in64_def)
  then show ?thesis
  proof cases
    case 1
    then show ?thesis by (auto simp: int_sum_def checked_def w64_id Let_def)
  next
    case 2
    then show ?thesis using assms w64_above [of "x + y"] by (simp add: int_sum_def checked_def in64_def)
  next
    case 3
    then show ?thesis using assms w64_below [of "x + y"] by (simp add: int_sum_def checked_def in64_def)
  qed
qed

lemma int_diff_exact:
  assumes "in64 x" "in64 y"
  shows "int_diff x y = checked (x - y)"
proof -
  consider "in64 (x - y)" | "2 ^ 63 \<le> x - y" | "x - y < - (2 ^ 63)" by (fastforce simp: in64_def)
  then show ?thesis
  proof cases
    case 1
    then show ?thesis by (auto simp: int_diff_def checked_def w64_id Let_def)
  next
    case 2
    then show ?thesis using assms w64_above [of "x - y"] by (simp add: int_diff_def checked_def in64_def)
  next
    case 3
    then show ?thesis using assms w64_below [of "x - y"] by (simp add: int_diff_def checked_def in64_def)
  qed
qed

lemma smod_abs_less: "y \<noteq> 0 \<Longrightarrow> \<bar>p smod y\<bar> < \<bar>y\<bar>" for p y :: int
  by (simp add: signed_modulo_int_def abs_mult)

lemma sdiv_abs_le: "\<bar>p sdiv y\<bar> \<le> \<bar>p\<bar>" for p y :: int
proof -
  have "\<bar>p\<bar> div \<bar>y\<bar> \<le> \<bar>p\<bar>" using zdiv_mono2 [of "\<bar>p\<bar>" 1 "\<bar>y\<bar>"] by (cases "y = 0") auto
  moreover have "0 \<le> \<bar>p\<bar> div \<bar>y\<bar>" by (cases "y = 0") (simp_all add: pos_imp_zdiv_nonneg_iff)
  ultimately show ?thesis by (auto simp: signed_divide_int_def abs_mult abs_sgn_eq)
qed

text \<open>The product is checked by dividing it again.\<close>

lemma int_product_exact:
  assumes "in64 x" "in64 y"
  shows "int_product x y = checked (x * y)"
proof (cases "x = 0 \<or> y = 0")
  case True
  then show ?thesis by (auto simp: int_product_def checked_def in64_def)
next
  case False
  define p where "p = w64 (x * y)"
  show ?thesis
  proof (cases "in64 (x * y)")
    case True
    then have p: "p = x * y" by (simp add: p_def w64_id)
    have "(x * y) sdiv y = x" using False 
    proof -
      have "(x * y) sdiv y = (sgn x * \<bar>x\<bar>) * (sgn y * sgn y)" using False by (simp add: signed_divide_int_def abs_mult sgn_mult)
      then show ?thesis using False by (simp add: sgn_mult_abs)
    qed
    moreover have "\<not> (x = - (2 ^ 63) \<and> y = -1)" "\<not> (y = - (2 ^ 63) \<and> x = -1)" using True by (auto simp: in64_def)
    ultimately show ?thesis using False True assms(1) p unfolding int_product_def p_def [symmetric] Let_def
      by (auto simp: checked_def w64_id)
  next
    case out: False
    have "w64 (p sdiv y) \<noteq> x \<or> (x = - (2 ^ 63) \<and> y = -1)"
    proof (rule ccontr)
      assume "\<not> ?thesis"
      then have w: "w64 (p sdiv y) = x" "\<not> (x = - (2 ^ 63) \<and> y = -1)" by auto
      obtain k where k: "p = x * y + 2 ^ 64 * k" using w64_offset [of "x * y"] by (auto simp: p_def)
      have "k \<noteq> 0" using out k in64_w64 [of "x * y"] by (auto simp: p_def)
      have ip: "in64 p" by (simp add: p_def)
      have "in64 (p sdiv y)"
      proof (rule ccontr)
        assume "\<not> in64 (p sdiv y)"
        then have q: "p sdiv y = 2 ^ 63" using ip sdiv_abs_le [of p y] by (auto simp: in64_def)
        then have x: "x = - (2 ^ 63)" using w(1) by (simp add: w64_def)
        have "\<bar>p\<bar> div \<bar>y\<bar> = 2 ^ 63"
          using q False by (auto simp: signed_divide_int_def sgn_if split: if_splits) (smt (verit) pos_imp_zdiv_nonneg_iff)+
        moreover have "0 \<le> \<bar>p\<bar> mod \<bar>y\<bar>" using False by simp
        moreover have "\<bar>y\<bar> * (\<bar>p\<bar> div \<bar>y\<bar>) + \<bar>p\<bar> mod \<bar>y\<bar> = \<bar>p\<bar>" by (rule mult_div_mod_eq)
        ultimately have "2 ^ 63 * \<bar>y\<bar> \<le> \<bar>p\<bar>" by (simp only: mult.commute [of "\<bar>y\<bar>"])
        then have y: "\<bar>y\<bar> = 1" using ip False by (auto simp: in64_def)
        then have "p = x * y \<or> y = 1" using w(2) x by auto
        then show False using k \<open>k \<noteq> 0\<close> q ip y x by (auto simp: in64_def)
      qed
      then have "p sdiv y = x" using w(1) by (simp add: w64_id)
      then have "x * y + p smod y = p" using sdiv_mult_smod_eq [of p y] by simp
      then have small: "\<bar>2 ^ 64 * k\<bar> < \<bar>y\<bar>" using k smod_abs_less [of y p] False by simp
      have "2 ^ 64 \<le> \<bar>2 ^ 64 * k\<bar>" using \<open>k \<noteq> 0\<close> by (simp add: abs_mult)
      then have "2 ^ 64 < \<bar>y\<bar>" using small by (rule order_le_less_trans)
      then show False using assms(2) by (auto simp: in64_def)
    qed
    then show ?thesis using False out unfolding int_product_def p_def [symmetric] Let_def by (auto simp: checked_def)
  qed
qed

lemma int_quotient_exact:
  assumes "in64 x" "in64 y" "y \<noteq> 0"
  shows "int_quotient x y = checked (x sdiv y)"
proof (cases "x = - (2 ^ 63) \<and> y = -1")
  case True
  then show ?thesis by (simp add: int_quotient_def checked_def in64_def)
next
  case False
  have "in64 (x sdiv y)"
  proof (cases "y = -1")
    case True
    then show ?thesis using assms(1) False by (auto simp: in64_def)
  next
    case y: False
    have "x sdiv y \<noteq> 2 ^ 63"
    proof
      assume q: "x sdiv y = 2 ^ 63"
      have "x sdiv y * y + x smod y = x" by (rule sdiv_mult_smod_eq)
      then have "\<bar>2 ^ 63 * y\<bar> < \<bar>x\<bar> + \<bar>y\<bar>" using smod_abs_less [OF assms(3), of x] q by simp
      then have "2 ^ 63 * \<bar>y\<bar> < \<bar>x\<bar> + \<bar>y\<bar>" by (simp add: abs_mult)
      then have "\<bar>y\<bar> \<le> 1" using assms(1) by (auto simp: in64_def)
      then have "y = 1" using y assms(3) by auto
      then show False using q assms(1) by (simp add: in64_def)
    qed
    then show ?thesis using sdiv_abs_le [of x y] assms(1) by (auto simp: in64_def)
  qed
  then show ?thesis using False assms(3) unfolding int_quotient_def checked_def by auto
qed

lemma int_remainder_exact:
  assumes "in64 x" "in64 y" "y \<noteq> 0"
  shows "int_remainder x y = Inr (x smod y)" "in64 (x smod y)"
proof -
  show "int_remainder x y = Inr (x smod y)" using assms(3) by (auto simp: int_remainder_def signed_modulo_int_def)
  show "in64 (x smod y)" using smod_abs_less [OF assms(3), of x] assms(2) by (auto simp: in64_def)
qed

section \<open>Three-valued logic\<close>

text \<open>False is below null and null below true; conjunction is the smaller operand, disjunction the larger.\<close>

instantiation tri :: linorder
begin

fun tri_rank :: "tri \<Rightarrow> nat" where
  "tri_rank TriFalse = 0" | "tri_rank TriNull = 1" | "tri_rank TriTrue = 2"

definition less_eq_tri :: "tri \<Rightarrow> tri \<Rightarrow> bool" where "less_eq_tri a b \<longleftrightarrow> tri_rank a \<le> tri_rank b"
definition less_tri :: "tri \<Rightarrow> tri \<Rightarrow> bool" where "less_tri a b \<longleftrightarrow> tri_rank a < tri_rank b"

lemma tri_rank_inj: "tri_rank a = tri_rank b \<longleftrightarrow> a = b"
  by (cases a; cases b) simp_all

instance
  by standard (auto simp: less_eq_tri_def less_tri_def tri_rank_inj [symmetric])

end

lemmas tri_order = less_eq_tri_def less_tri_def min_def max_def

lemma tri_min_max [simp]:
  "min TriFalse t = TriFalse" "min t TriFalse = TriFalse" "min TriTrue t = t" "min t TriTrue = t"
  "max TriFalse t = t" "max t TriFalse = t" "max TriTrue t = TriTrue" "max t TriTrue = TriTrue"
  "min t t = t" "max t t = t"
  by (cases t; simp add: tri_order)+

lemma logic_both_min: "logic_left True lt = None \<Longrightarrow> logic_both True lt rt = tri_value (min lt rt)"
  by (cases lt; cases rt) (simp_all add: logic_left_def logic_both_def tri_order)

lemma logic_both_max: "logic_left False lt = None \<Longrightarrow> logic_both False lt rt = tri_value (max lt rt)"
  by (cases lt; cases rt) (simp_all add: logic_left_def logic_both_def tri_order)

lemma asTri_value [simp]: "asTri (tri_value t) s = Inr t"
  by (cases t) (simp_all add: asTri_def triOf_def)

text \<open>An expression as a truth value; the operator only shows in the text of the error.\<close>

definition truth :: "'b exec \<Rightarrow> 'b expr \<Rightarrow> row \<Rightarrow> fault + tri" where
  "truth ex e r = bindE (eval ex e r) (\<lambda>v. asTri v [])"

definition no_subst :: "'b exec \<Rightarrow> bool" where "no_subst ex \<longleftrightarrow> x_subst ex = []"

lemma eval_plain: "no_subst ex \<Longrightarrow> eval ex e r = eval_node ex e r"
  by (simp add: no_subst_def)

declare eval.simps [simp del]

lemma asTri_text: "asTri v s = asTri v []"
  by (simp add: asTri_def split: val.split)

lemma eval_logic:
  assumes "no_subst ex" "op = OpAnd \<or> op = OpOr"
  shows "eval ex (Binary op a b) r = bindE (truth ex a r) (\<lambda>lt.
    case logic_left (op = OpAnd) lt of Some v \<Rightarrow> Inr v
    | None \<Rightarrow> bindE (truth ex b r) (\<lambda>rt. Inr (logic_both (op = OpAnd) lt rt)))"
  using assms(2) unfolding eval_plain [OF assms(1), of "Binary op a b"] truth_def bindE_assoc by simp

lemma eval_and:
  assumes "no_subst ex"
  shows "eval ex (Binary OpAnd a b) r =
    bindE (truth ex a r) (\<lambda>x. if x = TriFalse then Inr (VBool False) else bindE (truth ex b r) (\<lambda>y. Inr (tri_value (min x y))))"
proof (cases "truth ex a r")
  case (Inr x)
  have "logic_left True x = (if x = TriFalse then Some (VBool False) else None)" by (simp add: logic_left_def)
  then show ?thesis using Inr logic_both_min [of x] by (simp add: eval_logic [OF assms])
qed (simp add: eval_logic [OF assms])

lemma eval_or:
  assumes "no_subst ex"
  shows "eval ex (Binary OpOr a b) r =
    bindE (truth ex a r) (\<lambda>x. if x = TriTrue then Inr (VBool True) else bindE (truth ex b r) (\<lambda>y. Inr (tri_value (max x y))))"
proof (cases "truth ex a r")
  case (Inr x)
  have "logic_left False x = (if x = TriTrue then Some (VBool True) else None)" by (simp add: logic_left_def)
  then show ?thesis using Inr logic_both_max [of x] by (simp add: eval_logic [OF assms])
qed (simp add: eval_logic [OF assms])

lemma eval_not: "no_subst ex \<Longrightarrow> eval ex (Unary OpNot a) r = bindE (truth ex a r) (\<lambda>x. Inr (tri_value (tri_not x)))"
proof -
  have u: "unary_of OpNot v = bindE (asTri v []) (\<lambda>x. Inr (tri_value (tri_not x)))" for v
    unfolding unary_of_def asTri_text [of v "''NOT''"]
    by (cases "asTri v []") (auto simp: tri_not_def split: tri.splits)
  have "unary_of OpNot = (\<lambda>v. bindE (asTri v []) (\<lambda>x. Inr (tri_value (tri_not x))))" by (rule ext) (rule u)
  then show "no_subst ex \<Longrightarrow> ?thesis" by (simp add: eval_plain truth_def bindE_assoc)
qed

lemma truth_eval: "truth ex e r = bindE (eval ex e r) (\<lambda>v. asTri v [])"
  by (rule truth_def)

lemma tri_not_min: "tri_not (min x y) = max (tri_not x) (tri_not y)"
  by (cases x; cases y) (simp_all add: tri_not_def tri_order)

text \<open>De Morgan's law holds of whole expressions: values, errors and operands never reached included.\<close>

lemma de_morgan:
  assumes "no_subst ex"
  shows "eval ex (Unary OpNot (Binary OpAnd a b)) r = eval ex (Binary OpOr (Unary OpNot a) (Unary OpNot b)) r"
proof -
  have n: "truth ex (Unary OpNot e) r = bindE (truth ex e r) (\<lambda>x. Inr (tri_not x))" for e
    unfolding truth_eval [of ex "Unary OpNot e"] eval_not [OF assms] bindE_assoc by simp
  show ?thesis
    unfolding eval_not [OF assms] eval_or [OF assms] n truth_eval [of ex "Binary OpAnd a b"] eval_and [OF assms] bindE_assoc
    by (cases "truth ex a r"; cases "truth ex b r") (auto simp: tri_not_min tri_not_def asTri_def triOf_def split: tri.splits)
qed

section \<open>Chains and membership\<close>

fun pairwise_ops :: "compare_op list \<Rightarrow> val list \<Rightarrow> tri list" where
  "pairwise_ops (op # ops) (a # b # vs) = compareOp op a b # pairwise_ops ops (b # vs)"
| "pairwise_ops ops vs = []"

definition tri_conj :: "tri list \<Rightarrow> tri" where "tri_conj ts = foldr min ts TriTrue"
definition tri_disj :: "tri list \<Rightarrow> tri" where "tri_disj ts = foldr max ts TriFalse"

lemma tri_conj_simps [simp]: "tri_conj [] = TriTrue" "tri_conj (t # ts) = min t (tri_conj ts)"
  by (simp_all add: tri_conj_def)

lemma tri_disj_simps [simp]: "tri_disj [] = TriFalse" "tri_disj (t # ts) = max t (tri_disj ts)"
  by (simp_all add: tri_disj_def)

lemma chain_conj: "res \<noteq> TriFalse \<Longrightarrow> chain res ops vs = tri_value (min res (tri_conj (pairwise_ops ops vs)))"
proof (induction res ops vs rule: chain.induct)
  case (1 res op ops a b vs)
  then show ?case by (cases "compareOp op a b"; cases res) (auto simp: min.commute min.left_commute ac_simps)
qed simp_all

lemma in_list_disj: "in_list l list = tri_value (tri_disj (map (equals l) list))"
proof -
  have d: "tri_disj ts = (if TriTrue \<in> set ts then TriTrue else if TriNull \<in> set ts then TriNull else TriFalse)" for ts
  proof (induction ts)
    case (Cons t ts)
    then show ?case by (cases t) (auto simp: tri_order)
  qed simp
  show ?thesis by (simp add: in_list_def d)
qed

section \<open>Quantifiers\<close>

text \<open>What a quantifier says of booleans, and the booleans that truth values may stand for.\<close>

fun holds_of :: "quantifier_kind \<Rightarrow> bool list \<Rightarrow> bool" where
  "holds_of QuantAll bs = list_all (\<lambda>b. b) bs"
| "holds_of QuantAny bs = list_ex (\<lambda>b. b) bs"
| "holds_of QuantNone bs = (\<not> list_ex (\<lambda>b. b) bs)"
| "holds_of QuantSingle bs = (length (filter (\<lambda>b. b) bs) = 1)"

definition completes :: "tri list \<Rightarrow> bool list \<Rightarrow> bool" where
  "completes ts bs \<longleftrightarrow> list_all2 (\<lambda>t b. t = TriNull \<or> t = triOf b) ts bs"

definition n_true :: "tri list \<Rightarrow> nat" where "n_true ts = length (filter (\<lambda>t. t = TriTrue) ts)"
definition n_false :: "tri list \<Rightarrow> nat" where "n_false ts = length (filter (\<lambda>t. t = TriFalse) ts)"
definition n_null :: "tri list \<Rightarrow> nat" where "n_null ts = length (filter (\<lambda>t. t = TriNull) ts)"

abbreviation trues :: "bool list \<Rightarrow> nat" where "trues bs \<equiv> length (filter (\<lambda>b. b) bs)"

lemma n_Cons [simp]:
  "n_true (t # ts) = (if t = TriTrue then Suc (n_true ts) else n_true ts)"
  "n_false (t # ts) = (if t = TriFalse then Suc (n_false ts) else n_false ts)"
  "n_null (t # ts) = (if t = TriNull then Suc (n_null ts) else n_null ts)"
  by (simp_all add: n_true_def n_false_def n_null_def)

lemma n_Nil [simp]: "n_true [] = 0" "n_false [] = 0" "n_null [] = 0"
  by (simp_all add: n_true_def n_false_def n_null_def)

lemma completes_bounds:
  "completes ts bs \<Longrightarrow> n_true ts \<le> trues bs \<and> trues bs \<le> n_true ts + n_null ts \<and> length bs = n_true ts + n_null ts + n_false ts"
proof (induction ts arbitrary: bs)
  case (Cons t ts)
  then obtain b bs' where "bs = b # bs'" "completes ts bs'" "t = TriNull \<or> t = triOf b"
    by (auto simp: completes_def list_all2_Cons1)
  then show ?case using Cons.IH [of bs'] by (auto simp: triOf_def)
qed (simp add: completes_def)

lemma completes_exists: "n_true ts \<le> n \<Longrightarrow> n \<le> n_true ts + n_null ts \<Longrightarrow> \<exists>bs. completes ts bs \<and> trues bs = n"
proof (induction ts arbitrary: n)
  case (Cons t ts)
  show ?case
  proof (cases "t = TriTrue \<or> t = TriNull \<and> n_true ts < n")
    case True
    then obtain m where m: "n = Suc m" using Cons.prems by (cases n) auto
    obtain bs where "completes ts bs" "trues bs = m" using Cons.IH [of m] Cons.prems True m by (auto split: if_splits)
    then show ?thesis using True m by (intro exI [of _ "True # bs"]) (auto simp: completes_def triOf_def)
  next
    case False
    then have "t = TriFalse \<or> t = TriNull" by (cases t) auto
    moreover obtain bs where "completes ts bs" "trues bs = n" using Cons.IH [of n] Cons.prems False calculation by auto
    ultimately show ?thesis by (intro exI [of _ "False # bs"]) (auto simp: completes_def triOf_def)
  qed
qed (simp add: completes_def)

lemma trues_all: "list_all (\<lambda>b. b) bs \<longleftrightarrow> trues bs = length bs"
proof (induction bs)
  case (Cons b bs)
  have "trues bs \<le> length bs" by (rule length_filter_le)
  with Cons show ?case by (cases b; simp del: length_filter_le)
qed simp

lemma trues_ex: "list_ex (\<lambda>b. b) bs \<longleftrightarrow> 0 < trues bs"
  by (induction bs) auto

lemma holds_of_trues: "completes ts bs \<Longrightarrow> holds_of k bs =
  (case k of QuantAll \<Rightarrow> trues bs = n_true ts + n_null ts + n_false ts | QuantAny \<Rightarrow> 0 < trues bs | QuantNone \<Rightarrow> trues bs = 0
   | QuantSingle \<Rightarrow> trues bs = 1)"
  using completes_bounds [of ts bs] by (cases k) (simp_all add: trues_all trues_ex)

text \<open>
  A quantifier gives a boolean exactly when every choice of booleans for the nulls gives it, and null
  when the choice matters.
\<close>

lemma decide_completions:
  "decide k (n_true ts, n_false ts, n_null ts) = VBool b \<longleftrightarrow> (\<forall>bs. completes ts bs \<longrightarrow> holds_of k bs = b)"
proof -
  let ?t = "n_true ts" and ?u = "n_null ts" and ?f = "n_false ts"
  define P where "P = (\<lambda>n :: nat. case k of QuantAll \<Rightarrow> n = ?t + ?u + ?f | QuantAny \<Rightarrow> 0 < n | QuantNone \<Rightarrow> n = 0 | QuantSingle \<Rightarrow> n = 1)"
  have "(\<forall>bs. completes ts bs \<longrightarrow> holds_of k bs = b) \<longleftrightarrow> (\<forall>n. ?t \<le> n \<and> n \<le> ?t + ?u \<longrightarrow> P n = b)"
    using completes_bounds completes_exists [of ts] by (auto simp: holds_of_trues P_def)
  also have "\<dots> \<longleftrightarrow> decide k (?t, ?f, ?u) = VBool b"
  proof -
    have ends: "(\<forall>n. ?t \<le> n \<and> n \<le> ?t + ?u \<longrightarrow> P n = b) \<Longrightarrow> P ?t = b \<and> P (?t + ?u) = b \<and> (0 < ?u \<longrightarrow> P (?t + 1) = b)" by auto
    show ?thesis
    proof (cases k)
      case QuantAll
      then show ?thesis using ends by (cases b) (auto simp: decide_def P_def split: if_splits)
    next
      case QuantAny
      then show ?thesis using ends by (cases b) (auto simp: decide_def P_def split: if_splits)
    next
      case QuantNone
      then show ?thesis using ends by (cases b) (auto simp: decide_def P_def split: if_splits)
    next
      case QuantSingle
      then show ?thesis using ends by (cases b) (auto simp: decide_def P_def split: if_splits)
    qed
  qed
  finally show ?thesis by simp
qed

lemma decide_bool_or_null: "(\<exists>b. decide k n = VBool b) \<or> decide k n = VNull"
  by (cases n; cases k) (auto simp: decide_def)

lemma count_fold:
  assumes "list_all2 (\<lambda>el t. f el = Inr (tri_value t)) l ts"
  shows "foldE (\<lambda>el n. bindE (f el) (\<lambda>c. count_truth c n)) l (a, b, c) = Inr (n_true ts + a, n_false ts + b, n_null ts + c)"
  using assms
proof (induction l ts arbitrary: a b c rule: list_all2_induct)
  case (Cons x xs t ts)
  then show ?case by (cases t) (simp_all add: count_truth_def)
qed simp

lemma eval_quantifier:
  assumes "no_subst ex" "eval ex src r = Inr (VList l)"
    "list_all2 (\<lambda>el t. eval ex p (mput x el r) = Inr (tri_value t)) l ts"
  shows "eval ex (Quantifier k x src (Some p)) r = Inr (decide k (n_true ts, n_false ts, n_null ts))"
  using assms count_fold [OF assms(3), of 0 0 0] by (simp add: eval_plain [of ex "Quantifier k x src (Some p)"] on_list_def as_list_def)

end
