(* ===== verification/JsonText.thy ===== *)
theory JsonText
  imports Functions
begin

text \<open>
  The texts of JSON as \<open>encoding/json\<close> writes and reads them: strings with their escapes, and the number
  literals of its strict grammar. A valid UTF-8 text is read back from the string written for it.
\<close>

section \<open>Characters of several bytes\<close>

lemma fields2:
  fixes x y :: nat
  assumes "y < 64"
  shows "(x * 64 + y) div 64 = x" "(x * 64 + y) mod 64 = y"
  using assms by simp_all

lemma fields3:
  fixes x y z :: nat
  assumes "y < 64" "z < 64"
  shows "(x * 4096 + y * 64 + z) div 4096 = x" "(x * 4096 + y * 64 + z) div 64 mod 64 = y" "(x * 4096 + y * 64 + z) mod 64 = z"
proof -
  have e: "x * 4096 + y * 64 + z = (x * 64 + y) * 64 + z" by simp
  have q: "(x * 4096 + y * 64 + z) div 64 = x * 64 + y" unfolding e using assms(2) by (rule fields2(1))
  have "(x * 4096 + y * 64 + z) div 4096 = (x * 4096 + y * 64 + z) div 64 div 64" by (simp add: div_mult2_eq [symmetric])
  then show "(x * 4096 + y * 64 + z) div 4096 = x" unfolding q fields2(1) [OF assms(1)] .
  show "(x * 4096 + y * 64 + z) div 64 mod 64 = y" unfolding q by (rule fields2(2) [OF assms(1)])
  show "(x * 4096 + y * 64 + z) mod 64 = z" unfolding e by (rule fields2(2) [OF assms(2)])
qed

lemma fields4:
  fixes w x y z :: nat
  assumes "x < 64" "y < 64" "z < 64"
  shows "(w * 262144 + x * 4096 + y * 64 + z) div 262144 = w" "(w * 262144 + x * 4096 + y * 64 + z) div 4096 mod 64 = x"
    "(w * 262144 + x * 4096 + y * 64 + z) div 64 mod 64 = y" "(w * 262144 + x * 4096 + y * 64 + z) mod 64 = z"
proof -
  have e: "w * 262144 + x * 4096 + y * 64 + z = (w * 64 + x) * 4096 + y * 64 + z" by simp
  note f = fields3 [OF assms(2,3), of "w * 64 + x"]
  have "(w * 262144 + x * 4096 + y * 64 + z) div 262144 = (w * 262144 + x * 4096 + y * 64 + z) div 4096 div 64"
    by (simp add: div_mult2_eq [symmetric])
  then show "(w * 262144 + x * 4096 + y * 64 + z) div 262144 = w" unfolding e f(1) fields2(1) [OF assms(1)] .
  show "(w * 262144 + x * 4096 + y * 64 + z) div 4096 mod 64 = x" unfolding e f(1) by (rule fields2(2) [OF assms(1)])
  show "(w * 262144 + x * 4096 + y * 64 + z) div 64 mod 64 = y" unfolding e by (rule f(2))
  show "(w * 262144 + x * 4096 + y * 64 + z) mod 64 = z" unfolding e by (rule f(3))
qed

lemma encode_two:
  assumes "2 \<le> x" "x < 32" "y < 64"
  shows "encode_rune (x * 64 + y) = [char_of (0xC0 + x), char_of (0x80 + y)]"
proof -
  have "128 \<le> x * 64 + y" "x * 64 + y < 2048" using assms by linarith+
  then show ?thesis using assms(3) by (simp add: encode_rune_def is_surrogate_def maxRune_def fields2 [OF assms(3)])
qed

lemma encode_three:
  assumes "y < 64" "z < 64" "2048 \<le> x * 4096 + y * 64 + z" "x < 16" "\<not> is_surrogate (x * 4096 + y * 64 + z)"
  shows "encode_rune (x * 4096 + y * 64 + z) = [char_of (0xE0 + x), char_of (0x80 + y), char_of (0x80 + z)]"
proof -
  have "x * 4096 + y * 64 + z < 65536" using assms by linarith
  then show ?thesis using assms(3,5) by (simp add: encode_rune_def maxRune_def fields3 [OF assms(1,2)])
qed

lemma encode_four:
  assumes "x < 64" "y < 64" "z < 64" "65536 \<le> w * 262144 + x * 4096 + y * 64 + z" "w * 262144 + x * 4096 + y * 64 + z \<le> 1114111"
  shows "encode_rune (w * 262144 + x * 4096 + y * 64 + z)
    = [char_of (0xF0 + w), char_of (0x80 + x), char_of (0x80 + y), char_of (0x80 + z)]"
  using assms(4,5) by (simp add: encode_rune_def maxRune_def is_surrogate_def fields4 [OF assms(1-3)])

lemma lead_cases:
  "lead_info b = Some (n, lo, hi) \<Longrightarrow>
    (n = 2 \<and> 0xC2 \<le> b \<and> b \<le> 0xDF \<and> lo = 0x80 \<and> hi = 0xBF)
  \<or> (n = 3 \<and> 0xE0 \<le> b \<and> b \<le> 0xEF \<and> 0x80 \<le> lo \<and> hi \<le> 0xBF \<and> (b = 0xE0 \<longrightarrow> 0xA0 \<le> lo) \<and> (b = 0xED \<longrightarrow> hi \<le> 0x9F))
  \<or> (n = 4 \<and> 0xF0 \<le> b \<and> b \<le> 0xF4 \<and> 0x80 \<le> lo \<and> hi \<le> 0xBF \<and> (b = 0xF0 \<longrightarrow> 0x90 \<le> lo) \<and> (b = 0xF4 \<longrightarrow> hi \<le> 0x8F))"
  unfolding lead_info_def by (simp split: if_split_asm)

lemma char_byte [simp]: "char_of (byte c) = c"
  by (simp add: byte_def)

lemma low_bits:
  fixes b k m :: nat
  assumes "k \<le> b" "b < k + m" "m dvd k"
  shows "b mod m = b - k"
proof -
  have "b mod m = (b - k + k) mod m" using assms(1) by simp
  also have "\<dots> = (b - k) mod m" using assms(3) by (metis add.right_neutral dvd_imp_mod_0 mod_add_right_eq)
  finally show ?thesis using assms by simp
qed

lemma cont_bits: "is_cont b \<Longrightarrow> b mod 64 = b - 0x80 \<and> b - 0x80 < 64 \<and> 0x80 + (b - 0x80) = b"
  using low_bits [of "0x80" b 64] by (auto simp: is_cont_def)

definition high :: "string \<Rightarrow> bool" where
  "high s \<longleftrightarrow> list_all (\<lambda>c. 0x80 \<le> byte c) s"

text \<open>A character of several bytes: its bytes, and that decoding looks at nothing else and encoding gives them back.\<close>

definition wide :: "string \<Rightarrow> rune \<Rightarrow> bool" where
  "wide p r \<longleftrightarrow> p \<noteq> [] \<and> high p \<and> encode_rune r = p \<and> (\<forall>t. decode_rune (p @ t) = (r, length p))"

lemma wide_two:
  assumes "0xC2 \<le> byte b" "byte b \<le> 0xDF" "is_cont (byte c)"
  shows "wide [b, c] (byte b mod 32 * 64 + byte c mod 64)"
proof -
  have m: "byte b mod 32 = byte b - 0xC0" using low_bits [of "0xC0" "byte b" 32] assms by simp
  have "2 \<le> byte b - 0xC0" "byte b - 0xC0 < 32" "0xC0 + (byte b - 0xC0) = byte b" using assms(1,2) by linarith+
  then have "encode_rune (byte b mod 32 * 64 + byte c mod 64) = [b, c]"
    using cont_bits [OF assms(3)] by (simp only: m encode_two char_byte)
  moreover have "lead_info (byte b) = Some (2, 0x80, 0xBF)" using assms(1,2) by (simp add: lead_info_def)
  ultimately show ?thesis using assms by (simp add: wide_def high_def decode_rune_def is_cont_def)
qed

lemma wide_three:
  assumes "lead_info (byte b) = Some (3, lo, hi)" "lo \<le> byte c" "byte c \<le> hi" "is_cont (byte d)"
  shows "wide [b, c, d] (byte b mod 16 * 4096 + byte c mod 64 * 64 + byte d mod 64)"
proof -
  have b: "0xE0 \<le> byte b" "byte b \<le> 0xEF" "0x80 \<le> lo" "hi \<le> 0xBF" "byte b = 0xE0 \<longrightarrow> 0xA0 \<le> lo" "byte b = 0xED \<longrightarrow> hi \<le> 0x9F"
    using lead_cases [OF assms(1)] by simp_all
  have c: "is_cont (byte c)" using assms b by (simp add: is_cont_def)
  define x y z where "x = byte b - 0xE0" and "y = byte c - 0x80" and "z = byte d - 0x80"
  have m: "byte b mod 16 = x" using low_bits [of "0xE0" "byte b" 16] b by (simp add: x_def)
  have xb: "x < 16" "0xE0 + x = byte b" using b by (simp_all add: x_def)
  have yc: "byte c mod 64 = y" "y < 64" "0x80 + y = byte c" using cont_bits [OF c] by (simp_all add: y_def)
  have zd: "byte d mod 64 = z" "z < 64" "0x80 + z = byte d" using cont_bits [OF assms(4)] by (simp_all add: z_def)
  have big: "2048 \<le> x * 4096 + y * 64 + z"
  proof (cases "x = 0")
    case True
    then have "32 \<le> y" using b(1,5) assms(2) xb yc by simp
    then show ?thesis using True by simp
  qed simp
  have ns: "\<not> is_surrogate (x * 4096 + y * 64 + z)"
  proof (cases "x = 13")
    case True
    then have "y < 32" using b(6) assms(3) xb yc by simp
    then show ?thesis using True zd by (simp add: is_surrogate_def)
  next
    case False
    then have "x \<le> 12 \<or> 14 \<le> x" by linarith
    then show ?thesis using yc zd by (auto simp: is_surrogate_def)
  qed
  have "encode_rune (x * 4096 + y * 64 + z) = [b, c, d]"
    using encode_three [OF yc(2) zd(2) big xb(1) ns] by (simp add: xb yc zd)
  then show ?thesis using assms(1,2,3) b c assms(4) unfolding m yc(1) zd(1)
    by (simp add: wide_def high_def decode_rune_def is_cont_def m yc zd)
qed

lemma wide_four:
  assumes "lead_info (byte b) = Some (4, lo, hi)" "lo \<le> byte c" "byte c \<le> hi" "is_cont (byte d)" "is_cont (byte e)"
  shows "wide [b, c, d, e] (byte b mod 8 * 262144 + byte c mod 64 * 4096 + byte d mod 64 * 64 + byte e mod 64)"
proof -
  have b: "0xF0 \<le> byte b" "byte b \<le> 0xF4" "0x80 \<le> lo" "hi \<le> 0xBF" "byte b = 0xF0 \<longrightarrow> 0x90 \<le> lo" "byte b = 0xF4 \<longrightarrow> hi \<le> 0x8F"
    using lead_cases [OF assms(1)] by simp_all
  have c: "is_cont (byte c)" using assms b by (simp add: is_cont_def)
  define w x y z where "w = byte b - 0xF0" and "x = byte c - 0x80" and "y = byte d - 0x80" and "z = byte e - 0x80"
  have m: "byte b mod 8 = w" using low_bits [of "0xF0" "byte b" 8] b by (simp add: w_def)
  have wb: "w \<le> 4" "0xF0 + w = byte b" using b by (simp_all add: w_def)
  have xc: "byte c mod 64 = x" "x < 64" "0x80 + x = byte c" using cont_bits [OF c] by (simp_all add: x_def)
  have yd: "byte d mod 64 = y" "y < 64" "0x80 + y = byte d" using cont_bits [OF assms(4)] by (simp_all add: y_def)
  have ze: "byte e mod 64 = z" "z < 64" "0x80 + z = byte e" using cont_bits [OF assms(5)] by (simp_all add: z_def)
  have big: "65536 \<le> w * 262144 + x * 4096 + y * 64 + z"
  proof (cases "w = 0")
    case True
    then have "16 \<le> x" using b(5) assms(2) wb xc by simp
    then show ?thesis using True by simp
  qed simp
  have small: "w * 262144 + x * 4096 + y * 64 + z \<le> 1114111"
  proof (cases "w = 4")
    case True
    then have "x < 16" using b(6) assms(3) wb xc by simp
    then show ?thesis using True yd ze by simp
  next
    case False
    then have "w \<le> 3" using wb by simp
    then show ?thesis using xc yd ze by linarith
  qed
  have "encode_rune (w * 262144 + x * 4096 + y * 64 + z) = [b, c, d, e]"
    using encode_four [OF xc(2) yd(2) ze(2) big small] by (simp add: wb xc yd ze)
  then show ?thesis using assms(1,2,3) b c assms(4,5) unfolding m xc(1) yd(1) ze(1)
    by (simp add: wide_def high_def decode_rune_def is_cont_def m xc yd ze numeral_2_eq_2)
qed

lemma decode_wide:
  assumes "decode_rune s = (r, w)" "1 < w"
  obtains p t where "s = p @ t" "length p = w" "wide p r"
proof -
  obtain b u where s: "s = b # u" using assms by (cases s) (auto simp: decode_rune_def)
  have big: "\<not> byte b < 0x80" using assms by (auto simp: decode_rune_def s)
  obtain n lo hi where l: "lead_info (byte b) = Some (n, lo, hi)"
    using assms big by (cases "lead_info (byte b)") (auto simp: decode_rune_def s)
  have ok: "\<not> (length u < n - 1 \<or> hd (map byte u) < lo \<or> hi < hd (map byte u) \<or> \<not> list_all is_cont (take (n - 2) (tl (map byte u))))"
  proof
    assume "length u < n - 1 \<or> hd (map byte u) < lo \<or> hi < hd (map byte u) \<or> \<not> list_all is_cont (take (n - 2) (tl (map byte u)))"
    then have "decode_rune s = (runeError, 1)" using big by (simp add: decode_rune_def s l)
    then show False using assms by simp
  qed
  consider "n = 2" | "n = 3" | "n = 4" using lead_info_n [OF l] by blast
  then show thesis
  proof cases
    case 1
    then obtain c t where u: "u = c # t" using ok by (cases u) auto
    have "lo = 0x80 \<and> hi = 0xBF" "0xC2 \<le> byte b" "byte b \<le> 0xDF" using lead_cases [OF l] 1 by auto
    then have w: "wide [b, c] (byte b mod 32 * 64 + byte c mod 64)"
      using ok u by (intro wide_two) (simp_all add: is_cont_def not_less)
    then have "decode_rune s = (byte b mod 32 * 64 + byte c mod 64, 2)" by (simp add: wide_def s u)
    then show thesis using that [of "[b, c]" t] w assms(1) by (simp add: s u)
  next
    case 2
    then obtain c d t where u: "u = c # d # t" using ok by (cases u; cases "tl u") auto
    have w: "wide [b, c, d] (byte b mod 16 * 4096 + byte c mod 64 * 64 + byte d mod 64)"
      using ok l 2 u by (intro wide_three [of b lo hi c d]) (simp_all add: not_less)
    then have "decode_rune s = (byte b mod 16 * 4096 + byte c mod 64 * 64 + byte d mod 64, 3)" by (simp add: wide_def s u)
    then show thesis using that [of "[b, c, d]" t] w assms(1) by (simp add: s u)
  next
    case 3
    then obtain c d e t where u: "u = c # d # e # t" using ok by (cases u; cases "tl u"; cases "tl (tl u)") auto
    have w: "wide [b, c, d, e] (byte b mod 8 * 262144 + byte c mod 64 * 4096 + byte d mod 64 * 64 + byte e mod 64)"
      using ok l 3 u by (intro wide_four [of b lo hi c d e]) (simp_all add: not_less numeral_2_eq_2)
    then have "decode_rune s = (byte b mod 8 * 262144 + byte c mod 64 * 4096 + byte d mod 64 * 64 + byte e mod 64, 4)"
      by (simp add: wide_def s u)
    then show thesis using that [of "[b, c, d, e]" t] w assms(1) by (simp add: s u)
  qed
qed

text \<open>A valid text is a chain of ASCII bytes and wide characters.\<close>

lemma valid_utf8_induct [consumes 1, case_names Nil ascii wide]:
  assumes "valid_utf8 s" "P []"
    and "\<And>c s. byte c < 0x80 \<Longrightarrow> valid_utf8 s \<Longrightarrow> P s \<Longrightarrow> P (c # s)"
    and "\<And>p r s. wide p r \<Longrightarrow> valid_utf8 s \<Longrightarrow> P s \<Longrightarrow> P (p @ s)"
  shows "P s"
  using assms(1)
proof (induction s rule: length_induct)
  case (1 s)
  show ?case
  proof (cases s)
    case (Cons c u)
    obtain r w where d: "decode_rune (c # u) = (r, w)" by (cases "decode_rune (c # u)")
    have v: "\<not> (r = runeError \<and> w \<le> 1)" "valid_utf8 (drop (w - 1) u)"
      using 1(2) by (auto simp: Cons d split: if_splits)
    show ?thesis
    proof (cases "1 < w")
      case True
      then obtain p t where p: "c # u = p @ t" "length p = w" "wide p r" using decode_wide [OF d] by blast
      then have "t = drop (w - 1) u" using True by (cases p) auto
      then have "valid_utf8 t" "length t < length s" using v True p by (auto simp: Cons wide_def)
      then show ?thesis using assms(4) [OF p(3)] 1 by (simp add: Cons p)
    next
      case False
      have "byte c < 0x80" using v(1) False d
        by (rule_tac ccontr) (auto simp: decode_rune_def split: option.splits prod.splits if_splits dest!: lead_info_n)
      then show ?thesis using assms(3) 1 v(2) False by (auto simp: Cons)
    qed
  qed (simp add: assms)
qed

lemma explode_step:
  "explode_text [] = []"
  "byte c < 0x80 \<Longrightarrow> explode_text (c # s) = [c] # explode_text s"
  "wide p r \<Longrightarrow> explode_text (p @ s) = p # explode_text s"
  by (simp_all add: explode_text.simps [of "[]"] explode_text.simps [of "c # s"] explode_text.simps [of "p @ s"]
      decode_ascii wide_def)

section \<open>Strings\<close>

text \<open>\<open>json.Marshal\<close> of a string: its characters, escaped where JSON or HTML needs it, between quotes.\<close>

definition hex_char :: "nat \<Rightarrow> char" where
  "hex_char n = (if n < 10 then char_of (48 + n) else char_of (87 + n))"

definition short_escape :: "char \<Rightarrow> char option" where
  "short_escape c =
    (if c = CHR 0x22 \<or> c = CHR 0x5C then Some c
     else if c = CHR 0x08 then Some (CHR ''b'')
     else if c = CHR 0x0C then Some (CHR ''f'')
     else if c = CHR 0x0A then Some (CHR ''n'')
     else if c = CHR 0x0D then Some (CHR ''r'')
     else if c = CHR 0x09 then Some (CHR ''t'')
     else None)"

definition json_ascii :: "char \<Rightarrow> string" where
  "json_ascii c = (case short_escape c of
       Some e \<Rightarrow> [CHR 0x5C, e]
     | None \<Rightarrow>
         if byte c < 0x20 \<or> c = CHR ''<'' \<or> c = CHR ''>'' \<or> c = CHR ''&''
         then CHR 0x5C # ''u00'' @ [hex_char (byte c div 16), hex_char (byte c mod 16)]
         else [c])"

definition json_piece :: "string \<Rightarrow> string" where
  "json_piece p = (case decode_rune p of (r, w) \<Rightarrow>
     if w = 1 \<and> byte (hd p) < 0x80 then json_ascii (hd p)
     else if w = 1 then CHR 0x5C # ''ufffd''
     else if r = 0x2028 then CHR 0x5C # ''u2028''
     else if r = 0x2029 then CHR 0x5C # ''u2029''
     else p)"

definition json_body :: "string \<Rightarrow> string" where
  "json_body s = concat (map json_piece (explode_text s))"

definition json_string :: "string \<Rightarrow> string" where
  "json_string s = CHR 0x22 # json_body s @ [CHR 0x22]"

text \<open>\<open>json.Unmarshal\<close> of what stands between the quotes.\<close>

definition simple_escape :: "char \<Rightarrow> char option" where
  "simple_escape c =
    (if c = CHR 0x22 \<or> c = CHR 0x5C \<or> c = CHR ''/'' then Some c
     else if c = CHR ''b'' then Some (CHR 0x08)
     else if c = CHR ''f'' then Some (CHR 0x0C)
     else if c = CHR ''n'' then Some (CHR 0x0A)
     else if c = CHR ''r'' then Some (CHR 0x0D)
     else if c = CHR ''t'' then Some (CHR 0x09)
     else None)"

function json_unescape :: "string \<Rightarrow> string option" where
  "json_unescape [] = Some []"
| "json_unescape (c # t) =
    (if c = CHR 0x5C then
       (case t of [] \<Rightarrow> None | e # u \<Rightarrow>
         (case simple_escape e of
            Some x \<Rightarrow> map_option ((#) x) (json_unescape u)
          | None \<Rightarrow>
              if e \<noteq> CHR ''u'' then None
              else (case hexRune u 4 of
                  None \<Rightarrow> None
                | Some r \<Rightarrow>
                    let v = drop 4 u in
                    if surrogate_int r then
                      (case (if prefix [CHR 0x5C, CHR ''u''] v then Option.bind (hexRune (drop 2 v) 4) (decode_pair r) else None) of
                         Some d \<Rightarrow> map_option ((@) (write_rune d)) (json_unescape (drop 6 v))
                       | None \<Rightarrow> map_option ((@) (encode_rune runeError)) (json_unescape v))
                    else map_option ((@) (write_rune r)) (json_unescape v))))
     else if c = CHR 0x22 \<or> byte c < 0x20 then None
     else if byte c < 0x80 then map_option ((#) c) (json_unescape t)
     else (case decode_rune (c # t) of (r, w) \<Rightarrow> map_option ((@) (encode_rune r)) (json_unescape (drop (w - 1) t))))"
  by pat_completeness auto
termination by (relation "measure length") auto

declare json_unescape.simps(2) [simp del]

text \<open>The end of a string in a text: the first quote no backslash stands before.\<close>

fun scan_string :: "string \<Rightarrow> (string \<times> string) option" where
  "scan_string [] = None"
| "scan_string (c # s) =
    (if c = CHR 0x22 then Some ([], s)
     else if c = CHR 0x5C then (case s of [] \<Rightarrow> None | d # t \<Rightarrow> map_option (\<lambda>(a, b). (c # d # a, b)) (scan_string t))
     else map_option (\<lambda>(a, b). (c # a, b)) (scan_string s))"

lemma hex_char_digit: "n < 16 \<Longrightarrow> hex_digit (hex_char n) = Some n"
  by (simp add: hex_digit_def hex_char_def isDigit_def byte_def)

lemma hex_char_plain:
  assumes "n < 16"
  shows "hex_char n \<noteq> CHR 0x22 \<and> hex_char n \<noteq> CHR 0x5C"
proof -
  have "byte (hex_char n) = 48 + n \<and> n < 10 \<or> byte (hex_char n) = 87 + n \<and> 10 \<le> n"
    using assms by (simp add: hex_char_def byte_def)
  moreover have "byte (CHR 0x22) = 34" "byte (CHR 0x5C) = 92" by (simp_all add: byte_def)
  ultimately show ?thesis using assms by auto
qed

lemma hexRune_two:
  assumes "n < 256"
  shows "hexRune (CHR ''0'' # CHR ''0'' # hex_char (n div 16) # hex_char (n mod 16) # t) 4 = Some (int n)"
proof -
  have z: "hex_digit (CHR ''0'') = Some 0" by code_simp
  have d: "hex_digit (hex_char (n div 16)) = Some (n div 16)" "hex_digit (hex_char (n mod 16)) = Some (n mod 16)"
    using assms by (intro hex_char_digit; simp)+
  have w: "wrap32 x = x" if "0 \<le> x" "x < 256" for x
    using that by (simp add: wrap32_def)
  have q: "take 4 (a # b # c # d # t) = [a, b, c, d]" for a b c d :: char by simp
  have "int (n div 16) * 16 + int (n mod 16) = int n" by presburger
  then show ?thesis using assms by (simp add: hexRune_def q z d w)
qed

lemma short_simple: "short_escape c = Some e \<Longrightarrow> simple_escape e = Some c"
  by (auto simp: short_escape_def simple_escape_def split: if_split_asm)

lemma json_ascii_cases:
  obtains (short) e where "short_escape c = Some e" "json_ascii c = [CHR 0x5C, e]"
  | (code) "json_ascii c = CHR 0x5C # CHR ''u'' # CHR ''0'' # CHR ''0'' # [hex_char (byte c div 16), hex_char (byte c mod 16)]"
  | (plain) "json_ascii c = [c]" "c \<noteq> CHR 0x5C" "c \<noteq> CHR 0x22" "\<not> byte c < 0x20"
proof (cases "short_escape c")
  case None
  then have "c \<noteq> CHR 0x5C" "c \<noteq> CHR 0x22" by (auto simp: short_escape_def)
  then show thesis using None code plain by (cases "byte c < 0x20 \<or> c = CHR ''<'' \<or> c = CHR ''>'' \<or> c = CHR ''&''") (auto simp: json_ascii_def)
qed (simp add: json_ascii_def short)

lemma unescape_ascii:
  assumes "byte c < 0x80"
  shows "json_unescape (json_ascii c @ t) = map_option ((#) c) (json_unescape t)"
proof (cases c rule: json_ascii_cases)
  case (short e)
  then show ?thesis using short_simple by (simp add: json_unescape.simps(2))
next
  case code
  have "write_rune (int (byte c)) = [c]" using assms
    by (simp add: write_rune_def encode_rune_def is_surrogate_def maxRune_def)
  moreover have "(@) [c] = (#) c" by auto
  ultimately show ?thesis using assms hexRune_two [of "byte c" t]
    by (simp add: code json_unescape.simps(2) simple_escape_def surrogate_int_def Let_def)
next
  case plain
  then show ?thesis using assms by (simp add: json_unescape.simps(2))
qed

text \<open>A wide character is written as it is, but for two that end lines in JavaScript.\<close>

lemma wide_first:
  assumes "wide p r"
  obtains c q where "p = c # q" "0x80 \<le> byte c" "c \<noteq> CHR 0x5C" "c \<noteq> CHR 0x22" "decode_rune (p @ t) = (r, length p)" "encode_rune r = p"
proof -
  obtain c q where p: "p = c # q" using assms by (cases p) (auto simp: wide_def)
  moreover have big: "0x80 \<le> byte c" using assms by (simp add: wide_def high_def p)
  moreover have "c \<noteq> CHR 0x5C" "c \<noteq> CHR 0x22" using big by (auto simp: byte_def)
  ultimately show thesis using that assms by (auto simp: wide_def)
qed

lemma wide_piece:
  assumes "wide p r"
  shows "json_piece p = (if r = 0x2028 then CHR 0x5C # ''u2028'' else if r = 0x2029 then CHR 0x5C # ''u2029'' else p)"
proof -
  obtain c q where c: "p = c # q" "0x80 \<le> byte c" "decode_rune (p @ []) = (r, length p)" using wide_first [OF assms] .
  have "length p \<noteq> 1"
  proof
    assume "length p = 1"
    then have "encode_rune r = [c]" using assms c(1) by (simp add: wide_def)
    then show False using c(2) by (auto simp: encode_rune_def byte_def Let_def split: if_splits)
  qed
  then show ?thesis using c by (simp add: json_piece_def)
qed

lemma unescape_wide:
  assumes "wide p r"
  shows "json_unescape (json_piece p @ t) = map_option ((@) p) (json_unescape t)"
proof -
  have e: "json_unescape (CHR 0x5C # ''u2028'' @ t) = map_option ((@) (encode_rune 0x2028)) (json_unescape t)"
    "json_unescape (CHR 0x5C # ''u2029'' @ t) = map_option ((@) (encode_rune 0x2029)) (json_unescape t)"
    by (simp_all add: json_unescape.simps(2) simple_escape_def hexRune_def hex_digit_def isDigit_def byte_def numeral_eq_Suc
        wrap32_def surrogate_int_def write_rune_def Let_def)
  have r: "encode_rune r = p" using assms by (simp add: wide_def)
  obtain c q where c: "p = c # q" "0x80 \<le> byte c" "c \<noteq> CHR 0x5C" "c \<noteq> CHR 0x22" "decode_rune (p @ t) = (r, length p)"
    using wide_first [OF assms] .
  have "json_unescape (p @ t) = map_option ((@) p) (json_unescape t)"
    using c r by (simp add: json_unescape.simps(2))
  then show ?thesis using e r by (auto simp: wide_piece [OF assms])
qed

lemma json_body_step:
  "json_body [] = []"
  "byte c < 0x80 \<Longrightarrow> json_body (c # s) = json_ascii c @ json_body s"
  "wide p r \<Longrightarrow> json_body (p @ s) = json_piece p @ json_body s"
  by (simp_all add: json_body_def explode_step json_piece_def decode_ascii)

lemma unescape_body: "valid_utf8 s \<Longrightarrow> json_unescape (json_body s @ t) = map_option ((@) s) (json_unescape t)"
proof (induction s rule: valid_utf8_induct)
  case (ascii c s)
  then show ?case by (simp add: json_body_step unescape_ascii option.map_comp comp_def)
next
  case (wide p r s)
  then show ?case by (simp add: json_body_step unescape_wide option.map_comp comp_def)
qed (simp add: json_body_step option.map_ident)

text \<open>A text the scan passes over as a whole: no quote stands in it but behind a backslash.\<close>

definition sealed :: "string \<Rightarrow> bool" where
  "sealed p \<longleftrightarrow> (\<forall>t. scan_string (p @ t) = map_option (\<lambda>(a, b). (p @ a, b)) (scan_string t))"

lemma sealed_Nil: "sealed []"
  by (simp add: sealed_def option.map_id)

lemma sealed_append: "sealed p \<Longrightarrow> sealed q \<Longrightarrow> sealed (p @ q)"
  unfolding sealed_def append_assoc by (simp add: option.map_comp comp_def case_prod_unfold)

lemma sealed_plain: "CHR 0x5C \<notin> set p \<Longrightarrow> CHR 0x22 \<notin> set p \<Longrightarrow> sealed p"
proof (induction p)
  case (Cons c p)
  then show ?case by (auto simp: sealed_def option.map_comp comp_def case_prod_unfold)
qed (rule sealed_Nil)

lemma sealed_pair: "sealed [CHR 0x5C, c]"
  by (simp add: sealed_def)

lemma high_no: "high p \<Longrightarrow> byte c < 0x80 \<Longrightarrow> c \<notin> set p"
  by (auto simp: high_def list_all_iff)

lemma sealed_escape: "CHR 0x5C \<notin> set p \<Longrightarrow> CHR 0x22 \<notin> set p \<Longrightarrow> sealed (CHR 0x5C # c # p)"
  using sealed_append [OF sealed_pair sealed_plain] by simp

lemma sealed_ascii: "byte c < 0x80 \<Longrightarrow> sealed (json_ascii c)"
proof (cases c rule: json_ascii_cases)
  case code
  assume "byte c < 0x80"
  then have "byte c div 16 < 16" "byte c mod 16 < 16" by simp_all
  note h = hex_char_plain [OF this(1)] hex_char_plain [OF this(2)]
  show ?thesis using h by (auto simp: code intro!: sealed_escape)
qed (auto simp: sealed_pair intro!: sealed_plain)

lemma sealed_wide: "wide p r \<Longrightarrow> sealed (json_piece p)"
proof -
  assume w: "wide p r"
  have "byte (CHR 0x22) < 0x80" "byte (CHR 0x5C) < 0x80" by (simp_all add: byte_def)
  then have "sealed p" using w high_no by (intro sealed_plain) (auto simp: wide_def)
  then show ?thesis by (auto simp: wide_piece [OF w] intro!: sealed_escape)
qed

lemma sealed_body: "valid_utf8 s \<Longrightarrow> sealed (json_body s)"
  by (induction s rule: valid_utf8_induct)
    (simp_all add: json_body_step sealed_Nil sealed_append sealed_ascii sealed_wide)

lemma scan_body: "valid_utf8 s \<Longrightarrow> scan_string (json_body s @ CHR 0x22 # t) = Some (json_body s, t)"
  using sealed_body by (simp add: sealed_def)

text \<open>A string that needed no escape is written as it is.\<close>

lemma body_plain: "valid_utf8 s \<Longrightarrow> CHR 0x5C \<notin> set (json_body s) \<Longrightarrow> json_body s = s"
proof (induction s rule: valid_utf8_induct)
  case (ascii c s)
  then show ?case by (cases c rule: json_ascii_cases) (simp_all add: json_body_step)
next
  case (wide p r s)
  then show ?case by (auto simp: json_body_step wide_piece split: if_splits)
qed (simp add: json_body_step)

section \<open>Number literals\<close>

text \<open>The longest literal of the strict grammar at the start of a text, and what follows it.\<close>

definition digits1 :: "string \<Rightarrow> (string \<times> string) option" where
  "digits1 s = (let d = takeWhile isDigit s in if d = [] then None else Some (d, dropWhile isDigit s))"

definition strict_whole :: "string \<Rightarrow> (string \<times> string) option" where
  "strict_whole s = (if prefix ''0'' s then Some (''0'', tl s) else digits1 s)"

definition strict_fraction :: "string \<Rightarrow> (string \<times> string) option" where
  "strict_fraction s =
    (if prefix ''.'' s then map_option (\<lambda>(d, u). (CHR ''.'' # d, u)) (digits1 (tl s)) else Some ([], s))"

definition strict_exponent :: "string \<Rightarrow> (string \<times> string) option" where
  "strict_exponent s = (case s of
       [] \<Rightarrow> Some ([], s)
     | c # t \<Rightarrow>
         if c = CHR ''e'' \<or> c = CHR ''E'' then
           (let sg = takeWhile (\<lambda>x. x = CHR ''+'' \<or> x = CHR ''-'') (take 1 t) in
            map_option (\<lambda>(d, u). (c # sg @ d, u)) (digits1 (drop (length sg) t)))
         else Some ([], s))"

definition strict_number :: "string \<Rightarrow> (string \<times> string) option" where
  "strict_number s =
    (let sg = takeWhile (\<lambda>x. x = CHR ''-'') (take 1 s) in
     Option.bind (strict_whole (drop (length sg) s)) (\<lambda>(w, s1).
     Option.bind (strict_fraction s1) (\<lambda>(f, s2).
     Option.bind (strict_exponent s2) (\<lambda>(e, s3). Some (sg @ w @ f @ e, s3)))))"

end
