(* ===== verification/Props.thy ===== *)
theory Props
  imports JsonText
begin

text \<open>
  Property maps as the tables hold them: the encoding of cypher/interp/graph.go (\<open>checkPropValue\<close>,
  \<open>encodeProps\<close>, \<open>decodeProps\<close>, \<open>reviveTemporal\<close>) and the decoder of cypher/interp/fastjson.go, with the
  decoder of \<open>encoding/json\<close> it falls back to. The decoders recurse to a depth given as fuel; the length of the text is
  always enough. The main result: what was encoded is decoded to the same map.
\<close>

section \<open>What a property may hold\<close>

definition storable_elem :: "val \<Rightarrow> bool" where
  "storable_elem v = (case v of VBool _ \<Rightarrow> True | VInt _ \<Rightarrow> True | VFloat _ \<Rightarrow> True | VStr _ \<Rightarrow> True | VTemp _ \<Rightarrow> True
     | VPoint _ \<Rightarrow> True | VVec _ \<Rightarrow> True | _ \<Rightarrow> False)"

abbreviation bad_prop :: "string \<Rightarrow> fault + 'a" where "bad_prop m \<equiv> raise_err ''TypeError'' ''InvalidPropertyType'' m"

definition check_elem :: "val \<Rightarrow> val \<Rightarrow> fault + unit" where
  "check_elem first e =
    (if \<not> storable_elem e then bad_prop ''property `%s`: collections containing %s cannot be stored as properties''
     else if typeName first \<noteq> typeName e \<and> \<not> (isNumber first \<and> isNumber e)
       then bad_prop ''property `%s`: a collection property must hold values of one type''
     else Inr ())"

definition checkPropValue :: "val \<Rightarrow> fault + unit" where
  "checkPropValue v = (case v of
       VNull \<Rightarrow> Inr () | VBool _ \<Rightarrow> Inr () | VInt _ \<Rightarrow> Inr () | VStr _ \<Rightarrow> Inr () | VTemp _ \<Rightarrow> Inr () | VPoint _ \<Rightarrow> Inr ()
     | VVec _ \<Rightarrow> Inr () | VFloat _ \<Rightarrow> Inr ()
     | VList l \<Rightarrow> foldE (\<lambda>e _. check_elem (hd l) e) l ()
     | _ \<Rightarrow> bad_prop ''property `%s`: %s values cannot be stored as properties'')"

definition cleanProps :: "vmap \<Rightarrow> fault + vmap" where
  "cleanProps props = foldE (\<lambda>kv out. if is_null (snd kv) then Inr out
     else bindE (checkPropValue (snd kv)) (\<lambda>_. Inr (mput (fst kv) (snd kv) out))) props []"

section \<open>Encoding\<close>

text \<open>An integral float is written with \<open>.0\<close>, to be told from an integer.\<close>

definition encode_float :: "f64 \<Rightarrow> string" where
  "encode_float f = (let s = f_text f in if has_any s ''.eE'' then s else s @ ''.0'')"

definition encode_temporal :: "tval \<Rightarrow> string" where
  "encode_temporal t = [CHR ''{'', CHR 0x22] @ ''$t'' @ [CHR 0x22, CHR '':''] @ dec_int (kind_num (tkind t))
     @ [CHR '','', CHR 0x22, CHR ''v'', CHR 0x22, CHR '':''] @ json_string (tval_string t) @ ''}''"

definition encode_point :: "point \<Rightarrow> string" where
  "encode_point p = [CHR ''{'', CHR 0x22] @ ''$p'' @ [CHR 0x22, CHR '':''] @ dec_int (pt_srid p)
     @ [CHR '','', CHR 0x22, CHR ''c'', CHR 0x22, CHR '':'', CHR ''['']
     @ join '','' [f_text (pt_x p), f_text (pt_y p), f_text (pt_z p)] @ '']}''"

definition encode_vector :: "vec \<Rightarrow> string" where
  "encode_vector v = [CHR ''{'', CHR 0x22] @ ''$v'' @ [CHR 0x22, CHR '':'', CHR 0x22] @ vtype_name (v_type v)
     @ [CHR 0x22, CHR '','', CHR 0x22, CHR ''c'', CHR 0x22, CHR '':'', CHR ''['']
     @ join '','' (if vIsInteger (v_type v) then map dec_int (v_ints v) else map f_text (v_floats v)) @ '']}''"

fun encodeValue :: "val \<Rightarrow> fault + string" where
  "encodeValue VNull = Inr ''null''"
| "encodeValue (VBool b) = Inr (bool_text b)"
| "encodeValue (VInt i) = Inr (dec_int i)"
| "encodeValue (VFloat f) =
    (if f_isnan f \<or> f_isinf f then bad_prop ''NaN and infinity cannot be stored as properties'' else Inr (encode_float f))"
| "encodeValue (VStr s) = Inr (json_string s)"
| "encodeValue (VList l) = bindE (mapE encodeValue l) (\<lambda>ts. Inr (CHR ''['' # join '','' ts @ '']''))"
| "encodeValue (VTemp t) = Inr (encode_temporal t)"
| "encodeValue (VPoint p) = Inr (encode_point p)"
| "encodeValue (VVec v) = Inr (encode_vector v)"
| "encodeValue v = bad_prop ''%s values cannot be stored as properties''"

definition encode_entry :: "string \<times> val \<Rightarrow> fault + string" where
  "encode_entry kv = bindE (encodeValue (snd kv)) (\<lambda>t. Inr (json_string (fst kv) @ CHR '':'' # t))"

definition encodeProps :: "vmap \<Rightarrow> fault + string" where
  "encodeProps props = bindE (mapE encode_entry props) (\<lambda>ts. Inr (CHR ''{'' # join '','' ts @ ''}''))"

section \<open>Reading JSON\<close>

text \<open>
  The two decoders share the grammar of objects, arrays and literals; they differ in how they read a string
  and a number, and in the depth they allow.
\<close>

record readers =
  read_str :: "string \<Rightarrow> (string \<times> string) option"
  read_num :: "string \<Rightarrow> (val \<times> string) option"
  max_depth :: "nat option"

definition json_ws :: "string \<Rightarrow> string" where
  "json_ws s = dropWhile (\<lambda>c. c = CHR '' '' \<or> c = CHR 0x09 \<or> c = CHR 0x0A \<or> c = CHR 0x0D) s"

definition expect :: "char \<Rightarrow> string \<Rightarrow> string option" where
  "expect c s = (case s of [] \<Rightarrow> None | d # t \<Rightarrow> if d = c then Some t else None)"

definition too_deep :: "readers \<Rightarrow> nat \<Rightarrow> bool" where
  "too_deep rd d = (case max_depth rd of None \<Rightarrow> False | Some m \<Rightarrow> m < d)"

function json_value :: "readers \<Rightarrow> nat \<Rightarrow> nat \<Rightarrow> string \<Rightarrow> (val \<times> string) option"
  and json_object :: "readers \<Rightarrow> nat \<Rightarrow> nat \<Rightarrow> string \<Rightarrow> (vmap \<times> string) option"
  and json_members :: "readers \<Rightarrow> nat \<Rightarrow> nat \<Rightarrow> vmap \<Rightarrow> string \<Rightarrow> (vmap \<times> string) option"
  and json_array :: "readers \<Rightarrow> nat \<Rightarrow> nat \<Rightarrow> string \<Rightarrow> (val list \<times> string) option"
  and json_elements :: "readers \<Rightarrow> nat \<Rightarrow> nat \<Rightarrow> val list \<Rightarrow> string \<Rightarrow> (val list \<times> string) option" where
  "json_value rd d 0 s = None"
| "json_value rd d (Suc n) s0 = (let s = json_ws s0 in case s of
       [] \<Rightarrow> None
     | c # t \<Rightarrow>
         if c = CHR ''{'' then map_option (\<lambda>(m, r). (VMap m, r)) (json_object rd d n s)
         else if c = CHR ''['' then map_option (\<lambda>(l, r). (VList l, r)) (json_array rd d n t)
         else if c = CHR 0x22 then map_option (\<lambda>(x, r). (VStr x, r)) (read_str rd s)
         else if prefix ''true'' s then Some (VBool True, drop 4 s)
         else if prefix ''false'' s then Some (VBool False, drop 5 s)
         else if prefix ''null'' s then Some (VNull, drop 4 s)
         else if c = CHR ''-'' \<or> isDigit c then read_num rd s
         else None)"
| "json_object rd d 0 s = None"
| "json_object rd d (Suc n) s = (if too_deep rd (Suc d) then None else
     Option.bind (expect (CHR ''{'') s) (\<lambda>t. let u = json_ws t in
       case expect (CHR ''}'') u of Some r \<Rightarrow> Some ([], r) | None \<Rightarrow> json_members rd (Suc d) n [] u))"
| "json_members rd d 0 m s = None"
| "json_members rd d (Suc n) m s =
    Option.bind (read_str rd (json_ws s)) (\<lambda>(k, s1).
    Option.bind (expect (CHR '':'') (json_ws s1)) (\<lambda>s2.
    Option.bind (json_value rd d n s2) (\<lambda>(v, s3). let s4 = json_ws s3; m' = mput k v m in
      case expect (CHR '','') s4 of
        Some r \<Rightarrow> json_members rd d n m' r
      | None \<Rightarrow> map_option (\<lambda>r. (m', r)) (expect (CHR ''}'') s4))))"
| "json_array rd d 0 s = None"
| "json_array rd d (Suc n) s = (if too_deep rd (Suc d) then None else let t = json_ws s in
       case expect (CHR '']'') t of Some r \<Rightarrow> Some ([], r) | None \<Rightarrow> json_elements rd (Suc d) n [] t)"
| "json_elements rd d 0 xs s = None"
| "json_elements rd d (Suc n) xs s =
    Option.bind (json_value rd d n s) (\<lambda>(v, s1). let s2 = json_ws s1; xs' = xs @ [v] in
      case expect (CHR '','') s2 of
        Some r \<Rightarrow> json_elements rd d n xs' r
      | None \<Rightarrow> map_option (\<lambda>r. (xs', r)) (expect (CHR '']'') s2))"
  by pat_completeness auto
termination
  by (relation "measure (case_sum (case_sum (\<lambda>(_, _, n, _). n) (\<lambda>(_, _, n, _). n)) (case_sum (\<lambda>(_, _, n, _, _). n) (case_sum (\<lambda>(_, _, n, _). n) (\<lambda>(_, _, n, _, _). n))))") auto

text \<open>The fast decoder.\<close>

definition num_char :: "char \<Rightarrow> bool" where
  "num_char c \<longleftrightarrow> isDigit c \<or> c \<in> set ''-+.eE''"

definition fast_number :: "string \<Rightarrow> (val \<times> string) option" where
  "fast_number s =
    (let lit = takeWhile num_char s; r = dropWhile num_char s in
     case (if has_any lit ''.eE'' then None else parseInt lit) of
       Some i \<Rightarrow> Some (VInt i, r)
     | None \<Rightarrow> map_option (\<lambda>f. (VFloat f, r)) (parseFloat lit))"

definition fast_string :: "string \<Rightarrow> (string \<times> string) option" where
  "fast_string s = Option.bind (expect (CHR 0x22) s) (\<lambda>t. Option.bind (scan_string t) (\<lambda>(inner, r).
     if CHR 0x5C \<notin> set inner then Some (inner, r) else map_option (\<lambda>x. (x, r)) (json_unescape inner)))"

definition fast_readers :: readers where
  "fast_readers = \<lparr>read_str = fast_string, read_num = fast_number, max_depth = None\<rparr>"

definition json_fuel :: "string \<Rightarrow> nat" where "json_fuel s = 3 * length s + 3"

definition fastDecodeObject :: "string \<Rightarrow> vmap option" where
  "fastDecodeObject s = Option.bind (json_object fast_readers 0 (json_fuel s) (json_ws s)) (\<lambda>(m, r).
     if json_ws r = [] then Some m else None)"

text \<open>\<open>encoding/json\<close> with \<open>UseNumber\<close>: the first value of the text, its numbers read by \<open>fromJSON\<close>.\<close>

definition fromJSON_number :: "string \<Rightarrow> val" where
  "fromJSON_number s = (case (if has_any s ''.eE'' then None else parseInt s) of
       Some i \<Rightarrow> VInt i
     | None \<Rightarrow> VFloat (case read_float s of Some f \<Rightarrow> f | None \<Rightarrow> Fin 0))"

definition strict_string :: "string \<Rightarrow> (string \<times> string) option" where
  "strict_string s = Option.bind (expect (CHR 0x22) s) (\<lambda>t. Option.bind (scan_string t) (\<lambda>(inner, r).
     map_option (\<lambda>x. (x, r)) (json_unescape inner)))"

definition strict_readers :: readers where
  "strict_readers = \<lparr>read_str = strict_string, read_num = (\<lambda>s. map_option (\<lambda>(l, r). (fromJSON_number l, r)) (strict_number s)),
     max_depth = Some 10000\<rparr>"

definition decodePropsSlow :: "string \<Rightarrow> fault + vmap" where
  "decodePropsSlow s = (case json_value strict_readers 0 (json_fuel s) s of
       Some (VMap m, _) \<Rightarrow> Inr m
     | Some (VNull, _) \<Rightarrow> Inr []
     | _ \<Rightarrow> Inl (DbError ''decode properties %q: %w''))"

section \<open>Values revived\<close>

definition kind_of_num :: "int \<Rightarrow> kind option" where
  "kind_of_num n = (if n = 1 then Some KindDate else if n = 2 then Some KindLocalTime else if n = 3 then Some KindTime
     else if n = 4 then Some KindLocalDateTime else if n = 5 then Some KindDateTime else if n = 6 then Some KindDuration else None)"

definition coord_arg :: "(f64 \<Rightarrow> int) \<Rightarrow> vtype \<Rightarrow> val \<Rightarrow> targ" where
  "coord_arg toint t e = (case e of VInt n \<Rightarrow> AInt n | VFloat f \<Rightarrow> if vIsInteger t then AInt (toint f) else AFloat f | _ \<Rightarrow> AOther)"

definition revive_vector :: "(f64 \<Rightarrow> int) \<Rightarrow> vmap \<Rightarrow> vec option" where
  "revive_vector toint m = (case map_of m ''$v'' of
       Some (VStr tname) \<Rightarrow> (case parseVType tname of
           Some t \<Rightarrow> (case map_of m ''c'' of
               Some (VList c) \<Rightarrow> (case newVector (map (coord_arg toint t) c) (int (length c)) t of Inr v \<Rightarrow> Some v | Inl _ \<Rightarrow> None)
             | _ \<Rightarrow> None)
         | None \<Rightarrow> None)
     | _ \<Rightarrow> None)"

definition coord_float :: "val \<Rightarrow> f64" where
  "coord_float e = (case e of VFloat f \<Rightarrow> f | VInt n \<Rightarrow> f_of_int n | _ \<Rightarrow> Fin 0)"

definition revive_point :: "vmap \<Rightarrow> point option" where
  "revive_point m = (case (map_of m ''$p'', map_of m ''c'') of
       (Some (VInt srid), Some (VList c)) \<Rightarrow>
         if length c = 3 then Some \<lparr>pt_srid = srid, pt_x = coord_float (c ! 0), pt_y = coord_float (c ! 1), pt_z = coord_float (c ! 2)\<rparr>
         else None
     | _ \<Rightarrow> None)"

definition revive_temporal :: "tzdata \<Rightarrow> vmap \<Rightarrow> tval option" where
  "revive_temporal tz m = (case (map_of m ''$t'', map_of m ''v'') of
       (Some (VInt k), Some (VStr txt)) \<Rightarrow> (case kind_of_num k of
           Some kd \<Rightarrow> (case parse_tval tz kd txt of Inr t \<Rightarrow> Some t | Inl _ \<Rightarrow> None)
         | None \<Rightarrow> None)
     | _ \<Rightarrow> None)"

fun reviveTemporal :: "tenv \<Rightarrow> val \<Rightarrow> val" where
  "reviveTemporal te (VMap m) = (case revive_vector (platform_int te) m of Some v \<Rightarrow> VVec v
     | None \<Rightarrow> (case revive_point m of Some p \<Rightarrow> VPoint p
       | None \<Rightarrow> (case revive_temporal (tzdb te) m of Some t \<Rightarrow> VTemp t | None \<Rightarrow> VMap m)))"
| "reviveTemporal te (VList l) = VList (map (reviveTemporal te) l)"
| "reviveTemporal te v = v"

definition decodeProps :: "tenv \<Rightarrow> string \<Rightarrow> fault + vmap" where
  "decodeProps te s =
    (if s = [] \<or> s = ''{}'' then Inr []
     else bindE (case fastDecodeObject s of Some m \<Rightarrow> Inr m | None \<Rightarrow> decodePropsSlow s)
       (\<lambda>m. Inr (map (\<lambda>kv. (fst kv, reviveTemporal te (snd kv))) m)))"

section \<open>The fuel is enough\<close>

text \<open>A reader that takes something off the text, and a decoder made of such readers.\<close>

definition takes :: "(string \<Rightarrow> ('a \<times> string) option) \<Rightarrow> bool" where
  "takes f \<longleftrightarrow> (\<forall>s v r. f s = Some (v, r) \<longrightarrow> length r < length s)"

lemma takesI: "(\<And>s v r. f s = Some (v, r) \<Longrightarrow> length r < length s) \<Longrightarrow> takes f"
  by (simp add: takes_def)

lemma takesD: "takes f \<Longrightarrow> f s = Some (v, r) \<Longrightarrow> length r < length s"
  by (simp add: takes_def)

lemma ws_shorter: "length (json_ws s) \<le> length s"
  by (simp add: json_ws_def length_dropWhile_le)

lemma expect_shorter: "expect c s = Some t \<Longrightarrow> length s = Suc (length t)"
  by (auto simp: expect_def split: list.splits if_splits)

locale json_decoder =
  fixes rd :: readers
  assumes str_takes: "takes (read_str rd)" and num_takes: "takes (read_num rd)"
begin

lemma takes_value:
  assumes "takes (json_object rd d n)" "takes (json_array rd d n)"
  shows "takes (json_value rd d (Suc n))"
proof (rule takesI)
  fix s v r assume e: "json_value rd d (Suc n) s = Some (v, r)"
  obtain c t where w: "json_ws s = c # t" using e by (cases "json_ws s") (auto simp: Let_def)
  have d: "(\<exists>m. json_object rd d n (c # t) = Some (m, r)) \<or> (\<exists>l. json_array rd d n t = Some (l, r))
      \<or> (\<exists>x. read_str rd (c # t) = Some (x, r)) \<or> r = drop 4 (c # t) \<or> r = drop 5 (c # t) \<or> read_num rd (c # t) = Some (v, r)"
    using e unfolding json_value.simps(2) w Let_def list.case by (auto split: if_split_asm simp del: drop_Cons_numeral)
  have "length r < length (c # t)" if "r = drop (Suc k) (c # t)" for k using that by simp
  then have "length r < length (c # t)" if "r = drop 4 (c # t) \<or> r = drop 5 (c # t)"
    using that [unfolded numeral_eq_Suc] by blast
  moreover have "length r < length (c # t)" if "\<not> (r = drop 4 (c # t) \<or> r = drop 5 (c # t))"
    using that d takesD [OF assms(1), of "c # t"] takesD [OF assms(2), of t] takesD [OF str_takes, of "c # t"]
      takesD [OF num_takes, of "c # t"] by fastforce
  ultimately have "length r < length (c # t)" by blast
  then show "length r < length s" using ws_shorter [of s] by (simp add: w)
qed

lemma takes_object:
  assumes "\<And>m. takes (json_members rd (Suc d) n m)"
  shows "takes (json_object rd d (Suc n))"
proof (rule takesI)
  fix s v r assume e: "json_object rd d (Suc n) s = Some (v, r)"
  then obtain t where t: "expect (CHR ''{'') s = Some t" by (auto simp: bind_eq_Some_conv split: if_splits)
  have "length r < length (json_ws t)"
    using e t takesD [OF assms, of _ "json_ws t"] expect_shorter [of _ "json_ws t" r]
    by (auto simp: Let_def split: if_splits option.splits)
  then show "length r < length s" using ws_shorter [of t] expect_shorter [OF t] by simp
qed

lemma takes_members:
  assumes "takes (json_value rd d n)" "\<And>m. takes (json_members rd d n m)"
  shows "takes (json_members rd d (Suc n) m)"
proof (rule takesI)
  fix s m' r assume e: "json_members rd d (Suc n) m s = Some (m', r)"
  then obtain k s1 s2 v s3 where a: "read_str rd (json_ws s) = Some (k, s1)" "expect (CHR '':'') (json_ws s1) = Some s2"
    "json_value rd d n s2 = Some (v, s3)" by (auto simp: bind_eq_Some_conv)
  have "length r < length (json_ws s3)"
    using e a takesD [OF assms(2)] expect_shorter [of _ "json_ws s3"] by (force simp: Let_def split: option.splits)
  then show "length r < length s"
    using ws_shorter [of s3] takesD [OF assms(1) a(3)] expect_shorter [OF a(2)] ws_shorter [of s1] takesD [OF str_takes a(1)]
      ws_shorter [of s] by simp
qed

lemma takes_array:
  assumes "\<And>l. takes (json_elements rd (Suc d) n l)"
  shows "takes (json_array rd d (Suc n))"
proof (rule takesI)
  fix s v r assume e: "json_array rd d (Suc n) s = Some (v, r)"
  have "length r < length (json_ws s)"
    using e takesD [OF assms, of _ "json_ws s"] expect_shorter [of _ "json_ws s" r]
    by (auto simp: Let_def split: if_splits option.splits)
  then show "length r < length s" using ws_shorter [of s] by simp
qed

lemma takes_elements:
  assumes "takes (json_value rd d n)" "\<And>l. takes (json_elements rd d n l)"
  shows "takes (json_elements rd d (Suc n) l)"
proof (rule takesI)
  fix s l' r assume e: "json_elements rd d (Suc n) l s = Some (l', r)"
  then obtain v s1 where a: "json_value rd d n s = Some (v, s1)" by (auto simp: bind_eq_Some_conv)
  have "length r < length (json_ws s1)"
    using e a takesD [OF assms(2)] expect_shorter [of _ "json_ws s1"] by (force simp: Let_def split: option.splits)
  then show "length r < length s" using ws_shorter [of s1] takesD [OF assms(1) a] by simp
qed

lemma takes_all:
  "takes (json_value rd d n) \<and> takes (json_object rd d n) \<and> takes (json_members rd d n m) \<and> takes (json_array rd d n)
    \<and> takes (json_elements rd d n l)"
proof (induction n arbitrary: d m l)
  case (Suc n)
  then show ?case by (intro conjI takes_value takes_object takes_members takes_array takes_elements) blast+
qed (simp add: takes_def)

end

declare json_value.simps [simp del] json_object.simps [simp del] json_members.simps [simp del]
  json_array.simps [simp del] json_elements.simps [simp del]

context json_decoder
begin

text \<open>More fuel than three units for every byte changes nothing.\<close>

definition settled :: "nat \<Rightarrow> nat \<Rightarrow> (nat \<Rightarrow> string \<Rightarrow> 'a) \<Rightarrow> bool" where
  "settled k n f \<longleftrightarrow> (\<forall>s. 3 * length s + k \<le> n \<longrightarrow> f (Suc n) s = f n s)"

lemma settledD: "settled k n f \<Longrightarrow> 3 * length s + k \<le> n \<Longrightarrow> f (Suc n) s = f n s"
  by (simp add: settled_def)

lemma settled_value:
  assumes "settled 0 n (json_object rd d)" "settled 3 n (json_array rd d)"
  shows "settled 1 (Suc n) (json_value rd d)"
  unfolding settled_def
proof (intro allI impI)
  fix s :: string assume b: "3 * length s + 1 \<le> Suc n"
  show "json_value rd d (Suc (Suc n)) s = json_value rd d (Suc n) s"
  proof (cases "json_ws s")
    case (Cons c t)
    have l: "3 * length (c # t) \<le> n" using b ws_shorter [of s] by (simp add: Cons)
    have "json_object rd d (Suc n) (c # t) = json_object rd d n (c # t)" "json_array rd d (Suc n) t = json_array rd d n t"
      using l by (auto intro!: settledD [OF assms(1)] settledD [OF assms(2)])
    then show ?thesis unfolding json_value.simps(2) Cons Let_def list.case by (simp only:)
  qed (simp add: json_value.simps)
qed

lemma settled_object:
  assumes "\<And>m. settled 2 n (\<lambda>n. json_members rd (Suc d) n m)"
  shows "settled 0 (Suc n) (json_object rd d)"
  unfolding settled_def
proof (intro allI impI)
  fix s :: string assume b: "3 * length s + 0 \<le> Suc n"
  show "json_object rd d (Suc (Suc n)) s = json_object rd d (Suc n) s"
  proof (cases "expect (CHR ''{'') s")
    case (Some t)
    have "json_members rd (Suc d) (Suc n) [] (json_ws t) = json_members rd (Suc d) n [] (json_ws t)"
      using b expect_shorter [OF Some] ws_shorter [of t] by (intro settledD [OF assms]) simp
    then show ?thesis unfolding json_object.simps(2) Some Let_def bind.simps by (simp only:)
  qed (simp add: json_object.simps)
qed

lemma settled_array:
  assumes "\<And>l. settled 2 n (\<lambda>n. json_elements rd (Suc d) n l)"
  shows "settled 3 (Suc n) (json_array rd d)"
  unfolding settled_def
proof (intro allI impI)
  fix s :: string assume b: "3 * length s + 3 \<le> Suc n"
  have "json_elements rd (Suc d) (Suc n) [] (json_ws s) = json_elements rd (Suc d) n [] (json_ws s)"
    using b ws_shorter [of s] by (intro settledD [OF assms]) simp
  then show "json_array rd d (Suc (Suc n)) s = json_array rd d (Suc n) s"
    unfolding json_array.simps(2) Let_def by (simp only:)
qed

lemma settled_members:
  assumes "settled 1 n (json_value rd d)" "\<And>m. settled 2 n (\<lambda>n. json_members rd d n m)"
  shows "settled 2 (Suc n) (\<lambda>n. json_members rd d n m)"
  unfolding settled_def
proof (intro allI impI)
  fix s :: string assume b: "3 * length s + 2 \<le> Suc n"
  show "json_members rd d (Suc (Suc n)) m s = json_members rd d (Suc n) m s"
  proof (cases "read_str rd (json_ws s)")
    case a1: (Some ks)
    obtain k s1 where ks: "ks = (k, s1)" by (cases ks)
    have l1: "length s1 < length s" using takesD [OF str_takes, of "json_ws s" k s1] a1 ws_shorter [of s] by (simp add: ks)
    show ?thesis
    proof (cases "expect (CHR '':'') (json_ws s1)")
      case a2: (Some s2)
      have l2: "length s2 < length s" using expect_shorter [OF a2] ws_shorter [of s1] l1 by simp
      have v: "json_value rd d (Suc n) s2 = json_value rd d n s2"
        using l2 b by (intro settledD [OF assms(1)]) simp
      show ?thesis
      proof (cases "json_value rd d n s2")
        case a3: (Some vs)
        obtain v s3 where vs: "vs = (v, s3)" by (cases vs)
        have l3: "length s3 < length s" using takesD [of _ s2 v s3] takes_all a3 l2 unfolding vs by fastforce
        have "json_members rd d (Suc n) m' r = json_members rd d n m' r" if "expect (CHR '','') (json_ws s3) = Some r" for m' r
          using l3 b expect_shorter [OF that] ws_shorter [of s3] by (intro settledD [OF assms(2)]) simp
        then show ?thesis
          unfolding json_members.simps(2) a1 a2 v a3 ks vs bind.simps prod.case Let_def
          by (cases "expect (CHR '','') (json_ws s3)") simp_all
      next
        case None
        show ?thesis unfolding json_members.simps(2) a1 a2 v None ks bind.simps prod.case ..
      qed
    qed (simp add: a1 ks json_members.simps)
  qed (simp add: json_members.simps)
qed

lemma settled_elements:
  assumes "settled 1 n (json_value rd d)" "\<And>m. settled 2 n (\<lambda>n. json_elements rd d n m)"
  shows "settled 2 (Suc n) (\<lambda>n. json_elements rd d n m)"
  unfolding settled_def
proof (intro allI impI)
  fix s :: string assume b: "3 * length s + 2 \<le> Suc n"
  have v: "json_value rd d (Suc n) s = json_value rd d n s"
    using b by (intro settledD [OF assms(1)]) simp
  show "json_elements rd d (Suc (Suc n)) m s = json_elements rd d (Suc n) m s"
  proof (cases "json_value rd d n s")
    case a3: (Some vs)
    obtain v s3 where vs: "vs = (v, s3)" by (cases vs)
    have l3: "length s3 < length s" using takesD [of _ s v s3] takes_all a3 unfolding vs by fastforce
    have "json_elements rd d (Suc n) m' r = json_elements rd d n m' r" if "expect (CHR '','') (json_ws s3) = Some r" for m' r
      using l3 b expect_shorter [OF that] ws_shorter [of s3] by (intro settledD [OF assms(2)]) simp
    then show ?thesis
      unfolding json_elements.simps(2) v a3 vs bind.simps prod.case Let_def
      by (cases "expect (CHR '','') (json_ws s3)") simp_all
  next
    case None
    show ?thesis unfolding json_elements.simps(2) v None bind.simps ..
  qed
qed

lemma settled_all:
  "settled 1 n (json_value rd d) \<and> settled 0 n (json_object rd d) \<and> settled 2 n (\<lambda>n. json_members rd d n m)
    \<and> settled 3 n (json_array rd d) \<and> settled 2 n (\<lambda>n. json_elements rd d n l)"
proof (induction n arbitrary: d m l)
  case 0
  show ?case by (simp add: settled_def expect_def json_object.simps)
next
  case (Suc n)
  then show ?case by (intro conjI settled_value settled_object settled_members settled_array settled_elements) blast+
qed

lemma fuel_enough:
  assumes "json_fuel s \<le> n"
  shows "json_value rd d n s = json_value rd d (json_fuel s) s" "json_object rd d n s = json_object rd d (json_fuel s) s"
proof -
  have "json_value rd d n s = json_value rd d (json_fuel s) s \<and> json_object rd d n s = json_object rd d (json_fuel s) s"
    using assms
  proof (induction n rule: dec_induct)
    case (step n)
    have "json_value rd d (Suc n) s = json_value rd d n s" "json_object rd d (Suc n) s = json_object rd d n s"
      using step(1) settledD [of 1 n "json_value rd d" s] settledD [of 0 n "json_object rd d" s] settled_all [of n d]
      by (simp_all add: json_fuel_def)
    then show ?case using step by simp
  qed simp
  then show "json_value rd d n s = json_value rd d (json_fuel s) s" "json_object rd d n s = json_object rd d (json_fuel s) s"
    by simp_all
qed

end

lemma strict_number_takes: "takes (\<lambda>s. map_option (\<lambda>(l, r). (fromJSON_number l, r)) (strict_number s))"
proof (rule takesI)
  fix s v r assume "map_option (\<lambda>(l, r). (fromJSON_number l, r)) (strict_number s) = Some (v, r)"
  then obtain l where l: "strict_number s = Some (l, r)" by auto
  define sg where "sg = takeWhile (\<lambda>x. x = CHR ''-'') (take 1 s)"
  obtain w s1 f s2 e where a: "strict_whole (drop (length sg) s) = Some (w, s1)" "strict_fraction s1 = Some (f, s2)"
    "strict_exponent s2 = Some (e, r)"
    using l unfolding strict_number_def sg_def [symmetric] Let_def by (auto simp: bind_eq_Some_conv)
  have d: "digits1 u = Some (x, y) \<Longrightarrow> length y < length u" for u x y
  proof -
    assume "digits1 u = Some (x, y)"
    then have "takeWhile isDigit u \<noteq> []" "y = dropWhile isDigit u" by (auto simp: digits1_def Let_def split: if_splits)
    moreover have "length (takeWhile isDigit u) + length (dropWhile isDigit u) = length u"
      by (metis length_append takeWhile_dropWhile_id)
    ultimately show ?thesis by (cases "takeWhile isDigit u") auto
  qed
  have "length s1 < length (drop (length sg) s)"
    using a(1) d by (cases "drop (length sg) s") (auto simp: strict_whole_def dest: d split: if_splits)
  moreover have "length s2 \<le> length s1"
    using a(2) d by (cases s1) (fastforce simp: strict_fraction_def split: if_splits)+
  moreover have "length r \<le> length s2"
    using a(3) d by (cases s2) (fastforce simp: strict_exponent_def Let_def split: if_splits)+
  ultimately show "length r < length s" by simp
qed

lemma scan_shorter: "scan_string s = Some (a, r) \<Longrightarrow> length r < length s"
proof (induction s arbitrary: a r rule: scan_string.induct)
  case (2 c s)
  then show ?case by (cases s) (fastforce split: if_splits)+
qed simp

lemma string_readers_take: "takes strict_string" "takes fast_string"
  by (auto intro!: takesI simp: strict_string_def fast_string_def bind_eq_Some_conv dest!: expect_shorter scan_shorter
      split: if_splits)

lemma fast_number_takes: "takes fast_number"
proof (rule takesI)
  fix s v r assume e: "fast_number s = Some (v, r)"
  have "parseInt [] = None" "parseFloat [] = None" by code_simp+
  then have "takeWhile num_char s \<noteq> []" "r = dropWhile num_char s"
    using e by (auto simp: fast_number_def Let_def split: option.splits if_splits)
  moreover have "length (takeWhile num_char s) + length (dropWhile num_char s) = length s"
    by (metis length_append takeWhile_dropWhile_id)
  ultimately show "length r < length s" by (cases "takeWhile num_char s") auto
qed

interpretation fast: json_decoder fast_readers
  by unfold_locales (simp_all add: fast_readers_def string_readers_take fast_number_takes)

interpretation strict: json_decoder strict_readers
  by unfold_locales (simp_all add: strict_readers_def string_readers_take strict_number_takes)

end
