(* ===== verification/PropsFacts.thy ===== *)
theory PropsFacts
  imports Props
begin

text \<open>
  What was encoded is decoded: numbers, strings, lists and the objects that stand for temporal values, points
  and vectors are read back by the fast decoder, and a property map comes back as it was written.
\<close>

section \<open>The texts of floats\<close>

lemma f_round_neg: "0 < x \<Longrightarrow> f_round (- x) = f_neg (f_round x)"
  using less_imp_neq [OF ulp_pos [of x]] by (auto simp: f_round_def ulp_minus Let_def)

lemma num_char_digit: "isDigit c \<Longrightarrow> num_char c"
  by (simp add: num_char_def)

lemma pos_text_chars: "list_all num_char (pos_text x)"
proof -
  obtain ds dp where d: "float_digits x = (ds, dp)" by (cases "float_digits x")
  then obtain n where "ds = strip0 (dec_nat n)" by (auto simp: float_digits_def Let_def split: prod.splits)
  then have "set ds \<subseteq> set (dec_nat n)" by (auto simp: strip0_def dest: set_dropWhileD)
  then have n: "list_all num_char ds" using dec_nat_digits [of n] by (auto simp: list_all_iff num_char_digit)
  have c: "num_char (CHR ''.'')" "num_char (CHR ''0'')" "num_char (CHR ''e'')" "num_char (CHR ''-'')" "num_char (CHR ''+'')"
    by (simp_all add: num_char_def isDigit_def)
  have f: "list_all num_char (fixed_text x)"
    using n c by (auto simp: fixed_text_def d list_all_iff dest: in_set_takeD in_set_dropD)
  have m: "list_all num_char (mantissa_text x)" using n c by (cases ds) (auto simp: mantissa_text_def d)
  have p: "list_all num_char (pad0 2 k)" for k using dec_nat_digits [of k] c by (auto simp: pad0_def list_all_iff num_char_digit)
  show ?thesis using f m c p by (simp add: pos_text_digits [OF d] exp_text_def)
qed

lemma int_text:
  assumes "is_pos_float x" "\<not> has_any (pos_text x) ''.eE''"
  shows "list_all isDigit (pos_text x)" "pos_text x \<noteq> []" "f_round (of_nat (dec_val (pos_text x))) = Fin x"
    "reads_float (pos_text x @ ''.0'') x"
proof -
  obtain ds dp where d: "float_digits x = (ds, dp)" by (cases "float_digits x")
  note f = float_digits [OF assms(1) d]
  have "CHR ''e'' \<in> set (exp_text e)" for e by (simp add: exp_text_def)
  then have "pos_text x = fixed_text x" using assms(2) by (auto simp: pos_text_digits [OF d] has_any_def list_ex_iff split: if_splits)
  moreover have "list_all isDigit (replicate k (CHR ''0''))" for k by (simp add: list_all_iff isDigit_def)
  ultimately show g: "list_all isDigit (pos_text x)"
    using assms(2) f by (auto simp: fixed_text_def d has_any_def list_ex_iff split: if_splits)
  show ne: "pos_text x \<noteq> []" using pos_text_reads [OF assms(1)] by (simp add: reads_float_def)
  have e0: "exp_part [] 0" by (simp add: exp_part_def)
  have "read_number (pos_text x) = Some (of_nat (dec_val (pos_text x)))" using read_whole [OF g ne e0] by (simp add: pow10_def)
  then show r: "f_round (of_nat (dec_val (pos_text x))) = Fin x" using pos_text_reads [OF assms(1)] by (auto simp: reads_float_def)
  have "read_number (pos_text x @ ''.0'') = Some (of_nat (dec_val (pos_text x)))"
    using read_point [OF g ne _ e0, of "''0''"] by (simp add: isDigit_def dec_val_append dec_val_single digit_val_def pow10_def)
  then show "reads_float (pos_text x @ ''.0'') x" using g ne r by (cases "pos_text x") (simp_all add: reads_float_def)
qed

definition finite_float :: "f64 \<Rightarrow> bool" where
  "finite_float f \<longleftrightarrow> is_float f \<and> \<not> f_isnan f \<and> \<not> f_isinf f"

lemma finite_float_cases:
  assumes "finite_float f"
  obtains (zero) "f = Fin 0" | (nzero) "f = NZero" | (pos) x where "f = Fin x" "is_pos_float x"
    | (neg) x where "f = Fin (- x)" "is_pos_float x"
proof (cases f)
  case (Fin y)
  have "y \<noteq> 0 \<Longrightarrow> is_pos_float \<bar>y\<bar>"
    using assms f_round_minus [of y] by (auto simp: Fin finite_float_def is_float_def is_pos_float_def abs_if)
  then show thesis using zero pos [of y] neg [of "- y"] Fin by (cases "y = 0"; cases "y < 0") (auto simp: abs_if)
qed (use assms nzero in \<open>auto simp: finite_float_def f_isnan_def f_isinf_def\<close>)

lemma f_text_pos: "is_pos_float x \<Longrightarrow> f_text (Fin x) = pos_text x"
  and f_text_neg: "is_pos_float x \<Longrightarrow> f_text (Fin (- x)) = CHR ''-'' # pos_text x"
  by (simp_all add: is_pos_float_def)

lemma f_text_chars:
  assumes "finite_float f"
  shows "list_all num_char (f_text f)" "f_text f \<noteq> []" "hd (f_text f) = CHR ''-'' \<or> isDigit (hd (f_text f))"
proof -
  have "list_all num_char (f_text f) \<and> f_text f \<noteq> [] \<and> (hd (f_text f) = CHR ''-'' \<or> isDigit (hd (f_text f)))" using assms
  proof (cases rule: finite_float_cases)
    case (pos x)
    then show ?thesis using f_text_pos [OF pos(2)] pos_text_chars [of x] pos_text_reads [OF pos(2)] by (simp add: reads_float_def del: f_text.simps)
  next
    case (neg x)
    have "num_char (CHR ''-'')" by (simp add: num_char_def)
    then show ?thesis using f_text_neg [OF neg(2)] pos_text_chars [of x] neg(1) by (simp only: list.pred_inject) simp
  qed (simp_all add: num_char_def isDigit_def)
  then show "list_all num_char (f_text f)" "f_text f \<noteq> []" "hd (f_text f) = CHR ''-'' \<or> isDigit (hd (f_text f))" by simp_all
qed

lemma has_any_Cons: "c \<notin> set cs \<Longrightarrow> has_any (c # s) cs = has_any s cs"
  by (simp add: has_any_def)

lemma encode_float_read:
  assumes "finite_float f"
  shows "list_all num_char (encode_float f)" "has_any (encode_float f) ''.eE''" "parseFloat (encode_float f) = Some f"
    "encode_float f \<noteq> []"
proof -
  show "list_all num_char (encode_float f)" "encode_float f \<noteq> []"
    using f_text_chars [OF assms] by (simp_all add: encode_float_def Let_def num_char_def isDigit_def)
  show "has_any (encode_float f) ''.eE''" by (simp add: encode_float_def Let_def has_any_def)
  show "parseFloat (encode_float f) = Some f"
  proof (cases "has_any (f_text f) ''.eE''")
    case True
    then show ?thesis using parseFloat_f_text assms by (simp add: encode_float_def finite_float_def)
  next
    case False
    then have e: "encode_float f = f_text f @ ''.0''" by (simp add: encode_float_def)
    show ?thesis using assms
    proof (cases rule: finite_float_cases)
      case zero
      show ?thesis unfolding e zero by code_simp
    next
      case nzero
      show ?thesis unfolding e nzero by code_simp
    next
      case (pos x)
      have x: "0 < x" using pos(2) by (simp add: is_pos_float_def)
      have "\<not> has_any (pos_text x) ''.eE''" using False unfolding pos(1) f_text_pos [OF pos(2)] .
      then show ?thesis using reads_parse(1) [OF int_text(4) [OF pos(2)] x] unfolding e unfolding pos(1) f_text_pos [OF pos(2)] by blast
    next
      case (neg x)
      have x: "0 < x" using neg(2) by (simp add: is_pos_float_def)
      have "\<not> has_any (pos_text x) ''.eE''" using False unfolding neg(1) f_text_neg [OF neg(2)] by (simp add: has_any_Cons)
      then show ?thesis using reads_parse(2) [OF int_text(4) [OF neg(2)] x] unfolding e unfolding neg(1) f_text_neg [OF neg(2)] by simp
    qed
  qed
qed

text \<open>A coordinate without a point or exponent is read as an integer, which is that float.\<close>

lemma parseInt_digits:
  assumes "list_all isDigit s"
  shows "parseInt s = Some i \<Longrightarrow> i = int (dec_val s)" "parseInt (CHR ''-'' # s) = Some i \<Longrightarrow> i = - int (dec_val s)"
proof -
  have "split_sign s = (False, s)" using assms by (cases s) (auto simp: split_sign_def isDigit_def)
  then show "parseInt s = Some i \<Longrightarrow> i = int (dec_val s)" by (simp add: parseInt_def Let_def split: if_splits)
  show "parseInt (CHR ''-'' # s) = Some i \<Longrightarrow> i = - int (dec_val s)" by (simp add: parseInt_def split_sign_def Let_def split: if_splits)
qed

lemma integral_text:
  assumes "finite_float f" "f \<noteq> NZero" "\<not> has_any (f_text f) ''.eE''" "parseInt (f_text f) = Some i"
  shows "f_of_int i = f"
  using assms(1)
proof (cases rule: finite_float_cases)
  case zero
  have "parseInt ''0'' = Some 0" by code_simp
  then show ?thesis using assms(4) zero by (simp add: f_of_int_def f_round_def)
next
  case (pos x)
  note t = int_text [OF pos(2)]
  have "\<not> has_any (pos_text x) ''.eE''" using assms(3) unfolding pos(1) f_text_pos [OF pos(2)] .
  moreover from this have "i = int (dec_val (pos_text x))"
    using assms(4) parseInt_digits(1) [OF t(1)] unfolding pos(1) f_text_pos [OF pos(2)] by simp
  ultimately show ?thesis using t(3) by (simp add: f_of_int_def pos(1))
next
  case (neg x)
  note t = int_text [OF neg(2)]
  have n: "\<not> has_any (pos_text x) ''.eE''" using assms(3) unfolding neg(1) f_text_neg [OF neg(2)] by (simp add: has_any_Cons)
  then have i: "i = - int (dec_val (pos_text x))"
    using assms(4) parseInt_digits(2) [OF t(1)] unfolding neg(1) f_text_neg [OF neg(2)] by simp
  have x: "0 < x" using neg(2) by (simp add: is_pos_float_def)
  have "dec_val (pos_text x) \<noteq> 0"
  proof
    assume "dec_val (pos_text x) = 0"
    then have "Fin x = f_round 0" using t(3) [OF n] by simp
    then show False using x by (simp add: f_round_def)
  qed
  then have "f_round (- of_nat (dec_val (pos_text x))) = f_neg (Fin x)"
    using f_round_neg [of "of_nat (dec_val (pos_text x))"] t(3) [OF n] by simp
  then show ?thesis using x by (simp add: f_of_int_def i neg(1))
qed (use assms in simp)

section \<open>Texts the decoder reads\<close>

text \<open>What may follow a number, and how a text of a value may start.\<close>

definition stops :: "string \<Rightarrow> bool" where
  "stops r \<longleftrightarrow> r = [] \<or> \<not> num_char (hd r)"

definition opens :: "string \<Rightarrow> bool" where
  "opens t \<longleftrightarrow> t \<noteq> [] \<and> hd t \<notin> {CHR '' '', CHR 0x09, CHR 0x0A, CHR 0x0D, CHR '']'', CHR ''}''}"

definition reads :: "string \<Rightarrow> val \<Rightarrow> bool" where
  "reads t v \<longleftrightarrow> opens t \<and> (\<forall>d r. stops r \<longrightarrow> (\<exists>N. \<forall>n \<ge> N. json_value fast_readers d n (t @ r) = Some (v, r)))"

lemma readsI:
  assumes "opens t" "\<And>d r n. stops r \<Longrightarrow> json_value fast_readers d (Suc n) (t @ r) = Some (v, r)"
  shows "reads t v"
  unfolding reads_def
proof (intro conjI allI impI assms(1))
  fix d r assume "stops r"
  then have "json_value fast_readers d n (t @ r) = Some (v, r)" if "1 \<le> n" for n using that assms(2) by (cases n) auto
  then show "\<exists>N. \<forall>n \<ge> N. json_value fast_readers d n (t @ r) = Some (v, r)" by blast
qed

lemma readsD: "reads t v \<Longrightarrow> stops r \<Longrightarrow> \<exists>N. \<forall>n \<ge> N. json_value fast_readers d n (t @ r) = Some (v, r)"
  by (simp add: reads_def)

lemma ws_opens: "opens t \<Longrightarrow> json_ws (t @ r) = t @ r"
  by (cases t) (auto simp: opens_def json_ws_def)

lemma ws_char: "c \<notin> {CHR '' '', CHR 0x09, CHR 0x0A, CHR 0x0D} \<Longrightarrow> json_ws (c # s) = c # s"
  by (auto simp: json_ws_def)

lemma expect_simps:
  "expect c (c # s) = Some s" "d \<noteq> c \<Longrightarrow> expect c (d # s) = None" "expect c [] = None"
  by (auto simp: expect_def)

lemma expect_opens: "opens t \<Longrightarrow> expect (CHR '']'') (t @ r) = None" "opens t \<Longrightarrow> expect (CHR ''}'') (t @ r) = None"
  by (cases t; auto simp: opens_def expect_def)+

lemma num_chars_stop: "list_all num_char t \<Longrightarrow> stops r \<Longrightarrow> takeWhile num_char (t @ r) = t \<and> dropWhile num_char (t @ r) = r"
  by (cases r) (auto simp: stops_def list_all_iff takeWhile_append dropWhile_append)

lemma num_char_first:
  "num_char c \<Longrightarrow> c \<notin> {CHR '' '', CHR 0x09, CHR 0x0A, CHR 0x0D, CHR '']'', CHR ''}'', CHR ''{'', CHR ''['', CHR 0x22, CHR ''t'', CHR ''f'', CHR ''n''}"
  by (auto simp: num_char_def isDigit_def)

lemma reads_number:
  assumes "list_all num_char t" "t \<noteq> []" "hd t = CHR ''-'' \<or> isDigit (hd t)" "\<And>r. stops r \<Longrightarrow> fast_number (t @ r) = Some (v, r)"
  shows "reads t v"
proof (rule readsI)
  obtain c u where t: "t = c # u" using assms(2) by (cases t) auto
  have c: "c \<notin> {CHR '' '', CHR 0x09, CHR 0x0A, CHR 0x0D, CHR '']'', CHR ''}'', CHR ''{'', CHR ''['', CHR 0x22, CHR ''t'', CHR ''f'', CHR ''n''}"
    using assms(1) num_char_first [of c] by (simp add: t)
  then show o: "opens t" by (simp add: opens_def t)
  fix d r n assume "stops r"
  then show "json_value fast_readers d (Suc n) (t @ r) = Some (v, r)"
    using assms(3) assms(4) [of r] c by (simp add: json_value.simps ws_opens [OF o] Let_def) (auto simp: t fast_readers_def)
qed

lemma reads_plain_float:
  assumes "finite_float f"
  shows "reads (encode_float f) (VFloat f)"
proof (rule reads_number)
  note e = encode_float_read [OF assms]
  show "list_all num_char (encode_float f)" "encode_float f \<noteq> []" by (rule e)+
  show "hd (encode_float f) = CHR ''-'' \<or> isDigit (hd (encode_float f))"
    using f_text_chars [OF assms] by (simp add: encode_float_def Let_def)
  show "fast_number (encode_float f @ r) = Some (VFloat f, r)" if "stops r" for r
    using num_chars_stop [OF e(1) that] e(2,3) by (simp add: fast_number_def Let_def)
qed

lemma dec_int_chars: "list_all num_char (dec_int i)" "dec_int i \<noteq> []" "hd (dec_int i) = CHR ''-'' \<or> isDigit (hd (dec_int i))"
    "\<not> has_any (dec_int i) ''.eE''"
proof -
  have d: "list_all isDigit (dec_nat n)" for n using dec_nat_digits [of n] by (simp add: list_all_iff)
  have n: "list_all num_char (dec_nat n)" "\<not> has_any (dec_nat n) ''.eE''" for n
    using d [of n] by (auto simp: list_all_iff num_char_digit has_any_def list_ex_iff isDigit_def)
  show "list_all num_char (dec_int i)" "dec_int i \<noteq> []" "\<not> has_any (dec_int i) ''.eE''"
    using n by (auto simp: dec_int_def num_char_def has_any_Cons)
  have "isDigit (hd (dec_nat n))" for n using d [of n] dec_nat_nonempty [of n] by (cases "dec_nat n") auto
  then show "hd (dec_int i) = CHR ''-'' \<or> isDigit (hd (dec_int i))" by (simp add: dec_int_def)
qed

lemma reads_int:
  assumes "in64 i"
  shows "reads (dec_int i) (VInt i)"
proof (rule reads_number)
  show "fast_number (dec_int i @ r) = Some (VInt i, r)" if "stops r" for r
    using num_chars_stop [OF dec_int_chars(1) that] parseInt_dec_int [OF assms] dec_int_chars(4) by (simp add: fast_number_def Let_def)
qed (rule dec_int_chars)+

text \<open>What a coordinate is read as.\<close>

definition raw_coord :: "f64 \<Rightarrow> val" where
  "raw_coord f = (case (if has_any (f_text f) ''.eE'' then None else parseInt (f_text f)) of Some i \<Rightarrow> VInt i | None \<Rightarrow> VFloat f)"

lemma reads_coord:
  assumes "finite_float f"
  shows "reads (f_text f) (raw_coord f)"
proof (rule reads_number)
  have "parseFloat (f_text f) = Some f" using parseFloat_f_text assms by (simp add: finite_float_def)
  then show "fast_number (f_text f @ r) = Some (raw_coord f, r)" if "stops r" for r
    using num_chars_stop [OF f_text_chars(1) [OF assms] that]
    by (simp add: fast_number_def raw_coord_def Let_def split: option.split)
qed (rule f_text_chars [OF assms])+

lemma raw_coord_cases:
  assumes "finite_float f" "f \<noteq> NZero"
  shows "raw_coord f = VFloat f \<or> (\<exists>i. raw_coord f = VInt i \<and> f_of_int i = f)"
  using integral_text [OF assms] by (auto simp: raw_coord_def split: option.splits)

lemma reads_null: "reads ''null'' VNull"
  and reads_bool: "reads (bool_text b) (VBool b)"
  by (auto intro!: readsI simp: opens_def json_value.simps json_ws_def bool_text_def)

text \<open>Strings, as values and as keys.\<close>

lemma fast_string_reads: "valid_utf8 s \<Longrightarrow> fast_string (json_string s @ r) = Some (s, r)"
proof -
  assume v: "valid_utf8 s"
  have "json_unescape (json_body s) = Some s" using unescape_body [OF v, of "[]"] by simp
  then show ?thesis using scan_body [OF v, of r] body_plain [OF v]
    by (simp add: fast_string_def json_string_def expect_simps)
qed

lemma reads_string: "valid_utf8 s \<Longrightarrow> reads (json_string s) (VStr s)"
proof (rule readsI)
  assume v: "valid_utf8 s"
  show "opens (json_string s)" by (simp add: opens_def json_string_def)
  show "json_value fast_readers d (Suc n) (json_string s @ r) = Some (VStr s, r)" for d n r
    using fast_string_reads [OF v, of r] by (simp add: json_value.simps json_string_def json_ws_def fast_readers_def)
qed

lemma join_more: "join d (t # u # ts) = t @ d @ join d (u # ts)"
  by (simp add: join_def)

lemma not_deep: "\<not> too_deep fast_readers d"
  by (simp add: too_deep_def fast_readers_def)

lemma stops_char: "\<not> num_char c \<Longrightarrow> stops (c # r)"
  by (simp add: stops_def)

lemma reads_elements:
  assumes "list_all2 reads (t # ts) (v # vs)"
  shows "\<exists>N. \<forall>n \<ge> N. json_elements fast_readers d n acc (join '','' (t # ts) @ CHR '']'' # r) = Some (acc @ v # vs, r)"
  using assms
proof (induction ts arbitrary: t v vs acc)
  case Nil
  have st: "stops (CHR '']'' # r)" by (simp add: stops_def num_char_def isDigit_def)
  obtain N where N: "\<forall>n \<ge> N. json_value fast_readers d n (t @ CHR '']'' # r) = Some (v, CHR '']'' # r)"
    using readsD [OF _ st] Nil by blast
  have "json_elements fast_readers d n acc (join '','' [t] @ CHR '']'' # r) = Some (acc @ v # vs, r)" if "Suc N \<le> n" for n
    using N that Nil by (cases n) (simp_all add: json_elements.simps join_def ws_char expect_simps)
  then show ?case by blast
next
  case (Cons u ts)
  then obtain w ws where vs: "vs = w # ws" by (cases vs) auto
  let ?rest = "join '','' (u # ts) @ CHR '']'' # r"
  have st: "stops (CHR '','' # ?rest)" by (simp add: stops_def num_char_def isDigit_def)
  obtain N where N: "\<forall>n \<ge> N. json_value fast_readers d n (t @ CHR '','' # ?rest) = Some (v, CHR '','' # ?rest)"
    using readsD [OF _ st] Cons.prems by blast
  obtain M where M: "\<forall>n \<ge> M. json_elements fast_readers d n (acc @ [v]) ?rest = Some ((acc @ [v]) @ w # ws, r)"
    using Cons.IH [of u w ws "acc @ [v]"] Cons.prems by (auto simp: vs)
  have "json_elements fast_readers d n acc (join '','' (t # u # ts) @ CHR '']'' # r) = Some (acc @ v # vs, r)" if "Suc (max N M) \<le> n" for n
    using N M that by (cases n) (simp_all add: json_elements.simps join_more ws_char expect_simps vs)
  then show ?case by blast
qed

lemma reads_array:
  assumes "list_all2 reads ts vs"
  shows "reads (CHR ''['' # join '','' ts @ '']'') (VList vs)"
  unfolding reads_def
proof (intro conjI allI impI)
  show "opens (CHR ''['' # join '','' ts @ '']'')" by (simp add: opens_def)
  fix d r
  show "\<exists>N. \<forall>n \<ge> N. json_value fast_readers d n ((CHR ''['' # join '','' ts @ '']'') @ r) = Some (VList vs, r)"
  proof (cases ts)
    case Nil
    then have "json_value fast_readers d n ((CHR ''['' # join '','' ts @ '']'') @ r) = Some (VList vs, r)" if "2 \<le> n" for n
      using that assms by (cases n; cases "n - 1") (simp_all add: join_def json_value.simps json_array.simps ws_char not_deep expect_simps)
    then show ?thesis by blast
  next
    case (Cons t ts')
    then obtain v vs' where vs: "vs = v # vs'" using assms by (cases vs) auto
    obtain N where N: "\<forall>n \<ge> N. json_elements fast_readers (Suc d) n [] (join '','' ts @ CHR '']'' # r) = Some (vs, r)"
      using reads_elements [of t ts' v vs' "Suc d" "[]" r] assms by (auto simp: Cons vs)
    have "opens t" using assms by (simp add: Cons vs reads_def)
    then have o: "opens (join '','' ts)" by (cases t) (simp_all add: Cons join_def opens_def)
    have "json_value fast_readers d n ((CHR ''['' # join '','' ts @ '']'') @ r) = Some (VList vs, r)" if "Suc (Suc N) \<le> n" for n
      using that N by (cases n; cases "n - 1")
        (simp_all add: json_value.simps json_array.simps ws_char not_deep ws_opens [OF o] expect_opens [OF o])
    then show ?thesis by blast
  qed
qed

text \<open>Objects: the keys come in their order.\<close>

definition entry_text :: "string \<Rightarrow> string \<Rightarrow> string" where
  "entry_text k t = json_string k @ CHR '':'' # t"

definition entry_line :: "string \<times> string \<Rightarrow> string" where
  "entry_line e = entry_text (fst e) (snd e)"

definition entry_reads :: "string \<times> string \<Rightarrow> string \<times> val \<Rightarrow> bool" where
  "entry_reads e kv \<longleftrightarrow> fst e = fst kv \<and> valid_utf8 (fst kv) \<and> reads (snd e) (snd kv)"

lemma mput_last: "\<forall>k' \<in> set (mkeys m). k' < k \<Longrightarrow> mput k v m = m @ [(k, v)]"
  by (induction k v m rule: mput.induct) auto

lemma entry_opens: "opens (entry_text k t @ s)"
  by (simp add: entry_text_def json_string_def opens_def)

lemma json_members_entry:
  assumes "valid_utf8 k" "json_value fast_readers d n (t @ s) = Some (v, s)" "opens t" "s = c # s'" "c = CHR '','' \<or> c = CHR ''}''"
  shows "json_members fast_readers d (Suc n) m (entry_text k t @ s)
    = (if c = CHR '','' then json_members fast_readers d n (mput k v m) s' else Some (mput k v m, s'))"
proof -
  have r: "read_str fast_readers (json_ws (entry_text k t @ s)) = Some (k, CHR '':'' # t @ s)"
    using fast_string_reads [OF assms(1)] ws_opens [OF entry_opens [of k t "[]"]] by (simp add: fast_readers_def entry_text_def)
  show ?thesis unfolding json_members.simps r
    using assms(2,5) by (auto simp: ws_char expect_simps assms(4))
qed

lemma reads_members:
  assumes "list_all2 entry_reads (e # es) (kv # m)" "good_map (acc @ kv # m)"
  shows "\<exists>N. \<forall>n \<ge> N. json_members fast_readers d n acc (join '','' (map entry_line (e # es)) @ CHR ''}'' # r)
    = Some (acc @ kv # m, r)"
  using assms
proof (induction es arbitrary: e kv m acc)
  case Nil
  have e: "valid_utf8 (fst kv)" "reads (snd e) (snd kv)" "fst e = fst kv" "m = []" using Nil.prems(1) by (auto simp: entry_reads_def)
  have p: "mput (fst kv) (snd kv) acc = acc @ [kv]" using Nil.prems(2) by (intro mput_last [THEN trans]) (auto simp: good_map_def sorted_wrt_append)
  have st: "stops (CHR ''}'' # r)" by (simp add: stops_def num_char_def isDigit_def)
  obtain N where N: "\<forall>n \<ge> N. json_value fast_readers d n (snd e @ CHR ''}'' # r) = Some (snd kv, CHR ''}'' # r)"
    using readsD [OF e(2) st] by blast
  have "json_members fast_readers d n acc (entry_text (fst kv) (snd e) @ CHR ''}'' # r) = Some (acc @ [kv], r)" if "Suc N \<le> n" for n
    using N that e(2) json_members_entry [OF e(1), of d "n - 1" "snd e" "CHR ''}'' # r" "snd kv" "CHR ''}''" r acc]
    by (cases n) (simp_all add: reads_def p)
  then show ?case using e(3,4) by (auto simp: join_def entry_line_def)
next
  case (Cons f es)
  obtain kw m' where m: "m = kw # m'" using Cons.prems(1) by (cases m) auto
  have e: "valid_utf8 (fst kv)" "reads (snd e) (snd kv)" "fst e = fst kv" using Cons.prems(1) by (auto simp: entry_reads_def)
  have p: "mput (fst kv) (snd kv) acc = acc @ [kv]" using Cons.prems(2) by (intro mput_last [THEN trans]) (auto simp: good_map_def sorted_wrt_append)
  let ?rest = "join '','' (map entry_line (f # es)) @ CHR ''}'' # r"
  have st: "stops (CHR '','' # ?rest)" by (simp add: stops_def num_char_def isDigit_def)
  obtain N where N: "\<forall>n \<ge> N. json_value fast_readers d n (snd e @ CHR '','' # ?rest) = Some (snd kv, CHR '','' # ?rest)"
    using readsD [OF e(2) st] by blast
  obtain M where M: "\<forall>n \<ge> M. json_members fast_readers d n (acc @ [kv]) ?rest = Some ((acc @ [kv]) @ kw # m', r)"
    using Cons.IH [of f kw m' "acc @ [kv]"] Cons.prems by (auto simp: m)
  have "json_members fast_readers d n acc (entry_text (fst kv) (snd e) @ CHR '','' # ?rest) = Some (acc @ kv # m, r)" if "Suc (max N M) \<le> n" for n
    using N M that e(2) json_members_entry [OF e(1), of d "n - 1" "snd e" "CHR '','' # ?rest" "snd kv" "CHR '',''" ?rest acc]
    by (cases n) (simp_all add: reads_def p m)
  then have "\<exists>N. \<forall>n \<ge> N. json_members fast_readers d n acc (entry_text (fst kv) (snd e) @ CHR '','' # ?rest) = Some (acc @ kv # m, r)"
    by blast
  moreover have "entry_line e = entry_text (fst kv) (snd e)" by (simp add: entry_line_def e(3))
  ultimately show ?case by (simp only: join_more list.map append.assoc append_Cons append_Nil)
qed

lemma object_members:
  assumes "list_all2 entry_reads es m" "good_map m"
  shows "\<exists>N. \<forall>n \<ge> N. json_object fast_readers d n (CHR ''{'' # join '','' (map entry_line es) @ CHR ''}'' # r) = Some (m, r)"
proof (cases es)
  case Nil
  then have "json_object fast_readers d n (CHR ''{'' # join '','' (map entry_line es) @ CHR ''}'' # r) = Some (m, r)"
    if "1 \<le> n" for n using that assms by (cases n) (simp_all add: join_def json_object.simps ws_char not_deep expect_simps)
  then show ?thesis by blast
next
  case (Cons e es')
  then obtain kv m' where m: "m = kv # m'" using assms by (cases m) auto
  let ?t = "join '','' (map entry_line es) @ CHR ''}'' # r"
  obtain N where N: "\<forall>n \<ge> N. json_members fast_readers (Suc d) n [] ?t = Some (m, r)"
    using reads_members [of e es' kv m' "[]" "Suc d" r] assms by (auto simp: Cons m)
  have "\<exists>s. ?t = entry_text (fst e) (snd e) @ s"
    by (cases es') (auto simp: Cons join_def entry_line_def)
  then obtain s where s: "?t = entry_text (fst e) (snd e) @ s" by blast
  have o: "json_ws ?t = ?t" "expect (CHR ''}'') ?t = None"
    unfolding s using ws_opens [OF entry_opens [of "fst e" "snd e" "[]"]] expect_opens [OF entry_opens [of "fst e" "snd e" "[]"]]
    by simp_all
  have "json_object fast_readers d n (CHR ''{'' # ?t) = Some (m, r)" if "Suc N \<le> n" for n
    using that N o by (cases n) (simp_all add: json_object.simps not_deep expect_simps)
  then show ?thesis by blast
qed

lemma reads_object:
  assumes "list_all2 entry_reads es m" "good_map m"
  shows "reads (CHR ''{'' # join '','' (map entry_line es) @ ''}'') (VMap m)"
  unfolding reads_def
proof (intro conjI allI impI)
  let ?t = "CHR ''{'' # join '','' (map entry_line es) @ ''}''"
  show "opens ?t" by (simp add: opens_def)
  fix d r
  obtain N where N: "\<forall>n \<ge> N. json_object fast_readers d n (CHR ''{'' # join '','' (map entry_line es) @ CHR ''}'' # r) = Some (m, r)"
    using object_members [OF assms] by blast
  have "json_value fast_readers d n (?t @ r) = Some (VMap m, r)" if "Suc N \<le> n" for n
    using that N by (cases n) (simp_all add: json_value.simps ws_char)
  then show "\<exists>N. \<forall>n \<ge> N. json_value fast_readers d n (?t @ r) = Some (VMap m, r)" by blast
qed

section \<open>Property values come back\<close>

text \<open>Printable ASCII outside the marked characters needs no escape.\<close>

definition plain_char :: "char \<Rightarrow> bool" where
  "plain_char c \<longleftrightarrow> 0x20 \<le> byte c \<and> byte c < 0x80 \<and> byte c \<notin> {0x22, 0x26, 0x3C, 0x3E, 0x5C}"

definition plain_text :: "string \<Rightarrow> bool" where
  "plain_text s \<longleftrightarrow> list_all plain_char s"

lemma plain_ascii:
  assumes "plain_char c"
  shows "byte c < 0x80" "json_ascii c = [c]"
proof -
  have n: "c \<noteq> d" if "byte d < 0x20 \<or> byte d \<in> {0x22, 0x26, 0x3C, 0x3E, 0x5C}" for d
    using assms that by (auto simp: plain_char_def)
  have "c \<noteq> CHR 0x22" "c \<noteq> CHR 0x5C" "c \<noteq> CHR 0x08" "c \<noteq> CHR 0x0C" "c \<noteq> CHR 0x0A" "c \<noteq> CHR 0x0D" "c \<noteq> CHR 0x09"
    "c \<noteq> CHR ''<''" "c \<noteq> CHR ''>''" "c \<noteq> CHR ''&''"
    by (rule n, simp add: byte_def)+
  then show "byte c < 0x80" "json_ascii c = [c]"
    using assms by (simp_all add: json_ascii_def short_escape_def plain_char_def)
qed

lemma plain_body: "plain_text s \<Longrightarrow> json_body s = s \<and> valid_utf8 s"
proof (induction s)
  case (Cons c s)
  have "plain_char c" "plain_text s" using Cons.prems by (simp_all add: plain_text_def)
  then show ?case using Cons.IH plain_ascii [of c] by (simp add: json_body_step decode_ascii runeError_def)
qed (simp add: json_body_step)

lemma plain_string: "plain_text s \<Longrightarrow> json_string s = CHR 0x22 # s @ [CHR 0x22]"
  using plain_body by (simp add: json_string_def)

lemma plain_digit: "isDigit c \<Longrightarrow> plain_char c"
  by (auto simp: isDigit_def plain_char_def byte_def)

lemma temporal_plain:
  assumes "canonical t"
  shows "plain_text (tval_string t)"
proof -
  have "c \<notin> set (tval_string t)" if bad: "\<not> plain_char c" for c
  proof -
    have nd: "\<not> isDigit c" using bad plain_digit by blast
    have ne: "c \<noteq> d" if "plain_char d" for d using bad that by blast
    have n: "c \<noteq> CHR ''-''" "c \<noteq> CHR ''+''" "c \<noteq> CHR '':''" "c \<noteq> CHR ''.''" "c \<noteq> CHR ''T''" "c \<noteq> CHR ''Z''" "c \<noteq> CHR ''P''"
      "c \<noteq> CHR ''Y''" "c \<noteq> CHR ''M''" "c \<noteq> CHR ''D''" "c \<noteq> CHR ''H''" "c \<noteq> CHR ''W''" "c \<noteq> CHR ''S''" "c \<noteq> CHR ''0''"
      by (rule ne, simp add: plain_char_def byte_def)+
    note no = n digits_no [OF nd] sdigits_no [OF nd] dec_int_no [OF nd n(1)]
    have y: "c \<notin> set (fmtYear y)" for y by (simp add: fmtYear_def no)
    have d: "c \<notin> set (date_string x)" for x by (simp add: date_string_def y no split: prod.split)
    have f: "c \<notin> set (fraction k)" for k by (simp add: fraction_def Let_def no)
    have l: "c \<notin> set (localtime_string k)" for k by (simp add: localtime_string_def f no split: prod.split)
    have z: "c \<notin> set (fmtOffset k)" for k by (simp add: fmtOffset_def Let_def no)
    have tz: "c \<notin> set (trim_zeros (pad0 w k))" for w k
      using digits_no(2) [OF nd, of w k] set_dropWhileD unfolding trim_zeros_def by fastforce
    have dd: "c \<notin> set (dur_date_string x)" for x by (simp add: dur_date_string_def Let_def no)
    have du: "c \<notin> set (duration_string x)" for x by (simp add: duration_string_def Let_def dd tz no split: prod.split)
    show ?thesis using assms
      by (cases t) (simp_all add: d l z du no time_string_def localdatetime_string_def datetime_string_def)
  qed
  then show ?thesis by (auto simp: plain_text_def list_all_iff)
qed

text \<open>The values that survive: finite floats, valid text, temporal values with a fixed offset; no negative zero as a coordinate.\<close>

definition kept_coord :: "f64 \<Rightarrow> bool" where
  "kept_coord f \<longleftrightarrow> finite_float f \<and> f \<noteq> NZero"

definition kept_vec :: "vec \<Rightarrow> bool" where
  "kept_vec v \<longleftrightarrow> good_vec v \<and> (\<forall>n \<in> set (v_ints v). in64 n)
     \<and> (\<forall>f \<in> set (v_floats v). kept_coord f \<and> roundTo f (v_type v) = f)"

fun kept :: "val \<Rightarrow> bool" where
  "kept VNull = True"
| "kept (VBool b) = True"
| "kept (VInt i) = in64 i"
| "kept (VFloat f) = finite_float f"
| "kept (VStr s) = valid_utf8 s"
| "kept (VList l) = list_all kept l"
| "kept (VTemp t) = canonical t"
| "kept (VPoint p) = (in64 (pt_srid p) \<and> kept_coord (pt_x p) \<and> kept_coord (pt_y p) \<and> kept_coord (pt_z p))"
| "kept (VVec v) = kept_vec v"
| "kept v = False"

fun raw :: "val \<Rightarrow> val" where
  "raw (VList l) = VList (map raw l)"
| "raw (VTemp t) = VMap [(''$t'', VInt (kind_num (tkind t))), (''v'', VStr (tval_string t))]"
| "raw (VPoint p) = VMap [(''$p'', VInt (pt_srid p)), (''c'', VList [raw_coord (pt_x p), raw_coord (pt_y p), raw_coord (pt_z p)])]"
| "raw (VVec v) = VMap [(''$v'', VStr (vtype_name (v_type v))),
     (''c'', VList (if vIsInteger (v_type v) then map VInt (v_ints v) else map raw_coord (v_floats v)))]"
| "raw v = v"

lemma plain_keys: "plain_text ''$t''" "plain_text ''$p''" "plain_text ''$v''" "plain_text ''v''" "plain_text ''c''" "plain_text (vtype_name t)"
  by (simp_all add: plain_text_def plain_char_def byte_def) (cases t; simp add: plain_char_def byte_def)

lemma entry_plain: "plain_text k \<Longrightarrow> reads t v \<Longrightarrow> entry_reads (k, t) (k, v)"
  using plain_body by (simp add: entry_reads_def)

lemma kind_in64: "in64 (kind_num k)"
  by (cases k) (simp_all add: in64_def)

lemma reads_temporal:
  assumes "canonical t"
  shows "reads (encode_temporal t) (raw (VTemp t))"
proof -
  have s: "plain_text (tval_string t)" using assms by (rule temporal_plain)
  then have "reads (json_string (tval_string t)) (VStr (tval_string t))" using plain_body by (intro reads_string) blast
  then have "list_all2 entry_reads [(''$t'', dec_int (kind_num (tkind t))), (''v'', json_string (tval_string t))]
      [(''$t'', VInt (kind_num (tkind t))), (''v'', VStr (tval_string t))]"
    using entry_plain [OF plain_keys(1) reads_int [OF kind_in64 [of "tkind t"]]] entry_plain [OF plain_keys(4)] by simp
  from reads_object [OF this] show ?thesis
    by (simp add: good_map_def encode_temporal_def join_def entry_line_def entry_text_def plain_string plain_keys)
qed

lemma reads_point:
  assumes "kept (VPoint p)"
  shows "reads (encode_point p) (raw (VPoint p))"
proof -
  have "list_all2 reads [f_text (pt_x p), f_text (pt_y p), f_text (pt_z p)] [raw_coord (pt_x p), raw_coord (pt_y p), raw_coord (pt_z p)]"
    using assms by (simp add: kept_coord_def reads_coord)
  from reads_array [OF this] have "list_all2 entry_reads
      [(''$p'', dec_int (pt_srid p)), (''c'', CHR ''['' # join '','' [f_text (pt_x p), f_text (pt_y p), f_text (pt_z p)] @ '']'')]
      [(''$p'', VInt (pt_srid p)), (''c'', VList [raw_coord (pt_x p), raw_coord (pt_y p), raw_coord (pt_z p)])]"
    using assms entry_plain [OF plain_keys(2) reads_int] entry_plain [OF plain_keys(5)] by simp
  from reads_object [OF this] show ?thesis
    by (simp add: good_map_def encode_point_def join_def entry_line_def entry_text_def plain_string plain_keys)
qed

lemma reads_kept_vector:
  assumes "kept (VVec v)"
  shows "reads (encode_vector v) (raw (VVec v))"
proof -
  let ?ts = "if vIsInteger (v_type v) then map dec_int (v_ints v) else map f_text (v_floats v)"
  let ?vs = "if vIsInteger (v_type v) then map VInt (v_ints v) else map raw_coord (v_floats v)"
  have "list_all2 reads ?ts ?vs"
    using assms by (auto simp: kept_vec_def kept_coord_def list_all2_conv_all_nth reads_coord reads_int)
  from reads_array [OF this] have "list_all2 entry_reads
      [(''$v'', json_string (vtype_name (v_type v))), (''c'', CHR ''['' # join '','' ?ts @ '']'')]
      [(''$v'', VStr (vtype_name (v_type v))), (''c'', VList ?vs)]"
    using entry_plain [OF plain_keys(3) reads_string] plain_body [OF plain_keys(6)] entry_plain [OF plain_keys(5)] by simp
  from reads_object [OF this] show ?thesis
    by (simp add: good_map_def encode_vector_def join_def [of "'',''" "[_, _]"] entry_line_def entry_text_def plain_string plain_keys)
qed

lemma value_reads: "kept v \<Longrightarrow> \<exists>t. encodeValue v = Inr t \<and> reads t (raw v)"
proof (induction v rule: raw.induct)
  case (1 l)
  have "\<exists>ts. mapE encodeValue l = Inr ts \<and> list_all2 reads ts (map raw l)" using 1
  proof (induction l)
    case (Cons v l)
    obtain t where t: "encodeValue v = Inr t" "reads t (raw v)" using Cons.prems(1) [of v] Cons.prems(2) by auto
    obtain ts where "mapE encodeValue l = Inr ts" "list_all2 reads ts (map raw l)"
      using Cons.IH Cons.prems by auto
    with t show ?case by simp
  qed simp
  then show ?case using reads_array by auto
qed (auto simp: reads_null reads_bool reads_int reads_string reads_plain_float finite_float_def reads_temporal reads_point reads_kept_vector
    simp del: raw.simps(2-4) kept.simps(8,9))

text \<open>The objects are turned back into values.\<close>

lemma kind_of_num: "kind_of_num (kind_num k) = Some k"
  by (cases k) (simp_all add: kind_of_num_def)

lemma parse_vtype_name: "parseVType (vtype_name t) = Some t"
  by (rule parseVType_name)

lemma coord_float_raw: "kept_coord f \<Longrightarrow> coord_float (raw_coord f) = f"
  using raw_coord_cases [of f] by (auto simp: kept_coord_def coord_float_def)

lemma revive_point_raw:
  assumes "kept (VPoint p)"
  shows "reviveTemporal te (raw (VPoint p)) = VPoint p"
  using assms by (simp add: revive_vector_def revive_point_def coord_float_raw)

lemma add_coords_ints:
  assumes "vIsInteger t" "\<forall>n \<in> set ns. v_fits n t"
  shows "foldE (add_coord t) (map AInt ns) v = Inr (v\<lparr>v_ints := v_ints v @ ns\<rparr>)"
  using assms(2) by (induction ns arbitrary: v) (simp_all add: add_coord_def assms(1))

lemma add_coords_floats:
  assumes "\<not> vIsInteger t" "\<forall>f \<in> set fs. kept_coord f \<and> roundTo f t = f"
  shows "foldE (add_coord t) (map (coord_arg i t) (map raw_coord fs)) v = Inr (v\<lparr>v_floats := v_floats v @ fs\<rparr>)"
  using assms(2)
proof (induction fs arbitrary: v)
  case (Cons f fs)
  have f: "kept_coord f" "roundTo f t = f" "\<not> f_isnan f" "\<not> f_isinf f" using Cons.prems by (auto simp: kept_coord_def finite_float_def)
  have "add_coord t (coord_arg i t (raw_coord f)) v = Inr (v\<lparr>v_floats := v_floats v @ [f]\<rparr>)"
    using raw_coord_cases [of f] f assms(1) by (auto simp: kept_coord_def coord_arg_def add_coord_def Let_def)
  then show ?case using Cons by simp
qed simp

lemma revive_vector_raw:
  assumes "kept (VVec v)"
  shows "reviveTemporal te (raw (VVec v)) = VVec v"
proof -
  have g: "good_vec v" using assms by (simp add: kept_vec_def)
  let ?i = "platform_int te"
  let ?c = "if vIsInteger (v_type v) then map VInt (v_ints v) else map raw_coord (v_floats v)"
  have l: "length ?c = dimension v" by (simp add: dimension_def)
  have "newVector (map (coord_arg ?i (v_type v)) ?c) (int (length ?c)) (v_type v) = Inr v"
  proof (cases "vIsInteger (v_type v)")
    case True
    have "map (coord_arg ?i (v_type v)) ?c = map AInt (v_ints v)" unfolding if_P [OF True] list.map_comp
      by (rule map_cong) (simp_all add: coord_arg_def)
    then show ?thesis using True g l add_coords_ints [OF True, of "v_ints v" "\<lparr>v_type = v_type v, v_ints = [], v_floats = []\<rparr>"]
      by (simp add: newVector_def good_vec_def del: list.map_comp map_map)
  next
    case False
    have "\<forall>f \<in> set (v_floats v). kept_coord f \<and> roundTo f (v_type v) = f" using assms by (simp add: kept_vec_def)
    from add_coords_floats [OF False this, of ?i "\<lparr>v_type = v_type v, v_ints = [], v_floats = []\<rparr>"]
    show ?thesis using False g l by (simp add: newVector_def good_vec_def)
  qed
  then show ?thesis by (simp add: revive_vector_def parse_vtype_name)
qed

lemma revive_temporal_raw:
  assumes "canonical t"
  shows "reviveTemporal te (raw (VTemp t)) = VTemp t"
  using parse_tval_string [OF assms] by (simp add: revive_vector_def revive_point_def revive_temporal_def kind_of_num)

lemma revive_raw: "kept v \<Longrightarrow> reviveTemporal te (raw v) = v"
proof (induction v rule: raw.induct)
  case (1 l)
  then show ?case by (auto simp: list_all_iff intro!: map_idI)
qed (simp_all add: revive_temporal_raw revive_point_raw revive_vector_raw del: raw.simps(2-4) kept.simps(8,9))

definition kept_props :: "vmap \<Rightarrow> bool" where
  "kept_props m \<longleftrightarrow> good_map m \<and> list_all (\<lambda>kv. valid_utf8 (fst kv) \<and> kept (snd kv)) m"

theorem decode_encode:
  assumes "kept_props m" "encodeProps m = Inr s"
  shows "decodeProps te s = Inr m"
proof -
  have "\<exists>es. mapE encode_entry m = Inr (map entry_line es) \<and> list_all2 entry_reads es (map (\<lambda>kv. (fst kv, raw (snd kv))) m)"
    if "list_all (\<lambda>kv. valid_utf8 (fst kv) \<and> kept (snd kv)) m" for m
    using that
  proof (induction m)
    case (Cons kv m)
    then obtain es where es: "mapE encode_entry m = Inr (map entry_line es)" "list_all2 entry_reads es (map (\<lambda>kv. (fst kv, raw (snd kv))) m)"
      by auto
    obtain t where t: "encodeValue (snd kv) = Inr t" "reads t (raw (snd kv))" using value_reads Cons.prems by auto
    have "encode_entry kv = Inr (entry_line (fst kv, t))" using t(1) by (simp add: encode_entry_def entry_line_def entry_text_def)
    moreover have "entry_reads (fst kv, t) (fst kv, raw (snd kv))" using t(2) Cons.prems by (simp add: entry_reads_def)
    ultimately show ?case using es by (intro exI [of _ "(fst kv, t) # es"]) simp
  qed simp
  then obtain es where es: "mapE encode_entry m = Inr (map entry_line es)" "list_all2 entry_reads es (map (\<lambda>kv. (fst kv, raw (snd kv))) m)"
    using assms(1) by (auto simp: kept_props_def)
  have s: "s = CHR ''{'' # join '','' (map entry_line es) @ ''}''" using assms(2) es(1) by (simp add: encodeProps_def)
  have g: "good_map (map (\<lambda>kv. (fst kv, raw (snd kv))) m)" using assms(1) by (simp add: kept_props_def good_map_def comp_def)
  obtain N where N: "\<forall>n \<ge> N. json_object fast_readers 0 n s = Some (map (\<lambda>kv. (fst kv, raw (snd kv))) m, [])"
    using object_members [OF es(2) g, of 0 "[]"] by (auto simp: s)
  have "json_object fast_readers 0 (json_fuel s) s = json_object fast_readers 0 (max N (json_fuel s)) s"
    by (rule fast.fuel_enough(2) [symmetric]) simp
  then have "fastDecodeObject s = Some (map (\<lambda>kv. (fst kv, raw (snd kv))) m)"
    using N by (simp add: fastDecodeObject_def s ws_char) (simp add: json_ws_def)
  moreover have "map (\<lambda>kv. (fst kv, reviveTemporal te (snd kv))) (map (\<lambda>kv. (fst kv, raw (snd kv))) m) = m"
    using assms(1) revive_raw by (auto simp: kept_props_def list_all_iff intro!: map_idI)
  moreover have "s = ''{}'' \<Longrightarrow> m = []"
    using N [rule_format, of "Suc (Suc N)"] by (auto simp: json_object.simps not_deep expect_def json_ws_def split: if_splits)
  ultimately show ?thesis by (auto simp: decodeProps_def s)
qed

text \<open>Two coordinates that do not survive: negative zero loses its sign, and no JSON decoder reads an infinity.\<close>

lemma negative_zero_lost:
  "reviveTemporal te (raw (VPoint \<lparr>pt_srid = 7203, pt_x = NZero, pt_y = Fin 0, pt_z = Fin 0\<rparr>))
    = VPoint \<lparr>pt_srid = 7203, pt_x = Fin 0, pt_y = Fin 0, pt_z = Fin 0\<rparr>"
proof -
  have "raw_coord NZero = VInt 0" "raw_coord (Fin 0) = VInt 0" by code_simp+
  moreover have "f_of_int 0 = Fin 0" by code_simp
  ultimately show ?thesis by (simp add: revive_vector_def revive_point_def coord_float_def)
qed

lemma infinity_not_json: "json_value rd d n (f_text PInf @ r) = None"
  by (cases n) (simp_all add: json_value.simps json_ws_def isDigit_def)

end
