(* ===== verification/Graph.thy ===== *)
theory Graph
  imports PropsFacts
begin

text \<open>
  The graph of a statement: cypher/interp/graph.go over the tables of store/schema.go. Nodes and
  relationships are cached by id and a pointer to one is its id; writes go to the tables at once, deletions when
  the statement finishes. An operation gives the new state, or the error that ends the statement (whose
  transaction is then rolled back). What the database may fail with from outside (a lost file, a cancelled context)
  is left out; its constraints are here.
\<close>

section \<open>Tables\<close>

text \<open>The rows in the order of their ids; \<open>AUTOINCREMENT\<close> never gives an id twice.\<close>

type_synonym node_row = "string \<times> string"
type_synonym edge_row = "string \<times> int \<times> int \<times> string"

record tables =
  t_nodes :: "(int \<times> node_row) list"
  t_edges :: "(int \<times> edge_row) list"
  t_labels :: "(int \<times> string) list"
  t_next_node :: int
  t_next_edge :: int

fun e_start :: "edge_row \<Rightarrow> int" where "e_start (ty, s, t, p) = s"
fun e_end :: "edge_row \<Rightarrow> int" where "e_end (ty, s, t, p) = t"

definition db_full :: "fault + 'a" where "db_full = Inl (DbError ''database or disk is full'')"
definition foreign_key :: "fault + 'a" where "foreign_key = Inl (DbError ''FOREIGN KEY constraint failed'')"
definition not_unique :: "fault + 'a" where "not_unique = Inl (DbError ''UNIQUE constraint failed: node_labels.node_id, node_labels.label'')"
definition no_rows :: "fault + 'a" where "no_rows = Inl (DbError ''sql: no rows in result set'')"

definition insert_node :: "node_row \<Rightarrow> tables \<Rightarrow> fault + int \<times> tables" where
  "insert_node r db = (let i = t_next_node db in if maxInt64 < i then db_full
     else Inr (i, db\<lparr>t_nodes := t_nodes db @ [(i, r)], t_next_node := i + 1\<rparr>))"

definition insert_edge :: "edge_row \<Rightarrow> tables \<Rightarrow> fault + int \<times> tables" where
  "insert_edge r db = (let i = t_next_edge db in
     if maxInt64 < i then db_full
     else if e_start r \<notin> fst ` set (t_nodes db) \<or> e_end r \<notin> fst ` set (t_nodes db) then foreign_key
     else Inr (i, db\<lparr>t_edges := t_edges db @ [(i, r)], t_next_edge := i + 1\<rparr>))"

definition insert_labels :: "int \<Rightarrow> string list \<Rightarrow> tables \<Rightarrow> fault + tables" where
  "insert_labels i ls db =
    (if \<not> distinct ls \<or> (\<exists>l \<in> set ls. (i, l) \<in> set (t_labels db)) then not_unique
     else if i \<notin> fst ` set (t_nodes db) then foreign_key
     else Inr (db\<lparr>t_labels := t_labels db @ map (Pair i) ls\<rparr>))"

definition update_row :: "int \<Rightarrow> ('r \<Rightarrow> 'r) \<Rightarrow> (int \<times> 'r) list \<Rightarrow> (int \<times> 'r) list" where
  "update_row i f rows = map (\<lambda>(j, r). (j, if j = i then f r else r)) rows"

definition delete_row :: "int \<Rightarrow> (int \<times> 'r) list \<Rightarrow> (int \<times> 'r) list" where
  "delete_row i rows = filter (\<lambda>(j, r). j \<noteq> i) rows"

definition delete_node_row :: "int \<Rightarrow> tables \<Rightarrow> fault + tables" where
  "delete_node_row i db =
    (if i \<in> fst ` set (t_nodes db) \<and> (\<exists>(j, r) \<in> set (t_edges db). e_start r = i \<or> e_end r = i) then foreign_key
     else Inr (db\<lparr>t_nodes := delete_row i (t_nodes db), t_labels := delete_row i (t_labels db)\<rparr>))"

section \<open>The statement's view\<close>

record counters =
  c_nodes_created :: int
  c_nodes_deleted :: int
  c_rels_created :: int
  c_rels_deleted :: int
  c_props_set :: int
  c_props_removed :: int
  c_labels_added :: int
  c_labels_removed :: int

definition no_counters :: counters where
  "no_counters = \<lparr>c_nodes_created = 0, c_nodes_deleted = 0, c_rels_created = 0, c_rels_deleted = 0,
     c_props_set = 0, c_props_removed = 0, c_labels_added = 0, c_labels_removed = 0\<rparr>"

text \<open>Sets of pointers are lists of ids; a snapshot is the state of an entity before its first change.\<close>

record graph =
  g_db :: tables
  g_nodes :: "int \<Rightarrow> node option"
  g_rels :: "int \<Rightarrow> rel option"
  g_out :: "int \<Rightarrow> int list option"
  g_in :: "int \<Rightarrow> int list option"
  g_del_nodes :: "int list"
  g_del_rels :: "int list"
  g_new_nodes :: "int list"
  g_new_rels :: "int list"
  g_node_snap :: "(int \<times> vmap \<times> string list) list"
  g_rel_snap :: "(int \<times> vmap) list"
  g_counters :: counters

definition newGraph :: "tables \<Rightarrow> graph" where
  "newGraph db = \<lparr>g_db = db, g_nodes = (\<lambda>_. None), g_rels = (\<lambda>_. None), g_out = (\<lambda>_. None), g_in = (\<lambda>_. None),
     g_del_nodes = [], g_del_rels = [], g_new_nodes = [], g_new_rels = [], g_node_snap = [], g_rel_snap = [],
     g_counters = no_counters\<rparr>"

definition gnode :: "graph \<Rightarrow> int \<Rightarrow> fault + node" where
  "gnode g i = (case g_nodes g i of Some n \<Rightarrow> Inr n | None \<Rightarrow> Inl (GoPanic ''invalid memory address or nil pointer dereference''))"

definition grel :: "graph \<Rightarrow> int \<Rightarrow> fault + rel" where
  "grel g i = (case g_rels g i of Some r \<Rightarrow> Inr r | None \<Rightarrow> Inl (GoPanic ''invalid memory address or nil pointer dereference''))"

definition put_node :: "node \<Rightarrow> graph \<Rightarrow> graph" where
  "put_node n g = g\<lparr>g_nodes := (g_nodes g)(n_id n := Some n)\<rparr>"

definition put_rel :: "rel \<Rightarrow> graph \<Rightarrow> graph" where
  "put_rel r g = g\<lparr>g_rels := (g_rels g)(r_id r := Some r)\<rparr>"

section \<open>Reads\<close>

definition splitLabels :: "string \<Rightarrow> string list" where
  "splitLabels s = (if s = [] then [] else split_on '','' s)"

definition internNode :: "tenv \<Rightarrow> int \<Rightarrow> node_row \<Rightarrow> graph \<Rightarrow> fault + graph" where
  "internNode te i r g = (case g_nodes g i of Some n \<Rightarrow> Inr g
     | None \<Rightarrow> bindE (decodeProps te (snd r)) (\<lambda>p.
         Inr (put_node \<lparr>n_id = i, n_labels = splitLabels (fst r), n_props = p, n_deleted = False\<rparr> g)))"

definition internRel :: "tenv \<Rightarrow> int \<Rightarrow> edge_row \<Rightarrow> graph \<Rightarrow> fault + graph" where
  "internRel te i r g = (case g_rels g i of Some n \<Rightarrow> Inr g
     | None \<Rightarrow> (case r of (ty, s, t, props) \<Rightarrow> bindE (decodeProps te props) (\<lambda>p.
         Inr (put_rel \<lparr>r_id = i, r_type = ty, r_start = s, r_end = t, r_props = p, r_deleted = False\<rparr> g))))"

text \<open>
  The rows of a label come by joining the label index, those of a label with further conditions by a probe of each node;
  \<open>keep\<close> is the condition SQLite evaluates on the stored properties.
\<close>

definition label_rows :: "string \<Rightarrow> tables \<Rightarrow> (int \<times> node_row) list" where
  "label_rows l db = sort_key fst (concat (map (\<lambda>(i, l'). if l' = l
     then (case map_of (t_nodes db) i of Some r \<Rightarrow> [(i, r)] | None \<Rightarrow> []) else []) (t_labels db)))"

definition probe_rows :: "string \<Rightarrow> (string \<Rightarrow> bool) \<Rightarrow> tables \<Rightarrow> (int \<times> node_row) list" where
  "probe_rows l keep db = filter (\<lambda>(i, r). (l = [] \<or> (i, l) \<in> set (t_labels db)) \<and> keep (snd r)) (t_nodes db)"

definition scan_rows :: "string \<Rightarrow> (string \<Rightarrow> bool) option \<Rightarrow> tables \<Rightarrow> (int \<times> node_row) list" where
  "scan_rows l hints db = (case hints of
       None \<Rightarrow> if l \<noteq> [] then label_rows l db else probe_rows l (\<lambda>_. True) db
     | Some keep \<Rightarrow> probe_rows l keep db)"

definition live_node :: "graph \<Rightarrow> int \<Rightarrow> bool" where
  "live_node g i = (case g_nodes g i of Some n \<Rightarrow> \<not> n_deleted n | None \<Rightarrow> False)"

definition live_rel :: "graph \<Rightarrow> int \<Rightarrow> bool" where
  "live_rel g i = (case g_rels g i of Some r \<Rightarrow> \<not> r_deleted r | None \<Rightarrow> False)"

definition intern_nodes :: "tenv \<Rightarrow> (int \<times> node_row) list \<Rightarrow> graph \<Rightarrow> fault + graph" where
  "intern_nodes te rows g = foldE (\<lambda>(i, r). internNode te i r) rows g"

definition intern_rels :: "tenv \<Rightarrow> (int \<times> edge_row) list \<Rightarrow> graph \<Rightarrow> fault + graph" where
  "intern_rels te rows g = foldE (\<lambda>(i, r). internRel te i r) rows g"

definition scanNodes :: "tenv \<Rightarrow> string \<Rightarrow> (string \<Rightarrow> bool) option \<Rightarrow> graph \<Rightarrow> fault + int list \<times> graph" where
  "scanNodes te l hints g = (let rows = scan_rows l hints (g_db g) in
     bindE (intern_nodes te rows g) (\<lambda>g'. Inr (filter (live_node g') (map fst rows), g')))"

definition graph_node :: "tenv \<Rightarrow> int \<Rightarrow> graph \<Rightarrow> fault + graph" where
  "graph_node te i g = (case g_nodes g i of Some n \<Rightarrow> Inr g
     | None \<Rightarrow> (case map_of (t_nodes (g_db g)) i of None \<Rightarrow> no_rows | Some r \<Rightarrow> internNode te i r g))"

definition adj_rows :: "bool \<Rightarrow> int list \<Rightarrow> tables \<Rightarrow> (int \<times> edge_row) list" where
  "adj_rows outgoing is db = filter (\<lambda>(j, r). (if outgoing then e_start r else e_end r) \<in> set is) (t_edges db)"

definition adj :: "bool \<Rightarrow> graph \<Rightarrow> int \<Rightarrow> int list option" where
  "adj outgoing g = (if outgoing then g_out g else g_in g)"

definition set_adj :: "bool \<Rightarrow> int \<Rightarrow> int list \<Rightarrow> graph \<Rightarrow> graph" where
  "set_adj outgoing i rs g = (if outgoing then g\<lparr>g_out := (g_out g)(i := Some rs)\<rparr> else g\<lparr>g_in := (g_in g)(i := Some rs)\<rparr>)"

definition loadAdj :: "tenv \<Rightarrow> int \<Rightarrow> bool \<Rightarrow> graph \<Rightarrow> fault + int list \<times> graph" where
  "loadAdj te i outgoing g = (case adj outgoing g i of Some rs \<Rightarrow> Inr (rs, g)
     | None \<Rightarrow> (let rows = adj_rows outgoing [i] (g_db g) in
         bindE (intern_rels te rows g) (\<lambda>g'. Inr (map fst rows, set_adj outgoing i (map fst rows) g'))))"

definition liveRels :: "tenv \<Rightarrow> int \<Rightarrow> bool \<Rightarrow> graph \<Rightarrow> fault + int list \<times> graph" where
  "liveRels te i outgoing g = bindE (loadAdj te i outgoing g) (\<lambda>(rs, g'). Inr (filter (live_rel g') rs, g'))"

definition allRels :: "tenv \<Rightarrow> graph \<Rightarrow> fault + int list \<times> graph" where
  "allRels te g = bindE (intern_rels te (t_edges (g_db g)) g) (\<lambda>g'. Inr (filter (live_rel g') (map fst (t_edges (g_db g))), g'))"

text \<open>Batches of 5000 ids, each loaded by one query.\<close>

definition chunk :: nat where "chunk = 5000"

function batches :: "'a list \<Rightarrow> 'a list list" where
  "batches xs = (if xs = [] then [] else take chunk xs # batches (drop chunk xs))"
  by pat_completeness auto
termination by (relation "measure length") (auto simp: chunk_def)

declare batches.simps [simp del]

definition prefetch_part :: "tenv \<Rightarrow> bool \<Rightarrow> int list \<Rightarrow> graph \<Rightarrow> fault + graph" where
  "prefetch_part te outgoing part g = (let rows = adj_rows outgoing part (g_db g) in
     bindE (intern_rels te rows g) (\<lambda>g'.
       Inr (foldl (\<lambda>h i. case adj outgoing h i of Some _ \<Rightarrow> h
         | None \<Rightarrow> set_adj outgoing i (map fst (filter (\<lambda>(j, r). (if outgoing then e_start r else e_end r) = i) rows)) h) g' part)))"

definition prefetchAdj :: "tenv \<Rightarrow> int list \<Rightarrow> bool \<Rightarrow> graph \<Rightarrow> fault + graph" where
  "prefetchAdj te is outgoing g = foldE (prefetch_part te outgoing) (batches (filter (\<lambda>i. adj outgoing g i = None) is)) g"

definition rows_of :: "int list \<Rightarrow> tables \<Rightarrow> (int \<times> node_row) list" where
  "rows_of is db = filter (\<lambda>(j, r). j \<in> set is) (t_nodes db)"

definition prefetchNodes :: "tenv \<Rightarrow> int list \<Rightarrow> graph \<Rightarrow> fault + graph" where
  "prefetchNodes te is g =
    foldE (\<lambda>part h. intern_nodes te (rows_of part (g_db h)) h) (batches (filter (\<lambda>i. g_nodes g i = None) is)) g"

definition preloadNodes :: "tenv \<Rightarrow> int list \<Rightarrow> graph \<Rightarrow> fault + graph" where
  "preloadNodes te is g = (let missing = filter (\<lambda>i. g_nodes g i = None) is in
     if missing = [] then Inr g else intern_nodes te (rows_of missing (g_db g)) g)"

section \<open>Writes\<close>

fun dedupe_from :: "string list \<Rightarrow> string list \<Rightarrow> string list" where
  "dedupe_from seen [] = []"
| "dedupe_from seen (s # ss) = (if s \<in> set seen then dedupe_from seen ss else s # dedupe_from (s # seen) ss)"

definition dedupe :: "string list \<Rightarrow> string list" where "dedupe ss = dedupe_from [] ss"

definition set_db :: "tables \<Rightarrow> graph \<Rightarrow> graph" where "set_db db g = g\<lparr>g_db := db\<rparr>"

definition writeNodeLabels :: "int \<Rightarrow> string list \<Rightarrow> graph \<Rightarrow> fault + graph" where
  "writeNodeLabels i ls g = (if ls = [] then Inr g else bindE (insert_labels i ls (g_db g)) (\<lambda>db. Inr (set_db db g)))"

definition count :: "(counters \<Rightarrow> counters) \<Rightarrow> graph \<Rightarrow> graph" where
  "count f g = g\<lparr>g_counters := f (g_counters g)\<rparr>"

definition createNode :: "string list \<Rightarrow> vmap \<Rightarrow> graph \<Rightarrow> fault + int \<times> graph" where
  "createNode labels props0 g =
    bindE (cleanProps props0) (\<lambda>props. bindE (encodeProps props) (\<lambda>enc. let ls = dedupe labels in
    bindE (insert_node (join '','' ls, enc) (g_db g)) (\<lambda>(i, db).
    bindE (writeNodeLabels i ls (set_db db g)) (\<lambda>g1.
      let g2 = put_node \<lparr>n_id = i, n_labels = ls, n_props = props, n_deleted = False\<rparr> g1 in
      Inr (i, count (\<lambda>c. c\<lparr>c_nodes_created := c_nodes_created c + 1\<rparr>) (g2\<lparr>g_new_nodes := g_new_nodes g2 @ [i]\<rparr>))))))"

text \<open>Loaded adjacency lists are kept current.\<close>

definition append_adj :: "bool \<Rightarrow> int \<Rightarrow> int \<Rightarrow> graph \<Rightarrow> graph" where
  "append_adj outgoing i r g = (case adj outgoing g i of Some rs \<Rightarrow> set_adj outgoing i (rs @ [r]) g | None \<Rightarrow> g)"

definition createRel :: "string \<Rightarrow> int \<Rightarrow> int \<Rightarrow> vmap \<Rightarrow> graph \<Rightarrow> fault + int \<times> graph" where
  "createRel ty s t props0 g =
    bindE (cleanProps props0) (\<lambda>props. bindE (encodeProps props) (\<lambda>enc.
    bindE (insert_edge (ty, s, t, enc) (g_db g)) (\<lambda>(i, db).
      let g1 = put_rel \<lparr>r_id = i, r_type = ty, r_start = s, r_end = t, r_props = props, r_deleted = False\<rparr> (set_db db g);
          g2 = append_adj False t i (append_adj True s i g1)
      in Inr (i, count (\<lambda>c. c\<lparr>c_rels_created := c_rels_created c + 1\<rparr>) (g2\<lparr>g_new_rels := g_new_rels g2 @ [i]\<rparr>)))))"

definition persistNodeProps :: "int \<Rightarrow> graph \<Rightarrow> fault + graph" where
  "persistNodeProps i g = bindE (gnode g i) (\<lambda>n. bindE (encodeProps (n_props n)) (\<lambda>enc.
     Inr (set_db ((g_db g)\<lparr>t_nodes := update_row i (\<lambda>(l, _). (l, enc)) (t_nodes (g_db g))\<rparr>) g)))"

definition persistRelProps :: "int \<Rightarrow> graph \<Rightarrow> fault + graph" where
  "persistRelProps i g = bindE (grel g i) (\<lambda>r. bindE (encodeProps (r_props r)) (\<lambda>enc.
     Inr (set_db ((g_db g)\<lparr>t_edges := update_row i (\<lambda>(ty, s, t, _). (ty, s, t, enc)) (t_edges (g_db g))\<rparr>) g)))"

definition persistLabels :: "int \<Rightarrow> graph \<Rightarrow> fault + graph" where
  "persistLabels i g = bindE (gnode g i) (\<lambda>n.
     let db = (g_db g)\<lparr>t_nodes := update_row i (\<lambda>(_, p). (join '','' (n_labels n), p)) (t_nodes (g_db g)),
                        t_labels := delete_row i (t_labels (g_db g))\<rparr>
     in writeNodeLabels i (dedupe (n_labels n)) (set_db db g))"

definition snapNode :: "int \<Rightarrow> graph \<Rightarrow> graph" where
  "snapNode i g = (if i \<in> set (g_new_nodes g) then g
     else case g_nodes g i of None \<Rightarrow> g
       | Some n \<Rightarrow> if i \<in> fst ` set (g_node_snap g) then g else g\<lparr>g_node_snap := g_node_snap g @ [(i, n_props n, n_labels n)]\<rparr>)"

definition snapRel :: "int \<Rightarrow> graph \<Rightarrow> graph" where
  "snapRel i g = (if i \<in> set (g_new_rels g) then g
     else case g_rels g i of None \<Rightarrow> g
       | Some r \<Rightarrow> if i \<in> fst ` set (g_rel_snap g) then g else g\<lparr>g_rel_snap := g_rel_snap g @ [(i, r_props r)]\<rparr>)"

definition setNodeProp :: "int \<Rightarrow> string \<Rightarrow> val \<Rightarrow> graph \<Rightarrow> fault + graph" where
  "setNodeProp i key v g = bindE (gnode g i) (\<lambda>n.
     if n_deleted n then deletedAccess
     else if is_null v then
       (if key \<in> set (mkeys (n_props n))
        then persistNodeProps i (put_node (n\<lparr>n_props := mdel key (n_props n)\<rparr>) (snapNode i g)) else Inr g)
     else bindE (checkPropValue v) (\<lambda>_. persistNodeProps i (put_node (n\<lparr>n_props := mput key v (n_props n)\<rparr>) (snapNode i g))))"

definition setRelProp :: "int \<Rightarrow> string \<Rightarrow> val \<Rightarrow> graph \<Rightarrow> fault + graph" where
  "setRelProp i key v g = bindE (grel g i) (\<lambda>r.
     if r_deleted r then deletedAccess
     else if is_null v then
       (if key \<in> set (mkeys (r_props r))
        then persistRelProps i (put_rel (r\<lparr>r_props := mdel key (r_props r)\<rparr>) (snapRel i g)) else Inr g)
     else bindE (checkPropValue v) (\<lambda>_. persistRelProps i (put_rel (r\<lparr>r_props := mput key v (r_props r)\<rparr>) (snapRel i g))))"

text \<open>Labels are added in order, each once; removing takes the first occurrence.\<close>

definition add_label :: "string \<Rightarrow> string list \<Rightarrow> string list" where
  "add_label l ls = (if l \<in> set ls then ls else ls @ [l])"

definition addLabels :: "int \<Rightarrow> string list \<Rightarrow> graph \<Rightarrow> fault + graph" where
  "addLabels i labels g = bindE (gnode g i) (\<lambda>n.
     if n_deleted n then deletedAccess
     else let ls = foldl (\<lambda>acc l. add_label l acc) (n_labels n) labels in
       if ls = n_labels n then Inr g else persistLabels i (put_node (n\<lparr>n_labels := ls\<rparr>) (snapNode i g)))"

definition removeLabels :: "int \<Rightarrow> string list \<Rightarrow> graph \<Rightarrow> fault + graph" where
  "removeLabels i labels g = bindE (gnode g i) (\<lambda>n.
     if n_deleted n then deletedAccess
     else let ls = foldl (\<lambda>acc l. remove1 l acc) (n_labels n) labels in
       if ls = n_labels n then Inr g else persistLabels i (put_node (n\<lparr>n_labels := ls\<rparr>) (snapNode i g)))"

section \<open>Deletion\<close>

definition deleteRel :: "int \<Rightarrow> graph \<Rightarrow> fault + graph" where
  "deleteRel i g = bindE (grel g i) (\<lambda>r. if r_deleted r then Inr g
     else let g1 = put_rel (r\<lparr>r_deleted := True\<rparr>) g in Inr (g1\<lparr>g_del_rels := g_del_rels g1 @ [i]\<rparr>))"

definition deleteNode :: "tenv \<Rightarrow> int \<Rightarrow> bool \<Rightarrow> graph \<Rightarrow> fault + graph" where
  "deleteNode te i detach g = bindE (gnode g i) (\<lambda>n. if n_deleted n then Inr g
     else bindE (if detach then
         bindE (liveRels te i True g) (\<lambda>(outs, g1). bindE (liveRels te i False g1) (\<lambda>(ins, g2). foldE deleteRel (outs @ ins) g2))
       else Inr g)
     (\<lambda>g3. let g4 = put_node (n\<lparr>n_deleted := True\<rparr>) g3 in Inr (g4\<lparr>g_del_nodes := g_del_nodes g4 @ [i]\<rparr>)))"

section \<open>Counters\<close>

definition diffProps :: "vmap \<Rightarrow> vmap \<Rightarrow> int \<times> int" where
  "diffProps before after =
    (let changed = filter (\<lambda>(k, av). case map_of before k of Some bv \<Rightarrow> groupKey bv \<noteq> groupKey av | None \<Rightarrow> False) after;
         added = filter (\<lambda>(k, _). map_of before k = None) after;
         gone = filter (\<lambda>(k, _). map_of after k = None) before
     in (int (length added + length changed), int (length changed + length gone)))"

definition count_props :: "int \<Rightarrow> int \<Rightarrow> graph \<Rightarrow> graph" where
  "count_props a r = count (\<lambda>c. c\<lparr>c_props_set := c_props_set c + a, c_props_removed := c_props_removed c + r\<rparr>)"

text \<open>The labels gained and lost by the nodes, as lists in which a label occurs once for each node.\<close>

type_synonym tally = "string list \<times> string list \<times> int \<times> int"

definition tally_new_node :: "graph \<Rightarrow> int \<Rightarrow> tally \<Rightarrow> tally" where
  "tally_new_node g i = (\<lambda>(gained, lost, a, r). case g_nodes g i of
       Some n \<Rightarrow> if n_deleted n then (gained, lost, a, r) else (gained @ n_labels n, lost, a + int (length (n_props n)), r)
     | None \<Rightarrow> (gained, lost, a, r))"

definition tally_new_rel :: "graph \<Rightarrow> int \<Rightarrow> tally \<Rightarrow> tally" where
  "tally_new_rel g i = (\<lambda>(gained, lost, a, r). case g_rels g i of
       Some x \<Rightarrow> if r_deleted x then (gained, lost, a, r) else (gained, lost, a + int (length (r_props x)), r)
     | None \<Rightarrow> (gained, lost, a, r))"

definition tally_old_node :: "graph \<Rightarrow> int \<times> vmap \<times> string list \<Rightarrow> tally \<Rightarrow> tally" where
  "tally_old_node g = (\<lambda>(i, props, labels) (gained, lost, a, r). case g_nodes g i of
       Some n \<Rightarrow> if n_deleted n then (gained, lost, a, r)
         else (case diffProps props (n_props n) of (da, dr) \<Rightarrow>
           (gained @ filter (\<lambda>l. l \<notin> set labels) (n_labels n), lost @ filter (\<lambda>l. l \<notin> set (n_labels n)) labels, a + da, r + dr))
     | None \<Rightarrow> (gained, lost, a, r))"

definition tally_old_rel :: "graph \<Rightarrow> int \<times> vmap \<Rightarrow> tally \<Rightarrow> tally" where
  "tally_old_rel g = (\<lambda>(i, props) (gained, lost, a, r). case g_rels g i of
       Some x \<Rightarrow> if r_deleted x then (gained, lost, a, r)
         else (case diffProps props (r_props x) of (da, dr) \<Rightarrow> (gained, lost, a + da, r + dr))
     | None \<Rightarrow> (gained, lost, a, r))"

definition tally_del_node :: "graph \<Rightarrow> int \<Rightarrow> tally \<Rightarrow> tally" where
  "tally_del_node g i = (\<lambda>(gained, lost, a, r). if i \<in> set (g_new_nodes g) then (gained, lost, a, r)
     else (case (case map_of (g_node_snap g) i of Some s \<Rightarrow> Some s
              | None \<Rightarrow> map_option (\<lambda>n. (n_props n, n_labels n)) (g_nodes g i)) of
         Some (props, labels) \<Rightarrow> (gained, lost @ labels, a, r + int (length props))
       | None \<Rightarrow> (gained, lost, a, r)))"

definition tally_del_rel :: "graph \<Rightarrow> int \<Rightarrow> tally \<Rightarrow> tally" where
  "tally_del_rel g i = (\<lambda>(gained, lost, a, r). if i \<in> set (g_new_rels g) then (gained, lost, a, r)
     else (case (case map_of (g_rel_snap g) i of Some s \<Rightarrow> Some s | None \<Rightarrow> map_option r_props (g_rels g i)) of
         Some props \<Rightarrow> (gained, lost, a, r + int (length props))
       | None \<Rightarrow> (gained, lost, a, r)))"

definition tally_all :: "graph \<Rightarrow> tally" where
  "tally_all g = fold (tally_del_rel g) (g_del_rels g) (fold (tally_del_node g) (g_del_nodes g)
     (fold (tally_old_rel g) (g_rel_snap g) (fold (tally_old_node g) (g_node_snap g)
     (fold (tally_new_rel g) (g_new_rels g) (fold (tally_new_node g) (g_new_nodes g) ([], [], 0, 0))))))"

definition label_change :: "graph \<Rightarrow> string list \<Rightarrow> string list \<Rightarrow> string \<Rightarrow> counters \<Rightarrow> counters" where
  "label_change g gained lost l c =
    (let after = int (length (filter (\<lambda>(_, l'). l' = l) (t_labels (g_db g))));
         before = after - int (count_list gained l) + int (count_list lost l)
     in if before \<le> 0 \<and> 0 < after then c\<lparr>c_labels_added := c_labels_added c + 1\<rparr>
        else if 0 < before \<and> after \<le> 0 then c\<lparr>c_labels_removed := c_labels_removed c + 1\<rparr>
        else c)"

definition netCounters :: "graph \<Rightarrow> graph" where
  "netCounters g = (case tally_all g of (gained, lost, a, r) \<Rightarrow>
     count (fold (label_change g gained lost) (dedupe (gained @ lost))) (count_props a r g))"

section \<open>The end of a statement\<close>

definition delete_connected :: "fault + 'a" where
  "delete_connected = raise_err ''ConstraintVerificationFailed'' ''DeleteConnectedNode''
     ''cannot delete node<%d>, because it still has relationships''"

definition check_free :: "tenv \<Rightarrow> int \<Rightarrow> graph \<Rightarrow> fault + graph" where
  "check_free te i g = bindE (liveRels te i True g) (\<lambda>(outs, g1). bindE (liveRels te i False g1) (\<lambda>(ins, g2).
     if 0 < length outs + length ins then delete_connected else Inr g2))"

definition drop_rel :: "int \<Rightarrow> graph \<Rightarrow> fault + graph" where
  "drop_rel i g = (let g1 = set_db ((g_db g)\<lparr>t_edges := delete_row i (t_edges (g_db g))\<rparr>) g in
     Inr (count (\<lambda>c. if i \<in> set (g_new_rels g) then c\<lparr>c_rels_created := c_rels_created c - 1\<rparr>
       else c\<lparr>c_rels_deleted := c_rels_deleted c + 1\<rparr>) g1))"

definition drop_node :: "int \<Rightarrow> graph \<Rightarrow> fault + graph" where
  "drop_node i g = bindE (delete_node_row i (g_db g)) (\<lambda>db.
     Inr (count (\<lambda>c. if i \<in> set (g_new_nodes g) then c\<lparr>c_nodes_created := c_nodes_created c - 1\<rparr>
       else c\<lparr>c_nodes_deleted := c_nodes_deleted c + 1\<rparr>) (set_db db g)))"

text \<open>The checks at the end, of the constraints and of the vector indexes, are a parameter.\<close>

definition finish :: "tenv \<Rightarrow> (graph \<Rightarrow> fault + graph) \<Rightarrow> graph \<Rightarrow> fault + graph" where
  "finish te checks g =
    bindE (foldE (check_free te) (g_del_nodes g) g) (\<lambda>g1.
    bindE (foldE drop_rel (g_del_rels g1) g1) (\<lambda>g2.
    bindE (foldE drop_node (g_del_nodes g2) g2) (\<lambda>g3. checks (netCounters g3))))"

end
