(* ===== verification/GraphFacts.thy ===== *)
theory GraphFacts
  imports Graph
begin

text \<open>
  The statement's view stays true to the tables: what is cached is what would be read, the label index
  follows the labels, every relationship has its two nodes, and the deletions at the end leave no relationship behind.
\<close>

section \<open>Rows\<close>

lemma map_of_update: "map_of (update_row i f rows) = (map_of rows)(i := map_option f (map_of rows i))"
  by (induction rows) (auto simp: update_row_def fun_eq_iff)

lemma map_of_delete: "map_of (delete_row i rows) = (map_of rows)(i := None)"
  by (induction rows) (auto simp: delete_row_def fun_eq_iff)

lemma keys_update [simp]: "map fst (update_row i f rows) = map fst rows"
  by (induction rows) (auto simp: update_row_def)

lemma set_keys_update [simp]: "fst ` set (update_row i f rows) = fst ` set rows"
  using keys_update by (metis set_map)

lemma keys_delete: "map fst (delete_row i rows) = filter (\<lambda>j. j \<noteq> i) (map fst rows)"
  by (induction rows) (auto simp: delete_row_def)

lemma in_delete_row: "(j, r) \<in> set (delete_row i rows) \<longleftrightarrow> (j, r) \<in> set rows \<and> j \<noteq> i"
  by (auto simp: delete_row_def)

text \<open>Rows in the order of their ids.\<close>

definition rows_ok :: "int \<Rightarrow> (int \<times> 'r) list \<Rightarrow> bool" where
  "rows_ok next rows \<longleftrightarrow> sorted_wrt (<) (map fst rows) \<and> (\<forall>i \<in> fst ` set rows. i < next)"

lemma rows_okD:
  assumes "rows_ok next rows"
  shows "sorted_wrt (<) (map fst rows)" "i \<in> fst ` set rows \<Longrightarrow> i < next" "distinct (map fst rows)"
  using assms strict_sorted_iff by (auto simp: rows_ok_def)

lemma row_lookup: "rows_ok next rows \<Longrightarrow> (i, r) \<in> set rows \<longleftrightarrow> map_of rows i = Some r"
  using rows_okD(3) by (metis map_of_eq_Some_iff)

lemma rows_ok_snoc: "rows_ok next rows \<Longrightarrow> rows_ok (next + 1) (rows @ [(next, r)])"
  by (force simp: rows_ok_def sorted_wrt_append)

lemma rows_ok_update: "rows_ok next rows \<Longrightarrow> rows_ok next (update_row i f rows)"
  by (simp add: rows_ok_def)

lemma rows_ok_filter: "rows_ok next rows \<Longrightarrow> rows_ok next (filter P rows)"
  by (auto simp: rows_ok_def sorted_wrt_filter sorted_wrt_map)

lemma map_of_snoc: "i \<notin> fst ` set rows \<Longrightarrow> map_of (rows @ [(i, r)]) = (map_of rows)(i := Some r)"
  by (induction rows) (auto simp: fun_eq_iff)

lemma map_of_filter_keys: "distinct (map fst rows) \<Longrightarrow> map_of (filter (\<lambda>(i, r). P i) rows) = (\<lambda>i. if P i then map_of rows i else None)"
  by (induction rows) (auto simp: fun_eq_iff)

section \<open>Labels\<close>

definition label_ok :: "string \<Rightarrow> bool" where
  "label_ok l \<longleftrightarrow> l \<noteq> [] \<and> CHR '','' \<notin> set l"

lemma cut_no_comma: "CHR '','' \<notin> set l \<Longrightarrow> cut_at '','' (l @ CHR '','' # s) = Some (l, s)"
  by (induction l) (auto simp: prefix_def)

lemma cut_none: "CHR '','' \<notin> set l \<Longrightarrow> cut_at '','' l = None"
  by (induction l) (auto simp: prefix_def)

lemma split_join_labels: "ls \<noteq> [] \<Longrightarrow> \<forall>l \<in> set ls. CHR '','' \<notin> set l \<Longrightarrow> split_on '','' (join '','' ls) = ls"
proof (induction ls rule: induct_list012)
  case (2 l)
  then show ?case by (subst split_on.simps) (simp add: join_def cut_none)
next
  case (3 l m ls)
  then show ?case by (subst split_on.simps) (simp add: join_Cons cut_no_comma)
qed simp

lemma splitLabels_join:
  assumes "\<forall>l \<in> set ls. label_ok l"
  shows "splitLabels (join '','' ls) = ls"
proof (cases ls)
  case Nil
  then show ?thesis by (simp add: splitLabels_def join_def)
next
  case (Cons l ls')
  then have "join '','' ls \<noteq> []" using assms by (auto simp: join_def label_ok_def)
  then show ?thesis using split_join_labels [of ls] assms Cons by (auto simp: splitLabels_def label_ok_def)
qed

lemma dedupe_from_props:
  "set (dedupe_from seen ls) = set ls - set seen" "distinct (dedupe_from seen ls)"
  by (induction seen ls rule: dedupe_from.induct) auto

lemma dedupe_set [simp]: "set (dedupe ls) = set ls" and dedupe_distinct [simp]: "distinct (dedupe ls)"
  by (simp_all add: dedupe_def dedupe_from_props)

lemma dedupe_from_id: "distinct ls \<Longrightarrow> set ls \<inter> set seen = {} \<Longrightarrow> dedupe_from seen ls = ls"
  by (induction seen ls rule: dedupe_from.induct) auto

lemma dedupe_id: "distinct ls \<Longrightarrow> dedupe ls = ls"
  by (simp add: dedupe_def dedupe_from_id)

lemma add_labels_props:
  "distinct ls \<Longrightarrow> distinct (foldl (\<lambda>acc l. add_label l acc) ls as)"
  "set (foldl (\<lambda>acc l. add_label l acc) ls as) = set ls \<union> set as"
  by (induction as arbitrary: ls) (auto simp: add_label_def)

lemma remove_labels_props:
  assumes "distinct ls"
  shows "distinct (foldl (\<lambda>acc l. remove1 l acc) ls rs)" "set (foldl (\<lambda>acc l. remove1 l acc) ls rs) = set ls - set rs"
  using assms by (induction rs arbitrary: ls) auto

section \<open>The invariant\<close>

text \<open>
  The tables: rows in order, properties that decode to a storable map, each label once and without a comma, the label index
  in step with the nodes, and both ends of every relationship present.
\<close>

definition props_ok :: "tenv \<Rightarrow> string \<Rightarrow> bool" where
  "props_ok te ps \<longleftrightarrow> (\<exists>m. decodeProps te ps = Inr m \<and> kept_props m)"

definition labels_ok :: "string list \<Rightarrow> bool" where
  "labels_ok ls \<longleftrightarrow> distinct ls \<and> (\<forall>l \<in> set ls. label_ok l)"

definition in_step :: "tables \<Rightarrow> bool" where
  "in_step db \<longleftrightarrow> distinct (t_labels db)
     \<and> (\<forall>i l. (i, l) \<in> set (t_labels db) \<longleftrightarrow> (\<exists>r. map_of (t_nodes db) i = Some r \<and> l \<in> set (splitLabels (fst r))))"

definition no_dangling :: "tables \<Rightarrow> bool" where
  "no_dangling db \<longleftrightarrow> (\<forall>(j, r) \<in> set (t_edges db). e_start r \<in> fst ` set (t_nodes db) \<and> e_end r \<in> fst ` set (t_nodes db))"

definition tables_ok :: "tenv \<Rightarrow> tables \<Rightarrow> bool" where
  "tables_ok te db \<longleftrightarrow> rows_ok (t_next_node db) (t_nodes db) \<and> rows_ok (t_next_edge db) (t_edges db)
     \<and> (\<forall>(i, r) \<in> set (t_nodes db). props_ok te (snd r) \<and> labels_ok (splitLabels (fst r)))
     \<and> (\<forall>(j, (ty, s, t, ps)) \<in> set (t_edges db). props_ok te ps)
     \<and> in_step db \<and> no_dangling db"

lemma tables_okD:
  assumes "tables_ok te db"
  shows "rows_ok (t_next_node db) (t_nodes db)" "rows_ok (t_next_edge db) (t_edges db)" "in_step db" "no_dangling db"
    "map_of (t_nodes db) i = Some r \<Longrightarrow> props_ok te (snd r) \<and> labels_ok (splitLabels (fst r))"
    "map_of (t_edges db) j = Some (ty, s, t, ps) \<Longrightarrow> props_ok te ps"
  using assms by (auto simp: tables_ok_def dest!: map_of_SomeD)

text \<open>What is cached agrees with the tables.\<close>

definition node_true :: "tenv \<Rightarrow> tables \<Rightarrow> int \<Rightarrow> node \<Rightarrow> bool" where
  "node_true te db i n \<longleftrightarrow> n_id n = i \<and> kept_props (n_props n)
     \<and> (\<exists>r. map_of (t_nodes db) i = Some r \<and> splitLabels (fst r) = n_labels n \<and> decodeProps te (snd r) = Inr (n_props n))"

definition rel_true :: "tenv \<Rightarrow> tables \<Rightarrow> int \<Rightarrow> rel \<Rightarrow> bool" where
  "rel_true te db i r \<longleftrightarrow> r_id r = i \<and> kept_props (r_props r)
     \<and> (\<exists>ps. map_of (t_edges db) i = Some (r_type r, r_start r, r_end r, ps) \<and> decodeProps te ps = Inr (r_props r))"

definition adj_true :: "graph \<Rightarrow> bool \<Rightarrow> int \<Rightarrow> int list \<Rightarrow> bool" where
  "adj_true g b i rs \<longleftrightarrow> rs = map fst (adj_rows b [i] (g_db g)) \<and> (\<forall>j \<in> set rs. g_rels g j \<noteq> None)"

definition caches_ok :: "tenv \<Rightarrow> graph \<Rightarrow> bool" where
  "caches_ok te g \<longleftrightarrow> (\<forall>i n. g_nodes g i = Some n \<longrightarrow> node_true te (g_db g) i n)
     \<and> (\<forall>i r. g_rels g i = Some r \<longrightarrow> rel_true te (g_db g) i r)
     \<and> (\<forall>b i rs. adj b g i = Some rs \<longrightarrow> adj_true g b i rs)"

text \<open>The entities marked deleted are those in the lists of deletions, each once.\<close>

definition marks_ok :: "graph \<Rightarrow> bool" where
  "marks_ok g \<longleftrightarrow> distinct (g_del_nodes g) \<and> distinct (g_del_rels g)
     \<and> (\<forall>i. i \<in> set (g_del_nodes g) \<longleftrightarrow> (\<exists>n. g_nodes g i = Some n \<and> n_deleted n))
     \<and> (\<forall>i. i \<in> set (g_del_rels g) \<longleftrightarrow> (\<exists>r. g_rels g i = Some r \<and> r_deleted r))"

definition ginv :: "tenv \<Rightarrow> graph \<Rightarrow> bool" where
  "ginv te g \<longleftrightarrow> tables_ok te (g_db g) \<and> caches_ok te g \<and> marks_ok g"

lemma ginvD:
  assumes "ginv te g"
  shows "tables_ok te (g_db g)" "caches_ok te g" "marks_ok g"
    "g_nodes g i = Some n \<Longrightarrow> node_true te (g_db g) i n" "g_rels g j = Some r \<Longrightarrow> rel_true te (g_db g) j r"
    "adj b g i = Some rs \<Longrightarrow> adj_true g b i rs"
  using assms by (simp_all add: ginv_def caches_ok_def)

lemma newGraph_inv: "tables_ok te db \<Longrightarrow> ginv te (newGraph db)"
  by (simp add: ginv_def newGraph_def caches_ok_def marks_ok_def adj_def)

section \<open>Reading\<close>

text \<open>A read only adds to the caches.\<close>

definition extends :: "graph \<Rightarrow> graph \<Rightarrow> bool" where
  "extends g h \<longleftrightarrow> g_db h = g_db g \<and> g_del_nodes h = g_del_nodes g \<and> g_del_rels h = g_del_rels g
     \<and> g_new_nodes h = g_new_nodes g \<and> g_new_rels h = g_new_rels g \<and> g_node_snap h = g_node_snap g
     \<and> g_rel_snap h = g_rel_snap g \<and> g_counters h = g_counters g
     \<and> g_nodes g \<subseteq>\<^sub>m g_nodes h \<and> g_rels g \<subseteq>\<^sub>m g_rels h"

lemma extends_refl [simp]: "extends g g"
  by (simp add: extends_def)

lemma extends_trans: "extends g h \<Longrightarrow> extends h k \<Longrightarrow> extends g k"
  by (auto simp: extends_def intro: map_le_trans)

lemma extendsD:
  assumes "extends g h"
  shows "g_db h = g_db g" "g_nodes g i = Some n \<Longrightarrow> g_nodes h i = Some n" "g_rels g j = Some r \<Longrightarrow> g_rels h j = Some r"
  using assms by (auto simp: extends_def map_le_def dom_def)

lemma put_simps [simp]:
  "g_db (put_node n g) = g_db g" "g_rels (put_node n g) = g_rels g" "adj b (put_node n g) = adj b g"
  "g_nodes (put_node n g) = (g_nodes g)(n_id n := Some n)"
  "g_db (put_rel r g) = g_db g" "g_nodes (put_rel r g) = g_nodes g" "adj b (put_rel r g) = adj b g"
  "g_rels (put_rel r g) = (g_rels g)(r_id r := Some r)"
  "g_del_nodes (put_node n g) = g_del_nodes g" "g_del_rels (put_node n g) = g_del_rels g"
  "g_del_nodes (put_rel r g) = g_del_nodes g" "g_del_rels (put_rel r g) = g_del_rels g"
  by (simp_all add: put_node_def put_rel_def adj_def fun_eq_iff)

lemma set_adj_simps [simp]:
  "g_db (set_adj b i rs g) = g_db g" "g_nodes (set_adj b i rs g) = g_nodes g" "g_rels (set_adj b i rs g) = g_rels g"
  "g_del_nodes (set_adj b i rs g) = g_del_nodes g" "g_del_rels (set_adj b i rs g) = g_del_rels g"
  "adj c (set_adj b i rs g) j = (if c = b \<and> j = i then Some rs else adj c g j)"
  by (auto simp: set_adj_def adj_def)

lemma extends_set_adj: "extends g h \<Longrightarrow> extends g (set_adj b i rs h)"
  by (auto simp: extends_def set_adj_def)

lemma adj_true_cong: "g_db h = g_db g \<Longrightarrow> (\<And>j. g_rels g j \<noteq> None \<Longrightarrow> g_rels h j \<noteq> None) \<Longrightarrow> adj_true g b i rs \<Longrightarrow> adj_true h b i rs"
  unfolding adj_true_def by auto

lemma internNode_reads:
  assumes g: "ginv te g" and r: "map_of (t_nodes (g_db g)) i = Some r"
  obtains h where "internNode te i r g = Inr h" "ginv te h" "extends g h" "g_nodes h i \<noteq> None"
proof (cases "g_nodes g i")
  case (Some n)
  then show thesis using that [of g] g by (simp add: internNode_def)
next
  case None
  obtain m where m: "decodeProps te (snd r) = Inr m" "kept_props m"
    using tables_okD(5) [OF ginvD(1) [OF g] r] by (auto simp: props_ok_def)
  let ?n = "\<lparr>n_id = i, n_labels = splitLabels (fst r), n_props = m, n_deleted = False\<rparr>"
  let ?h = "put_node ?n g"
  have "node_true te (g_db g) i ?n" using r m by (simp add: node_true_def)
  then have "caches_ok te ?h" using ginvD(2) [OF g] unfolding caches_ok_def by (auto simp: adj_true_def)
  moreover have "marks_ok ?h" using ginvD(3) [OF g] None unfolding marks_ok_def by auto
  ultimately have "ginv te ?h" using ginvD(1) [OF g] by (simp add: ginv_def)
  moreover have "extends g ?h" using None by (auto simp: extends_def put_node_def map_le_def dom_def)
  ultimately show thesis using that [of ?h] m None by (simp add: internNode_def)
qed

lemma internRel_reads:
  assumes g: "ginv te g" and r: "map_of (t_edges (g_db g)) i = Some r"
  obtains h where "internRel te i r g = Inr h" "ginv te h" "extends g h" "g_rels h i \<noteq> None"
proof (cases "g_rels g i")
  case (Some n)
  then show thesis using that [of g] g by (simp add: internRel_def)
next
  case None
  obtain ty s t ps where e: "r = (ty, s, t, ps)" by (cases r)
  obtain m where m: "decodeProps te ps = Inr m" "kept_props m"
    using tables_okD(6) [OF ginvD(1) [OF g] r [unfolded e]] by (auto simp: props_ok_def)
  let ?r = "\<lparr>r_id = i, r_type = ty, r_start = s, r_end = t, r_props = m, r_deleted = False\<rparr>"
  let ?h = "put_rel ?r g"
  have "rel_true te (g_db g) i ?r" using r m by (simp add: rel_true_def e)
  then have "caches_ok te ?h" using ginvD(2) [OF g] adj_true_cong [of ?h g] unfolding caches_ok_def by auto
  moreover have "marks_ok ?h" using ginvD(3) [OF g] None unfolding marks_ok_def by auto
  ultimately have "ginv te ?h" using ginvD(1) [OF g] by (simp add: ginv_def)
  moreover have "extends g ?h" using None by (auto simp: extends_def put_rel_def map_le_def dom_def)
  ultimately show thesis using that [of ?h] m None by (simp add: internRel_def e)
qed

text \<open>A loop of reads.\<close>

lemma read_loop:
  assumes "ginv te g"
    and step: "\<And>x h. x \<in> set xs \<Longrightarrow> ginv te h \<Longrightarrow> extends g h \<Longrightarrow> \<exists>k. f x h = Inr k \<and> ginv te k \<and> extends h k \<and> Q x k"
    and mono: "\<And>x h k. Q x h \<Longrightarrow> extends h k \<Longrightarrow> Q x k"
  shows "\<exists>h. foldE f xs g = Inr h \<and> ginv te h \<and> extends g h \<and> (\<forall>x \<in> set xs. Q x h)"
proof -
  have "\<exists>k. foldE f ys h = Inr k \<and> ginv te k \<and> extends g k \<and> extends h k \<and> (\<forall>x \<in> set ys. Q x k)"
    if "set ys \<subseteq> set xs" "ginv te h" "extends g h" for ys h
    using that
  proof (induction ys arbitrary: h)
    case (Cons y ys)
    obtain k where k: "f y h = Inr k" "ginv te k" "extends h k" "Q y k" using step [of y h] Cons.prems by auto
    have "extends g k" using Cons.prems(3) k(3) by (rule extends_trans)
    then obtain l where l: "foldE f ys k = Inr l" "ginv te l" "extends g l" "extends k l" "\<forall>x \<in> set ys. Q x l"
      using Cons.IH [of k] Cons.prems(1) k(2) by auto
    have "Q y l" using k(4) l(4) by (rule mono)
    moreover have "extends h l" using k(3) l(4) by (rule extends_trans)
    ultimately show ?case using k(1) l by (intro exI [of _ l]) simp
  qed simp
  from this [of xs g] show ?thesis using assms(1) by auto
qed

lemma intern_nodes_reads:
  assumes g: "ginv te g" and rows: "\<And>i r. (i, r) \<in> set rows \<Longrightarrow> map_of (t_nodes (g_db g)) i = Some r"
  obtains h where "intern_nodes te rows g = Inr h" "ginv te h" "extends g h" "\<forall>i \<in> fst ` set rows. g_nodes h i \<noteq> None"
proof -
  have "\<exists>h. foldE (\<lambda>(i, r). internNode te i r) rows g = Inr h \<and> ginv te h \<and> extends g h \<and> (\<forall>x \<in> set rows. g_nodes h (fst x) \<noteq> None)"
  proof (rule read_loop [OF g])
    fix x h assume x: "x \<in> set rows" "ginv te h" "extends g h"
    obtain i r where e: "x = (i, r)" by (cases x)
    have "map_of (t_nodes (g_db h)) i = Some r" using rows x extendsD(1) [OF x(3)] by (simp add: e)
    then obtain k where "internNode te i r h = Inr k" "ginv te k" "extends h k" "g_nodes k i \<noteq> None"
      by (rule internNode_reads [OF x(2)])
    then show "\<exists>k. (case x of (i, r) \<Rightarrow> internNode te i r) h = Inr k \<and> ginv te k \<and> extends h k \<and> g_nodes k (fst x) \<noteq> None"
      by (auto simp: e)
  qed (auto dest: extendsD)
  then show thesis using that by (auto simp: intern_nodes_def)
qed

lemma intern_rels_reads:
  assumes g: "ginv te g" and rows: "\<And>i r. (i, r) \<in> set rows \<Longrightarrow> map_of (t_edges (g_db g)) i = Some r"
  obtains h where "intern_rels te rows g = Inr h" "ginv te h" "extends g h" "\<forall>i \<in> fst ` set rows. g_rels h i \<noteq> None"
proof -
  have "\<exists>h. foldE (\<lambda>(i, r). internRel te i r) rows g = Inr h \<and> ginv te h \<and> extends g h \<and> (\<forall>x \<in> set rows. g_rels h (fst x) \<noteq> None)"
  proof (rule read_loop [OF g])
    fix x h assume x: "x \<in> set rows" "ginv te h" "extends g h"
    obtain i r where e: "x = (i, r)" by (cases x)
    have "map_of (t_edges (g_db h)) i = Some r" using rows x extendsD(1) [OF x(3)] by (simp add: e)
    then obtain k where "internRel te i r h = Inr k" "ginv te k" "extends h k" "g_rels k i \<noteq> None"
      by (rule internRel_reads [OF x(2)])
    then show "\<exists>k. (case x of (i, r) \<Rightarrow> internRel te i r) h = Inr k \<and> ginv te k \<and> extends h k \<and> g_rels k (fst x) \<noteq> None"
      by (auto simp: e)
  qed (auto dest: extendsD)
  then show thesis using that by (auto simp: intern_rels_def)
qed

text \<open>What a read gives: the ids of the rows that are not marked deleted.\<close>

lemma live_node_iff: "ginv te g \<Longrightarrow> g_nodes g i \<noteq> None \<Longrightarrow> live_node g i \<longleftrightarrow> i \<notin> set (g_del_nodes g)"
  using ginvD(3) [of te g] by (auto simp: marks_ok_def live_node_def)

lemma live_rel_iff: "ginv te g \<Longrightarrow> g_rels g i \<noteq> None \<Longrightarrow> live_rel g i \<longleftrightarrow> i \<notin> set (g_del_rels g)"
  using ginvD(3) [of te g] by (auto simp: marks_ok_def live_rel_def)

lemma live_filter:
  assumes "extends g h" "ginv te h"
  shows "\<forall>i \<in> set is. g_nodes h i \<noteq> None \<Longrightarrow> filter (live_node h) is = filter (\<lambda>i. i \<notin> set (g_del_nodes g)) is"
    "\<forall>i \<in> set is. g_rels h i \<noteq> None \<Longrightarrow> filter (live_rel h) is = filter (\<lambda>i. i \<notin> set (g_del_rels g)) is"
  using live_node_iff [OF assms(2)] live_rel_iff [OF assms(2)] assms(1)
  by (auto simp: extends_def intro!: filter_cong)

lemma scan_rows_stored:
  assumes "tables_ok te db" "(i, r) \<in> set (scan_rows l hints db)"
  shows "map_of (t_nodes db) i = Some r"
proof -
  have "map_of (t_nodes db) i = Some r" if lr: "(i, r) \<in> set (label_rows l db)"
  proof -
    obtain x where "(i, r) \<in> set (if snd x = l then case map_of (t_nodes db) (fst x) of Some r \<Rightarrow> [(fst x, r)] | None \<Rightarrow> [] else [])"
      using lr unfolding label_rows_def set_sort set_concat set_map case_prod_beta by blast
    then show ?thesis by (cases "snd x = l"; cases "map_of (t_nodes db) (fst x)") simp_all
  qed
  moreover have "(i, r) \<in> set (probe_rows l keep db) \<Longrightarrow> map_of (t_nodes db) i = Some r" for keep
    using row_lookup [OF tables_okD(1) [OF assms(1)]] by (auto simp: probe_rows_def)
  ultimately show ?thesis using assms(2) by (cases hints; cases "l = []") (auto simp: scan_rows_def)
qed

lemma scanNodes_reads:
  assumes g: "ginv te g"
  obtains h where "scanNodes te l hints g = Inr (filter (\<lambda>i. i \<notin> set (g_del_nodes g)) (map fst (scan_rows l hints (g_db g))), h)"
    "ginv te h" "extends g h"
proof -
  have st: "map_of (t_nodes (g_db g)) i = Some r" if "(i, r) \<in> set (scan_rows l hints (g_db g))" for i r
    using ginvD(1) [OF g] that by (rule scan_rows_stored)
  obtain h where h: "intern_nodes te (scan_rows l hints (g_db g)) g = Inr h" "ginv te h" "extends g h"
    "\<forall>i \<in> fst ` set (scan_rows l hints (g_db g)). g_nodes h i \<noteq> None"
    by (rule intern_nodes_reads [OF g st])
  have "filter (live_node h) (map fst (scan_rows l hints (g_db g)))
      = filter (\<lambda>i. i \<notin> set (g_del_nodes g)) (map fst (scan_rows l hints (g_db g)))"
    using h(4) by (intro live_filter(1) [OF h(3,2)]) auto
  then show thesis using that [of h] h by (simp add: scanNodes_def Let_def)
qed

lemma graph_node_reads:
  assumes g: "ginv te g" and r: "i \<in> fst ` set (t_nodes (g_db g))"
  obtains h where "graph_node te i g = Inr h" "ginv te h" "extends g h" "g_nodes h i \<noteq> None"
proof (cases "g_nodes g i")
  case (Some n)
  then show thesis using that [of g] g by (simp add: graph_node_def)
next
  case None
  obtain r where r: "map_of (t_nodes (g_db g)) i = Some r" using r by (metis map_of_eq_None_iff not_Some_eq)
  obtain h where "internNode te i r g = Inr h" "ginv te h" "extends g h" "g_nodes h i \<noteq> None"
    using internNode_reads [OF g r] .
  then show thesis using that [of h] None r by (simp add: graph_node_def)
qed

lemma adj_rows_stored: "tables_ok te db \<Longrightarrow> (i, r) \<in> set (adj_rows b is db) \<Longrightarrow> map_of (t_edges db) i = Some r"
  using row_lookup [OF tables_okD(2)] by (fastforce simp: adj_rows_def)

lemma set_adj_inv:
  assumes "ginv te h" "rs = map fst (adj_rows b [i] (g_db h))" "\<forall>j \<in> set rs. g_rels h j \<noteq> None"
  shows "ginv te (set_adj b i rs h)"
proof -
  have t: "adj_true h b i rs" using assms by (simp add: adj_true_def)
  have "caches_ok te (set_adj b i rs h)"
    using ginvD(2) [OF assms(1)] t unfolding caches_ok_def by (auto simp: adj_true_def split: if_splits)
  moreover have "marks_ok (set_adj b i rs h)" using ginvD(3) [OF assms(1)] by (simp add: marks_ok_def)
  ultimately show ?thesis using ginvD(1) [OF assms(1)] by (simp add: ginv_def)
qed

lemma loadAdj_reads:
  assumes g: "ginv te g"
  obtains h where "loadAdj te i b g = Inr (map fst (adj_rows b [i] (g_db g)), h)" "ginv te h" "extends g h"
    "adj b h i = Some (map fst (adj_rows b [i] (g_db g)))"
proof (cases "adj b g i")
  case (Some rs)
  then have "rs = map fst (adj_rows b [i] (g_db g))" using ginvD(6) [OF g] by (simp add: adj_true_def)
  then show thesis using that [of g] g Some by (simp add: loadAdj_def)
next
  case None
  let ?rows = "adj_rows b [i] (g_db g)"
  have st: "map_of (t_edges (g_db g)) j = Some r" if "(j, r) \<in> set ?rows" for j r
    using ginvD(1) [OF g] that by (rule adj_rows_stored)
  obtain h where h: "intern_rels te ?rows g = Inr h" "ginv te h" "extends g h" "\<forall>j \<in> fst ` set ?rows. g_rels h j \<noteq> None"
    by (rule intern_rels_reads [OF g st])
  have "ginv te (set_adj b i (map fst ?rows) h)" using h(2,4) extendsD(1) [OF h(3)] by (intro set_adj_inv) auto
  then show thesis using that [of "set_adj b i (map fst ?rows) h"] h(1) extends_set_adj [OF h(3)] None
    by (simp add: loadAdj_def Let_def)
qed

text \<open>The relationships of a node that are not marked deleted.\<close>

definition live_adj :: "graph \<Rightarrow> bool \<Rightarrow> int \<Rightarrow> int list" where
  "live_adj g b i = filter (\<lambda>j. j \<notin> set (g_del_rels g)) (map fst (adj_rows b [i] (g_db g)))"

lemma liveRels_reads:
  assumes g: "ginv te g"
  obtains h where "liveRels te i b g = Inr (live_adj g b i, h)" "ginv te h" "extends g h" "\<forall>j \<in> set (live_adj g b i). g_rels h j \<noteq> None"
proof -
  let ?rs = "map fst (adj_rows b [i] (g_db g))"
  obtain h where h: "loadAdj te i b g = Inr (?rs, h)" "ginv te h" "extends g h" "adj b h i = Some ?rs"
    using loadAdj_reads [OF g] .
  have c: "\<forall>j \<in> set ?rs. g_rels h j \<noteq> None" using ginvD(6) [OF h(2,4)] extendsD(1) [OF h(3)] by (simp add: adj_true_def)
  then have "filter (live_rel h) ?rs = live_adj g b i" unfolding live_adj_def by (rule live_filter(2) [OF h(3,2)])
  then show thesis using that [of h] h c by (auto simp: liveRels_def live_adj_def)
qed

lemma allRels_reads:
  assumes g: "ginv te g"
  obtains h where "allRels te g = Inr (filter (\<lambda>j. j \<notin> set (g_del_rels g)) (map fst (t_edges (g_db g))), h)" "ginv te h" "extends g h"
proof -
  have st: "map_of (t_edges (g_db g)) j = Some r" if "(j, r) \<in> set (t_edges (g_db g))" for j r
    using row_lookup [OF tables_okD(2) [OF ginvD(1) [OF g]]] that by blast
  obtain h where h: "intern_rels te (t_edges (g_db g)) g = Inr h" "ginv te h" "extends g h"
    "\<forall>j \<in> fst ` set (t_edges (g_db g)). g_rels h j \<noteq> None"
    by (rule intern_rels_reads [OF g st])
  have "filter (live_rel h) (map fst (t_edges (g_db g))) = filter (\<lambda>j. j \<notin> set (g_del_rels g)) (map fst (t_edges (g_db g)))"
    using h(4) by (intro live_filter(2) [OF h(3,2)]) auto
  then show thesis using that [of h] h by (simp add: allRels_def)
qed

text \<open>The two ways to find the nodes of a label give the same rows in the same order.\<close>

lemma concat_singles_filter:
  "concat (map (\<lambda>x. if P x then [f x] else []) xs) = map f (filter P xs)"
  by (induction xs) auto

lemma label_rows_alt:
  assumes "in_step db"
  shows "label_rows l db = sort_key fst (map (\<lambda>x. (fst x, the (map_of (t_nodes db) (fst x)))) (filter (\<lambda>x. snd x = l) (t_labels db)))"
proof -
  have "map_of (t_nodes db) i \<noteq> None" if "(i, l') \<in> set (t_labels db)" for i l'
    using assms that by (auto simp: in_step_def)
  then have "concat (map (\<lambda>(i, l'). if l' = l then (case map_of (t_nodes db) i of Some r \<Rightarrow> [(i, r)] | None \<Rightarrow> []) else []) (t_labels db))
      = concat (map (\<lambda>x. if snd x = l then [(fst x, the (map_of (t_nodes db) (fst x)))] else []) (t_labels db))"
    by (intro arg_cong [where f = concat] map_cong refl) (auto split: option.split)
  then show ?thesis unfolding label_rows_def concat_singles_filter by simp
qed

lemma scan_plans_agree:
  assumes "tables_ok te db" "l \<noteq> []"
  shows "scan_rows l None db = scan_rows l (Some (\<lambda>_. True)) db"
proof -
  note rows = tables_okD(1) [OF assms(1)] and step = tables_okD(3) [OF assms(1)]
  let ?p = "probe_rows l (\<lambda>_. True) db"
  have d: "distinct (map fst (t_nodes db))" "sorted (map fst (t_nodes db))" using rows_okD(1) [OF rows] by (simp_all add: strict_sorted_iff)
  have p: "distinct (map fst ?p)" "sorted (map fst ?p)" "(i, r) \<in> set ?p \<longleftrightarrow> (i, l) \<in> set (t_labels db) \<and> map_of (t_nodes db) i = Some r" for i r
    using d assms(2) row_lookup [OF rows] by (auto simp: probe_rows_def sorted_filter distinct_map_filter)
  let ?q = "filter (\<lambda>x. snd x = l) (t_labels db)"
  have q: "distinct ?q" using step by (simp add: in_step_def)
  have "distinct (map fst ?q)" using q by (auto simp: distinct_map intro!: inj_onI)
  then have "distinct (map fst (map (\<lambda>x. (fst x, the (map_of (t_nodes db) (fst x)))) ?q))" by (simp add: comp_def)
  then have dl: "distinct (map fst (label_rows l db))" unfolding label_rows_alt [OF step] by (simp only: distinct_map distinct_sort set_sort)
  have ml: "(i, r) \<in> set (label_rows l db) \<longleftrightarrow> (i, l) \<in> set (t_labels db) \<and> map_of (t_nodes db) i = Some r" for i r
    unfolding label_rows_alt [OF step] using step by (force simp: in_step_def image_iff)
  have "set (label_rows l db) = set ?p" using ml p(3) by auto
  moreover have "inj_on fst (set (label_rows l db) \<union> set ?p)" using ml p(3) by (force intro!: inj_onI)
  moreover have "sorted (map fst (label_rows l db))" by (simp add: label_rows_def)
  ultimately have "label_rows l db = ?p" using dl p(1,2) by (intro map_sorted_distinct_set_unique) auto
  then show ?thesis using assms(2) by (simp add: scan_rows_def)
qed

text \<open>Loading ahead changes nothing a later read gives.\<close>

lemma prefetch_part_reads:
  assumes g: "ginv te g"
  shows "\<exists>h. prefetch_part te b part g = Inr h \<and> ginv te h \<and> extends g h"
proof -
  let ?rows = "adj_rows b part (g_db g)"
  have st: "map_of (t_edges (g_db g)) j = Some r" if "(j, r) \<in> set ?rows" for j r
    using ginvD(1) [OF g] that by (rule adj_rows_stored)
  obtain h where h: "intern_rels te ?rows g = Inr h" "ginv te h" "extends g h" "\<forall>j \<in> fst ` set ?rows. g_rels h j \<noteq> None"
    by (rule intern_rels_reads [OF g st])
  have f: "filter (\<lambda>(j, r). (if b then e_start r else e_end r) = i) ?rows = adj_rows b [i] (g_db g)" if "i \<in> set part" for i
    using that by (auto simp: adj_rows_def intro!: filter_cong)
  have "ginv te (foldl (\<lambda>h i. case adj b h i of Some _ \<Rightarrow> h
      | None \<Rightarrow> set_adj b i (map fst (filter (\<lambda>(j, r). (if b then e_start r else e_end r) = i) ?rows)) h) k is)
    \<and> extends g (foldl (\<lambda>h i. case adj b h i of Some _ \<Rightarrow> h
      | None \<Rightarrow> set_adj b i (map fst (filter (\<lambda>(j, r). (if b then e_start r else e_end r) = i) ?rows)) h) k is)"
    if "ginv te k" "extends h k" "set is \<subseteq> set part" for k "is"
    using that
  proof (induction "is" arbitrary: k)
    case Nil
    then show ?case using extends_trans [OF h(3)] by simp
  next
    case (Cons i "is")
    show ?case
    proof (cases "adj b k i")
      case None
      let ?rs = "map fst (adj_rows b [i] (g_db g))"
      have "\<forall>j \<in> set ?rs. g_rels k j \<noteq> None"
      proof
        fix j assume "j \<in> set ?rs"
        then have "j \<in> fst ` set ?rows" using Cons.prems(3) by (auto simp: adj_rows_def)
        then obtain r where "g_rels h j = Some r" using h(4) by blast
        then show "g_rels k j \<noteq> None" using extendsD(3) [OF Cons.prems(2)] by simp
      qed
      then have "ginv te (set_adj b i ?rs k)"
        using Cons.prems extendsD(1) [OF h(3)] extendsD(1) [OF Cons.prems(2)] by (intro set_adj_inv) auto
      then show ?thesis using Cons.IH [of "set_adj b i ?rs k"] Cons.prems extends_set_adj f [of i] None by simp
    qed (use Cons in simp)
  qed
  from this [OF h(2) extends_refl, of part] show ?thesis using h(1) by (simp add: prefetch_part_def Let_def)
qed

lemma prefetchAdj_reads:
  assumes g: "ginv te g"
  obtains h where "prefetchAdj te is b g = Inr h" "ginv te h" "extends g h"
proof -
  have "\<exists>h. foldE (prefetch_part te b) (batches (filter (\<lambda>i. adj b g i = None) is)) g = Inr h \<and> ginv te h \<and> extends g h
      \<and> (\<forall>x \<in> set (batches (filter (\<lambda>i. adj b g i = None) is)). True)"
    using prefetch_part_reads by (intro read_loop [OF g]) auto
  then show thesis using that by (auto simp: prefetchAdj_def)
qed

lemma rows_of_stored: "tables_ok te db \<Longrightarrow> (i, r) \<in> set (rows_of is db) \<Longrightarrow> map_of (t_nodes db) i = Some r"
  using row_lookup [OF tables_okD(1)] by (fastforce simp: rows_of_def)

lemma rows_of_reads:
  assumes g: "ginv te g"
  shows "\<exists>h. intern_nodes te (rows_of is (g_db g)) g = Inr h \<and> ginv te h \<and> extends g h"
proof -
  have st: "map_of (t_nodes (g_db g)) i = Some r" if "(i, r) \<in> set (rows_of is (g_db g))" for i r
    using ginvD(1) [OF g] that by (rule rows_of_stored)
  obtain h where "intern_nodes te (rows_of is (g_db g)) g = Inr h" "ginv te h" "extends g h"
    by (rule intern_nodes_reads [OF g st])
  then show ?thesis by blast
qed

lemma prefetchNodes_reads:
  assumes g: "ginv te g"
  obtains h where "prefetchNodes te is g = Inr h" "ginv te h" "extends g h"
proof -
  have "\<exists>h. foldE (\<lambda>part h. intern_nodes te (rows_of part (g_db h)) h) (batches (filter (\<lambda>i. g_nodes g i = None) is)) g = Inr h
      \<and> ginv te h \<and> extends g h \<and> (\<forall>x \<in> set (batches (filter (\<lambda>i. g_nodes g i = None) is)). True)"
    using rows_of_reads by (intro read_loop [OF g]) auto
  then show thesis using that by (auto simp: prefetchNodes_def)
qed

lemma preloadNodes_reads:
  assumes g: "ginv te g"
  obtains h where "preloadNodes te is g = Inr h" "ginv te h" "extends g h"
proof (cases "filter (\<lambda>i. g_nodes g i = None) is = []")
  case True
  then show thesis using that [of g] g by (simp add: preloadNodes_def)
next
  case False
  obtain h where "intern_nodes te (rows_of (filter (\<lambda>i. g_nodes g i = None) is) (g_db g)) g = Inr h" "ginv te h" "extends g h"
    using rows_of_reads [OF g] by blast
  then show thesis using that [of h] False unfolding preloadNodes_def Let_def if_not_P [OF False] by simp
qed

end
