(* ===== verification/GraphWrites.thy ===== *)
theory GraphWrites
  imports GraphFacts
begin

text \<open>
  The statement's view refines a property graph: finite maps of nodes and relationships. Every write of the view is the
  corresponding change of the map, reads change nothing, and what is marked deleted is gone from the map at once.
\<close>

section \<open>The property graph\<close>

record pgraph =
  pg_nodes :: "int \<Rightarrow> (string list \<times> vmap) option"
  pg_rels :: "int \<Rightarrow> (string \<times> int \<times> int \<times> vmap) option"

definition decoded :: "tenv \<Rightarrow> string \<Rightarrow> vmap" where
  "decoded te ps = (case decodeProps te ps of Inr m \<Rightarrow> m | Inl _ \<Rightarrow> [])"

definition stored_node :: "tenv \<Rightarrow> node_row \<Rightarrow> string list \<times> vmap" where
  "stored_node te r = (splitLabels (fst r), decoded te (snd r))"

fun stored_rel :: "tenv \<Rightarrow> edge_row \<Rightarrow> string \<times> int \<times> int \<times> vmap" where
  "stored_rel te (ty, s, t, ps) = (ty, s, t, decoded te ps)"

definition abs_nodes :: "tenv \<Rightarrow> graph \<Rightarrow> int \<Rightarrow> (string list \<times> vmap) option" where
  "abs_nodes te g i = (if i \<in> set (g_del_nodes g) then None else map_option (stored_node te) (map_of (t_nodes (g_db g)) i))"

definition abs_rels :: "tenv \<Rightarrow> graph \<Rightarrow> int \<Rightarrow> (string \<times> int \<times> int \<times> vmap) option" where
  "abs_rels te g j = (if j \<in> set (g_del_rels g) then None else map_option (stored_rel te) (map_of (t_edges (g_db g)) j))"

definition abs_graph :: "tenv \<Rightarrow> graph \<Rightarrow> pgraph" where
  "abs_graph te g = \<lparr>pg_nodes = abs_nodes te g, pg_rels = abs_rels te g\<rparr>"

lemma abs_graph_sel [simp]: "pg_nodes (abs_graph te g) = abs_nodes te g" "pg_rels (abs_graph te g) = abs_rels te g"
  by (simp_all add: abs_graph_def)

lemma abs_reads: "extends g h \<Longrightarrow> abs_graph te h = abs_graph te g"
  by (simp add: abs_graph_def abs_nodes_def [abs_def] abs_rels_def [abs_def] extends_def cong: if_cong)

text \<open>A cached entity that is not marked is the entity of the map.\<close>

lemma cached_node:
  assumes "ginv te g" "g_nodes g i = Some n"
  shows "abs_nodes te g i = (if n_deleted n then None else Some (n_labels n, n_props n))"
    "n_deleted n \<longleftrightarrow> i \<in> set (g_del_nodes g)"
proof -
  show d: "n_deleted n \<longleftrightarrow> i \<in> set (g_del_nodes g)" using ginvD(3) [OF assms(1)] assms(2) by (auto simp: marks_ok_def)
  show "abs_nodes te g i = (if n_deleted n then None else Some (n_labels n, n_props n))"
    using ginvD(4) [OF assms] by (auto simp: node_true_def abs_nodes_def stored_node_def decoded_def d)
qed

lemma cached_rel:
  assumes "ginv te g" "g_rels g i = Some r"
  shows "abs_rels te g i = (if r_deleted r then None else Some (r_type r, r_start r, r_end r, r_props r))"
    "r_deleted r \<longleftrightarrow> i \<in> set (g_del_rels g)"
proof -
  show d: "r_deleted r \<longleftrightarrow> i \<in> set (g_del_rels g)" using ginvD(3) [OF assms(1)] assms(2) by (auto simp: marks_ok_def)
  show "abs_rels te g i = (if r_deleted r then None else Some (r_type r, r_start r, r_end r, r_props r))"
    using ginvD(5) [OF assms] by (auto simp: rel_true_def abs_rels_def decoded_def d)
qed

lemma cached_labels:
  assumes "ginv te g" "g_nodes g i = Some n"
  shows "labels_ok (n_labels n)" "n_id n = i"
proof -
  obtain r where "map_of (t_nodes (g_db g)) i = Some r" "splitLabels (fst r) = n_labels n" "n_id n = i"
    using ginvD(4) [OF assms] by (auto simp: node_true_def)
  then show "labels_ok (n_labels n)" "n_id n = i" using tables_okD(5) [OF ginvD(1) [OF assms(1)], of i r] by simp_all
qed

section \<open>Property maps\<close>

lemma set_mput: "set (mput k v m) \<subseteq> insert (k, v) (set m)"
  by (induction k v m rule: mput.induct) auto

lemma kept_mput: "kept_props m \<Longrightarrow> valid_utf8 k \<Longrightarrow> kept v \<Longrightarrow> kept_props (mput k v m)"
  using set_mput [of k v m] by (auto simp: kept_props_def list_all_iff mput_good)

lemma kept_mdel: "kept_props m \<Longrightarrow> kept_props (mdel k m)"
  by (auto simp: kept_props_def list_all_iff mdel_good) (auto simp: mdel_def)

lemma kept_encodes:
  assumes "kept_props m"
  obtains s where "encodeProps m = Inr s" "decodeProps te s = Inr m"
proof -
  have "\<exists>ts. mapE encode_entry m = Inr ts" if "list_all (\<lambda>kv. kept (snd kv)) m" for m
    using that
  proof (induction m)
    case (Cons kv m)
    then obtain t where "encodeValue (snd kv) = Inr t" using value_reads by auto
    then show ?case using Cons by (auto simp: encode_entry_def)
  qed simp
  moreover have "list_all (\<lambda>kv. kept (snd kv)) m" using assms by (auto simp: kept_props_def list_all_iff)
  ultimately obtain ts where "mapE encode_entry m = Inr ts" by blast
  then obtain s where s: "encodeProps m = Inr s" by (simp add: encodeProps_def)
  then show thesis using that decode_encode [OF assms s] by blast
qed

text \<open>What a statement may write: valid text and values that survive, nulls aside.\<close>

definition writable :: "vmap \<Rightarrow> bool" where
  "writable m \<longleftrightarrow> (\<forall>(k, v) \<in> set m. valid_utf8 k \<and> (is_null v \<or> kept v))"

lemma clean_kept:
  assumes "cleanProps props = Inr m" "writable props"
  shows "kept_props m"
  using assms(1) unfolding cleanProps_def
proof (rule foldE_invariant)
  show "kept_props []" by (simp add: kept_props_def good_map_def)
  fix kv u v
  assume a: "kv \<in> set props" "kept_props u"
    "(if is_null (snd kv) then Inr u else bindE (checkPropValue (snd kv)) (\<lambda>_. Inr (mput (fst kv) (snd kv) u))) = Inr v"
  have w: "valid_utf8 (fst kv)" "is_null (snd kv) \<or> kept (snd kv)" using assms(2) a(1) by (auto simp: writable_def)
  show "kept_props v"
  proof (cases "is_null (snd kv)")
    case False
    then have "v = mput (fst kv) (snd kv) u" using a(3) by (simp add: bindE_Inr)
    then show ?thesis using kept_mput [OF a(2) w(1)] w(2) False by simp
  qed (use a in simp)
qed

section \<open>Changing a node\<close>

text \<open>Snapshots and counters are no part of the view.\<close>

lemma view_cong:
  assumes "g_db h = g_db g" "g_nodes h = g_nodes g" "g_rels h = g_rels g" "adj True h = adj True g" "adj False h = adj False g"
    "g_del_nodes h = g_del_nodes g" "g_del_rels h = g_del_rels g"
  shows "ginv te h = ginv te g" "abs_graph te h = abs_graph te g"
proof -
  have a: "adj b h = adj b g" for b using assms(4,5) by (cases b) simp_all
  show "ginv te h = ginv te g" by (simp add: ginv_def caches_ok_def marks_ok_def adj_true_def a assms)
  show "abs_graph te h = abs_graph te g" by (simp add: abs_graph_def abs_nodes_def [abs_def] abs_rels_def [abs_def] assms cong: if_cong)
qed

lemma snapNode_fields [simp]:
  "g_db (snapNode i g) = g_db g" "g_nodes (snapNode i g) = g_nodes g" "g_rels (snapNode i g) = g_rels g"
  "adj b (snapNode i g) = adj b g" "g_del_nodes (snapNode i g) = g_del_nodes g" "g_del_rels (snapNode i g) = g_del_rels g"
  by (auto simp: snapNode_def adj_def split: option.split)

lemma snapRel_fields [simp]:
  "g_db (snapRel i g) = g_db g" "g_nodes (snapRel i g) = g_nodes g" "g_rels (snapRel i g) = g_rels g"
  "adj b (snapRel i g) = adj b g" "g_del_nodes (snapRel i g) = g_del_nodes g" "g_del_rels (snapRel i g) = g_del_rels g"
  by (auto simp: snapRel_def adj_def split: option.split)

lemma set_db_fields [simp]:
  "g_db (set_db db g) = db" "g_nodes (set_db db g) = g_nodes g" "g_rels (set_db db g) = g_rels g"
  "adj b (set_db db g) = adj b g" "g_del_nodes (set_db db g) = g_del_nodes g" "g_del_rels (set_db db g) = g_del_rels g"
  by (simp_all add: set_db_def adj_def)

lemma no_dangling_alt: "no_dangling db \<longleftrightarrow> (\<forall>x \<in> set (t_edges db). e_start (snd x) \<in> fst ` set (t_nodes db) \<and> e_end (snd x) \<in> fst ` set (t_nodes db))"
  by (simp add: no_dangling_def case_prod_beta)

lemma no_dangling_nodes: "fst ` set (t_nodes db') = fst ` set (t_nodes db) \<Longrightarrow> t_edges db' = t_edges db \<Longrightarrow> no_dangling db' = no_dangling db"
  by (simp add: no_dangling_def)

lemma node_update:
  assumes g: "ginv te g" and n: "g_nodes g i = Some n"
    and h: "g_db h = (g_db g)\<lparr>t_nodes := update_row i f (t_nodes (g_db g)), t_labels := ls\<rparr>"
      "g_nodes h = (g_nodes g)(i := Some n')" "g_rels h = g_rels g" "\<And>b. adj b h = adj b g"
      "g_del_nodes h = g_del_nodes g" "g_del_rels h = g_del_rels g"
    and r: "map_of (t_nodes (g_db g)) i = Some r"
    and n': "n_id n' = i" "n_deleted n' = n_deleted n" "kept_props (n_props n')" "labels_ok (n_labels n')"
      "splitLabels (fst (f r)) = n_labels n'" "decodeProps te (snd (f r)) = Inr (n_props n')"
    and step: "in_step (g_db h)"
  shows "ginv te h" "abs_graph te h = (abs_graph te g)\<lparr>pg_nodes := (abs_nodes te g)(i := if n_deleted n then None else Some (n_labels n', n_props n'))\<rparr>"
proof -
  note t = ginvD(1) [OF g]
  have "map_of (t_nodes (g_db h)) = (map_of (t_nodes (g_db g)))(i := Some (f r))" by (simp add: h(1) map_of_update r)
  moreover have "rows_ok (t_next_node (g_db h)) (t_nodes (g_db h))" using rows_ok_update [OF tables_okD(1) [OF t]] by (simp add: h(1))
  moreover have "props_ok te (snd (f r))" using n' by (auto simp: props_ok_def)
  ultimately have "\<forall>(j, r) \<in> set (t_nodes (g_db h)). props_ok te (snd r) \<and> labels_ok (splitLabels (fst r))"
    using tables_okD(5) [OF t] n' row_lookup by (fastforce split: if_splits)
  moreover have "no_dangling (g_db h)" using tables_okD(4) [OF t] no_dangling_nodes [of "g_db h" "g_db g"] by (simp add: h(1))
  ultimately have th: "tables_ok te (g_db h)"
    using t step rows_ok_update [OF tables_okD(1) [OF t]] unfolding tables_ok_def by (simp add: h(1))
  have m: "map_of (t_nodes (g_db h)) = (map_of (t_nodes (g_db g)))(i := Some (f r))" by (simp add: h(1) map_of_update r)
  have "node_true te (g_db h) j x" if "g_nodes h j = Some x" for j x
    using that ginvD(4) [OF g, of j] n' by (cases "j = i") (simp_all add: h(2) node_true_def m)
  moreover have "rel_true te (g_db h) j x" if "g_rels h j = Some x" for j x
    using that ginvD(5) [OF g, of j] by (simp add: h(1,3) rel_true_def)
  moreover have "adj_true h b j rs" if "adj b h j = Some rs" for b j rs
    using that ginvD(6) [OF g, of b j] by (simp add: h(1,3,4) adj_true_def adj_rows_def)
  ultimately have "caches_ok te h" by (simp add: caches_ok_def)
  moreover have "marks_ok h" using ginvD(3) [OF g] n n'(2) unfolding marks_ok_def h(2,3,5,6) by auto
  ultimately show "ginv te h" using th by (simp add: ginv_def)
  have "abs_nodes te h = (abs_nodes te g)(i := if n_deleted n then None else Some (n_labels n', n_props n'))"
    using cached_node(2) [OF g n] n' by (auto simp: abs_nodes_def fun_eq_iff h(5) m stored_node_def decoded_def)
  moreover have "abs_rels te h = abs_rels te g" by (simp add: abs_rels_def fun_eq_iff h(1,6))
  ultimately show "abs_graph te h = (abs_graph te g)\<lparr>pg_nodes := (abs_nodes te g)(i := if n_deleted n then None else Some (n_labels n', n_props n'))\<rparr>"
    by (simp add: abs_graph_def)
qed

text \<open>Properties.\<close>

definition put_prop :: "string \<Rightarrow> val \<Rightarrow> vmap \<Rightarrow> vmap" where
  "put_prop k v m = (if is_null v then mdel k m else mput k v m)"

definition pg_node_prop :: "int \<Rightarrow> string \<Rightarrow> val \<Rightarrow> pgraph \<Rightarrow> pgraph" where
  "pg_node_prop i k v G = G\<lparr>pg_nodes := (pg_nodes G)(i := map_option (\<lambda>(ls, m). (ls, put_prop k v m)) (pg_nodes G i))\<rparr>"

definition pg_rel_prop :: "int \<Rightarrow> string \<Rightarrow> val \<Rightarrow> pgraph \<Rightarrow> pgraph" where
  "pg_rel_prop i k v G = G\<lparr>pg_rels := (pg_rels G)(i := map_option (\<lambda>(ty, s, t, m). (ty, s, t, put_prop k v m)) (pg_rels G i))\<rparr>"

lemma mdel_absent: "k \<notin> set (mkeys m) \<Longrightarrow> mdel k m = m"
  by (induction m) (auto simp: mdel_def)

lemma kept_put_prop: "kept_props m \<Longrightarrow> valid_utf8 k \<Longrightarrow> is_null v \<or> kept v \<Longrightarrow> kept_props (put_prop k v m)"
  by (auto simp: put_prop_def kept_mdel kept_mput)

lemma abs_nodes_same: "ginv te g \<Longrightarrow> g_nodes g i = Some n \<Longrightarrow> \<not> n_deleted n \<Longrightarrow> (abs_nodes te g)(i := Some (n_labels n, n_props n)) = abs_nodes te g"
  using cached_node(1) [of te g i n] by (simp add: fun_upd_idem)

lemma persistNodeProps_ok:
  assumes g: "ginv te g" and n: "g_nodes g i = Some n" and m: "kept_props m"
    and h0: "g_db h0 = g_db g" "g_nodes h0 = (g_nodes g)(i := Some (n\<lparr>n_props := m\<rparr>))" "g_rels h0 = g_rels g" "\<And>b. adj b h0 = adj b g"
      "g_del_nodes h0 = g_del_nodes g" "g_del_rels h0 = g_del_rels g"
  shows "\<exists>h. persistNodeProps i h0 = Inr h \<and> ginv te h
    \<and> abs_graph te h = (abs_graph te g)\<lparr>pg_nodes := (abs_nodes te g)(i := if n_deleted n then None else Some (n_labels n, m))\<rparr>"
proof -
  obtain s where s: "encodeProps m = Inr s" "decodeProps te s = Inr m" using kept_encodes [OF m] .
  have "node_true te (g_db g) i n" using ginvD(4) [OF g n] .
  then obtain r where r: "map_of (t_nodes (g_db g)) i = Some r" "splitLabels (fst r) = n_labels n" "n_id n = i"
    by (auto simp: node_true_def)
  let ?f = "\<lambda>(l, _). (l, s)"
  let ?h = "set_db ((g_db g)\<lparr>t_nodes := update_row i ?f (t_nodes (g_db g))\<rparr>) h0"
  have e: "persistNodeProps i h0 = Inr ?h" using s by (simp add: persistNodeProps_def gnode_def h0)
  have lab: "labels_ok (n_labels n)" using tables_okD(5) [OF ginvD(1) [OF g] r(1)] r(2) by simp
  have step: "in_step (g_db ?h)"
    using tables_okD(3) [OF ginvD(1) [OF g]] r(1) unfolding in_step_def by (cases r) (auto simp: map_of_update)
  let ?n = "n\<lparr>n_props := m\<rparr>"
  have fr: "fst (?f r) = fst r" "snd (?f r) = s" by (cases r; simp)+
  note upd = node_update [OF g n, where h = ?h and f = ?f and ls = "t_labels (g_db g)" and n' = ?n and r = r]
  have "ginv te ?h" by (rule upd(1)) (simp_all add: h0 r s m lab step [simplified] fr del: split_beta)
  moreover have "abs_graph te ?h = (abs_graph te g)\<lparr>pg_nodes := (abs_nodes te g)(i := if n_deleted n then None else Some (n_labels ?n, n_props ?n))\<rparr>"
    by (rule upd(2)) (simp_all add: h0 r s m lab step [simplified] fr del: split_beta)
  ultimately show ?thesis using e by simp
qed

lemma setNodeProp_refines:
  assumes g: "ginv te g" and n: "g_nodes g i = Some n" "\<not> n_deleted n"
    and v: "valid_utf8 k" "is_null v \<or> kept v \<and> checkPropValue v = Inr ()"
  shows "\<exists>h. setNodeProp i k v g = Inr h \<and> ginv te h \<and> abs_graph te h = pg_node_prop i k v (abs_graph te g)"
proof -
  have t: "node_true te (g_db g) i n" using ginvD(4) [OF g n(1)] .
  have a: "abs_nodes te g i = Some (n_labels n, n_props n)" using cached_node(1) [OF g n(1)] n(2) by simp
  show ?thesis
  proof (cases "is_null v \<and> k \<notin> set (mkeys (n_props n))")
    case True
    then have "setNodeProp i k v g = Inr g" using n by (simp add: setNodeProp_def gnode_def)
    moreover have "put_prop k v (n_props n) = n_props n" using True by (simp add: put_prop_def mdel_absent)
    ultimately show ?thesis using g a by (auto simp: pg_node_prop_def abs_graph_def fun_upd_idem)
  next
    case False
    let ?m = "put_prop k v (n_props n)"
    have "kept_props ?m" using t v by (intro kept_put_prop) (auto simp: node_true_def)
    then obtain h where h: "persistNodeProps i (put_node (n\<lparr>n_props := ?m\<rparr>) (snapNode i g)) = Inr h" "ginv te h"
      "abs_graph te h = (abs_graph te g)\<lparr>pg_nodes := (abs_nodes te g)(i := if n_deleted n then None else Some (n_labels n, ?m))\<rparr>"
      using persistNodeProps_ok [OF g n(1), of ?m "put_node (n\<lparr>n_props := ?m\<rparr>) (snapNode i g)"] t by (auto simp: node_true_def)
    have "setNodeProp i k v g = Inr h"
      using False h(1) n v(2) by (auto simp: setNodeProp_def gnode_def put_prop_def)
    then show ?thesis using h n(2) a by (simp add: pg_node_prop_def abs_graph_def)
  qed
qed

section \<open>Changing a relationship\<close>

lemma keys_filter_update:
  assumes "\<And>r. P (f r) = P r"
  shows "map fst (filter (\<lambda>(j, r). P r) (update_row i f rows)) = map fst (filter (\<lambda>(j, r). P r) rows)"
  unfolding update_row_def
proof (induction rows)
  case (Cons x rows)
  then show ?case by (cases x) (simp add: assms)
qed simp

lemma persistRelProps_ok:
  assumes g: "ginv te g" and r: "g_rels g i = Some r" and m: "kept_props m"
    and h0: "g_db h0 = g_db g" "g_rels h0 = (g_rels g)(i := Some (r\<lparr>r_props := m\<rparr>))" "g_nodes h0 = g_nodes g" "\<And>b. adj b h0 = adj b g"
      "g_del_nodes h0 = g_del_nodes g" "g_del_rels h0 = g_del_rels g"
  shows "\<exists>h. persistRelProps i h0 = Inr h \<and> ginv te h
    \<and> abs_graph te h = (abs_graph te g)\<lparr>pg_rels := (abs_rels te g)(i := if r_deleted r then None else Some (r_type r, r_start r, r_end r, m))\<rparr>"
proof -
  obtain s where s: "encodeProps m = Inr s" "decodeProps te s = Inr m" using kept_encodes [OF m] .
  have "rel_true te (g_db g) i r" using ginvD(5) [OF g r] .
  then obtain ps where row: "map_of (t_edges (g_db g)) i = Some (r_type r, r_start r, r_end r, ps)" "r_id r = i"
    by (auto simp: rel_true_def)
  define f :: "edge_row \<Rightarrow> edge_row" where "f = (\<lambda>(ty, a, b, _). (ty, a, b, s))"
  have f: "e_start (f x) = e_start x" "e_end (f x) = e_end x" for x by (cases x; simp add: f_def)+
  let ?db = "(g_db g)\<lparr>t_edges := update_row i f (t_edges (g_db g))\<rparr>"
  let ?h = "set_db ?db h0"
  note t = ginvD(1) [OF g]
  have e: "persistRelProps i h0 = Inr ?h" using s by (simp add: persistRelProps_def grel_def h0 f_def)
  have mo: "map_of (update_row i f (t_edges (g_db g))) = (map_of (t_edges (g_db g)))(i := Some (r_type r, r_start r, r_end r, s))"
    by (simp add: map_of_update row f_def)
  have rows: "rows_ok (t_next_edge ?db) (t_edges ?db)" using rows_ok_update [OF tables_okD(2) [OF t]] by simp
  have "props_ok te s" using s m by (auto simp: props_ok_def)
  then have "props_ok te ps" if "(j, (ty, a, b, ps)) \<in> set (t_edges ?db)" for j ty a b ps
    using that [unfolded row_lookup [OF rows]] tables_okD(6) [OF t, of j ty a b ps] by (simp add: mo split: if_splits)
  then have "\<forall>(j, (ty, a, b, ps)) \<in> set (t_edges ?db). props_ok te ps" by blast
  moreover have "no_dangling ?db"
    using tables_okD(4) [OF t] by (auto simp: no_dangling_alt update_row_def case_prod_beta f simp del: split_paired_All split_paired_Ex)
  moreover have "in_step ?db" using tables_okD(3) [OF t] by (simp add: in_step_def)
  ultimately have th: "tables_ok te ?db" using t rows unfolding tables_ok_def by simp
  have adj: "map fst (adj_rows b is ?db) = map fst (adj_rows b is (g_db g))" for b "is"
    unfolding adj_rows_def using keys_filter_update [where P = "\<lambda>r. (if b then e_start r else e_end r) \<in> set is"] f by simp
  have "node_true te ?db j x" if "g_nodes ?h j = Some x" for j x
    using that ginvD(4) [OF g, of j] by (simp add: h0 node_true_def)
  moreover have "rel_true te ?db j x" if "g_rels ?h j = Some x" for j x
    using that ginvD(5) [OF g, of j] s m row by (cases "j = i") (auto simp: h0 rel_true_def mo)
  moreover have "adj_true ?h b j rs" if "adj b ?h j = Some rs" for b j rs
    using that ginvD(6) [OF g, of b j] by (auto simp: h0 adj_true_def adj)
  ultimately have "caches_ok te ?h" by (simp add: caches_ok_def)
  moreover have "marks_ok ?h" using ginvD(3) [OF g] r unfolding marks_ok_def set_db_fields h0 by auto
  ultimately have inv: "ginv te ?h" using th by (simp add: ginv_def)
  have "abs_rels te ?h = (abs_rels te g)(i := if r_deleted r then None else Some (r_type r, r_start r, r_end r, m))"
    using cached_rel(2) [OF g r] s by (auto simp: abs_rels_def fun_eq_iff h0 mo decoded_def)
  moreover have "abs_nodes te ?h = abs_nodes te g" by (simp add: abs_nodes_def fun_eq_iff h0)
  ultimately show ?thesis using e inv by (simp add: abs_graph_def)
qed

lemma setRelProp_refines:
  assumes g: "ginv te g" and r: "g_rels g i = Some r" "\<not> r_deleted r"
    and v: "valid_utf8 k" "is_null v \<or> kept v \<and> checkPropValue v = Inr ()"
  shows "\<exists>h. setRelProp i k v g = Inr h \<and> ginv te h \<and> abs_graph te h = pg_rel_prop i k v (abs_graph te g)"
proof -
  have t: "rel_true te (g_db g) i r" using ginvD(5) [OF g r(1)] .
  have a: "abs_rels te g i = Some (r_type r, r_start r, r_end r, r_props r)" using cached_rel(1) [OF g r(1)] r(2) by simp
  show ?thesis
  proof (cases "is_null v \<and> k \<notin> set (mkeys (r_props r))")
    case True
    then have "setRelProp i k v g = Inr g" using r by (simp add: setRelProp_def grel_def)
    moreover have "put_prop k v (r_props r) = r_props r" using True by (simp add: put_prop_def mdel_absent)
    ultimately show ?thesis using g a by (auto simp: pg_rel_prop_def abs_graph_def fun_upd_idem)
  next
    case False
    let ?m = "put_prop k v (r_props r)"
    have "kept_props ?m" using t v by (intro kept_put_prop) (auto simp: rel_true_def)
    then obtain h where h: "persistRelProps i (put_rel (r\<lparr>r_props := ?m\<rparr>) (snapRel i g)) = Inr h" "ginv te h"
      "abs_graph te h = (abs_graph te g)\<lparr>pg_rels := (abs_rels te g)(i := if r_deleted r then None else Some (r_type r, r_start r, r_end r, ?m))\<rparr>"
      using persistRelProps_ok [OF g r(1), of ?m "put_rel (r\<lparr>r_props := ?m\<rparr>) (snapRel i g)"] t by (auto simp: rel_true_def)
    have "setRelProp i k v g = Inr h"
      using False h(1) r v(2) by (auto simp: setRelProp_def grel_def put_prop_def)
    then show ?thesis using h r(2) a by (simp add: pg_rel_prop_def abs_graph_def)
  qed
qed

section \<open>Labels\<close>

definition pg_labels :: "int \<Rightarrow> (string list \<Rightarrow> string list) \<Rightarrow> pgraph \<Rightarrow> pgraph" where
  "pg_labels i f G = G\<lparr>pg_nodes := (pg_nodes G)(i := map_option (\<lambda>(ls, m). (f ls, m)) (pg_nodes G i))\<rparr>"

lemma persistLabels_ok:
  assumes g: "ginv te g" and n: "g_nodes g i = Some n" and ls: "labels_ok ls"
    and h0: "g_db h0 = g_db g" "g_nodes h0 = (g_nodes g)(i := Some (n\<lparr>n_labels := ls\<rparr>))" "g_rels h0 = g_rels g" "\<And>b. adj b h0 = adj b g"
      "g_del_nodes h0 = g_del_nodes g" "g_del_rels h0 = g_del_rels g"
  shows "\<exists>h. persistLabels i h0 = Inr h \<and> ginv te h
    \<and> abs_graph te h = (abs_graph te g)\<lparr>pg_nodes := (abs_nodes te g)(i := if n_deleted n then None else Some (ls, n_props n))\<rparr>"
proof -
  have "node_true te (g_db g) i n" using ginvD(4) [OF g n] .
  then obtain r where r: "map_of (t_nodes (g_db g)) i = Some r" "decodeProps te (snd r) = Inr (n_props n)" "n_id n = i" "kept_props (n_props n)"
    by (auto simp: node_true_def)
  define f :: "node_row \<Rightarrow> node_row" where "f = (\<lambda>(_, p). (join '','' ls, p))"
  have fr: "fst (f r) = join '','' ls" "snd (f r) = snd r" by (cases r; simp add: f_def)+
  have fp: "f r = (join '','' ls, snd r)" by (cases r; simp add: f_def)
  have d: "dedupe ls = ls" "splitLabels (join '','' ls) = ls" using ls splitLabels_join by (auto simp: labels_ok_def dedupe_id)
  let ?nodes = "update_row i f (t_nodes (g_db g))" and ?labels = "delete_row i (t_labels (g_db g)) @ map (Pair i) ls"
  let ?h = "set_db ((g_db g)\<lparr>t_nodes := ?nodes, t_labels := ?labels\<rparr>) h0"
  have i: "i \<in> fst ` set ?nodes" using r(1) by (auto dest!: map_of_SomeD intro: rev_image_eqI)
  have sd: "set_db x (set_db y z) = set_db x z" for x y z by (simp add: set_db_def)
  have e: "persistLabels i h0 = Inr ?h"
    using ls i by (auto simp: persistLabels_def gnode_def h0 d writeNodeLabels_def insert_labels_def labels_ok_def in_delete_row Let_def f_def sd)
  have step: "in_step (g_db ?h)"
    using tables_okD(3) [OF ginvD(1) [OF g]] ls r(1) d
    by (auto simp: in_step_def map_of_update fp in_delete_row labels_ok_def distinct_map inj_on_def delete_row_def)
  let ?n = "n\<lparr>n_labels := ls\<rparr>"
  note upd = node_update [OF g n, where h = ?h and f = f and ls = ?labels and n' = ?n and r = r]
  have "ginv te ?h" by (rule upd(1)) (simp_all add: h0 r ls d step [simplified] fr)
  moreover have "abs_graph te ?h = (abs_graph te g)\<lparr>pg_nodes := (abs_nodes te g)(i := if n_deleted n then None else Some (n_labels ?n, n_props ?n))\<rparr>"
    by (rule upd(2)) (simp_all add: h0 r ls d step [simplified] fr)
  ultimately show ?thesis using e by simp
qed

lemma addLabels_refines:
  assumes g: "ginv te g" and n: "g_nodes g i = Some n" "\<not> n_deleted n" and new: "\<forall>l \<in> set labels. label_ok l"
  shows "\<exists>h. addLabels i labels g = Inr h \<and> ginv te h
    \<and> abs_graph te h = pg_labels i (\<lambda>ls. foldl (\<lambda>acc l. add_label l acc) ls labels) (abs_graph te g)"
proof -
  let ?ls = "foldl (\<lambda>acc l. add_label l acc) (n_labels n) labels"
  have a: "abs_nodes te g i = Some (n_labels n, n_props n)" using cached_node(1) [OF g n(1)] n(2) by simp
  note t = cached_labels [OF g n(1)]
  show ?thesis
  proof (cases "?ls = n_labels n")
    case True
    then have "addLabels i labels g = Inr g" using n by (simp add: addLabels_def gnode_def)
    then show ?thesis using g a True by (auto simp: pg_labels_def abs_graph_def fun_upd_idem)
  next
    case False
    have "labels_ok ?ls" using t(1) new add_labels_props by (auto simp: labels_ok_def)
    then obtain h where h: "persistLabels i (put_node (n\<lparr>n_labels := ?ls\<rparr>) (snapNode i g)) = Inr h" "ginv te h"
      "abs_graph te h = (abs_graph te g)\<lparr>pg_nodes := (abs_nodes te g)(i := if n_deleted n then None else Some (?ls, n_props n))\<rparr>"
      using persistLabels_ok [OF g n(1), of ?ls "put_node (n\<lparr>n_labels := ?ls\<rparr>) (snapNode i g)"] t by auto
    have "addLabels i labels g = Inr h" using False h(1) n by (simp add: addLabels_def gnode_def Let_def)
    then show ?thesis using h n(2) a by (simp add: pg_labels_def abs_graph_def)
  qed
qed

lemma removeLabels_refines:
  assumes g: "ginv te g" and n: "g_nodes g i = Some n" "\<not> n_deleted n"
  shows "\<exists>h. removeLabels i labels g = Inr h \<and> ginv te h
    \<and> abs_graph te h = pg_labels i (\<lambda>ls. foldl (\<lambda>acc l. remove1 l acc) ls labels) (abs_graph te g)"
proof -
  let ?ls = "foldl (\<lambda>acc l. remove1 l acc) (n_labels n) labels"
  have a: "abs_nodes te g i = Some (n_labels n, n_props n)" using cached_node(1) [OF g n(1)] n(2) by simp
  note t = cached_labels [OF g n(1)]
  show ?thesis
  proof (cases "?ls = n_labels n")
    case True
    then have "removeLabels i labels g = Inr g" using n by (simp add: removeLabels_def gnode_def)
    then show ?thesis using g a True by (auto simp: pg_labels_def abs_graph_def fun_upd_idem)
  next
    case False
    have "labels_ok ?ls" using t(1) remove_labels_props [of "n_labels n" labels] by (auto simp: labels_ok_def)
    then obtain h where h: "persistLabels i (put_node (n\<lparr>n_labels := ?ls\<rparr>) (snapNode i g)) = Inr h" "ginv te h"
      "abs_graph te h = (abs_graph te g)\<lparr>pg_nodes := (abs_nodes te g)(i := if n_deleted n then None else Some (?ls, n_props n))\<rparr>"
      using persistLabels_ok [OF g n(1), of ?ls "put_node (n\<lparr>n_labels := ?ls\<rparr>) (snapNode i g)"] t by auto
    have "removeLabels i labels g = Inr h" using False h(1) n by (simp add: removeLabels_def gnode_def Let_def)
    then show ?thesis using h n(2) a by (simp add: pg_labels_def abs_graph_def)
  qed
qed

section \<open>Creation\<close>

lemma new_id_free: "rows_ok next rows \<Longrightarrow> next \<notin> fst ` set rows"
  using rows_okD(2) by blast

lemma createNode_refines:
  assumes g: "ginv te g" and labels: "\<forall>l \<in> set labels. label_ok l" and props: "writable props" "cleanProps props = Inr m"
    and room: "t_next_node (g_db g) \<le> maxInt64"
  shows "\<exists>h. createNode labels props g = Inr (t_next_node (g_db g), h) \<and> ginv te h
    \<and> abs_nodes te g (t_next_node (g_db g)) = None
    \<and> abs_graph te h = (abs_graph te g)\<lparr>pg_nodes := (abs_nodes te g)(t_next_node (g_db g) := Some (dedupe labels, m))\<rparr>"
proof -
  let ?i = "t_next_node (g_db g)" and ?ls = "dedupe labels"
  note t = ginvD(1) [OF g]
  have m: "kept_props m" using props(2,1) by (rule clean_kept)
  obtain s where s: "encodeProps m = Inr s" "decodeProps te s = Inr m" using kept_encodes [OF m] .
  have d: "splitLabels (join '','' ?ls) = ?ls" "labels_ok ?ls" using labels splitLabels_join [of ?ls] by (auto simp: labels_ok_def)
  have fresh: "?i \<notin> fst ` set (t_nodes (g_db g))" using new_id_free [OF tables_okD(1) [OF t]] .
  have mo: "map_of (t_nodes (g_db g) @ [(?i, r)]) = (map_of (t_nodes (g_db g)))(?i := Some r)" for r using map_of_snoc [OF fresh] .
  have nl: "(?i, l) \<notin> set (t_labels (g_db g))" for l
    using tables_okD(3) [OF t] fresh by (auto simp: in_step_def dest: map_of_SomeD intro: rev_image_eqI)
  have nc: "g_nodes g ?i = None"
    using ginvD(4) [OF g, of ?i] fresh by (cases "g_nodes g ?i") (auto simp: node_true_def dest!: map_of_SomeD intro: rev_image_eqI)
  let ?r = "(join '','' ?ls, s)" and ?n = "\<lparr>n_id = ?i, n_labels = ?ls, n_props = m, n_deleted = False\<rparr>"
  let ?db = "(g_db g)\<lparr>t_nodes := t_nodes (g_db g) @ [(?i, ?r)], t_next_node := ?i + 1, t_labels := t_labels (g_db g) @ map (Pair ?i) ?ls\<rparr>"
  let ?g2 = "put_node ?n (set_db ?db g)"
  let ?h = "count (\<lambda>c. c\<lparr>c_nodes_created := c_nodes_created c + 1\<rparr>) (?g2\<lparr>g_new_nodes := g_new_nodes ?g2 @ [?i]\<rparr>)"
  have sd: "set_db x (set_db y z) = set_db x z" for x y z by (simp add: set_db_def)
  have "writeNodeLabels ?i ?ls (set_db ((g_db g)\<lparr>t_nodes := t_nodes (g_db g) @ [(?i, ?r)], t_next_node := ?i + 1\<rparr>) g) = Inr (set_db ?db g)"
    using nl by (auto simp: writeNodeLabels_def insert_labels_def sd)
  then have e: "createNode labels props g = Inr (?i, ?h)"
    using props(2) s(1) room by (simp add: createNode_def insert_node_def Let_def)
  have rows: "rows_ok (t_next_node ?db) (t_nodes ?db)" using rows_ok_snoc [OF tables_okD(1) [OF t]] by simp
  have step: "in_step ?db"
    using tables_okD(3) [OF t] nl d(1) fresh unfolding in_step_def
    by (auto simp: mo distinct_map inj_on_def simp del: map_of_append split: if_splits dest: map_of_SomeD)
  have "props_ok te s" using s m by (auto simp: props_ok_def)
  then have "\<forall>(j, r) \<in> set (t_nodes ?db). props_ok te (snd r) \<and> labels_ok (splitLabels (fst r))"
    using t d by (auto simp: tables_ok_def)
  moreover have "no_dangling ?db" using tables_okD(4) [OF t] by (auto simp: no_dangling_alt simp del: split_paired_All split_paired_Ex)
  ultimately have th: "tables_ok te ?db" using t rows step unfolding tables_ok_def by simp
  have "node_true te ?db j x" if "g_nodes ?g2 j = Some x" for j x
    using that ginvD(4) [OF g, of j] s m d by (cases "j = ?i") (auto simp: node_true_def mo simp del: map_of_append split: if_splits)
  moreover have "rel_true te ?db j x" if "g_rels ?g2 j = Some x" for j x
    using that ginvD(5) [OF g, of j] by (simp add: rel_true_def)
  moreover have "adj_true ?g2 b j rs" if "adj b ?g2 j = Some rs" for b j rs
    using that ginvD(6) [OF g, of b j] by (simp add: adj_true_def adj_rows_def)
  ultimately have "caches_ok te ?g2" by (simp add: caches_ok_def)
  moreover have "marks_ok ?g2" using ginvD(3) [OF g] nc by (auto simp: marks_ok_def)
  ultimately have inv: "ginv te ?g2" using th by (simp add: ginv_def)
  have dn: "?i \<notin> set (g_del_nodes g)" using ginvD(3) [OF g] nc by (auto simp: marks_ok_def)
  have "abs_nodes te ?g2 = (abs_nodes te g)(?i := Some (?ls, m))"
    using dn d s by (auto simp: abs_nodes_def fun_eq_iff mo stored_node_def decoded_def simp del: map_of_append)
  moreover have "abs_rels te ?g2 = abs_rels te g" by (simp add: abs_rels_def fun_eq_iff)
  ultimately have ab: "abs_graph te ?g2 = (abs_graph te g)\<lparr>pg_nodes := (abs_nodes te g)(?i := Some (?ls, m))\<rparr>" by (simp add: abs_graph_def)
  have "ginv te ?h = ginv te ?g2" "abs_graph te ?h = abs_graph te ?g2"
    by (rule view_cong; simp add: count_def adj_def fun_eq_iff)+
  moreover have "abs_nodes te g ?i = None" using fresh by (auto simp: abs_nodes_def map_of_eq_None_iff)
  ultimately show ?thesis using e inv ab by simp
qed

lemma append_adj_fields [simp]:
  "g_db (append_adj b i r g) = g_db g" "g_nodes (append_adj b i r g) = g_nodes g" "g_rels (append_adj b i r g) = g_rels g"
  "g_del_nodes (append_adj b i r g) = g_del_nodes g" "g_del_rels (append_adj b i r g) = g_del_rels g"
  "adj c (append_adj b i r g) j = (if c = b \<and> j = i then map_option (\<lambda>rs. rs @ [r]) (adj b g i) else adj c g j)"
  by (auto simp: append_adj_def split: option.split)

lemma createRel_refines:
  assumes g: "ginv te g" and ends: "s \<in> fst ` set (t_nodes (g_db g))" "t \<in> fst ` set (t_nodes (g_db g))"
    and props: "writable props" "cleanProps props = Inr m" and room: "t_next_edge (g_db g) \<le> maxInt64"
  shows "\<exists>h. createRel ty s t props g = Inr (t_next_edge (g_db g), h) \<and> ginv te h
    \<and> abs_rels te g (t_next_edge (g_db g)) = None
    \<and> abs_graph te h = (abs_graph te g)\<lparr>pg_rels := (abs_rels te g)(t_next_edge (g_db g) := Some (ty, s, t, m))\<rparr>"
proof -
  let ?i = "t_next_edge (g_db g)"
  note tb = ginvD(1) [OF g]
  have m: "kept_props m" using props(2,1) by (rule clean_kept)
  obtain enc where enc: "encodeProps m = Inr enc" "decodeProps te enc = Inr m" using kept_encodes [OF m] .
  have fresh: "?i \<notin> fst ` set (t_edges (g_db g))" using new_id_free [OF tables_okD(2) [OF tb]] .
  have mo: "map_of (t_edges (g_db g) @ [(?i, r)]) = (map_of (t_edges (g_db g)))(?i := Some r)" for r using map_of_snoc [OF fresh] .
  have nc: "g_rels g ?i = None"
    using ginvD(5) [OF g, of ?i] fresh by (cases "g_rels g ?i") (auto simp: rel_true_def dest!: map_of_SomeD intro: rev_image_eqI)
  let ?r = "(ty, s, t, enc)" and ?x = "\<lparr>r_id = ?i, r_type = ty, r_start = s, r_end = t, r_props = m, r_deleted = False\<rparr>"
  let ?db = "(g_db g)\<lparr>t_edges := t_edges (g_db g) @ [(?i, ?r)], t_next_edge := ?i + 1\<rparr>"
  let ?g2 = "append_adj False t ?i (append_adj True s ?i (put_rel ?x (set_db ?db g)))"
  let ?h = "count (\<lambda>c. c\<lparr>c_rels_created := c_rels_created c + 1\<rparr>) (?g2\<lparr>g_new_rels := g_new_rels ?g2 @ [?i]\<rparr>)"
  have e: "createRel ty s t props g = Inr (?i, ?h)"
    using props(2) enc(1) room ends by (simp add: createRel_def insert_edge_def Let_def)
  have rows: "rows_ok (t_next_edge ?db) (t_edges ?db)" using rows_ok_snoc [OF tables_okD(2) [OF tb]] by simp
  have "props_ok te enc" using enc m by (auto simp: props_ok_def)
  then have "\<forall>(j, (ty, s, t, ps)) \<in> set (t_edges ?db). props_ok te ps"
    using tb by (auto simp: tables_ok_def)
  moreover have "no_dangling ?db" using tables_okD(4) [OF tb] ends by (simp add: no_dangling_alt)
  moreover have "in_step ?db" using tables_okD(3) [OF tb] by (simp add: in_step_def)
  ultimately have th: "tables_ok te ?db" using tb rows unfolding tables_ok_def by simp
  have "node_true te ?db j x" if "g_nodes ?g2 j = Some x" for j x
    using that ginvD(4) [OF g, of j] by (simp add: node_true_def)
  moreover have "rel_true te ?db j x" if "g_rels ?g2 j = Some x" for j x
    using that ginvD(5) [OF g, of j] enc m by (cases "j = ?i") (auto simp: rel_true_def mo simp del: map_of_append split: if_splits)
  moreover have "adj_true ?g2 b j rs" if "adj b ?g2 j = Some rs" for b j rs
  proof -
    have old: "adj_true g b j rs'" if "adj b g j = Some rs'" for rs' using ginvD(6) [OF g that] .
    show ?thesis using that old nc
      by (cases b) (auto simp: adj_true_def adj_rows_def split: if_splits)
  qed
  ultimately have "caches_ok te ?g2" by (simp add: caches_ok_def)
  moreover have "marks_ok ?g2" using ginvD(3) [OF g] nc by (auto simp: marks_ok_def)
  ultimately have inv: "ginv te ?g2" using th by (simp add: ginv_def)
  have dn: "?i \<notin> set (g_del_rels g)" using ginvD(3) [OF g] nc by (auto simp: marks_ok_def)
  have "abs_rels te ?g2 = (abs_rels te g)(?i := Some (ty, s, t, m))"
    using dn enc by (auto simp: abs_rels_def fun_eq_iff mo decoded_def simp del: map_of_append)
  moreover have "abs_nodes te ?g2 = abs_nodes te g" by (simp add: abs_nodes_def fun_eq_iff)
  ultimately have ab: "abs_graph te ?g2 = (abs_graph te g)\<lparr>pg_rels := (abs_rels te g)(?i := Some (ty, s, t, m))\<rparr>" by (simp add: abs_graph_def)
  have "ginv te ?h = ginv te ?g2" "abs_graph te ?h = abs_graph te ?g2"
    by (rule view_cong; simp add: count_def adj_def [abs_def])+
  moreover have "abs_rels te g ?i = None" using fresh by (auto simp: abs_rels_def map_of_eq_None_iff)
  ultimately show ?thesis using e inv ab by simp
qed

section \<open>Deletion\<close>

definition pg_drop_rels :: "int set \<Rightarrow> pgraph \<Rightarrow> pgraph" where
  "pg_drop_rels js G = G\<lparr>pg_rels := (\<lambda>j. if j \<in> js then None else pg_rels G j)\<rparr>"

definition pg_drop_node :: "int \<Rightarrow> pgraph \<Rightarrow> pgraph" where
  "pg_drop_node i G = G\<lparr>pg_nodes := (pg_nodes G)(i := None)\<rparr>"

definition pg_incident :: "int \<Rightarrow> pgraph \<Rightarrow> int set" where
  "pg_incident i G = {j. \<exists>ty s t m. pg_rels G j = Some (ty, s, t, m) \<and> (s = i \<or> t = i)}"

lemma mark_rel:
  assumes g: "ginv te g" and r: "g_rels g j = Some r"
  shows "\<exists>h. deleteRel j g = Inr h \<and> ginv te h \<and> abs_graph te h = pg_drop_rels {j} (abs_graph te g)
    \<and> (\<forall>k. g_rels g k \<noteq> None \<longrightarrow> g_rels h k \<noteq> None) \<and> g_nodes h = g_nodes g \<and> g_db h = g_db g \<and> g_del_nodes h = g_del_nodes g
    \<and> set (g_del_rels h) = insert j (set (g_del_rels g))"
proof (cases "r_deleted r")
  case True
  then have "j \<in> set (g_del_rels g)" using cached_rel(2) [OF g r] by simp
  moreover have "deleteRel j g = Inr g" using True r by (simp add: deleteRel_def grel_def)
  ultimately show ?thesis using g by (auto simp: pg_drop_rels_def abs_graph_def abs_rels_def fun_eq_iff)
next
  case False
  let ?g1 = "put_rel (r\<lparr>r_deleted := True\<rparr>) g"
  let ?h = "?g1\<lparr>g_del_rels := g_del_rels ?g1 @ [j]\<rparr>"
  have j: "j \<notin> set (g_del_rels g)" "r_id r = j" using cached_rel(2) [OF g r] False ginvD(5) [OF g r] by (auto simp: rel_true_def)
  have f: "g_db ?h = g_db g" "g_nodes ?h = g_nodes g" "g_rels ?h = (g_rels g)(j := Some (r\<lparr>r_deleted := True\<rparr>))" "adj b ?h = adj b g"
    "g_del_nodes ?h = g_del_nodes g" "g_del_rels ?h = g_del_rels g @ [j]" for b
    using j by (simp_all add: put_rel_def adj_def)
  have "rel_true te (g_db g) k x" if "g_rels ?h k = Some x" for k x
    using that ginvD(5) [OF g, of k] r unfolding f by (auto simp: rel_true_def split: if_splits)
  moreover have "adj_true ?h b k rs" if "adj b ?h k = Some rs" for b k rs
    using that [unfolded f(4)] ginvD(6) [OF g, of b k rs] f by (auto simp: adj_true_def)
  ultimately have "caches_ok te ?h" using ginvD(4) [OF g] unfolding caches_ok_def f by blast
  moreover have "marks_ok ?h" using ginvD(3) [OF g] j(1) unfolding marks_ok_def f by auto
  ultimately have "ginv te ?h" using ginvD(1) [OF g] by (simp only: ginv_def f simp_thms)
  moreover have "abs_graph te ?h = pg_drop_rels {j} (abs_graph te g)"
    by (auto simp: pg_drop_rels_def abs_graph_def abs_rels_def abs_nodes_def fun_eq_iff f simp del: put_simps)
  moreover have "deleteRel j g = Inr ?h" using False r by (simp add: deleteRel_def grel_def Let_def)
  ultimately show ?thesis using f by (intro exI [of _ ?h]) auto
qed

end
