(* ===== verification/GraphEnd.thy ===== *)
theory GraphEnd
  imports GraphWrites
begin

text \<open>
  Deleting nodes, the end of a statement, and the statement as a sequence of steps: what the view shows is what the tables hold
  afterwards, and no relationship is left without its nodes.
\<close>

section \<open>Deleting a node\<close>

lemma live_adj_incident:
  assumes "ginv te g"
  shows "set (live_adj g True i) \<union> set (live_adj g False i) = pg_incident i (abs_graph te g)"
proof -
  have l: "j \<in> set (live_adj g b i) \<longleftrightarrow>
      j \<notin> set (g_del_rels g) \<and> (\<exists>r. map_of (t_edges (g_db g)) j = Some r \<and> (if b then e_start r else e_end r) = i)" for j b
    unfolding row_lookup [OF tables_okD(2) [OF ginvD(1) [OF assms]], symmetric] live_adj_def adj_rows_def
    by (simp add: image_iff case_prod_beta) force
  have "j \<in> set (live_adj g True i) \<union> set (live_adj g False i) \<longleftrightarrow>
      j \<notin> set (g_del_rels g) \<and> (\<exists>r. map_of (t_edges (g_db g)) j = Some r \<and> (e_start r = i \<or> e_end r = i))" for j
    unfolding Un_iff l by (auto simp only: if_True if_False)
  moreover have "j \<in> pg_incident i (abs_graph te g) \<longleftrightarrow>
      j \<notin> set (g_del_rels g) \<and> (\<exists>r. map_of (t_edges (g_db g)) j = Some r \<and> (e_start r = i \<or> e_end r = i))" for j
    by (auto simp: pg_incident_def abs_rels_def)
  ultimately show ?thesis by blast
qed

lemma mark_rels:
  assumes "ginv te g" "\<forall>j \<in> set js. g_rels g j \<noteq> None"
  shows "\<exists>h. foldE deleteRel js g = Inr h \<and> ginv te h \<and> abs_graph te h = pg_drop_rels (set js) (abs_graph te g)
    \<and> g_nodes h = g_nodes g \<and> g_db h = g_db g \<and> g_del_nodes h = g_del_nodes g \<and> set (g_del_rels h) = set js \<union> set (g_del_rels g)"
  using assms
proof (induction js arbitrary: g)
  case Nil
  then show ?case by (auto simp: pg_drop_rels_def)
next
  case (Cons j js)
  obtain r where "g_rels g j = Some r" using Cons.prems(2) by auto
  from mark_rel [OF Cons.prems(1) this] obtain h where h: "deleteRel j g = Inr h" "ginv te h"
    "abs_graph te h = pg_drop_rels {j} (abs_graph te g)" "\<forall>k. g_rels g k \<noteq> None \<longrightarrow> g_rels h k \<noteq> None" "g_nodes h = g_nodes g"
    "g_db h = g_db g" "g_del_nodes h = g_del_nodes g" "set (g_del_rels h) = insert j (set (g_del_rels g))" by blast
  have "\<forall>j \<in> set js. g_rels h j \<noteq> None" using Cons.prems(2) h(4) by simp
  from Cons.IH [OF h(2) this] obtain k where k: "foldE deleteRel js h = Inr k" "ginv te k"
    "abs_graph te k = pg_drop_rels (set js) (abs_graph te h)" "g_nodes k = g_nodes h" "g_db k = g_db h" "g_del_nodes k = g_del_nodes h"
    "set (g_del_rels k) = set js \<union> set (g_del_rels h)" by blast
  have "abs_graph te k = pg_drop_rels (set (j # js)) (abs_graph te g)"
    unfolding k(3) h(3) by (auto simp: pg_drop_rels_def fun_eq_iff)
  then show ?case using h k by (intro exI [of _ k]) auto
qed

lemma mark_node:
  assumes g: "ginv te g" and n: "g_nodes g i = Some n" "\<not> n_deleted n"
  defines "g4 \<equiv> put_node (n\<lparr>n_deleted := True\<rparr>) g"
  defines "h \<equiv> g4\<lparr>g_del_nodes := g_del_nodes g4 @ [i]\<rparr>"
  shows "ginv te h" "abs_graph te h = pg_drop_node i (abs_graph te g)"
proof -
  have i: "i \<notin> set (g_del_nodes g)" "n_id n = i" using cached_node(2) [OF g n(1)] n(2) ginvD(4) [OF g n(1)] by (auto simp: node_true_def)
  have f: "g_db h = g_db g" "g_rels h = g_rels g" "g_nodes h = (g_nodes g)(i := Some (n\<lparr>n_deleted := True\<rparr>))" "adj b h = adj b g"
    "g_del_rels h = g_del_rels g" "g_del_nodes h = g_del_nodes g @ [i]" for b
    using i by (simp_all add: h_def g4_def put_node_def adj_def)
  have "node_true te (g_db g) k x" if "g_nodes h k = Some x" for k x
    using that ginvD(4) [OF g, of k] n unfolding f by (auto simp: node_true_def split: if_splits)
  moreover have "adj_true h b k rs" if "adj b h k = Some rs" for b k rs
    using that [unfolded f(4)] ginvD(6) [OF g, of b k rs] f by (auto simp: adj_true_def)
  ultimately have "caches_ok te h" using ginvD(5) [OF g] unfolding caches_ok_def f by blast
  moreover have "marks_ok h" using ginvD(3) [OF g] i(1) unfolding marks_ok_def f by auto
  ultimately show "ginv te h" using ginvD(1) [OF g] by (simp only: ginv_def f simp_thms)
  show "abs_graph te h = pg_drop_node i (abs_graph te g)"
    by (auto simp: pg_drop_node_def abs_graph_def abs_rels_def abs_nodes_def fun_eq_iff f)
qed

definition pg_delete_node :: "int \<Rightarrow> bool \<Rightarrow> pgraph \<Rightarrow> pgraph" where
  "pg_delete_node i detach G = pg_drop_node i (if detach then pg_drop_rels (pg_incident i G) G else G)"

lemma deleteNode_refines:
  assumes g: "ginv te g" and n: "g_nodes g i = Some n" "\<not> n_deleted n"
  shows "\<exists>h. deleteNode te i detach g = Inr h \<and> ginv te h \<and> abs_graph te h = pg_delete_node i detach (abs_graph te g)"
proof (cases detach)
  case True
  obtain g1 where g1: "liveRels te i True g = Inr (live_adj g True i, g1)" "ginv te g1" "extends g g1"
    "\<forall>j \<in> set (live_adj g True i). g_rels g1 j \<noteq> None" by (rule liveRels_reads [OF g])
  obtain g2 where g2: "liveRels te i False g1 = Inr (live_adj g1 False i, g2)" "ginv te g2" "extends g1 g2"
    "\<forall>j \<in> set (live_adj g1 False i). g_rels g2 j \<noteq> None" by (rule liveRels_reads [OF g1(2)])
  have la: "live_adj g1 False i = live_adj g False i" using g1(3) by (simp add: live_adj_def extends_def)
  let ?js = "live_adj g True i @ live_adj g False i"
  have c: "\<forall>j \<in> set ?js. g_rels g2 j \<noteq> None"
    using g1(4) g2(3,4) extendsD(3) [OF g2(3)] unfolding la by (metis Un_iff not_None_eq set_append)
  obtain g3 where g3: "foldE deleteRel ?js g2 = Inr g3" "ginv te g3" "abs_graph te g3 = pg_drop_rels (set ?js) (abs_graph te g2)"
    "g_nodes g3 = g_nodes g2" using mark_rels [OF g2(2) c] by blast
  have n3: "g_nodes g3 i = Some n" using g3(4) extendsD(2) [OF g2(3)] extendsD(2) [OF g1(3)] n(1) by simp
  have "abs_graph te g2 = abs_graph te g" using abs_reads [OF g1(3)] abs_reads [OF g2(3)] by simp
  then have "abs_graph te g3 = pg_drop_rels (pg_incident i (abs_graph te g)) (abs_graph te g)"
    using g3(3) live_adj_incident [OF g, of i] by simp
  then show ?thesis using mark_node [OF g3(2) n3 n(2)] n g1(1) g2(1) g3(1) True
    by (auto simp: deleteNode_def gnode_def la pg_delete_node_def Let_def)
next
  case False
  then show ?thesis using mark_node [OF g n] n by (auto simp: deleteNode_def gnode_def pg_delete_node_def Let_def)
qed

section \<open>The end of a statement\<close>

text \<open>The property graph the tables hold.\<close>

definition stored_graph :: "tenv \<Rightarrow> tables \<Rightarrow> pgraph" where
  "stored_graph te db = abs_graph te (newGraph db)"

lemma check_free_result:
  assumes g: "ginv te g"
  shows "if pg_incident i (abs_graph te g) = {} then \<exists>h. check_free te i g = Inr h \<and> ginv te h \<and> extends g h
    else check_free te i g = delete_connected"
proof -
  obtain g1 where g1: "liveRels te i True g = Inr (live_adj g True i, g1)" "ginv te g1" "extends g g1"
    by (rule liveRels_reads [OF g])
  obtain g2 where g2: "liveRels te i False g1 = Inr (live_adj g1 False i, g2)" "ginv te g2" "extends g1 g2"
    by (rule liveRels_reads [OF g1(2)])
  have la: "live_adj g1 False i = live_adj g False i" using g1(3) by (simp add: live_adj_def extends_def)
  have "pg_incident i (abs_graph te g) = {} \<longleftrightarrow> live_adj g True i = [] \<and> live_adj g False i = []"
    unfolding live_adj_incident [OF g, symmetric] by auto
  then show ?thesis using g1(1) g2 extends_trans [OF g1(3) g2(3)] by (auto simp: check_free_def la)
qed

definition connected_deleted :: "tenv \<Rightarrow> graph \<Rightarrow> bool" where
  "connected_deleted te g \<longleftrightarrow> (\<exists>i \<in> set (g_del_nodes g). pg_incident i (abs_graph te g) \<noteq> {})"

lemma check_all_free:
  assumes "ginv te g"
  shows "if \<exists>i \<in> set is. pg_incident i (abs_graph te g) \<noteq> {} then foldE (check_free te) is g = delete_connected
    else \<exists>h. foldE (check_free te) is g = Inr h \<and> ginv te h \<and> extends g h"
  using assms
proof (induction "is" arbitrary: g)
  case (Cons i "is")
  show ?case
  proof (cases "pg_incident i (abs_graph te g) = {}")
    case True
    then obtain h where h: "check_free te i g = Inr h" "ginv te h" "extends g h" using check_free_result [OF Cons.prems, of i] by auto
    show ?thesis using Cons.IH [OF h(2)] True h(1) extends_trans [OF h(3)] unfolding abs_reads [OF h(3)]
      by (auto split: if_split_asm)
  next
    case False
    then show ?thesis using check_free_result [OF Cons.prems, of i] by (simp add: delete_connected_def)
  qed
qed simp

text \<open>The two loops of deletions, in closed form.\<close>

definition without :: "int list \<Rightarrow> (int \<times> 'r) list \<Rightarrow> (int \<times> 'r) list" where
  "without is rows = filter (\<lambda>(j, r). j \<notin> set is) rows"

lemma without_Nil [simp]: "without [] rows = rows"
  by (simp add: without_def)

lemma without_Cons: "without is (delete_row i rows) = without (i # is) rows"
  unfolding without_def delete_row_def filter_filter by (intro filter_cong) auto

lemma map_of_without: "map_of (without is rows) j = (if j \<in> set is then None else map_of rows j)"
  by (induction rows) (auto simp: without_def)

lemma in_without: "(j, r) \<in> set (without is rows) \<longleftrightarrow> (j, r) \<in> set rows \<and> j \<notin> set is"
  by (auto simp: without_def)

lemma keys_without: "i \<in> fst ` set (without is rows) \<longleftrightarrow> i \<in> fst ` set rows \<and> i \<notin> set is"
  by (force simp: without_def)

lemma drop_rels_closed:
  "\<exists>c. foldE drop_rel js g = Inr (g\<lparr>g_db := (g_db g)\<lparr>t_edges := without js (t_edges (g_db g))\<rparr>, g_counters := c\<rparr>)"
proof (induction js arbitrary: g)
  case Nil
  show ?case by (intro exI [of _ "g_counters g"]) simp
next
  case (Cons j js)
  obtain c where c: "drop_rel j g = Inr (g\<lparr>g_db := (g_db g)\<lparr>t_edges := delete_row j (t_edges (g_db g))\<rparr>, g_counters := c\<rparr>)"
    by (simp add: drop_rel_def count_def set_db_def Let_def)
  obtain d where "foldE drop_rel js (g\<lparr>g_db := (g_db g)\<lparr>t_edges := delete_row j (t_edges (g_db g))\<rparr>, g_counters := c\<rparr>)
      = Inr (g\<lparr>g_db := (g_db g)\<lparr>t_edges := without js (delete_row j (t_edges (g_db g)))\<rparr>, g_counters := d\<rparr>)"
    using Cons.IH [of "g\<lparr>g_db := (g_db g)\<lparr>t_edges := delete_row j (t_edges (g_db g))\<rparr>, g_counters := c\<rparr>"] by auto
  then show ?case using c by (intro exI [of _ d]) (simp add: without_Cons)
qed

lemma drop_nodes_closed:
  assumes "\<forall>i \<in> set is. \<forall>(j, r) \<in> set (t_edges (g_db g)). e_start r \<noteq> i \<and> e_end r \<noteq> i"
  shows "\<exists>c. foldE drop_node is g = Inr (g\<lparr>g_db := (g_db g)\<lparr>t_nodes := without is (t_nodes (g_db g)), t_labels := without is (t_labels (g_db g))\<rparr>, g_counters := c\<rparr>)"
  using assms
proof (induction "is" arbitrary: g)
  case Nil
  show ?case by (intro exI [of _ "g_counters g"]) simp
next
  case (Cons i "is")
  let ?g = "\<lambda>c. g\<lparr>g_db := (g_db g)\<lparr>t_nodes := delete_row i (t_nodes (g_db g)), t_labels := delete_row i (t_labels (g_db g))\<rparr>, g_counters := c\<rparr>"
  have "\<not> (i \<in> fst ` set (t_nodes (g_db g)) \<and> (\<exists>(j, r) \<in> set (t_edges (g_db g)). e_start r = i \<or> e_end r = i))"
    using Cons.prems by fastforce
  then obtain c where c: "drop_node i g = Inr (?g c)"
    by (simp add: drop_node_def delete_node_row_def count_def set_db_def)
  have "\<forall>i \<in> set is. \<forall>(j, r) \<in> set (t_edges (g_db (?g c))). e_start r \<noteq> i \<and> e_end r \<noteq> i" using Cons.prems by simp
  from Cons.IH [OF this] obtain d where "foldE drop_node is (?g c)
      = Inr (g\<lparr>g_db := (g_db g)\<lparr>t_nodes := without is (delete_row i (t_nodes (g_db g))), t_labels := without is (delete_row i (t_labels (g_db g)))\<rparr>, g_counters := d\<rparr>)"
    by auto
  then show ?case using c by (intro exI [of _ d]) (simp add: without_Cons)
qed

definition final_tables :: "graph \<Rightarrow> tables" where
  "final_tables g = (g_db g)\<lparr>t_nodes := without (g_del_nodes g) (t_nodes (g_db g)), t_labels := without (g_del_nodes g) (t_labels (g_db g)),
     t_edges := without (g_del_rels g) (t_edges (g_db g))\<rparr>"

lemma final_stored: "stored_graph te (final_tables g) = abs_graph te g"
  by (auto simp: stored_graph_def abs_graph_def abs_nodes_def abs_rels_def newGraph_def final_tables_def map_of_without fun_eq_iff)

lemma final_tables_ok:
  assumes g: "ginv te g" and free: "\<not> connected_deleted te g"
  shows "tables_ok te (final_tables g)"
    "\<forall>i \<in> set (g_del_nodes g). \<forall>(j, r) \<in> set (without (g_del_rels g) (t_edges (g_db g))). e_start r \<noteq> i \<and> e_end r \<noteq> i"
proof -
  note t = ginvD(1) [OF g]
  have e: "e_start r \<notin> set (g_del_nodes g)" "e_end r \<notin> set (g_del_nodes g)"
    if "(j, r) \<in> set (without (g_del_rels g) (t_edges (g_db g)))" for j r
  proof -
    obtain ty a b ps where r: "r = (ty, a, b, ps)" by (cases r)
    have "abs_rels te g j = Some (ty, a, b, decoded te ps)"
      using that row_lookup [OF tables_okD(2) [OF t]] by (simp add: in_without abs_rels_def r)
    then have "j \<in> pg_incident a (abs_graph te g)" "j \<in> pg_incident b (abs_graph te g)" by (simp_all add: pg_incident_def)
    then show "e_start r \<notin> set (g_del_nodes g)" "e_end r \<notin> set (g_del_nodes g)" using free by (auto simp: connected_deleted_def r)
  qed
  then show "\<forall>i \<in> set (g_del_nodes g). \<forall>(j, r) \<in> set (without (g_del_rels g) (t_edges (g_db g))). e_start r \<noteq> i \<and> e_end r \<noteq> i" by fast
  have "no_dangling (final_tables g)"
    unfolding no_dangling_def
  proof (clarify)
    fix j r assume jr: "(j, r) \<in> set (t_edges (final_tables g))"
    then have "(j, r) \<in> set (without (g_del_rels g) (t_edges (g_db g)))" by (simp add: final_tables_def)
    from e [OF this] have "e_start r \<notin> set (g_del_nodes g)" "e_end r \<notin> set (g_del_nodes g)" by simp_all
    moreover have "e_start r \<in> fst ` set (t_nodes (g_db g)) \<and> e_end r \<in> fst ` set (t_nodes (g_db g))"
      using tables_okD(4) [OF t] jr unfolding no_dangling_def by (auto simp: final_tables_def in_without simp del: e_start.simps e_end.simps)
    ultimately show "e_start r \<in> fst ` set (t_nodes (final_tables g)) \<and> e_end r \<in> fst ` set (t_nodes (final_tables g))"
      by (simp add: final_tables_def keys_without)
  qed
  moreover have "in_step (final_tables g)"
    using tables_okD(3) [OF t] by (auto simp: in_step_def final_tables_def map_of_without in_without) (simp_all add: without_def)
  moreover have "rows_ok (t_next_node (g_db g)) (without (g_del_nodes g) (t_nodes (g_db g)))"
    "rows_ok (t_next_edge (g_db g)) (without (g_del_rels g) (t_edges (g_db g)))"
    unfolding without_def by (rule rows_ok_filter, rule tables_okD [OF t])+
  ultimately show "tables_ok te (final_tables g)"
    using t unfolding tables_ok_def by (fastforce simp: final_tables_def in_without)
qed

lemma count_db [simp]: "g_db (count f g) = g_db g"
  by (simp add: count_def)

lemma netCounters_db: "g_db (netCounters g) = g_db g"
  by (simp add: netCounters_def count_props_def split: prod.split)

lemma finish_result:
  assumes g: "ginv te g"
  shows "if connected_deleted te g then finish te checks g = delete_connected
    else \<exists>h. finish te checks g = checks h \<and> g_db h = final_tables g"
proof (cases "connected_deleted te g")
  case True
  then show ?thesis using check_all_free [OF g, of "g_del_nodes g"] by (simp add: connected_deleted_def finish_def delete_connected_def)
next
  case False
  then obtain g1 where g1: "foldE (check_free te) (g_del_nodes g) g = Inr g1" "ginv te g1" "extends g g1"
    using check_all_free [OF g, of "g_del_nodes g"] by (auto simp: connected_deleted_def)
  obtain c where c: "foldE drop_rel (g_del_rels g1) g1
      = Inr (g1\<lparr>g_db := (g_db g1)\<lparr>t_edges := without (g_del_rels g1) (t_edges (g_db g1))\<rparr>, g_counters := c\<rparr>)"
    using drop_rels_closed by blast
  let ?g2 = "g1\<lparr>g_db := (g_db g1)\<lparr>t_edges := without (g_del_rels g1) (t_edges (g_db g1))\<rparr>, g_counters := c\<rparr>"
  have x: "g_db g1 = g_db g" "g_del_rels g1 = g_del_rels g" "g_del_nodes g1 = g_del_nodes g" using g1(3) by (simp_all add: extends_def)
  have "\<forall>i \<in> set (g_del_nodes ?g2). \<forall>(j, r) \<in> set (t_edges (g_db ?g2)). e_start r \<noteq> i \<and> e_end r \<noteq> i"
    using final_tables_ok(2) [OF g False] by (simp add: x)
  from drop_nodes_closed [OF this] obtain d where d: "foldE drop_node (g_del_nodes ?g2) ?g2
      = Inr (?g2\<lparr>g_db := (g_db ?g2)\<lparr>t_nodes := without (g_del_nodes ?g2) (t_nodes (g_db ?g2)), t_labels := without (g_del_nodes ?g2) (t_labels (g_db ?g2))\<rparr>, g_counters := d\<rparr>)"
    by blast
  let ?g3 = "?g2\<lparr>g_db := (g_db ?g2)\<lparr>t_nodes := without (g_del_nodes ?g2) (t_nodes (g_db ?g2)), t_labels := without (g_del_nodes ?g2) (t_labels (g_db ?g2))\<rparr>, g_counters := d\<rparr>"
  have "finish te checks g = checks (netCounters ?g3)" using g1(1) c d by (simp add: finish_def)
  moreover have "g_db (netCounters ?g3) = final_tables g" unfolding netCounters_db by (simp add: final_tables_def x)
  ultimately show ?thesis using False by auto
qed

end
