(* ===== verification/GraphSteps.thy ===== *)
theory GraphSteps
  imports GraphEnd
begin

text \<open>
  A statement as a sequence of steps of its view, and the property graph it means: every step of the view is a step of the
  property graph, and the state stays consistent. The simulation is stated once, as a locale.
\<close>

section \<open>Simulation\<close>

locale simulation =
  fixes step :: "'c \<Rightarrow> 'c \<Rightarrow> bool" and inv :: "'c \<Rightarrow> bool" and view :: "'c \<Rightarrow> 'a" and astep :: "'a \<Rightarrow> 'a \<Rightarrow> bool"
  assumes keeps: "inv c \<Longrightarrow> step c d \<Longrightarrow> inv d"
    and simulates: "inv c \<Longrightarrow> step c d \<Longrightarrow> astep (view c) (view d)"
begin

lemma keeps_star: "step\<^sup>*\<^sup>* c d \<Longrightarrow> inv c \<Longrightarrow> inv d"
  by (induction rule: rtranclp_induct) (auto dest: keeps)

lemma simulates_star: "step\<^sup>*\<^sup>* c d \<Longrightarrow> inv c \<Longrightarrow> astep\<^sup>*\<^sup>* (view c) (view d)"
proof (induction rule: rtranclp_induct)
  case (step d e)
  then show ?case using simulates [OF keeps_star [OF step.hyps(1)]] by (meson rtranclp.rtrancl_into_rtrancl)
qed simp

end

section \<open>The steps\<close>

text \<open>
  The interpreter's calls that succeed. Labels come from the parser (not empty, no comma) and the values written are those a
  property can hold and be read back from.
\<close>

inductive gstep :: "tenv \<Rightarrow> graph \<Rightarrow> graph \<Rightarrow> bool" for te where
  scan_nodes: "scanNodes te l hints g = Inr (ids, h) \<Longrightarrow> gstep te g h"
| load_node: "graph_node te i g = Inr h \<Longrightarrow> gstep te g h"
| live_rels: "liveRels te i b g = Inr (ids, h) \<Longrightarrow> gstep te g h"
| all_rels: "allRels te g = Inr (ids, h) \<Longrightarrow> gstep te g h"
| prefetch_adj: "prefetchAdj te is b g = Inr h \<Longrightarrow> gstep te g h"
| prefetch_nodes: "prefetchNodes te is g = Inr h \<Longrightarrow> gstep te g h"
| preload_nodes: "preloadNodes te is g = Inr h \<Longrightarrow> gstep te g h"
| create_node: "\<forall>l \<in> set ls. label_ok l \<Longrightarrow> writable m \<Longrightarrow> createNode ls m g = Inr (i, h) \<Longrightarrow> gstep te g h"
| create_rel: "writable m \<Longrightarrow> createRel ty s t m g = Inr (i, h) \<Longrightarrow> gstep te g h"
| set_node_prop: "valid_utf8 k \<Longrightarrow> is_null v \<or> kept v \<Longrightarrow> setNodeProp i k v g = Inr h \<Longrightarrow> gstep te g h"
| set_rel_prop: "valid_utf8 k \<Longrightarrow> is_null v \<or> kept v \<Longrightarrow> setRelProp i k v g = Inr h \<Longrightarrow> gstep te g h"
| add_labels: "\<forall>l \<in> set ls. label_ok l \<Longrightarrow> addLabels i ls g = Inr h \<Longrightarrow> gstep te g h"
| remove_labels: "removeLabels i ls g = Inr h \<Longrightarrow> gstep te g h"
| delete_rel: "deleteRel j g = Inr h \<Longrightarrow> gstep te g h"
| delete_node: "deleteNode te i detach g = Inr h \<Longrightarrow> gstep te g h"

text \<open>The steps of the property graph; a relationship may be made between nodes already deleted, and the statement then fails at its end.\<close>

inductive pstep :: "pgraph \<Rightarrow> pgraph \<Rightarrow> bool" where
  read: "pstep G G"
| new_node: "pg_nodes G i = None \<Longrightarrow> distinct ls \<Longrightarrow> pstep G (G\<lparr>pg_nodes := (pg_nodes G)(i := Some (ls, m))\<rparr>)"
| new_rel: "pg_rels G j = None \<Longrightarrow> pstep G (G\<lparr>pg_rels := (pg_rels G)(j := Some (ty, s, t, m))\<rparr>)"
| node_prop: "pg_nodes G i \<noteq> None \<Longrightarrow> pstep G (pg_node_prop i k v G)"
| rel_prop: "pg_rels G j \<noteq> None \<Longrightarrow> pstep G (pg_rel_prop j k v G)"
| more_labels: "pg_nodes G i \<noteq> None \<Longrightarrow> pstep G (pg_labels i (\<lambda>ls. foldl (\<lambda>acc l. add_label l acc) ls new) G)"
| less_labels: "pg_nodes G i \<noteq> None \<Longrightarrow> pstep G (pg_labels i (\<lambda>ls. foldl (\<lambda>acc l. remove1 l acc) ls old) G)"
| no_rel: "pstep G (pg_drop_rels {j} G)"
| no_node: "pg_nodes G i \<noteq> None \<Longrightarrow> pstep G (pg_delete_node i detach G)"

text \<open>Success of a call names the cached entity it works on.\<close>

lemma gnode_Inr [result_simps]: "gnode g i = Inr n \<longleftrightarrow> g_nodes g i = Some n"
  by (simp add: gnode_def split: option.split)

lemma grel_Inr [result_simps]: "grel g i = Inr r \<longleftrightarrow> g_rels g i = Some r"
  by (simp add: grel_def split: option.split)

lemma no_access [simp]: "deletedAccess \<noteq> Inr x"
  by (simp add: deletedAccess_def)

lemma live_in_view: "ginv te g \<Longrightarrow> g_nodes g i = Some n \<Longrightarrow> \<not> n_deleted n \<Longrightarrow> abs_nodes te g i \<noteq> None"
  by (simp add: cached_node)

lemma live_rel_in_view: "ginv te g \<Longrightarrow> g_rels g i = Some n \<Longrightarrow> \<not> r_deleted n \<Longrightarrow> abs_rels te g i \<noteq> None"
  by (simp add: cached_rel)

lemma set_prop_on:
  "setNodeProp i k v g = Inr h \<Longrightarrow> \<exists>n. g_nodes g i = Some n \<and> \<not> n_deleted n \<and> (is_null v \<or> checkPropValue v = Inr ())"
  "setRelProp i k v g = Inr h \<Longrightarrow> \<exists>r. g_rels g i = Some r \<and> \<not> r_deleted r \<and> (is_null v \<or> checkPropValue v = Inr ())"
  by (auto simp: setNodeProp_def setRelProp_def result_simps split: if_splits)

lemma labels_on:
  "addLabels i ls g = Inr h \<Longrightarrow> \<exists>n. g_nodes g i = Some n \<and> \<not> n_deleted n"
  "removeLabels i ls g = Inr h \<Longrightarrow> \<exists>n. g_nodes g i = Some n \<and> \<not> n_deleted n"
  by (auto simp: addLabels_def removeLabels_def result_simps split: if_splits)

lemma deleted_on:
  "deleteRel j g = Inr h \<Longrightarrow> \<exists>r. g_rels g j = Some r"
  "deleteNode te i detach g = Inr h \<Longrightarrow> \<exists>n. g_nodes g i = Some n \<and> (n_deleted n \<longrightarrow> h = g)"
  by (auto simp: deleteRel_def deleteNode_def result_simps split: if_splits)

lemma created_node:
  "createNode ls props g = Inr (i, h) \<Longrightarrow> \<exists>m. cleanProps props = Inr m \<and> t_next_node (g_db g) \<le> maxInt64"
  by (auto simp: createNode_def insert_node_def db_full_def result_simps Let_def split: if_splits)

lemma created_rel:
  assumes "createRel ty s t props g = Inr (i, h)"
  shows "\<exists>m. cleanProps props = Inr m \<and> t_next_edge (g_db g) \<le> maxInt64
    \<and> s \<in> fst ` set (t_nodes (g_db g)) \<and> t \<in> fst ` set (t_nodes (g_db g))"
  using assms by (auto simp: createRel_def insert_edge_def db_full_def foreign_key_def result_simps Let_def split: if_splits)

text \<open>Every step keeps the invariant and is a step of the property graph.\<close>

lemma step_read: "ginv te h \<Longrightarrow> extends g h \<Longrightarrow> ginv te h \<and> pstep (abs_graph te g) (abs_graph te h)"
  using abs_reads [of g h te] pstep.read by simp

lemma gstep_refines:
  assumes "gstep te g h" and g: "ginv te g"
  shows "ginv te h \<and> pstep (abs_graph te g) (abs_graph te h)"
  using assms(1)
proof (cases rule: gstep.cases)
  case (scan_nodes l hints ids)
  then show ?thesis using scanNodes_reads [OF g, of l hints] step_read [of te h g] by fastforce
next
  case (load_node i)
  then show ?thesis
  proof (cases "i \<in> fst ` set (t_nodes (g_db g))")
    case True
    from graph_node_reads [OF g this] load_node show ?thesis using step_read [of te h g] by fastforce
  next
    case False
    then have "map_of (t_nodes (g_db g)) i = None" by (simp add: map_of_eq_None_iff)
    then have "h = g" using load_node by (auto simp: graph_node_def no_rows_def split: option.splits)
    then show ?thesis using g step_read [of te h g] by simp
  qed
next
  case (live_rels i b ids)
  then show ?thesis using liveRels_reads [OF g, of i b] step_read [of te h g] by fastforce
next
  case (all_rels ids)
  then show ?thesis using allRels_reads [OF g] step_read [of te h g] by fastforce
next
  case (prefetch_adj ks b)
  then show ?thesis using prefetchAdj_reads [OF g, of ks b] step_read [of te h g] by fastforce
next
  case (prefetch_nodes ks)
  then show ?thesis using prefetchNodes_reads [OF g, of ks] step_read [of te h g] by fastforce
next
  case (preload_nodes ks)
  then show ?thesis using preloadNodes_reads [OF g, of ks] step_read [of te h g] by fastforce
next
  case (create_node ls props i)
  from created_node [OF create_node(3)] obtain m where m: "cleanProps props = Inr m" "t_next_node (g_db g) \<le> maxInt64" by blast
  from createNode_refines [OF g create_node(1,2) m] create_node(3) show ?thesis
    using pstep.new_node [of "abs_graph te g" "t_next_node (g_db g)" "dedupe ls" m] by auto
next
  case (create_rel props ty s t i)
  from created_rel [OF create_rel(2)] obtain m where m: "cleanProps props = Inr m" "t_next_edge (g_db g) \<le> maxInt64"
    and e: "s \<in> fst ` set (t_nodes (g_db g))" "t \<in> fst ` set (t_nodes (g_db g))" by blast
  from createRel_refines [OF g e create_rel(1) m, of ty] create_rel(2) show ?thesis
    using pstep.new_rel [of "abs_graph te g" "t_next_edge (g_db g)" ty s t m] by auto
next
  case (set_node_prop k v i)
  from set_prop_on(1) [OF set_node_prop(3)] obtain n where n: "g_nodes g i = Some n" "\<not> n_deleted n" and c: "is_null v \<or> checkPropValue v = Inr ()" by blast
  have "is_null v \<or> kept v \<and> checkPropValue v = Inr ()" using set_node_prop(2) c by blast
  from setNodeProp_refines [OF g n set_node_prop(1) this] set_node_prop(3) show ?thesis
    using pstep.node_prop [of "abs_graph te g" i k v] live_in_view [OF g n] by simp
next
  case (set_rel_prop k v i)
  from set_prop_on(2) [OF set_rel_prop(3)] obtain n where n: "g_rels g i = Some n" "\<not> r_deleted n" and c: "is_null v \<or> checkPropValue v = Inr ()" by blast
  have "is_null v \<or> kept v \<and> checkPropValue v = Inr ()" using set_rel_prop(2) c by blast
  from setRelProp_refines [OF g n set_rel_prop(1) this] set_rel_prop(3) show ?thesis
    using pstep.rel_prop [of "abs_graph te g" i k v] live_rel_in_view [OF g n] by simp
next
  case (add_labels ls i)
  from labels_on(1) [OF add_labels(2)] obtain n where n: "g_nodes g i = Some n" "\<not> n_deleted n" by blast
  from addLabels_refines [OF g n add_labels(1)] add_labels(2) show ?thesis
    using pstep.more_labels [of "abs_graph te g" i ls] live_in_view [OF g n] by simp
next
  case (remove_labels i ls)
  from labels_on(2) [OF remove_labels] obtain n where n: "g_nodes g i = Some n" "\<not> n_deleted n" by blast
  from removeLabels_refines [OF g n, of ls] remove_labels show ?thesis
    using pstep.less_labels [of "abs_graph te g" i ls] live_in_view [OF g n] by simp
next
  case (delete_rel j)
  from deleted_on(1) [OF delete_rel] obtain r where r: "g_rels g j = Some r" by blast
  from mark_rel [OF g r] delete_rel show ?thesis using pstep.no_rel [of "abs_graph te g" j] by auto
next
  case (delete_node i detach)
  from deleted_on(2) [OF delete_node] obtain n where n: "g_nodes g i = Some n" and d: "n_deleted n \<longrightarrow> h = g" by blast
  show ?thesis
  proof (cases "n_deleted n")
    case True
    then show ?thesis using d g step_read [of te h g] by simp
  next
    case False
    from deleteNode_refines [OF g n False, of detach] delete_node show ?thesis
      using pstep.no_node [of "abs_graph te g" i detach] live_in_view [OF g n False] by auto
  qed
qed

interpretation statement: simulation "gstep te" "ginv te" "abs_graph te" pstep for te
  by unfold_locales (simp_all add: gstep_refines)

section \<open>Whole statements\<close>

definition reachable :: "tenv \<Rightarrow> tables \<Rightarrow> graph \<Rightarrow> bool" where
  "reachable te db g \<longleftrightarrow> (gstep te)\<^sup>*\<^sup>* (newGraph db) g"

lemma reachable_inv: "tables_ok te db \<Longrightarrow> reachable te db g \<Longrightarrow> ginv te g"
  unfolding reachable_def using statement.keeps_star newGraph_inv by blast

lemma reachable_view: "tables_ok te db \<Longrightarrow> reachable te db g \<Longrightarrow> pstep\<^sup>*\<^sup>* (stored_graph te db) (abs_graph te g)"
  unfolding reachable_def stored_graph_def using statement.simulates_star newGraph_inv by blast

lemma statement_result:
  assumes "tables_ok te db" "reachable te db g"
  shows "if connected_deleted te g then finish te checks g = delete_connected
    else \<exists>h. finish te checks g = checks h \<and> tables_ok te (g_db h) \<and> stored_graph te (g_db h) = abs_graph te g"
proof (cases "connected_deleted te g")
  case True
  then show ?thesis using finish_result [OF reachable_inv [OF assms]] by simp
next
  case False
  then obtain h where "finish te checks g = checks h" "g_db h = final_tables g"
    using finish_result [OF reachable_inv [OF assms]] by auto
  then show ?thesis using False final_tables_ok(1) [OF reachable_inv [OF assms] False] final_stored [of te g] by auto
qed

end
