(* ===== verification/HitHeap.thy ===== *)
theory HitHeap
  imports Prelude "HOL-Library.Multiset"
begin

text \<open>
  The k best of a stream of candidates, as cypher/vector/matrix.go keeps them in a \<open>container/heap\<close>: the heap of the
  Go library on a list, and the contract that what it holds is the k best seen so far, whatever way the candidates are
  split between workers.
\<close>

section \<open>The heap of the library\<close>

definition swap :: "nat \<Rightarrow> nat \<Rightarrow> 'a list \<Rightarrow> 'a list" where
  "swap i j xs = xs[i := xs ! j, j := xs ! i]"

abbreviation parent :: "nat \<Rightarrow> nat" where "parent i \<equiv> (i - 1) div 2"

function heap_up :: "('a \<Rightarrow> 'a \<Rightarrow> bool) \<Rightarrow> nat \<Rightarrow> 'a list \<Rightarrow> 'a list" where
  "heap_up lt j xs =
    (if parent j = j \<or> \<not> lt (xs ! j) (xs ! parent j) then xs else heap_up lt (parent j) (swap (parent j) j xs))"
  by pat_completeness auto
termination by (relation "measure (\<lambda>(lt, j, xs). j)") auto

text \<open>Down returns where the element stopped.\<close>

function heap_down :: "('a \<Rightarrow> 'a \<Rightarrow> bool) \<Rightarrow> nat \<Rightarrow> 'a list \<Rightarrow> nat \<times> 'a list" where
  "heap_down lt i xs =
    (if length xs \<le> 2 * i + 1 then (i, xs)
     else let j = (if 2 * i + 2 < length xs \<and> lt (xs ! (2 * i + 2)) (xs ! (2 * i + 1)) then 2 * i + 2 else 2 * i + 1) in
       if \<not> lt (xs ! j) (xs ! i) then (i, xs) else heap_down lt j (swap i j xs))"
  by pat_completeness auto
termination by (relation "measure (\<lambda>(lt, i, xs). length xs - i)") (auto simp: swap_def Let_def split: if_splits)

declare heap_up.simps [simp del] heap_down.simps [simp del]

definition heap_push :: "('a \<Rightarrow> 'a \<Rightarrow> bool) \<Rightarrow> 'a \<Rightarrow> 'a list \<Rightarrow> 'a list" where
  "heap_push lt x xs = heap_up lt (length xs) (xs @ [x])"

definition heap_fix :: "('a \<Rightarrow> 'a \<Rightarrow> bool) \<Rightarrow> nat \<Rightarrow> 'a list \<Rightarrow> 'a list" where
  "heap_fix lt i xs = (case heap_down lt i xs of (j, ys) \<Rightarrow> if i < j then ys else heap_up lt i ys)"

definition offer :: "('a \<Rightarrow> 'a \<Rightarrow> bool) \<Rightarrow> nat \<Rightarrow> 'a \<Rightarrow> 'a list \<Rightarrow> 'a list" where
  "offer lt k x xs = (if length xs < k then heap_push lt x xs
     else if lt (xs ! 0) x then heap_fix lt 0 (xs[0 := x]) else xs)"

text \<open>\<open>sort.Slice\<close>, up to the order of elements the comparison does not tell apart.\<close>

fun insert_by :: "('a \<Rightarrow> 'a \<Rightarrow> bool) \<Rightarrow> 'a \<Rightarrow> 'a list \<Rightarrow> 'a list" where
  "insert_by lt x [] = [x]"
| "insert_by lt x (y # ys) = (if lt y x then y # insert_by lt x ys else x # y # ys)"

definition sort_by :: "('a \<Rightarrow> 'a \<Rightarrow> bool) \<Rightarrow> 'a list \<Rightarrow> 'a list" where
  "sort_by lt xs = foldr (insert_by lt) xs []"

lemma swap_length [simp]: "length (swap i j xs) = length xs"
  by (simp add: swap_def)

lemma swap_mset [simp]: "i < length xs \<Longrightarrow> j < length xs \<Longrightarrow> mset (swap i j xs) = mset xs"
  unfolding swap_def using mset_swap [of j xs i] by simp

lemma swap_set [simp]: "i < length xs \<Longrightarrow> j < length xs \<Longrightarrow> set (swap i j xs) = set xs"
  using swap_mset [of i xs j] by (metis set_mset_mset)

lemma swap_nth: "i < length xs \<Longrightarrow> j < length xs \<Longrightarrow> l < length xs
  \<Longrightarrow> swap i j xs ! l = (if l = j then xs ! i else if l = i then xs ! j else xs ! l)"
  by (simp add: swap_def nth_list_update)

lemma parent_le: "parent i \<le> i" by simp

lemma child_cases: "0 < c \<Longrightarrow> parent c = i \<Longrightarrow> c = 2 * i + 1 \<or> c = 2 * i + 2"
  by arith

lemma insert_by_mset [simp]: "mset (insert_by l x xs) = add_mset x (mset xs)"
  by (induction xs) auto

lemma sort_by_mset [simp]: "mset (sort_by l xs) = mset xs"
  by (induction xs) (auto simp: sort_by_def)

lemma sort_by_set [simp]: "set (sort_by l xs) = set xs"
  using sort_by_mset [of l xs] by (metis set_mset_mset)

section \<open>The contract\<close>

text \<open>
  The comparison is the order of a key on the candidates that have one: scores that are not numbers have none.
\<close>

locale ranked =
  fixes lt :: "'a \<Rightarrow> 'a \<Rightarrow> bool" and key :: "'a \<Rightarrow> 'k::linorder" and good :: "'a \<Rightarrow> bool"
  assumes less_key: "good a \<Longrightarrow> good b \<Longrightarrow> lt a b \<longleftrightarrow> key a < key b"
begin

definition is_heap :: "'a list \<Rightarrow> bool" where
  "is_heap xs \<longleftrightarrow> (\<forall>i. 0 < i \<and> i < length xs \<longrightarrow> key (xs ! parent i) \<le> key (xs ! i))"

lemma root_least:
  assumes "is_heap xs" "i < length xs"
  shows "key (xs ! 0) \<le> key (xs ! i)"
  using assms(2)
proof (induction i rule: less_induct)
  case (less i)
  show ?case
  proof (cases "i = 0")
    case False
    then have p: "parent i < i" by simp
    moreover have "parent i < length xs" using less.prems p by simp
    ultimately have "key (xs ! 0) \<le> key (xs ! parent i)" by (rule less.IH)
    also have "\<dots> \<le> key (xs ! i)" using assms(1) False less.prems by (simp add: is_heap_def)
    finally show ?thesis .
  qed simp
qed

text \<open>The order holds but between j and its parent, and across j.\<close>

definition up_ok :: "nat \<Rightarrow> 'a list \<Rightarrow> bool" where
  "up_ok j xs \<longleftrightarrow> (\<forall>i. 0 < i \<and> i < length xs \<and> i \<noteq> j \<longrightarrow> key (xs ! parent i) \<le> key (xs ! i))
     \<and> (\<forall>i. 0 < i \<and> i < length xs \<and> parent i = j \<and> 0 < j \<longrightarrow> key (xs ! parent j) \<le> key (xs ! i))"

lemma up_step:
  assumes ok: "up_ok j xs" and j: "j < length xs" "0 < j" "p = parent j" "key (xs ! j) < key (xs ! p)"
  shows "up_ok p (swap p j xs)"
proof -
  have p: "p < j" "p < length xs" using j by auto
  have n: "swap p j xs ! l = (if l = j then xs ! p else if l = p then xs ! j else xs ! l)" if "l < length xs" for l
    using swap_nth [OF p(2) j(1) that] .
  have a: "key (xs ! parent i) \<le> key (xs ! i)" if "0 < i" "i < length xs" "i \<noteq> j" for i
    using ok that by (simp add: up_ok_def)
  have b: "key (xs ! p) \<le> key (xs ! i)" if "0 < i" "i < length xs" "parent i = j" for i
    using ok j(2,3) that by (simp add: up_ok_def)
  have "key (swap p j xs ! q) \<le> key (swap p j xs ! i)"
    if i: "0 < i" "i < length xs" "i \<noteq> p" "q = parent i" for i q
  proof (cases "i = j")
    case True
    then have "q = p" using i(4) j(3) by simp
    then show ?thesis using True less_imp_le [OF j(4)] p by (simp add: n [OF p(2)] n [OF j(1)])
  next
    case False
    have q: "q < length xs" using i by auto
    have "key (xs ! q) \<le> key (xs ! i)" "q = j \<Longrightarrow> key (xs ! p) \<le> key (xs ! i)" using a [OF i(1,2) False] b [OF i(1,2)] i(4) by simp_all
    moreover have "key (xs ! j) \<le> key (xs ! i)" if "q = p" using calculation(1) that j(4) by simp
    ultimately show ?thesis using i(3) False by (simp add: n [OF q] n [OF i(2)])
  qed
  moreover have "key (swap p j xs ! q) \<le> key (swap p j xs ! i)"
    if i: "0 < i" "i < length xs" "parent i = p" "0 < p" "q = parent p" for i q
  proof -
    have q: "q < p" "q < length xs" using p i(4,5) by auto
    have "key (xs ! q) \<le> key (xs ! p)" using a [OF i(4) p(2)] p(1) i(5) by simp
    moreover have "key (xs ! p) \<le> key (xs ! i)" if "i \<noteq> j" using a [OF i(1,2) that] i(3) by simp
    moreover have "i \<noteq> p" using i by auto
    ultimately show ?thesis using q p by (auto simp: n [OF q(2)] n [OF i(2)] intro: order_trans)
  qed
  ultimately show ?thesis unfolding up_ok_def by simp
qed

lemma up_heap:
  assumes "up_ok j xs" "j < length xs" "\<forall>x \<in> set xs. good x"
  shows "is_heap (heap_up lt j xs) \<and> mset (heap_up lt j xs) = mset xs"
  using assms
proof (induction j arbitrary: xs rule: less_induct)
  case (less j)
  have p: "parent j < length xs" using less.prems(2) by simp
  have l: "lt (xs ! j) (xs ! parent j) \<longleftrightarrow> key (xs ! j) < key (xs ! parent j)"
    using less.prems(2,3) p by (simp add: less_key)
  show ?case
  proof (cases "j = 0 \<or> \<not> lt (xs ! j) (xs ! parent j)")
    case True
    then have "heap_up lt j xs = xs" by (subst heap_up.simps) auto
    moreover have "is_heap xs" using less.prems(1) True l unfolding is_heap_def up_ok_def by (metis leI not_gr_zero)
    ultimately show ?thesis by simp
  next
    case False
    then have "0 < j" by simp
    then have j: "0 < j" "parent j < j" by simp_all
    have "heap_up lt j xs = heap_up lt (parent j) (swap (parent j) j xs)" using False j by (subst heap_up.simps) auto
    moreover have "up_ok (parent j) (swap (parent j) j xs)" using up_step [OF less.prems(1,2) j(1) refl] False l by simp
    ultimately show ?thesis using less.IH [OF j(2), of "swap (parent j) j xs"] less.prems p by simp
  qed
qed

text \<open>The order holds but between i and its children, and across i.\<close>

definition down_ok :: "nat \<Rightarrow> 'a list \<Rightarrow> bool" where
  "down_ok i xs \<longleftrightarrow> (\<forall>c. 0 < c \<and> c < length xs \<and> parent c \<noteq> i \<longrightarrow> key (xs ! parent c) \<le> key (xs ! c))
     \<and> (\<forall>c. 0 < c \<and> c < length xs \<and> parent c = i \<and> 0 < i \<longrightarrow> key (xs ! parent i) \<le> key (xs ! c))"

lemma down_step:
  assumes ok: "down_ok i xs" and j: "j < length xs" "0 < j" "parent j = i" "key (xs ! j) < key (xs ! i)"
    and least: "\<forall>c. 0 < c \<and> c < length xs \<and> parent c = i \<longrightarrow> key (xs ! j) \<le> key (xs ! c)"
  shows "down_ok j (swap i j xs)"
proof -
  have p: "i < j" "i < length xs" using j by auto
  have n: "swap i j xs ! l = (if l = j then xs ! i else if l = i then xs ! j else xs ! l)" if "l < length xs" for l
    using swap_nth [OF p(2) j(1) that] .
  have a: "key (xs ! parent c) \<le> key (xs ! c)" if "0 < c" "c < length xs" "parent c \<noteq> i" for c
    using ok that by (simp add: down_ok_def)
  have b: "key (xs ! parent i) \<le> key (xs ! c)" if "0 < c" "c < length xs" "parent c = i" "0 < i" for c
    using ok that by (simp add: down_ok_def)
  have "key (swap i j xs ! parent c) \<le> key (swap i j xs ! c)" if c: "0 < c" "c < length xs" "parent c \<noteq> j" for c
  proof -
    have pc: "parent c < length xs" "parent c < c" using c by auto
    consider "c = j" | "c = i" "c \<noteq> j" | "parent c = i" "c \<noteq> j" "c \<noteq> i" | "parent c \<noteq> i" "c \<noteq> j" "c \<noteq> i" by blast
    then show ?thesis
    proof cases
      case 1
      then show ?thesis using j p by (simp add: n)
    next
      case 2
      then have "key (xs ! parent i) \<le> key (xs ! j)" using b [OF j(2,1,3)] c(1) by simp
      then show ?thesis using 2 pc c by (simp add: n)
    next
      case 3
      then show ?thesis using least c pc by (simp add: n)
    next
      case 4
      then show ?thesis using a [OF c(1,2)] c pc by (simp add: n)
    qed
  qed
  moreover have "key (swap i j xs ! parent j) \<le> key (swap i j xs ! c)" if c: "0 < c" "c < length xs" "parent c = j" for c
  proof -
    have "parent c \<noteq> i" "c \<noteq> j" "c \<noteq> i" using c p by auto
    then show ?thesis using a [OF c(1,2)] c j p by (simp add: n)
  qed
  ultimately show ?thesis by (simp add: down_ok_def)
qed

lemma down_heap:
  assumes "down_ok i xs" "i < length xs" "\<forall>x \<in> set xs. good x"
  shows "\<exists>j ys. heap_down lt i xs = (j, ys) \<and> i \<le> j \<and> (i = j \<longrightarrow> ys = xs) \<and> is_heap ys \<and> mset ys = mset xs"
  using assms
proof (induction "length xs - i" arbitrary: i xs rule: less_induct)
  case less
  define j where "j = (if 2 * i + 2 < length xs \<and> lt (xs ! (2 * i + 2)) (xs ! (2 * i + 1)) then 2 * i + 2 else 2 * i + 1)"
  have l: "lt (xs ! a) (xs ! b) \<longleftrightarrow> key (xs ! a) < key (xs ! b)" if "a < length xs" "b < length xs" for a b
    using less.prems(3) that by (simp add: less_key)
  have heap: "is_heap xs" if "\<And>c. 0 < c \<Longrightarrow> c < length xs \<Longrightarrow> parent c = i \<Longrightarrow> key (xs ! i) \<le> key (xs ! c)"
    using less.prems(1) that unfolding is_heap_def down_ok_def by metis
  show ?case
  proof (cases "length xs \<le> 2 * i + 1")
    case True
    then have "is_heap xs" using heap by fastforce
    moreover have "heap_down lt i xs = (i, xs)" using True by (subst heap_down.simps) simp
    ultimately show ?thesis by simp
  next
    case False
    have j: "j < length xs" "0 < j" "parent j = i" "i < j" using False by (auto simp: j_def)
    have least: "\<forall>c. 0 < c \<and> c < length xs \<and> parent c = i \<longrightarrow> key (xs ! j) \<le> key (xs ! c)"
    proof (intro allI impI)
      fix c assume c: "0 < c \<and> c < length xs \<and> parent c = i"
      then have "c = 2 * i + 1 \<or> c = 2 * i + 2" using child_cases by blast
      then show "key (xs ! j) \<le> key (xs ! c)" using c False l [of "2 * i + 2" "2 * i + 1"] by (auto simp: j_def)
    qed
    show ?thesis
    proof (cases "lt (xs ! j) (xs ! i)")
      case True
      have e: "heap_down lt i xs = heap_down lt j (swap i j xs)" using False True by (subst heap_down.simps) (simp add: j_def Let_def)
      have d: "down_ok j (swap i j xs)" using down_step [OF less.prems(1) j(1-3) _ least] True l [OF j(1) less.prems(2)] by simp
      obtain m ys where "heap_down lt j (swap i j xs) = (m, ys)" "j \<le> m" "is_heap ys" "mset ys = mset (swap i j xs)"
        using less.hyps [of "swap i j xs" j] d j(1,4) less.prems(2,3) diff_less_mono2 [OF j(4) less.prems(2)] by (simp del: One_nat_def) blast
      then show ?thesis using e j(1,4) less.prems(2) by auto
    next
      case stop: False
      then have "key (xs ! i) \<le> key (xs ! j)" using l [OF j(1) less.prems(2)] by simp
      then have "is_heap xs" using heap least by (meson order_trans)
      moreover have "heap_down lt i xs = (i, xs)" using False stop by (subst heap_down.simps) (simp add: j_def Let_def)
      ultimately show ?thesis by simp
    qed
  qed
qed

lemma heap_snoc:
  assumes "is_heap xs"
  shows "up_ok (length xs) (xs @ [x])"
proof -
  have n: "parent i < length xs" "i < length xs" if "i < Suc (length xs)" "i \<noteq> length xs" "0 < i" for i
    using that by auto
  have "\<not> (0 < i \<and> i < Suc (length xs) \<and> parent i = length xs \<and> 0 < length xs)" for i by auto
  then show ?thesis using assms n unfolding up_ok_def is_heap_def by (auto simp: nth_append)
qed

lemma push_heap:
  assumes "is_heap xs" "\<forall>y \<in> set (x # xs). good y"
  shows "is_heap (heap_push lt x xs) \<and> mset (heap_push lt x xs) = add_mset x (mset xs)"
  using up_heap [OF heap_snoc [OF assms(1)], of x] assms(2) by (auto simp: heap_push_def)

lemma replace_root: "is_heap xs \<Longrightarrow> down_ok 0 (xs[0 := x])"
  by (auto simp: down_ok_def is_heap_def nth_list_update)

lemma fix_heap:
  assumes "is_heap xs" "xs \<noteq> []" "\<forall>y \<in> set (x # xs). good y"
  shows "is_heap (heap_fix lt 0 (xs[0 := x])) \<and> mset (heap_fix lt 0 (xs[0 := x])) = add_mset x (mset xs - {#xs ! 0#})"
proof -
  have g: "\<forall>y \<in> set (xs[0 := x]). good y" using assms(3) set_update_subset_insert [of xs 0 x] by auto
  obtain j ys where d: "heap_down lt 0 (xs[0 := x]) = (j, ys)" "is_heap ys" "mset ys = mset (xs[0 := x])"
    using down_heap [OF replace_root [OF assms(1)] _ g] assms(2) by auto
  have "heap_up lt 0 ys = ys" by (subst heap_up.simps) simp
  then have "heap_fix lt 0 (xs[0 := x]) = ys" using d(1) by (simp add: heap_fix_def)
  then show ?thesis using d(2,3) assms(2) by (simp add: mset_update)
qed

text \<open>The k best of some candidates: no candidate left out is better than one kept.\<close>

definition best :: "nat \<Rightarrow> 'a multiset \<Rightarrow> 'a multiset \<Rightarrow> bool" where
  "best k T M \<longleftrightarrow> size T = min k (size M) \<and> (\<exists>R. M = T + R \<and> (\<forall>t \<in># T. \<forall>r \<in># R. key r \<le> key t))"

lemma best_empty [simp]: "best k {#} {#}"
  by (simp add: best_def)

lemma best_self: "size M \<le> k \<Longrightarrow> best k M M"
  by (auto simp: best_def intro: exI [of _ "{#}"])

lemma best_short:
  assumes "best k T M" "size T < k"
  shows "T = M"
proof -
  obtain R where R: "M = T + R" "size T = min k (size T + size R)" using assms(1) unfolding best_def by (metis size_union)
  then have "size R = 0" using assms(2) by linarith
  then show ?thesis using R(1) by simp
qed

lemma best_subset: "best k T M \<Longrightarrow> t \<in># T \<Longrightarrow> t \<in># M"
  by (auto simp: best_def)

lemma best_replace:
  assumes b: "best k T M" and full: "size T = k" and t: "t \<in># T" "\<forall>u \<in># T. key t \<le> key u" "key t < key x"
  shows "best k (add_mset x (T - {#t#})) (add_mset x M)"
proof -
  obtain R where R: "M = T + R" "\<forall>t \<in># T. \<forall>r \<in># R. key r \<le> key t" using b by (auto simp: best_def)
  obtain U where U: "T = add_mset t U" using t(1) by (metis insert_DiffM)
  have "key r \<le> key u" if "u \<in># add_mset x U" "r \<in># add_mset t R" for u r
  proof -
    have "key t \<le> key u" using that(1) t(2,3) U by auto
    moreover have "key r \<le> key t" using that(2) R(2) t(1) by auto
    ultimately show ?thesis by simp
  qed
  then show ?thesis using full U R(1) unfolding best_def by (intro conjI exI [of _ "add_mset t R"]) auto
qed

lemma best_keep:
  assumes b: "best k T M" and full: "size T = k" and t: "\<forall>u \<in># T. key x \<le> key u"
  shows "best k T (add_mset x M)"
proof -
  obtain R where R: "M = T + R" "\<forall>t \<in># T. \<forall>r \<in># R. key r \<le> key t" using b by (auto simp: best_def)
  then show ?thesis using full t unfolding best_def by (intro conjI exI [of _ "add_mset x R"]) auto
qed

lemma offer_best:
  assumes "is_heap xs" "best k (mset xs) M" "0 < k" "\<forall>y \<in># add_mset x M. good y"
  shows "is_heap (offer lt k x xs) \<and> best k (mset (offer lt k x xs)) (add_mset x M)"
proof -
  have len: "length xs = min k (size M)" using assms(2) by (simp add: best_def)
  have g: "\<forall>y \<in> set (x # xs). good y" using assms(4) best_subset [OF assms(2)] by auto
  show ?thesis
  proof (cases "length xs < k")
    case True
    then have M: "M = mset xs" using best_short [OF assms(2)] by simp
    show ?thesis using push_heap [OF assms(1) g] True best_self [of "add_mset x (mset xs)" k] by (simp add: offer_def M)
  next
    case False
    then have full: "size (mset xs) = k" and ne: "xs \<noteq> []" using len assms(3) by auto
    have root: "xs ! 0 \<in># mset xs" "\<forall>u \<in># mset xs. key (xs ! 0) \<le> key u"
      using ne root_least [OF assms(1)] by (auto simp: in_set_conv_nth)
    have l: "lt (xs ! 0) x \<longleftrightarrow> key (xs ! 0) < key x" using g root(1) by (simp add: less_key)
    show ?thesis
    proof (cases "lt (xs ! 0) x")
      case True
      then show ?thesis using False l fix_heap [OF assms(1) ne g] best_replace [OF assms(2) full root] by (simp add: offer_def)
    next
      case stop: False
      then have "\<forall>u \<in># mset xs. key x \<le> key u" using l root(2) by (meson leI order_trans)
      then show ?thesis using False stop assms(1) best_keep [OF assms(2) full] by (simp add: offer_def)
    qed
  qed
qed

lemma offers_best:
  assumes "is_heap xs" "best k (mset xs) M" "0 < k" "\<forall>y \<in># M + mset ys. good y"
  shows "is_heap (fold (offer lt k) ys xs) \<and> best k (mset (fold (offer lt k) ys xs)) (M + mset ys)"
  using assms
proof (induction ys arbitrary: xs M)
  case (Cons y ys)
  have "is_heap (offer lt k y xs)" "best k (mset (offer lt k y xs)) (add_mset y M)"
    using offer_best [OF Cons.prems(1-3), of y] Cons.prems(4) by auto
  from Cons.IH [OF this Cons.prems(3)] Cons.prems(4) show ?case by simp
qed simp

text \<open>The best of some groups, and of the rest, are the best of all.\<close>

lemma best_union:
  assumes a: "best k S M" and b: "best k T (S + N)"
  shows "best k T (M + N)"
proof -
  obtain P where P: "M = S + P" "size S = min k (size S + size P)" "\<forall>t \<in># S. \<forall>r \<in># P. key r \<le> key t"
    using a unfolding best_def by (metis size_union)
  obtain R where R: "S + N = T + R" "size T = min k (size S + size N)" "\<forall>t \<in># T. \<forall>r \<in># R. key r \<le> key t"
    using b unfolding best_def by (metis size_union)
  have "key r \<le> key t" if r: "r \<in># P" and t: "t \<in># T" for r t
  proof (cases "t \<in># S")
    case True
    then show ?thesis using P(3) r by blast
  next
    case False
    have "0 < size P" using r by (metis size_eq_0_iff_empty empty_not_add_mset multi_member_split neq0_conv)
    then have "size S = k" "size T = k" using P(2) R(2) by linarith+
    moreover have "\<not> S \<subseteq># T" using False t calculation by (metis mset_subset_size order_less_irrefl subset_mset.le_imp_less_or_eq)
    then obtain y where y: "count T y < count S y" by (auto simp: subseteq_mset_def not_le)
    moreover have "count S y + count N y = count T y + count R y" using arg_cong [OF R(1), of "\<lambda>X. count X y"] by simp
    ultimately have "0 < count S y" "0 < count R y" by linarith+
    then have "key r \<le> key y" "key y \<le> key t" using P(3) R(3) r t by simp_all
    then show ?thesis by (rule order_trans)
  qed
  then have "\<forall>t \<in># T. \<forall>r \<in># P + R. key r \<le> key t" using R(3) by auto
  moreover have "M + N = T + (P + R)" unfolding P(1) using R(1) by (simp add: add.assoc add.left_commute add.commute)
  moreover have "size T = min k (size M + size N)" unfolding P(1) size_union using P(2) R(2) by linarith
  ultimately show ?thesis unfolding best_def size_union by blast
qed

lemma best_concat:
  "list_all2 (\<lambda>ys xs. best k (mset ys) (mset xs)) yss xss \<Longrightarrow> best k T (mset (concat yss) + N) \<Longrightarrow> best k T (mset (concat xss) + N)"
proof (induction arbitrary: N rule: list_all2_induct)
  case (Cons ys yss xs xss)
  have "best k T (mset xs + (mset (concat yss) + N))"
    using best_union [OF Cons.hyps(1), of T "mset (concat yss) + N"] Cons.prems by (simp add: add.assoc)
  then show ?case using Cons.IH [of "mset xs + N"] by (simp add: ac_simps)
qed simp

text \<open>With keys that differ the order of the result is determined.\<close>

definition down_order :: "'a list \<Rightarrow> bool" where
  "down_order xs \<longleftrightarrow> sorted_wrt (\<lambda>a b. key b \<le> key a) xs"

lemma insert_by_sorted:
  assumes "\<forall>y \<in> set (x # xs). good y" "down_order xs"
  shows "down_order (insert_by (\<lambda>a b. lt b a) x xs)"
  using assms
proof (induction xs)
  case (Cons y ys)
  have s: "set (insert_by (\<lambda>a b. lt b a) x ys) = insert x (set ys)" by (metis insert_by_mset set_mset_mset set_mset_add_mset_insert)
  have l: "lt x y \<longleftrightarrow> key x < key y" using Cons.prems(1) by (simp add: less_key)
  show ?case using Cons l s by (auto simp: down_order_def not_less intro: order_trans)
qed (simp add: down_order_def)

lemma sort_by_sorted: "\<forall>y \<in> set xs. good y \<Longrightarrow> down_order (sort_by (\<lambda>a b. lt b a) xs)"
proof (induction xs)
  case (Cons x xs)
  have "set (sort_by (\<lambda>a b. lt b a) xs) = set xs" by simp
  then show ?case using Cons insert_by_sorted [of x "sort_by (\<lambda>a b. lt b a) xs"] by (simp add: sort_by_def)
qed (simp add: sort_by_def down_order_def)

lemma down_order_unique:
  assumes "down_order xs" "down_order ys" "mset xs = mset ys" "inj_on key (set xs)"
  shows "xs = ys"
proof -
  have s: "sorted (rev (map key zs))" if "down_order zs" for zs
    using that by (simp add: down_order_def rev_map [symmetric] sorted_wrt_rev sorted_wrt_map)
  have "rev (map key xs) = rev (map key ys)"
    using s [OF assms(1)] s [OF assms(2)] assms(3) by (metis mset_map mset_rev properties_for_sort)
  then have "map key xs = map key ys" by simp
  moreover have "set xs = set ys" using assms(3) by (metis set_mset_mset)
  ultimately show ?thesis using assms(4) by (simp add: map_inj_on)
qed

lemma sort_best:
  assumes "best k (mset ys) (mset xs)" "\<forall>x \<in> set xs. good x" "inj_on key (set xs)"
  shows "sort_by (\<lambda>a b. lt b a) ys = take k (sort_by (\<lambda>a b. lt b a) xs)"
proof -
  let ?s = "sort_by (\<lambda>a b. lt b a)"
  obtain R where R: "mset xs = mset ys + R" "\<forall>t \<in># mset ys. \<forall>r \<in># R. key r \<le> key t" and len: "length ys = min k (length xs)"
    using assms(1) unfolding best_def by (metis size_mset)
  obtain zs where zs: "R = mset zs" by (metis ex_mset)
  have sets: "set xs = set ys \<union> set zs" using arg_cong [OF R(1), of set_mset] by (simp add: zs)
  have "down_order (?s ys @ ?s zs)"
    using sort_by_sorted [of ys] sort_by_sorted [of zs] assms(2) R(2) sets by (auto simp: down_order_def sorted_wrt_append zs)
  moreover have "down_order (?s xs)" using sort_by_sorted assms(2) by blast
  moreover have "mset (?s xs) = mset (?s ys @ ?s zs)" using R(1) zs by simp
  ultimately have e: "?s xs = ?s ys @ ?s zs" using down_order_unique [of "?s xs"] assms(3) by simp
  have l: "length (?s ys) = length ys" "length (?s zs) = length zs" by (metis size_mset sort_by_mset)+
  have "length xs = length ys + length zs" using arg_cong [OF R(1), of size] by (simp add: zs)
  with len have "length ys = k \<or> length ys \<le> k \<and> length zs = 0" by linarith
  then show ?thesis unfolding e take_append l by (auto simp: l sort_by_def [of _ "[]"])
qed

lemma workers_best:
  assumes "0 < k" "\<forall>x \<in> set (concat parts). good x" "inj_on key (set (concat parts))"
  shows "sort_by (\<lambda>a b. lt b a) (fold (offer lt k) (concat (map (\<lambda>p. fold (offer lt k) p []) parts)) [])
    = take k (sort_by (\<lambda>a b. lt b a) (concat parts))"
proof (rule sort_best [OF _ assms(2,3)])
  have h: "is_heap []" by (simp add: is_heap_def)
  have part: "best k (mset (fold (offer lt k) p [])) (mset p)" if "p \<in> set parts" for p
    using offers_best [OF h, of k "{#}" p] assms(1,2) that by auto
  then have all: "list_all2 (\<lambda>ys xs. best k (mset ys) (mset xs)) (map (\<lambda>p. fold (offer lt k) p []) parts) parts"
    by (simp add: list_all2_map1 list_all2_same)
  let ?q = "concat (map (\<lambda>p. fold (offer lt k) p []) parts)"
  have "good y" if q: "y \<in> set ?q" for y
  proof -
    obtain p where p: "p \<in> set parts" "y \<in> set (fold (offer lt k) p [])" using q by auto
    then have "y \<in># mset p" using best_subset [OF part [OF p(1)], of y] by simp
    then show ?thesis using assms(2) p(1) by auto
  qed
  then have "best k (mset (fold (offer lt k) ?q [])) (mset ?q)" using offers_best [OF h, of k "{#}" ?q] assms(1) by auto
  then show "best k (mset (fold (offer lt k) ?q [])) (mset (concat parts))" using best_concat [OF all, of _ "{#}"] by simp
qed

end

end
