(* ===== verification/Matrix.thy ===== *)
theory Matrix
  imports HitHeap FloatOps "HOL-Library.Product_Lexorder"
begin

text \<open>
  The vectors of one index: cypher/vector/kernels.go and matrix.go. Coordinates and scores are single-precision floats, kept
  in the type of the double-precision ones; a single-precision operation is the double-precision one rounded once more,
  which for the operations used here is the same as rounding the exact result. The square root of \<open>math\<close> is a parameter.
\<close>

section \<open>Kernels\<close>

definition add32 :: "f64 \<Rightarrow> f64 \<Rightarrow> f64" where "add32 a b = f32_round (f_add a b)"
definition sub32 :: "f64 \<Rightarrow> f64 \<Rightarrow> f64" where "sub32 a b = f32_round (f_sub a b)"
definition mul32 :: "f64 \<Rightarrow> f64 \<Rightarrow> f64" where "mul32 a b = f32_round (f_mul a b)"
definition div32 :: "f64 \<Rightarrow> f64 \<Rightarrow> f64" where "div32 a b = f32_round (f_div a b)"

text \<open>
  The loop of both kernels, with eight sums that are added up at the end. The slices have one length.
\<close>

definition eight :: "'a \<Rightarrow> 'a list" where "eight z = [z, z, z, z, z, z, z, z]"

function lanes :: "('a \<Rightarrow> 'a \<Rightarrow> 'a) \<Rightarrow> ('b \<Rightarrow> 'b \<Rightarrow> 'a) \<Rightarrow> 'b list \<Rightarrow> 'b list \<Rightarrow> 'a list \<Rightarrow> 'a list" where
  "lanes add mul a b s =
    (if length a < 8 then s[0 := fold (\<lambda>(x, y) t. add t (mul x y)) (zip a b) (s ! 0)]
     else lanes add mul (drop 8 a) (drop 8 b) (map2 (\<lambda>t (x, y). add t (mul x y)) s (zip (take 8 a) (take 8 b))))"
  by pat_completeness auto
termination by (relation "measure (\<lambda>(add, mul, a, b, s). length a)") auto

declare lanes.simps [simp del]

definition sum_lanes :: "('a \<Rightarrow> 'a \<Rightarrow> 'a) \<Rightarrow> 'a list \<Rightarrow> 'a" where
  "sum_lanes add s = add (add (add (s ! 0) (s ! 1)) (add (s ! 2) (s ! 3))) (add (add (s ! 4) (s ! 5)) (add (s ! 6) (s ! 7)))"

definition kernel :: "('a \<Rightarrow> 'a \<Rightarrow> 'a) \<Rightarrow> 'a \<Rightarrow> ('b \<Rightarrow> 'b \<Rightarrow> 'a) \<Rightarrow> 'b list \<Rightarrow> 'b list \<Rightarrow> 'a" where
  "kernel add z mul a b = sum_lanes add (lanes add mul a b (eight z))"

definition dot32 :: "f64 list \<Rightarrow> f64 list \<Rightarrow> f64" where
  "dot32 = kernel add32 (Fin 0) mul32"

definition squaredL2 :: "f64 list \<Rightarrow> f64 list \<Rightarrow> f64" where
  "squaredL2 = kernel add32 (Fin 0) (\<lambda>x y. mul32 (sub32 x y) (sub32 x y))"

definition norm32 :: "(f64 \<Rightarrow> f64) \<Rightarrow> f64 list \<Rightarrow> f64" where
  "norm32 sq a = f32_round (sq (dot32 a a))"

definition normalize32 :: "(f64 \<Rightarrow> f64) \<Rightarrow> f64 list \<Rightarrow> f64 list option" where
  "normalize32 sq a = (let n = norm32 sq a in
     if f_eq n (Fin 0) then None else Some (map (\<lambda>x. mul32 x (div32 (Fin 1) n)) a))"

definition cosine32 :: "(f64 \<Rightarrow> f64) \<Rightarrow> f64 list \<Rightarrow> f64 list \<Rightarrow> f64 option" where
  "cosine32 sq a b = (let na = norm32 sq a; nb = norm32 sq b in
     if f_eq na (Fin 0) \<or> f_eq nb (Fin 0) then None else Some (div32 (dot32 a b) (mul32 na nb)))"

section \<open>Matrices\<close>

datatype metric = Cosine | Euclidean

definition parseMetric :: "string \<Rightarrow> metric option" where
  "parseMetric s = (if s \<in> {''cosine'', ''COSINE'', ''Cosine''} then Some Cosine
     else if s \<in> {''euclidean'', ''EUCLIDEAN'', ''Euclidean''} then Some Euclidean else None)"

record matrix =
  mx_dim :: nat
  mx_metric :: metric
  mx_ids :: "int list"
  mx_data :: "f64 list"
  mx_pos :: "int \<Rightarrow> nat option"

definition newMatrix :: "nat \<Rightarrow> metric \<Rightarrow> matrix" where
  "newMatrix d k = \<lparr>mx_dim = d, mx_metric = k, mx_ids = [], mx_data = [], mx_pos = (\<lambda>_. None)\<rparr>"

definition mx_len :: "matrix \<Rightarrow> nat" where "mx_len m = length (mx_ids m)"

text \<open>Row p of the data, and the copy of a row into its place.\<close>

definition row_at :: "nat \<Rightarrow> nat \<Rightarrow> 'a list \<Rightarrow> 'a list" where
  "row_at d p xs = take d (drop (p * d) xs)"

definition blit :: "nat \<Rightarrow> nat \<Rightarrow> 'a list \<Rightarrow> 'a list \<Rightarrow> 'a list" where
  "blit d p row xs = take (p * d) xs @ row @ drop ((p + 1) * d) xs"

definition mx_remove :: "int \<Rightarrow> matrix \<Rightarrow> matrix" where
  "mx_remove i m = (case mx_pos m i of None \<Rightarrow> m
     | Some p \<Rightarrow> let last = length (mx_ids m) - 1; d = mx_dim m;
         m1 = (if p \<noteq> last
           then let k = mx_ids m ! last in
             m\<lparr>mx_data := blit d p (row_at d last (mx_data m)) (mx_data m), mx_ids := (mx_ids m)[p := k], mx_pos := (mx_pos m)(k \<mapsto> p)\<rparr>
           else m)
       in m1\<lparr>mx_ids := take last (mx_ids m1), mx_data := take (last * d) (mx_data m1), mx_pos := (mx_pos m1)(i := None)\<rparr>)"

definition mx_upsert :: "(f64 \<Rightarrow> f64) \<Rightarrow> int \<Rightarrow> f64 list \<Rightarrow> matrix \<Rightarrow> string + bool \<times> matrix" where
  "mx_upsert sq i v m =
    (if length v \<noteq> mx_dim m then Inl ''vector has %d coordinates, the index has %d''
     else case (if mx_metric m = Cosine then normalize32 sq v else Some v) of
       None \<Rightarrow> Inr (False, mx_remove i m)
     | Some row \<Rightarrow> (case mx_pos m i of
         Some p \<Rightarrow> Inr (True, m\<lparr>mx_data := blit (mx_dim m) p row (mx_data m)\<rparr>)
       | None \<Rightarrow> Inr (True, m\<lparr>mx_pos := (mx_pos m)(i \<mapsto> length (mx_ids m)), mx_ids := mx_ids m @ [i], mx_data := mx_data m @ row\<rparr>)))"

section \<open>Search\<close>

record hit =
  h_id :: int
  h_score :: f64

definition worse :: "hit \<Rightarrow> hit \<Rightarrow> bool" where
  "worse a b = (if \<not> f_eq (h_score a) (h_score b) then f_less (h_score a) (h_score b) else h_id b < h_id a)"

definition hit_before :: "hit \<Rightarrow> hit \<Rightarrow> bool" where
  "hit_before a b = (if \<not> f_eq (h_score a) (h_score b) then f_less (h_score b) (h_score a) else h_id a < h_id b)"

definition score :: "metric \<Rightarrow> f64 list \<Rightarrow> f64 list \<Rightarrow> f64" where
  "score k q row = (case k of
       Cosine \<Rightarrow> div32 (add32 (Fin 1) (dot32 q row)) (Fin 2)
     | Euclidean \<Rightarrow> div32 (Fin 1) (add32 (Fin 1) (squaredL2 q row)))"

definition hit_at :: "matrix \<Rightarrow> f64 list \<Rightarrow> nat \<Rightarrow> hit" where
  "hit_at m q i = \<lparr>h_id = mx_ids m ! i, h_score = score (mx_metric m) q (row_at (mx_dim m) i (mx_data m))\<rparr>"

text \<open>The ranges of the workers; \<open>procs\<close> is \<open>GOMAXPROCS\<close>.\<close>

definition minRowsPerWorker :: nat where "minRowsPerWorker = 2048"

definition worker_count :: "nat \<Rightarrow> nat \<Rightarrow> nat" where
  "worker_count procs n = max 1 (min procs (n div minRowsPerWorker))"

definition worker_ranges :: "nat \<Rightarrow> nat \<Rightarrow> nat list list" where
  "worker_ranges workers n = (let c = (n + workers - 1) div workers in map (\<lambda>w. [w * c..<min n ((w + 1) * c)]) [0..<workers])"

text \<open>
  The context is looked at before every 1024th row; \<open>done i\<close> says that it is over when row i comes. The workers share
  nothing but their own slots of the results, so the order they run in does not matter.
\<close>

definition mx_search :: "(f64 \<Rightarrow> f64) \<Rightarrow> nat \<Rightarrow> (nat \<Rightarrow> bool) \<Rightarrow> f64 list \<Rightarrow> int \<Rightarrow> matrix \<Rightarrow> string + hit list" where
  "mx_search sq procs over query k m =
    (if length query \<noteq> mx_dim m then Inl ''query has %d coordinates, the index has %d''
     else if k < 1 then Inl ''k must be at least 1''
     else bindE (if mx_metric m = Cosine
         then (case normalize32 sq query of None \<Rightarrow> Inl ''cosine similarity is undefined for a zero query vector'' | Some q \<Rightarrow> Inr q)
         else Inr query) (\<lambda>q.
       let n = mx_len m; ranges = worker_ranges (worker_count procs n) n in
       if \<exists>r \<in> set ranges. \<exists>i \<in> set r. i mod 1024 = 0 \<and> over i then Inl ''context canceled''
       else let results = map (\<lambda>r. fold (offer worse (nat k)) (map (hit_at m q) r) []) ranges
         in Inr (sort_by hit_before (fold (offer worse (nat k)) (concat results) []))))"

section \<open>Building a matrix in bulk\<close>

record builder =
  bd_dim :: nat
  bd_metric :: metric
  bd_ids :: "int list"
  bd_data :: "f64 list"

definition newBuilder :: "nat \<Rightarrow> metric \<Rightarrow> builder" where
  "newBuilder d k = \<lparr>bd_dim = d, bd_metric = k, bd_ids = [], bd_data = []\<rparr>"

text \<open>The row is what the caller leaves in the slice.\<close>

definition nextRow :: "f64 list \<Rightarrow> builder \<Rightarrow> builder" where
  "nextRow row b = b\<lparr>bd_data := bd_data b @ row\<rparr>"

definition keep_row :: "int \<Rightarrow> builder \<Rightarrow> builder" where
  "keep_row i b = b\<lparr>bd_ids := bd_ids b @ [i]\<rparr>"

definition discard_row :: "builder \<Rightarrow> builder" where
  "discard_row b = b\<lparr>bd_data := take (length (bd_data b) - bd_dim b) (bd_data b)\<rparr>"

text \<open>The rows are normalised in place by the workers, each its own; then those kept are moved together.\<close>

definition normalize_rows :: "(f64 \<Rightarrow> f64) \<Rightarrow> nat \<Rightarrow> nat \<Rightarrow> f64 list \<Rightarrow> bool list \<times> f64 list" where
  "normalize_rows sq d n data = foldl (\<lambda>(ks, xs) i. case normalize32 sq (row_at d i xs) of
       None \<Rightarrow> (ks @ [False], xs) | Some row \<Rightarrow> (ks @ [True], blit d i row xs)) ([], data) [0..<n]"

definition compact :: "nat \<Rightarrow> bool list \<Rightarrow> int list \<Rightarrow> f64 list \<Rightarrow> nat \<times> int list \<times> f64 list" where
  "compact d ks ids data = foldl (\<lambda>(k, is, xs) i.
       if \<not> ks ! i then (k, is, xs)
       else if k \<noteq> i then (k + 1, is[k := is ! i], blit d k (row_at d i xs) xs)
       else (k + 1, is, xs)) (0, ids, data) [0..<length ids]"

definition index_ids :: "int list \<Rightarrow> int \<Rightarrow> nat option" where
  "index_ids ids = foldl (\<lambda>m (i, x). m(x \<mapsto> i)) (\<lambda>_. None) (zip [0..<length ids] ids)"

definition builder_matrix :: "(f64 \<Rightarrow> f64) \<Rightarrow> builder \<Rightarrow> matrix" where
  "builder_matrix sq b = (case (if bd_metric b = Cosine
       then (case normalize_rows sq (bd_dim b) (length (bd_ids b)) (bd_data b) of (ks, data) \<Rightarrow>
         (case compact (bd_dim b) ks (bd_ids b) data of (k, ids, xs) \<Rightarrow> (take k ids, take (k * bd_dim b) xs)))
       else (bd_ids b, bd_data b)) of (ids, data) \<Rightarrow>
     \<lparr>mx_dim = bd_dim b, mx_metric = bd_metric b, mx_ids = ids, mx_data = data, mx_pos = index_ids ids\<rparr>)"

definition mergeBuilders :: "builder list \<Rightarrow> builder option" where
  "mergeBuilders bs = (case bs of [] \<Rightarrow> None
     | b # _ \<Rightarrow> Some \<lparr>bd_dim = bd_dim b, bd_metric = bd_metric b, bd_ids = concat (map bd_ids bs), bd_data = concat (map bd_data bs)\<rparr>)"

end
