(* ===== verification/MatrixFacts.thy ===== *)
theory MatrixFacts
  imports Matrix
begin

text \<open>
  The kernels compute the sum they stand for when arithmetic is exact; a matrix is a finite map from ids to rows, whatever
  order its rows are in; a search gives the k best rows of that map; and a matrix built in bulk is the one the single
  insertions build.
\<close>

section \<open>Kernels\<close>

lemma lanes_sum:
  fixes mul :: "'b \<Rightarrow> 'b \<Rightarrow> 'a::comm_monoid_add"
  assumes "length b = length a" "length s = 8"
  shows "length (lanes (+) mul a b s) = 8 \<and> sum_list (lanes (+) mul a b s) = sum_list s + sum_list (map2 mul a b)"
  using assms
proof (induction "length a" arbitrary: a b s rule: less_induct)
  case less
  have tail: "fold (\<lambda>(x, y) t. t + mul x y) ps t = t + sum_list (map (\<lambda>(x, y). mul x y) ps)" for ps t
    by (induction ps arbitrary: t) (auto simp: add.assoc)
  show ?case
  proof (cases "length a < 8")
    case True
    obtain t ts where s: "s = t # ts" using less.prems(2) by (cases s) auto
    have "lanes (+) mul a b s = s[0 := fold (\<lambda>(x, y) t. t + mul x y) (zip a b) (s ! 0)]"
      using True by (subst lanes.simps) simp
    then show ?thesis using less.prems(2) by (simp add: s tail ac_simps)
  next
    case False
    let ?s = "map2 (\<lambda>t (x, y). t + mul x y) s (zip (take 8 a) (take 8 b))"
    have step: "lanes (+) mul a b s = lanes (+) mul (drop 8 a) (drop 8 b) ?s" using False by (subst lanes.simps) simp
    have "sum_list (map2 (\<lambda>t (x, y). t + mul x y) us vs) = sum_list us + sum_list (map (\<lambda>(x, y). mul x y) vs)"
      if "length us = length vs" for us :: "'a list" and vs
      using that by (induction us vs rule: list_induct2) (auto simp: ac_simps split: prod.split)
    then have "sum_list ?s = sum_list s + sum_list (map2 mul (take 8 a) (take 8 b))"
      using less.prems False by simp
    moreover have "map2 mul a b = map2 mul (take 8 a) (take 8 b) @ map2 mul (drop 8 a) (drop 8 b)"
      by (metis append_take_drop_id map_append take_zip drop_zip)
    then have "sum_list (map2 mul a b) = sum_list (map2 mul (take 8 a) (take 8 b)) + sum_list (map2 mul (drop 8 a) (drop 8 b))"
      by simp
    moreover have "length (lanes (+) mul (drop 8 a) (drop 8 b) ?s) = 8
        \<and> sum_list (lanes (+) mul (drop 8 a) (drop 8 b) ?s) = sum_list ?s + sum_list (map2 mul (drop 8 a) (drop 8 b))"
      by (rule less.hyps) (use False less.prems in auto)
    ultimately show ?thesis unfolding step by (simp add: ac_simps)
  qed
qed

lemma sum_lanes_sum:
  fixes s :: "'a::comm_monoid_add list"
  assumes "length s = 8"
  shows "sum_lanes (+) s = sum_list s"
proof -
  obtain a b c d e f g h where "s = [a, b, c, d, e, f, g, h]"
    using assms by (auto simp: numeral_eq_Suc length_Suc_conv)
  then show ?thesis by (simp add: sum_lanes_def ac_simps)
qed

theorem kernel_exact:
  fixes mul :: "'b \<Rightarrow> 'b \<Rightarrow> 'a::comm_monoid_add"
  assumes "length b = length a"
  shows "kernel (+) 0 mul a b = sum_list (map2 mul a b)"
  using lanes_sum [OF assms, of "eight 0" "mul"] by (simp add: kernel_def sum_lanes_sum eight_def)

section \<open>Rows\<close>

definition in_rows :: "nat \<Rightarrow> 'a list list \<Rightarrow> bool" where
  "in_rows d rs \<longleftrightarrow> (\<forall>r \<in> set rs. length r = d)"

lemma concat_length: "in_rows d rs \<Longrightarrow> length (concat rs) = length rs * d"
  by (induction rs) (auto simp: in_rows_def)

lemma take_rows: "in_rows d rs \<Longrightarrow> take (p * d) (concat rs) = concat (take p rs)"
proof (induction rs arbitrary: p)
  case (Cons r rs)
  then show ?case by (cases p) (auto simp: in_rows_def)
qed simp

lemma drop_rows: "in_rows d rs \<Longrightarrow> drop (p * d) (concat rs) = concat (drop p rs)"
proof (induction rs arbitrary: p)
  case (Cons r rs)
  then show ?case by (cases p) (auto simp: in_rows_def)
qed simp

lemma row_at_rows: "in_rows d rs \<Longrightarrow> p < length rs \<Longrightarrow> row_at d p (concat rs) = rs ! p"
  unfolding row_at_def drop_rows by (simp add: Cons_nth_drop_Suc [symmetric] in_rows_def)

lemma blit_rows:
  assumes "in_rows d rs" "p < length rs"
  shows "blit d p r (concat rs) = concat (rs[p := r])"
proof -
  have "drop ((p + 1) * d) (concat rs) = concat (drop (p + 1) rs)" by (rule drop_rows [OF assms(1)])
  then show ?thesis unfolding blit_def take_rows [OF assms(1)] using assms(2) by (simp add: upd_conv_take_nth_drop)
qed

lemma in_rows_update: "in_rows d rs \<Longrightarrow> length r = d \<Longrightarrow> in_rows d (rs[p := r])"
  by (auto simp: in_rows_def dest: set_update_subset_insert [THEN subsetD])

lemma in_rows_take: "in_rows d rs \<Longrightarrow> in_rows d (take p rs)"
  by (auto simp: in_rows_def dest: in_set_takeD)

section \<open>The finite map\<close>

definition matrix_ok :: "matrix \<Rightarrow> f64 list list \<Rightarrow> bool" where
  "matrix_ok m rs \<longleftrightarrow> mx_data m = concat rs \<and> in_rows (mx_dim m) rs \<and> length rs = length (mx_ids m) \<and> distinct (mx_ids m)
     \<and> (\<forall>i p. mx_pos m i = Some p \<longleftrightarrow> p < length (mx_ids m) \<and> mx_ids m ! p = i)"

definition mx_inv :: "matrix \<Rightarrow> bool" where "mx_inv m \<longleftrightarrow> (\<exists>rs. matrix_ok m rs)"

definition mx_abs :: "matrix \<Rightarrow> int \<Rightarrow> f64 list option" where
  "mx_abs m i = map_option (\<lambda>p. row_at (mx_dim m) p (mx_data m)) (mx_pos m i)"

lemma matrix_okD:
  assumes "matrix_ok m rs"
  shows "mx_data m = concat rs" "in_rows (mx_dim m) rs" "length rs = length (mx_ids m)" "distinct (mx_ids m)"
    "mx_pos m i = Some p \<longleftrightarrow> p < length (mx_ids m) \<and> mx_ids m ! p = i"
  using assms by (simp_all add: matrix_ok_def)

lemma abs_rows: "matrix_ok m rs \<Longrightarrow> mx_abs m i = Some r \<longleftrightarrow> (\<exists>p < length (mx_ids m). mx_ids m ! p = i \<and> rs ! p = r)"
  by (auto simp: mx_abs_def matrix_okD row_at_rows)

lemma abs_map_of:
  assumes "matrix_ok m rs"
  shows "mx_abs m = map_of (zip (mx_ids m) rs)"
proof
  fix i
  have "mx_abs m i = Some r \<longleftrightarrow> map_of (zip (mx_ids m) rs) i = Some r" for r
    using matrix_okD(3,4) [OF assms] by (auto simp: abs_rows [OF assms] in_set_zip)
  then show "mx_abs m i = map_of (zip (mx_ids m) rs) i" by (metis not_None_eq)
qed

lemma newMatrix_ok: "matrix_ok (newMatrix d k) []"
  by (simp add: matrix_ok_def newMatrix_def in_rows_def)

lemma newMatrix_abs: "mx_abs (newMatrix d k) = (\<lambda>_. None)"
  by (rule ext) (simp add: mx_abs_def newMatrix_def)

lemma remove_ok:
  assumes ok: "matrix_ok m rs" and p: "mx_pos m i = Some p"
  shows "\<exists>qs. matrix_ok (mx_remove i m) qs \<and> mx_abs (mx_remove i m) = (mx_abs m)(i := None)"
proof -
  note d = matrix_okD [OF ok]
  define n where "n = length (mx_ids m) - 1"
  have q: "p < length (mx_ids m)" "mx_ids m ! p = i" using p d(5) by auto
  then have n: "length (mx_ids m) = Suc n" "n < length rs" "p \<le> n" by (auto simp: n_def d(3))
  define ids where "ids = (mx_ids m)[p := mx_ids m ! n]"
  define qs where "qs = rs[p := rs ! n]"
  have inq: "in_rows (mx_dim m) qs" unfolding qs_def by (rule in_rows_update [OF d(2)]) (use d(2) n(2) in \<open>simp add: in_rows_def\<close>)
  have len: "length ids = Suc n" "length qs = Suc n" using n(1) d(3) by (simp_all add: ids_def qs_def)
  have f: "mx_ids (mx_remove i m) = take n ids" "mx_data (mx_remove i m) = concat (take n qs)" "mx_dim (mx_remove i m) = mx_dim m"
    "mx_pos (mx_remove i m) = (mx_pos m)(mx_ids m ! n := (if p = n then None else Some p), i := None)"
  proof -
    have same: "ids = mx_ids m" "qs = rs" if "p = n" using that by (simp_all add: ids_def qs_def)
    show "mx_ids (mx_remove i m) = take n ids" using p same by (simp add: mx_remove_def n(1) Let_def ids_def)
    show "mx_dim (mx_remove i m) = mx_dim m" using p by (simp add: mx_remove_def Let_def)
    show "mx_pos (mx_remove i m) = (mx_pos m)(mx_ids m ! n := (if p = n then None else Some p), i := None)"
      using p q(2) by (auto simp: mx_remove_def n(1) Let_def)
    have "blit (mx_dim m) p (row_at (mx_dim m) n (mx_data m)) (mx_data m) = concat qs"
      using d(2,3) n q(1) by (simp add: d(1) row_at_rows blit_rows qs_def)
    then show "mx_data (mx_remove i m) = concat (take n qs)"
      using p same take_rows [OF inq, of n] by (auto simp: mx_remove_def n(1) Let_def d(1))
  qed
  have at: "take n ids ! l = (if l = p then mx_ids m ! n else mx_ids m ! l)" "take n qs ! l = (if l = p then rs ! n else rs ! l)" if "l < n" for l
    using that len by (auto simp: ids_def qs_def nth_list_update)
  have ne: "mx_ids m ! a = mx_ids m ! b \<longleftrightarrow> a = b" if "a < Suc n" "b < Suc n" for a b
    using nth_eq_iff_index_eq [OF d(4)] that n(1) by simp
  have pos: "mx_pos (mx_remove i m) j = Some l \<longleftrightarrow> l < n \<and> take n ids ! l = j" for j l
  proof -
    consider "j = i" | "j \<noteq> i" "j = mx_ids m ! n" | "j \<noteq> i" "j \<noteq> mx_ids m ! n" by blast
    then show ?thesis
    proof cases
      case 1
      have "\<not> (l < n \<and> take n ids ! l = i)" using ne [of n p] ne [of l p] n(3) q(2) at(1) [of l] by auto
      then show ?thesis using 1 by (simp add: f(4))
    next
      case 2
      then have "p \<noteq> n" using q(2) by auto
      moreover have "l < n \<and> take n ids ! l = j \<longleftrightarrow> l = p"
        using ne [of l n] n(3) \<open>p \<noteq> n\<close> 2(2) at(1) [of l] at(1) [of p] by (auto split: if_splits)
      ultimately show ?thesis using 2 by (auto simp: f(4))
    next
      case 3
      have "l < n \<and> take n ids ! l = j \<longleftrightarrow> l < Suc n \<and> mx_ids m ! l = j"
        using 3 q(2) at(1) [of l] by (auto simp: less_Suc_eq)
      then show ?thesis using 3 d(5) [of j l] n(1) by (simp add: f(4))
    qed
  qed
  have dist: "distinct (take n ids)"
    unfolding distinct_conv_nth
  proof (intro allI impI)
    fix a b assume ab: "a < length (take n ids)" "b < length (take n ids)" "a \<noteq> b"
    then have "a < n" "b < n" by simp_all
    then show "take n ids ! a \<noteq> take n ids ! b"
      using ab(3) ne [of a b] ne [of a n] ne [of b n] ne [of n a] ne [of n b] at(1) [of a] at(1) [of b] by (simp split: if_splits)
  qed
  have ok': "matrix_ok (mx_remove i m) (take n qs)"
    using f(1-3) pos dist inq len by (simp add: matrix_ok_def in_rows_take)
  have "mx_abs (mx_remove i m) j = Some r \<longleftrightarrow> ((mx_abs m)(i := None)) j = Some r" for j r
  proof -
    have "mx_abs (mx_remove i m) j = Some r \<longleftrightarrow> (\<exists>l<n. take n ids ! l = j \<and> take n qs ! l = r)"
      using abs_rows [OF ok', of j r] len by (simp add: f(1))
    also have "\<dots> \<longleftrightarrow> j \<noteq> i \<and> (\<exists>l<Suc n. mx_ids m ! l = j \<and> rs ! l = r)"
    proof (intro iffI conjI; elim exE conjE)
      fix l assume l: "l < n" "take n ids ! l = j" "take n qs ! l = r"
      show "j \<noteq> i" using pos [of i l] l f(4) by auto
      show "\<exists>l<Suc n. mx_ids m ! l = j \<and> rs ! l = r"
        using l at(1,2) [of l] by (intro exI [of _ "if l = p then n else l"]) (auto split: if_splits)
    next
      fix l assume l: "j \<noteq> i" "l < Suc n" "mx_ids m ! l = j" "rs ! l = r"
      then have "l \<noteq> p" using q(2) by auto
      then have "l = n \<longrightarrow> p < n" using n(3) by simp
      then show "\<exists>l<n. take n ids ! l = j \<and> take n qs ! l = r"
        using l q(2) at(1,2) [of l] at(1,2) [of p] by (intro exI [of _ "if l = n then p else l"]) (auto split: if_splits)
    qed
    also have "\<dots> \<longleftrightarrow> ((mx_abs m)(i := None)) j = Some r" using abs_rows [OF ok, of j r] n(1) by auto
    finally show ?thesis .
  qed
  then have "mx_abs (mx_remove i m) = (mx_abs m)(i := None)" by (metis not_None_eq ext)
  then show ?thesis using ok' by blast
qed

text \<open>What is held for a vector, if anything.\<close>

definition stored_row :: "(f64 \<Rightarrow> f64) \<Rightarrow> metric \<Rightarrow> f64 list \<Rightarrow> f64 list option" where
  "stored_row sq k v = (if k = Cosine then normalize32 sq v else Some v)"

lemma stored_row_length: "stored_row sq k v = Some r \<Longrightarrow> length r = length v"
  by (auto simp: stored_row_def normalize32_def Let_def split: if_splits)

lemma remove_refines:
  assumes "mx_inv m"
  shows "mx_inv (mx_remove i m) \<and> mx_abs (mx_remove i m) = (mx_abs m)(i := None)"
proof (cases "mx_pos m i")
  case None
  then have "mx_remove i m = m" "mx_abs m i = None" by (simp_all add: mx_remove_def mx_abs_def)
  then show ?thesis using assms by (simp add: fun_upd_idem)
next
  case (Some p)
  then show ?thesis using assms remove_ok [OF _ Some] by (auto simp: mx_inv_def)
qed

lemma remove_fields [simp]: "mx_dim (mx_remove i m) = mx_dim m" "mx_metric (mx_remove i m) = mx_metric m"
  by (simp_all add: mx_remove_def Let_def split: option.split)

lemma replace_ok:
  assumes ok: "matrix_ok m rs" and p: "mx_pos m i = Some p" and r: "length r = mx_dim m"
  defines "h \<equiv> m\<lparr>mx_data := blit (mx_dim m) p r (mx_data m)\<rparr>"
  shows "matrix_ok h (rs[p := r])" "mx_abs h = (mx_abs m)(i \<mapsto> r)"
proof -
  note d = matrix_okD [OF ok]
  have q: "p < length (mx_ids m)" "mx_ids m ! p = i" using p d(5) by auto
  have data: "blit (mx_dim m) p r (concat rs) = concat (rs[p := r])" using d(2,3) q by (simp add: blit_rows)
  show ok': "matrix_ok h (rs[p := r])"
    using d in_rows_update [OF d(2) r] by (simp add: matrix_ok_def h_def data)
  have "mx_abs h j = Some x \<longleftrightarrow> ((mx_abs m)(i \<mapsto> r)) j = Some x" for j x
    using abs_rows [OF ok', of j x] abs_rows [OF ok, of j x] q d(3) nth_eq_iff_index_eq [OF d(4)]
    by (auto simp: h_def nth_list_update split: if_splits)
  then show "mx_abs h = (mx_abs m)(i \<mapsto> r)" by (metis not_None_eq ext)
qed

lemma append_ok:
  assumes ok: "matrix_ok m rs" and p: "mx_pos m i = None" and r: "length r = mx_dim m"
  defines "h \<equiv> m\<lparr>mx_pos := (mx_pos m)(i \<mapsto> length (mx_ids m)), mx_ids := mx_ids m @ [i], mx_data := mx_data m @ r\<rparr>"
  shows "matrix_ok h (rs @ [r])" "mx_abs h = (mx_abs m)(i \<mapsto> r)"
proof -
  note d = matrix_okD [OF ok]
  have new: "i \<notin> set (mx_ids m)" using p d(5) [of i] by (metis in_set_conv_nth option.distinct(1))
  show ok': "matrix_ok h (rs @ [r])"
    using d new r by (auto simp: matrix_ok_def h_def in_rows_def nth_append less_Suc_eq)
  have "mx_abs m i = None" using p by (simp add: mx_abs_def)
  moreover have "mx_abs h = map_of (zip (mx_ids m) rs @ [(i, r)])" using abs_map_of [OF ok'] d(3) by (simp add: h_def)
  ultimately show "mx_abs h = (mx_abs m)(i \<mapsto> r)"
    unfolding abs_map_of [OF ok] by (auto simp: fun_eq_iff map_add_def split: option.split)
qed

theorem upsert_refines:
  assumes "mx_inv m" "length v = mx_dim m"
  shows "\<exists>h. mx_upsert sq i v m = Inr (stored_row sq (mx_metric m) v \<noteq> None, h) \<and> mx_inv h
    \<and> mx_dim h = mx_dim m \<and> mx_metric h = mx_metric m \<and> mx_abs h = (mx_abs m)(i := stored_row sq (mx_metric m) v)"
proof -
  obtain rs where rs: "matrix_ok m rs" using assms(1) by (auto simp: mx_inv_def)
  have e: "mx_upsert sq i v m = (case stored_row sq (mx_metric m) v of
       None \<Rightarrow> Inr (False, mx_remove i m)
     | Some row \<Rightarrow> (case mx_pos m i of
         Some p \<Rightarrow> Inr (True, m\<lparr>mx_data := blit (mx_dim m) p row (mx_data m)\<rparr>)
       | None \<Rightarrow> Inr (True, m\<lparr>mx_pos := (mx_pos m)(i \<mapsto> length (mx_ids m)), mx_ids := mx_ids m @ [i], mx_data := mx_data m @ row\<rparr>)))"
    using assms(2) by (simp add: mx_upsert_def stored_row_def)
  show ?thesis
  proof (cases "stored_row sq (mx_metric m) v")
    case None
    then show ?thesis using remove_refines [OF assms(1), of i] by (simp add: e)
  next
    case (Some r)
    then have r: "length r = mx_dim m" using stored_row_length assms(2) by metis
    show ?thesis
    proof (cases "mx_pos m i")
      case None
      show ?thesis using append_ok [OF rs None r] Some None by (auto simp: e mx_inv_def)
    next
      case p: (Some p)
      show ?thesis using replace_ok [OF rs p r] Some p by (auto simp: e mx_inv_def)
    qed
  qed
qed

section \<open>Search\<close>

lemma ranges_prefix:
  "concat (map (\<lambda>w. [w * c..<min n ((w + 1) * c)]) [0..<k]) = [0..<min n (k * c)]"
proof (induction k)
  case (Suc k)
  have "[0..<min n (k * c)] @ [k * c..<min n ((k + 1) * c)] = [0..<min n (Suc k * c)]"
  proof (cases "k * c \<le> n")
    case True
    then have "min n (k * c) = k * c" "k * c \<le> min n (Suc k * c)" by simp_all
    then show ?thesis using upt_add_eq_append [of 0 "k * c" "min n (Suc k * c) - k * c"] by simp
  next
    case False
    then have "min n (k * c) = n" "min n (Suc k * c) = n" by simp_all
    then show ?thesis using False by simp
  qed
  then show ?case using Suc by simp
qed simp

lemma ranges_all:
  assumes "0 < k"
  shows "concat (worker_ranges k n) = [0..<n]"
proof -
  have "n \<le> k * ((n + k - 1) div k)"
  proof -
    have "n + k - 1 = k * ((n + k - 1) div k) + (n + k - 1) mod k" by simp
    moreover have "(n + k - 1) mod k < k" using assms by simp
    ultimately show ?thesis by linarith
  qed
  then show ?thesis unfolding worker_ranges_def Let_def ranges_prefix by simp
qed

definition f_key :: "f64 \<Rightarrow> int \<times> rat" where
  "f_key a = (case a of NInf \<Rightarrow> (- 1, 0) | PInf \<Rightarrow> (1, 0) | Fin x \<Rightarrow> (0, x) | NZero \<Rightarrow> (0, 0) | NaN \<Rightarrow> (0, 0))"

lemma f_key_less: "a \<noteq> NaN \<Longrightarrow> b \<noteq> NaN \<Longrightarrow> f_less a b \<longleftrightarrow> f_key a < f_key b"
  by (cases a; cases b) (auto simp: f_key_def)

lemma f_key_eq: "a \<noteq> NaN \<Longrightarrow> b \<noteq> NaN \<Longrightarrow> f_eq a b \<longleftrightarrow> f_key a = f_key b"
  by (cases a; cases b) (auto simp: f_key_def f_eq_def)

definition hit_key :: "hit \<Rightarrow> (int \<times> rat) \<times> int" where
  "hit_key h = (f_key (h_score h), - h_id h)"

definition scored :: "hit \<Rightarrow> bool" where "scored h \<longleftrightarrow> h_score h \<noteq> NaN"

interpretation hits: ranked worse hit_key scored
proof
  fix a b assume "scored a" "scored b"
  then show "worse a b \<longleftrightarrow> hit_key a < hit_key b"
    using f_key_less [of "h_score a" "h_score b"] f_key_eq [of "h_score a" "h_score b"]
    by (auto simp: worse_def hit_key_def scored_def)
qed

lemma before_worse: "hit_before = (\<lambda>a b. worse b a)"
  by (auto simp: fun_eq_iff hit_before_def worse_def f_eq_sym)

definition mx_hits :: "matrix \<Rightarrow> f64 list \<Rightarrow> hit list" where
  "mx_hits m q = map (hit_at m q) [0..<mx_len m]"

definition entry_hit :: "metric \<Rightarrow> f64 list \<Rightarrow> int \<times> f64 list \<Rightarrow> hit" where
  "entry_hit k q e = \<lparr>h_id = fst e, h_score = score k q (snd e)\<rparr>"

lemma mx_hits_entries: "matrix_ok m rs \<Longrightarrow> mx_hits m q = map (entry_hit (mx_metric m) q) (zip (mx_ids m) rs)"
  by (intro nth_equalityI) (auto simp: mx_hits_def mx_len_def hit_at_def entry_hit_def matrix_okD row_at_rows)

lemma hit_keys_differ: "distinct (map fst es) \<Longrightarrow> inj_on hit_key (set (map (entry_hit k q) es))"
  by (auto simp: inj_on_def hit_key_def entry_hit_def dest: eq_key_imp_eq_value)

lemma sorted_hits_unique:
  assumes "mset xs = mset ys" "\<forall>x \<in> set xs. scored x" "inj_on hit_key (set xs)"
  shows "sort_by hit_before xs = sort_by hit_before ys"
proof -
  have "set xs = set ys" using assms(1) by (metis set_mset_mset)
  then show ?thesis
    unfolding before_worse using assms hits.sort_by_sorted [of xs] hits.sort_by_sorted [of ys]
    by (intro hits.down_order_unique) simp_all
qed

text \<open>However the rows are stored and the scan is split, the result depends on the entries alone.\<close>

theorem search_best:
  assumes inv: "mx_inv m" and q: "length query = mx_dim m" "1 \<le> k" "stored_row sq (mx_metric m) query = Some q"
    and es: "distinct (map fst es)" "mx_abs m = map_of es" and real: "\<forall>e \<in> set es. score (mx_metric m) q (snd e) \<noteq> NaN"
  shows "mx_search sq procs (\<lambda>_. False) query k m = Inr (take (nat k) (sort_by hit_before (map (entry_hit (mx_metric m) q) es)))"
proof -
  obtain rs where rs: "matrix_ok m rs" using inv by (auto simp: mx_inv_def)
  note d = matrix_okD [OF rs]
  have "set (zip (mx_ids m) rs) = set es"
  proof (intro set_eqI)
    fix x
    show "x \<in> set (zip (mx_ids m) rs) \<longleftrightarrow> x \<in> set es"
      using abs_map_of [OF rs] es d(3,4) map_of_eq_Some_iff [of es "fst x" "snd x"]
        map_of_eq_Some_iff [of "zip (mx_ids m) rs" "fst x" "snd x"] by simp
  qed
  moreover have "distinct (zip (mx_ids m) rs)" "distinct es" using d(4) es(1) by (simp_all add: distinct_zipI1 distinct_map)
  ultimately have "mset (zip (mx_ids m) rs) = mset es" by (simp add: set_eq_iff_mset_eq_distinct)
  then have m: "mset (mx_hits m q) = mset (map (entry_hit (mx_metric m) q) es)" by (simp add: mx_hits_entries [OF rs])
  have real': "\<forall>x \<in> set (map (entry_hit (mx_metric m) q) es). scored x" using real by (auto simp: scored_def entry_hit_def)
  have sets: "set (mx_hits m q) = set (map (entry_hit (mx_metric m) q) es)" using m by (metis set_mset_mset)
  have inj: "inj_on hit_key (set (map (entry_hit (mx_metric m) q) es))" by (rule hit_keys_differ [OF es(1)])
  define ranges where "ranges = worker_ranges (worker_count procs (mx_len m)) (mx_len m)"
  have all: "concat (map (map (hit_at m q)) ranges) = mx_hits m q"
    unfolding ranges_def mx_hits_def by (subst ranges_all [symmetric, of "worker_count procs (mx_len m)"]) (simp_all add: worker_count_def map_concat)
  have "mx_search sq procs (\<lambda>_. False) query k m = Inr (sort_by hit_before (fold (offer worse (nat k))
      (concat (map (\<lambda>r. fold (offer worse (nat k)) (map (hit_at m q) r) []) ranges)) []))"
    using q by (auto simp: mx_search_def stored_row_def Let_def ranges_def split: if_splits)
  also have "map (\<lambda>r. fold (offer worse (nat k)) (map (hit_at m q) r) []) ranges
      = map (\<lambda>p. fold (offer worse (nat k)) p []) (map (map (hit_at m q)) ranges)" by simp
  also have "sort_by hit_before (fold (offer worse (nat k)) (concat (map (\<lambda>p. fold (offer worse (nat k)) p []) (map (map (hit_at m q)) ranges))) [])
      = take (nat k) (sort_by hit_before (mx_hits m q))"
    unfolding before_worse using hits.workers_best [of "nat k" "map (map (hit_at m q)) ranges"] q(2) real' inj by (simp add: all sets)
  also have "sort_by hit_before (mx_hits m q) = sort_by hit_before (map (entry_hit (mx_metric m) q) es)"
    using sorted_hits_unique [OF m] real' inj by (simp add: sets)
  finally show ?thesis .
qed

text \<open>A Euclidean score of finite coordinates is always a number, even where squares overflow.\<close>

definition nonneg :: "f64 \<Rightarrow> bool" where
  "nonneg a \<longleftrightarrow> a = PInf \<or> a = NZero \<or> (\<exists>x. a = Fin x \<and> 0 \<le> x)"

lemma round_even_nonneg: "0 \<le> x \<Longrightarrow> 0 \<le> round_even x"
  by (auto simp: round_even_def Let_def)

lemma nonneg_round:
  assumes "0 \<le> x"
  shows "nonneg (f_round x)"
proof -
  have "0 \<le> round_even (x / ulp x)" by (rule round_even_nonneg) (simp add: assms less_imp_le)
  then have "0 \<le> of_int (round_even (x / ulp x)) * ulp x" by (simp add: less_imp_le)
  then show ?thesis using assms by (simp add: nonneg_def f_round_def Let_def not_less)
qed

lemma nonneg_round32:
  assumes "nonneg a"
  shows "nonneg (f32_round a)"
proof (cases "\<exists>x. a = Fin x \<and> 0 \<le> x")
  case True
  then obtain x where x: "a = Fin x" "0 \<le> x" by blast
  have u: "0 < ulp32 x" by (simp add: ulp32_def)
  have "0 \<le> round_even (x / ulp32 x)" by (rule round_even_nonneg) (simp add: x(2) u less_imp_le)
  then have "0 \<le> of_int (round_even (x / ulp32 x)) * ulp32 x" using u by simp
  then show ?thesis using x by (simp add: nonneg_def f32_round_def f_zero_def f_infinity_def Let_def)
next
  case False
  then show ?thesis using assms by (auto simp: nonneg_def f32_round_def)
qed

lemma nonneg_add: "nonneg a \<Longrightarrow> nonneg b \<Longrightarrow> nonneg (add32 a b)"
  unfolding add32_def
  by (rule nonneg_round32) (auto simp: nonneg_def [of a] nonneg_def [of b] f_add_def f_isnan_def f_isinf_def intro: nonneg_round; simp add: nonneg_def)

lemma round_not_nan: "f_round x \<noteq> NaN" "a \<noteq> NaN \<Longrightarrow> f32_round a \<noteq> NaN"
  by (auto simp: f_round_def f32_round_def f_zero_def f_infinity_def Let_def split: f64.splits if_splits)

lemma nonneg_square: "d \<noteq> NaN \<Longrightarrow> nonneg (mul32 d d)"
  unfolding mul32_def
  by (rule nonneg_round32) (auto simp: f_mul_def Let_def f_isnan_def f_isinf_def f_iszero_def f_zero_def f_infinity_def intro: nonneg_round; simp add: nonneg_def)

lemma sub_not_nan: "f_finite a \<Longrightarrow> f_finite b \<Longrightarrow> sub32 a b \<noteq> NaN"
  by (cases a; cases b) (auto simp: sub32_def f_sub_def f_add_def f_finite_def f_isnan_def f_isinf_def round_not_nan)

lemma score_nonneg_sum: "nonneg y \<Longrightarrow> div32 (Fin 1) (add32 (Fin 1) y) \<noteq> NaN"
  using nonneg_add [of "Fin 1" y] unfolding div32_def
  by (intro round_not_nan(2)) (auto simp: f_div_def Let_def f_isnan_def f_isinf_def f_iszero_def f_infinity_def f_zero_def round_not_nan nonneg_def)

lemma lanes_keep:
  assumes add: "\<And>x y. P x \<Longrightarrow> P y \<Longrightarrow> P (add x y)" and mul: "\<forall>x \<in> set a. \<forall>y \<in> set b. P (mul x y)"
    and s: "length s = 8" "\<forall>x \<in> set s. P x" and l: "length b = length a"
  shows "length (lanes add mul a b s) = 8 \<and> (\<forall>x \<in> set (lanes add mul a b s). P x)"
  using mul s l
proof (induction "length a" arbitrary: a b s rule: less_induct)
  case less
  show ?case
  proof (cases "length a < 8")
    case True
    have "P (fold (\<lambda>(x, y) t. add t (mul x y)) ps t)" if "P t" "\<forall>(x, y) \<in> set ps. P (mul x y)" for ps t
      using that by (induction ps arbitrary: t) (auto intro: add)
    moreover have "\<forall>(x, y) \<in> set (zip a b). P (mul x y)" using less.prems(1) by (auto dest: set_zip_leftD set_zip_rightD)
    ultimately have "P (fold (\<lambda>(x, y) t. add t (mul x y)) (zip a b) (s ! 0))" using less.prems(2,3) by simp
    moreover have "lanes add mul a b s = s[0 := fold (\<lambda>(x, y) t. add t (mul x y)) (zip a b) (s ! 0)]"
      using True by (subst lanes.simps) simp
    ultimately show ?thesis using less.prems(2,3) set_update_subset_insert [of s 0] by auto
  next
    case False
    let ?s = "map2 (\<lambda>t (x, y). add t (mul x y)) s (zip (take 8 a) (take 8 b))"
    have "\<forall>x \<in> set ?s. P x"
    proof
      fix z assume "z \<in> set ?s"
      then obtain t x y where "z = add t (mul x y)" "t \<in> set s" "(x, y) \<in> set (zip (take 8 a) (take 8 b))"
        by (auto dest: set_zip_leftD set_zip_rightD)
      moreover from this have "x \<in> set a" "y \<in> set b" by (meson set_zip_leftD set_zip_rightD in_set_takeD)+
      ultimately show "P z" using less.prems(1,3) add by blast
    qed
    moreover have "length ?s = 8" using False less.prems by simp
    moreover have "lanes add mul a b s = lanes add mul (drop 8 a) (drop 8 b) ?s" using False by (subst lanes.simps) simp
    moreover have "\<forall>x \<in> set (drop 8 a). \<forall>y \<in> set (drop 8 b). P (mul x y)" using less.prems(1) by (auto dest: in_set_dropD)
    ultimately show ?thesis using less.hyps [of "drop 8 a" "drop 8 b" ?s] False less.prems(4) by auto
  qed
qed

lemma euclidean_score_real:
  assumes "length row = length q" "\<forall>x \<in> set q. f_finite x" "\<forall>y \<in> set row. f_finite y"
  shows "score Euclidean q row \<noteq> NaN"
proof -
  let ?t = "\<lambda>x y. mul32 (sub32 x y) (sub32 x y)"
  have t: "\<forall>x \<in> set q. \<forall>y \<in> set row. nonneg (?t x y)" using assms(2,3) sub_not_nan nonneg_square by blast
  have z: "length (eight (Fin 0)) = 8" "\<forall>x \<in> set (eight (Fin 0)). nonneg x" by (simp_all add: eight_def nonneg_def)
  have "length (lanes add32 ?t q row (eight (Fin 0))) = 8 \<and> (\<forall>x \<in> set (lanes add32 ?t q row (eight (Fin 0))). nonneg x)"
    by (rule lanes_keep [OF nonneg_add t z assms(1)])
  then have "nonneg (squaredL2 q row)"
    unfolding squaredL2_def kernel_def sum_lanes_def by (intro nonneg_add) simp_all
  then show ?thesis by (simp add: score_def score_nonneg_sum)
qed

section \<open>Building in bulk\<close>

definition builder_ok :: "builder \<Rightarrow> f64 list list \<Rightarrow> bool" where
  "builder_ok b rs \<longleftrightarrow> bd_data b = concat rs \<and> in_rows (bd_dim b) rs \<and> length rs = length (bd_ids b)"

lemma keep_ok: "builder_ok b rs \<Longrightarrow> length r = bd_dim b \<Longrightarrow> builder_ok (keep_row i (nextRow r b)) (rs @ [r])"
  by (simp add: builder_ok_def keep_row_def nextRow_def in_rows_def)

lemma discard_ok: "builder_ok b rs \<Longrightarrow> length r = bd_dim b \<Longrightarrow> discard_row (nextRow r b) = b"
  by (simp add: discard_row_def nextRow_def)

definition normalized :: "(f64 \<Rightarrow> f64) \<Rightarrow> f64 list \<Rightarrow> f64 list" where
  "normalized sq r = (case normalize32 sq r of Some x \<Rightarrow> x | None \<Rightarrow> r)"

lemma normalized_length [simp]: "length (normalized sq r) = length r"
  by (auto simp: normalized_def normalize32_def Let_def)

lemma normalize_rows_closed:
  assumes "in_rows d rs"
  shows "normalize_rows sq d (length rs) (concat rs) = (map (\<lambda>r. normalize32 sq r \<noteq> None) rs, concat (map (normalized sq) rs))"
proof -
  let ?f = "\<lambda>(ks, xs) i. case normalize32 sq (row_at d i xs) of
       None \<Rightarrow> (ks @ [False], xs) | Some row \<Rightarrow> (ks @ [True], blit d i row xs)"
  have "foldl ?f ([], concat rs) [0..<n]
      = (map (\<lambda>r. normalize32 sq r \<noteq> None) (take n rs), concat (map (normalized sq) (take n rs) @ drop n rs))" if "n \<le> length rs" for n
    using that
  proof (induction n)
    case (Suc n)
    let ?rs = "map (normalized sq) (take n rs) @ drop n rs"
    have i: "in_rows d ?rs" "n < length ?rs" "?rs ! n = rs ! n"
      using assms Suc.prems by (auto simp: in_rows_def nth_append dest: in_set_takeD in_set_dropD)
    have u: "?rs[n := x] = map (normalized sq) (take n rs) @ x # drop (Suc n) rs" for x
      using Suc.prems by (simp add: list_update_append Cons_nth_drop_Suc [symmetric])
    have t: "take (Suc n) rs = take n rs @ [rs ! n]" "drop n rs = rs ! n # drop (Suc n) rs"
      using Suc.prems by (simp_all add: take_Suc_conv_app_nth Cons_nth_drop_Suc)
    have "foldl ?f ([], concat rs) [0..<Suc n] = ?f (map (\<lambda>r. normalize32 sq r \<noteq> None) (take n rs), concat ?rs) n" using Suc by simp
    also have "\<dots> = (map (\<lambda>r. normalize32 sq r \<noteq> None) (take (Suc n) rs), concat (map (normalized sq) (take (Suc n) rs) @ drop (Suc n) rs))"
    proof (cases "normalize32 sq (rs ! n)")
      case None
      then have "normalized sq (rs ! n) = rs ! n" by (simp add: normalized_def)
      then show ?thesis using None row_at_rows [OF i(1,2)] i(3) by (simp add: t)
    next
      case (Some x)
      then have "normalized sq (rs ! n) = x" by (simp add: normalized_def)
      then show ?thesis using Some row_at_rows [OF i(1,2)] i(3) blit_rows [OF i(1,2), of x] u by (simp add: t(1))
    qed
    finally show ?case .
  qed simp
  from this [of "length rs"] show ?thesis by (simp add: normalize_rows_def)
qed

lemma index_ids_snoc: "index_ids (ids @ [x]) = (index_ids ids)(x \<mapsto> length ids)"
  by (simp add: index_ids_def)

lemma index_ids_pos: "distinct ids \<Longrightarrow> index_ids ids x = Some p \<longleftrightarrow> p < length ids \<and> ids ! p = x"
proof (induction ids rule: rev_induct)
  case (snoc y ys)
  then show ?case by (auto simp: index_ids_snoc nth_append less_Suc_eq)
qed (simp add: index_ids_def)

text \<open>The compaction moves the kept rows together, in order.\<close>

definition kept_at :: "bool list \<Rightarrow> nat \<Rightarrow> nat list" where
  "kept_at ks n = filter (\<lambda>i. ks ! i) [0..<n]"

lemma kept_at_le: "length (kept_at ks n) \<le> n"
  unfolding kept_at_def by (metis diff_zero length_filter_le length_upt)

lemma take_update: "k < length xs \<Longrightarrow> take (Suc k) (xs[k := x]) = take k xs @ [x]"
  by (simp add: take_Suc_conv_app_nth)

lemma compact_loop:
  fixes ids :: "int list" and ks :: "bool list"
  assumes "in_rows d rs" "length rs = length ids" "n \<le> length ids"
  defines "f \<equiv> \<lambda>(k, is, xs) i.
       if \<not> ks ! i then (k, is, xs)
       else if k \<noteq> i then (k + 1, is[k := is ! i], blit d k (row_at d i xs) xs)
       else (k + 1, is, xs)"
  shows "\<exists>is qs. foldl f (0, ids, concat rs) [0..<n] = (length (kept_at ks n), is, concat qs)
    \<and> in_rows d qs \<and> length qs = length ids \<and> length is = length ids
    \<and> take (length (kept_at ks n)) is = map ((!) ids) (kept_at ks n) \<and> take (length (kept_at ks n)) qs = map ((!) rs) (kept_at ks n)
    \<and> (\<forall>j. n \<le> j \<and> j < length ids \<longrightarrow> is ! j = ids ! j \<and> qs ! j = rs ! j)"
  using assms(3)
proof (induction n)
  case 0
  then show ?case using assms(1,2) by (auto simp: kept_at_def)
next
  case (Suc n)
  let ?k = "length (kept_at ks n)"
  from Suc obtain ids' qs where h: "foldl f (0, ids, concat rs) [0..<n] = (?k, ids', concat qs)" "in_rows d qs" "length qs = length ids"
    "length ids' = length ids" "take ?k ids' = map ((!) ids) (kept_at ks n)" "take ?k qs = map ((!) rs) (kept_at ks n)"
    "\<forall>j. n \<le> j \<and> j < length ids \<longrightarrow> ids' ! j = ids ! j \<and> qs ! j = rs ! j" by auto
  have n: "n < length ids" "ids' ! n = ids ! n" "qs ! n = rs ! n" using Suc.prems h(7) by auto
  have k: "?k \<le> n" by (rule kept_at_le)
  have more: "kept_at ks (Suc n) = kept_at ks n @ (if ks ! n then [n] else [])" by (simp add: kept_at_def)
  show ?case
  proof (cases "ks ! n")
    case False
    then show ?thesis using h more by (intro exI [of _ ids'] exI [of _ qs]) (simp add: f_def)
  next
    case True
    have r: "length (rs ! n) = d" using assms(1,2) n(1) by (simp add: in_rows_def)
    have "f (?k, ids', concat qs) n = (?k + 1, ids'[?k := ids ! n], concat (qs[?k := rs ! n]))"
    proof (cases "?k = n")
      case True
      then show ?thesis using \<open>ks ! n\<close> n h(3,4) list_update_id [of ids' n] list_update_id [of qs n] by (simp add: f_def)
    next
      case False
      then show ?thesis using \<open>ks ! n\<close> n h(2,3) k by (simp add: f_def row_at_rows blit_rows)
    qed
    then have "foldl f (0, ids, concat rs) [0..<Suc n] = (length (kept_at ks (Suc n)), ids'[?k := ids ! n], concat (qs[?k := rs ! n]))"
      using True by (simp add: h(1) more)
    moreover have "take (length (kept_at ks (Suc n))) (ids'[?k := ids ! n]) = map ((!) ids) (kept_at ks (Suc n))"
      "take (length (kept_at ks (Suc n))) (qs[?k := rs ! n]) = map ((!) rs) (kept_at ks (Suc n))"
      using True k n(1) h(3-6) take_update [of ?k ids'] take_update [of ?k qs] by (simp_all add: more)
    moreover have "\<forall>j. Suc n \<le> j \<and> j < length ids \<longrightarrow> ids'[?k := ids ! n] ! j = ids ! j \<and> qs[?k := rs ! n] ! j = rs ! j"
      using h(7) k by auto
    moreover have "in_rows d (qs[?k := rs ! n])" by (rule in_rows_update [OF h(2) r])
    ultimately show ?thesis using h(3,4) by (intro exI [of _ "ids'[?k := ids ! n]"] exI [of _ "qs[?k := rs ! n]"]) simp
  qed
qed

lemma compact_closed:
  assumes "in_rows d rs" "length rs = length ids"
  shows "\<exists>k is xs. compact d ks ids (concat rs) = (k, is, xs) \<and> take k is = map ((!) ids) (kept_at ks (length ids))
    \<and> take (k * d) xs = concat (map ((!) rs) (kept_at ks (length ids)))"
proof -
  obtain is' qs where h: "compact d ks ids (concat rs) = (length (kept_at ks (length ids)), is', concat qs)" "in_rows d qs"
    "take (length (kept_at ks (length ids))) is' = map ((!) ids) (kept_at ks (length ids))"
    "take (length (kept_at ks (length ids))) qs = map ((!) rs) (kept_at ks (length ids))"
    using compact_loop [OF assms, of "length ids" ks] unfolding compact_def by blast
  then show ?thesis using take_rows [OF h(2)] by auto
qed

text \<open>The entries a builder's rows make.\<close>

definition kept_entries :: "(f64 \<Rightarrow> f64) \<Rightarrow> metric \<Rightarrow> (int \<times> f64 list) list \<Rightarrow> (int \<times> f64 list) list" where
  "kept_entries sq k es = concat (map (\<lambda>(i, r). case stored_row sq k r of None \<Rightarrow> [] | Some x \<Rightarrow> [(i, x)]) es)"

lemma kept_entries_keys: "fst ` set (kept_entries sq k es) \<subseteq> fst ` set es"
  unfolding kept_entries_def by (force split: option.splits)

lemma kept_entries_map: "distinct (map fst es) \<Longrightarrow> map_of (kept_entries sq k es) i = Option.bind (map_of es i) (stored_row sq k)"
proof (induction es)
  case (Cons e es)
  obtain j r where e: "e = (j, r)" by (cases e)
  have "map_of (kept_entries sq k es) j = None"
    using kept_entries_keys [of sq k es] Cons.prems e by (auto simp: map_of_eq_None_iff)
  then show ?case using Cons e by (auto simp: kept_entries_def split: option.splits)
qed (simp add: kept_entries_def)

lemma zip_indices: "length xs = length ys \<Longrightarrow> zip xs ys = map (\<lambda>i. (xs ! i, ys ! i)) [0..<length xs]"
  by (intro nth_equalityI) simp_all

lemma kept_entries_at:
  assumes "length rs = length ids"
  shows "map (\<lambda>i. (ids ! i, normalized sq (rs ! i))) (kept_at (map (\<lambda>r. normalize32 sq r \<noteq> None) rs) (length ids)) = kept_entries sq Cosine (zip ids rs)"
proof -
  have "map (\<lambda>i. (ids ! i, normalized sq (rs ! i))) (filter (\<lambda>i. map (\<lambda>r. normalize32 sq r \<noteq> None) rs ! i) is)
      = concat (map (\<lambda>(i, r). case stored_row sq Cosine r of None \<Rightarrow> [] | Some x \<Rightarrow> [(i, x)]) (map (\<lambda>i. (ids ! i, rs ! i)) is))"
    if "\<forall>i \<in> set is. i < length rs" for "is"
    using that by (induction "is") (auto simp: stored_row_def normalized_def split: option.split)
  then show ?thesis unfolding kept_at_def kept_entries_def zip_indices [OF assms [symmetric]] using assms by simp
qed

lemma builder_entries:
  assumes b: "builder_ok b rs" and d: "distinct (bd_ids b)"
  shows "\<exists>qs. matrix_ok (builder_matrix sq b) qs \<and> zip (mx_ids (builder_matrix sq b)) qs = kept_entries sq (bd_metric b) (zip (bd_ids b) rs)"
proof -
  note h = b [unfolded builder_ok_def]
  show ?thesis
  proof (cases "bd_metric b = Cosine")
    case True
    define ks where "ks = map (\<lambda>r. normalize32 sq r \<noteq> None) rs"
    let ?K = "kept_at ks (length (bd_ids b))"
    have norm: "normalize_rows sq (bd_dim b) (length (bd_ids b)) (bd_data b) = (ks, concat (map (normalized sq) rs))"
      using normalize_rows_closed [of "bd_dim b" rs sq] h by (simp add: ks_def)
    have rows: "in_rows (bd_dim b) (map (normalized sq) rs)" using h by (simp add: in_rows_def)
    obtain k ids xs where c: "compact (bd_dim b) ks (bd_ids b) (concat (map (normalized sq) rs)) = (k, ids, xs)"
      "take k ids = map ((!) (bd_ids b)) ?K" "take (k * bd_dim b) xs = concat (map ((!) (map (normalized sq) rs)) ?K)"
      using compact_closed [OF rows, of "bd_ids b" ks] h by auto
    have K: "\<forall>i \<in> set ?K. i < length rs" "distinct ?K" using h by (auto simp: kept_at_def)
    let ?qs = "map (\<lambda>i. normalized sq (rs ! i)) ?K"
    have q: "map ((!) (map (normalized sq) rs)) ?K = ?qs" using K(1) by simp
    have m: "builder_matrix sq b = \<lparr>mx_dim = bd_dim b, mx_metric = Cosine, mx_ids = map ((!) (bd_ids b)) ?K, mx_data = concat ?qs,
        mx_pos = index_ids (map ((!) (bd_ids b)) ?K)\<rparr>"
      using True norm c q by (simp add: builder_matrix_def)
    have dist: "distinct (map ((!) (bd_ids b)) ?K)"
      using K h d by (auto simp: distinct_map inj_on_def nth_eq_iff_index_eq)
    have "matrix_ok (builder_matrix sq b) ?qs"
      using dist index_ids_pos [OF dist] K(1) h by (auto simp: m matrix_ok_def in_rows_def)
    moreover have "zip (map ((!) (bd_ids b)) ?K) ?qs = kept_entries sq Cosine (zip (bd_ids b) rs)"
      using kept_entries_at [of rs "bd_ids b" sq] h by (simp add: zip_map_map zip_same_conv_map ks_def comp_def)
    ultimately show ?thesis using True by (auto simp: m)
  next
    case False
    then have m: "builder_matrix sq b = \<lparr>mx_dim = bd_dim b, mx_metric = bd_metric b, mx_ids = bd_ids b, mx_data = bd_data b, mx_pos = index_ids (bd_ids b)\<rparr>"
      by (simp add: builder_matrix_def)
    have "kept_entries sq (bd_metric b) es = es" for es
      using False by (induction es) (auto simp: kept_entries_def stored_row_def)
    moreover have "matrix_ok (builder_matrix sq b) rs" using h d index_ids_pos [OF d] by (simp add: m matrix_ok_def)
    ultimately show ?thesis by (auto simp: m)
  qed
qed

text \<open>Inserting one by one.\<close>

definition insert_all :: "(f64 \<Rightarrow> f64) \<Rightarrow> (int \<times> f64 list) list \<Rightarrow> matrix \<Rightarrow> string + matrix" where
  "insert_all sq es m = foldE (\<lambda>(i, v) m. bindE (mx_upsert sq i v m) (\<lambda>(_, h). Inr h)) es m"

lemma insert_all_refines:
  assumes "mx_inv m" "\<forall>e \<in> set es. length (snd e) = mx_dim m" "distinct (map fst es)"
  shows "\<exists>h. insert_all sq es m = Inr h \<and> mx_inv h \<and> mx_dim h = mx_dim m \<and> mx_metric h = mx_metric m
    \<and> mx_abs h = (\<lambda>i. case map_of es i of None \<Rightarrow> mx_abs m i | Some v \<Rightarrow> stored_row sq (mx_metric m) v)"
  using assms
proof (induction es arbitrary: m)
  case Nil
  then show ?case by (simp add: insert_all_def)
next
  case (Cons e es)
  obtain i v where e: "e = (i, v)" by (cases e)
  obtain g where g: "mx_upsert sq i v m = Inr (stored_row sq (mx_metric m) v \<noteq> None, g)" "mx_inv g" "mx_dim g = mx_dim m"
    "mx_metric g = mx_metric m" "mx_abs g = (mx_abs m)(i := stored_row sq (mx_metric m) v)"
    using upsert_refines [OF Cons.prems(1), of v sq i] Cons.prems(2) e by auto
  obtain h where h: "insert_all sq es g = Inr h" "mx_inv h" "mx_dim h = mx_dim g" "mx_metric h = mx_metric g"
    "mx_abs h = (\<lambda>i. case map_of es i of None \<Rightarrow> mx_abs g i | Some v \<Rightarrow> stored_row sq (mx_metric g) v)"
    using Cons.IH [OF g(2)] Cons.prems(2,3) g(3) by auto
  have "map_of es i = None" using Cons.prems(3) e by (auto simp: map_of_eq_None_iff)
  then have "mx_abs h = (\<lambda>j. case map_of (e # es) j of None \<Rightarrow> mx_abs m j | Some v \<Rightarrow> stored_row sq (mx_metric m) v)"
    by (auto simp: h(5) g(4,5) e fun_eq_iff split: option.split)
  moreover have "insert_all sq (e # es) m = insert_all sq es g" using g(1) by (simp add: insert_all_def e)
  ultimately show ?case using g(3,4) h by simp
qed

lemma bind_eq_case: "Option.bind x f = (case x of None \<Rightarrow> None | Some v \<Rightarrow> f v)"
  by (cases x) simp_all

theorem builder_matches:
  assumes b: "builder_ok b rs" and d: "distinct (bd_ids b)"
  shows "\<exists>h. insert_all sq (zip (bd_ids b) rs) (newMatrix (bd_dim b) (bd_metric b)) = Inr h \<and> mx_inv h
    \<and> mx_inv (builder_matrix sq b) \<and> mx_abs (builder_matrix sq b) = mx_abs h"
proof -
  note h = b [unfolded builder_ok_def]
  have dz: "distinct (map fst (zip (bd_ids b) rs))" using d h by simp
  have "mx_inv (newMatrix (bd_dim b) (bd_metric b))" using newMatrix_ok by (auto simp: mx_inv_def)
  moreover have "\<forall>e \<in> set (zip (bd_ids b) rs). length (snd e) = mx_dim (newMatrix (bd_dim b) (bd_metric b))"
    using h by (auto simp: newMatrix_def in_rows_def dest: set_zip_rightD)
  ultimately obtain m where m: "insert_all sq (zip (bd_ids b) rs) (newMatrix (bd_dim b) (bd_metric b)) = Inr m" "mx_inv m"
    "mx_abs m = (\<lambda>i. case map_of (zip (bd_ids b) rs) i of None \<Rightarrow> mx_abs (newMatrix (bd_dim b) (bd_metric b)) i
      | Some v \<Rightarrow> stored_row sq (mx_metric (newMatrix (bd_dim b) (bd_metric b))) v)"
    using insert_all_refines [OF _ _ dz, of "newMatrix (bd_dim b) (bd_metric b)" sq] by blast
  have n: "mx_metric (newMatrix (bd_dim b) (bd_metric b)) = bd_metric b" by (simp add: newMatrix_def)
  obtain qs where q: "matrix_ok (builder_matrix sq b) qs"
    "zip (mx_ids (builder_matrix sq b)) qs = kept_entries sq (bd_metric b) (zip (bd_ids b) rs)"
    using builder_entries [OF b d, of sq] by metis
  have "mx_abs (builder_matrix sq b) = mx_abs m"
    unfolding abs_map_of [OF q(1)] q(2) m(3) n newMatrix_abs
    by (rule ext) (simp only: kept_entries_map [OF dz] bind_eq_case)
  then show ?thesis using m q(1) by (auto simp: mx_inv_def)
qed

end
