(* ===== verification/Project.thy ===== *)
theory Project
  imports EvalFacts HitHeap
begin

text \<open>
  WITH and RETURN: cypher/interp/project.go. The items are evaluated for every row, or for every group when one of them
  aggregates; DISTINCT, ORDER BY, SKIP, LIMIT and the WHERE of a WITH follow. The values an aggregate was given are
  keyed by its call, those of the items by their tree, as in the evaluator.
\<close>

section \<open>Items\<close>

type_synonym 'b proj_item = "string \<times> 'b expr"

record qstate =
  qs_rows :: "row list"
  qs_vars :: "string list"

fun item_name :: "'b expr \<times> string \<times> string \<Rightarrow> string" where
  "item_name (e, alias, src) = (if alias \<noteq> [] then alias else case e of Ident x \<Rightarrow> x | _ \<Rightarrow> src)"

definition projItems :: "'b projection \<Rightarrow> string list \<Rightarrow> 'b proj_item list" where
  "projItems p vars = (case p of Projection uniq star items order skip limit \<Rightarrow>
     (if star then map (\<lambda>v. (v, Ident v)) vars else []) @ map (\<lambda>it. (item_name it, fst it)) items)"

text \<open>The parts of an expression that share its scope, as \<open>walkExpr\<close> visits them.\<close>

fun kids :: "'b expr \<Rightarrow> 'b expr list" where
  "kids (Binary op a b) = [a, b]"
| "kids (Unary op a) = [a]"
| "kids (Comparison es ops) = es"
| "kids (IsNull a neg) = [a]"
| "kids (HasLabels a le) = [a]"
| "kids (Property a k) = [a]"
| "kids (Subscript a i) = [a, i]"
| "kids (Slice a from to) = a # (case from of Some x \<Rightarrow> [x] | None \<Rightarrow> []) @ (case to of Some x \<Rightarrow> [x] | None \<Rightarrow> [])"
| "kids (FuncCall ns f uniq star args) = args"
| "kids (CaseExpr subj whens els) = (case subj of Some x \<Rightarrow> [x] | None \<Rightarrow> []) @ concat (map (\<lambda>w. [fst w, snd w]) whens)
     @ (case els of Some x \<Rightarrow> [x] | None \<Rightarrow> [])"
| "kids (ListLit es) = es"
| "kids (MapLit kes) = map snd kes"
| "kids (ListComp x src wh proj) = [src]"
| "kids (Quantifier k x src wh) = [src]"
| "kids (Reduce acc ini x src e) = [ini, src]"
| "kids (MapProjection a items) = a # concat (map (\<lambda>it. case snd (snd it) of Some x \<Rightarrow> [x] | None \<Rightarrow> []) items)"
| "kids e = []"

lemma size_kids: "k \<in> set (kids e) \<Longrightarrow> size k < size e"
proof (cases e)
  case (MapProjection a items)
  assume "k \<in> set (kids e)"
  then have "k = a \<or> (\<exists>it \<in> set items. snd (snd it) = Some k)" using MapProjection by (fastforce split: option.splits)
  then show ?thesis
  proof
    assume "\<exists>it \<in> set items. snd (snd it) = Some k"
    then obtain x y where "(x, y, Some k) \<in> set items" by (metis prod.collapse)
    then show ?thesis using MapProjection size_member [of "(x, y, Some k)" items "size_prod (\<lambda>x. 0) (size_prod (\<lambda>x. 0) (size_option size))"] by simp
  qed (simp add: MapProjection)
next
  case (CaseExpr subj whens els)
  assume "k \<in> set (kids e)"
  then consider "subj = Some k" | c where "(k, c) \<in> set whens" | c where "(c, k) \<in> set whens" | "els = Some k"
    using CaseExpr by (fastforce split: option.splits)
  then show ?thesis
    by cases (use CaseExpr in \<open>auto dest!: size_member [of _ _ "size_prod size size"]\<close>)
qed (auto split: option.splits dest!: size_member [of _ _ size] size_member [of _ _ "size_prod (\<lambda>x. 0) size"])

definition is_aggregate_call :: "world \<Rightarrow> 'b expr \<Rightarrow> bool" where
  "is_aggregate_call w e = (case e of FuncCall ns f uniq star args \<Rightarrow> isAggregate w ns f | _ \<Rightarrow> False)"

function aggregateCalls :: "world \<Rightarrow> 'b expr \<Rightarrow> 'b expr list" where
  "aggregateCalls w e = (if is_aggregate_call w e then [e] else concat (map (aggregateCalls w) (kids e)))"
  by pat_completeness auto
termination by (relation "measure (\<lambda>(w, e). size e)") (auto simp: size_kids)

declare aggregateCalls.simps [simp del]

section \<open>Aggregate functions\<close>

definition int_add_wraps :: "int \<Rightarrow> int \<Rightarrow> int \<Rightarrow> bool" where
  "int_add_wraps i x s \<longleftrightarrow> (0 < i \<and> 0 < x \<and> s < 0) \<or> (i < 0 \<and> x < 0 \<and> 0 \<le> s)"

text \<open>The sum so far: of integers, or of floats once there is one.\<close>

definition sum_step :: "val \<Rightarrow> int + f64 \<Rightarrow> fault + (int + f64)" where
  "sum_step v acc = (case v of
       VInt x \<Rightarrow> (case acc of
           Inl i \<Rightarrow> let s = w64 (i + x) in if int_add_wraps i x s then intOverflow else Inr (Inl s)
         | Inr f \<Rightarrow> Inr (Inr (f_add f (f_of_int x))))
     | VFloat x \<Rightarrow> Inr (Inr (f_add (case acc of Inl i \<Rightarrow> f_of_int i | Inr f \<Rightarrow> f) x))
     | _ \<Rightarrow> type_fault ''sum() expects numbers, got %s'')"

definition sumValues :: "val list \<Rightarrow> fault + val" where
  "sumValues vs = bindE (foldE sum_step vs (Inl 0)) (\<lambda>acc. Inr (case acc of Inl i \<Rightarrow> VInt i | Inr f \<Rightarrow> VFloat f))"

definition numbers :: "string \<Rightarrow> val list \<Rightarrow> fault + f64 list" where
  "numbers msg vs = mapE (\<lambda>v. if isNumber v then Inr (toFloat v) else type_fault msg) vs"

definition avg_values :: "val list \<Rightarrow> fault + val" where
  "avg_values vs = (if vs = [] then Inr VNull
     else bindE (numbers ''avg() expects numbers, got %s'' vs) (\<lambda>ns.
       Inr (VFloat (f_div (foldl f_add (Fin 0) ns) (f_of_int (int (length vs)))))))"

text \<open>The first value no later one beats; a comparison that is impossible panics.\<close>

definition no_order :: "fault + 'a" where "no_order = Inl (GoPanic ''interface conversion'')"

definition better :: "bool \<Rightarrow> val \<Rightarrow> val \<Rightarrow> fault + val" where
  "better least v b = (case orderCompare v b of None \<Rightarrow> no_order
     | Some c \<Rightarrow> Inr (if (if least then c < 0 else 0 < c) then v else b))"

definition extreme :: "bool \<Rightarrow> val list \<Rightarrow> fault + val" where
  "extreme least vs = (case vs of [] \<Rightarrow> Inr VNull | v # rest \<Rightarrow> foldE (better least) rest v)"

text \<open>\<open>sort.Float64s\<close> puts what is not a number first.\<close>

definition float_less :: "f64 \<Rightarrow> f64 \<Rightarrow> bool" where
  "float_less a b \<longleftrightarrow> f_less a b \<or> (f_isnan a \<and> \<not> f_isnan b)"

definition percentile_of :: "(f64 \<Rightarrow> int) \<Rightarrow> bool \<Rightarrow> f64 \<Rightarrow> val list \<Rightarrow> f64 list \<Rightarrow> val" where
  "percentile_of conv disc p vals nums = (let ns = sort_by float_less nums; n = int (length nums) in
     if disc then (let idx = max 0 (\<lceil>f_rat (f_mul p (f_of_int n))\<rceil> - 1); x = ns ! nat idx in
         if \<forall>v \<in> set vals. \<exists>i. v = VInt i then VInt (int_of_f64 conv x) else VFloat x)
     else (let rank = f_mul p (f_of_int (n - 1)); lo = \<lfloor>f_rat rank\<rfloor>; hi = \<lceil>f_rat rank\<rceil> in
       VFloat (f_add (ns ! nat lo) (f_mul (f_sub (ns ! nat hi) (ns ! nat lo)) (f_sub rank (f_of_int lo))))))"

definition first_row :: "row list \<Rightarrow> row" where "first_row rs = (case rs of [] \<Rightarrow> [] | r # _ \<Rightarrow> r)"

definition percentile :: "'b exec \<Rightarrow> bool \<Rightarrow> 'b expr list \<Rightarrow> row list \<Rightarrow> val list \<Rightarrow> fault + val" where
  "percentile ex disc args rows vals = (case args of
       [_, parg] \<Rightarrow> bindE (eval ex parg (first_row rows)) (\<lambda>pv.
         if \<not> isNumber pv then type_fault ''percentile must be a number''
         else let p = toFloat pv in
           if f_less p (Fin 0) \<or> f_less (Fin 1) p \<or> f_isnan p
           then raise_err ''ArgumentError'' ''NumberOutOfRange'' ''percentile must be between 0.0 and 1.0''
           else if vals = [] then Inr VNull
           else bindE (numbers ''%s() expects numbers, got %s'' vals) (\<lambda>ns.
             Inr (percentile_of (platform_int (w_tenv (x_world ex))) disc p vals ns)))
     | _ \<Rightarrow> raise_err ''SyntaxError'' ''InvalidNumberOfArguments'' ''%s() requires two arguments'')"

definition stdev :: "gomath \<Rightarrow> bool \<Rightarrow> val list \<Rightarrow> fault + val" where
  "stdev m population vals = (if vals = [] then Inr (VFloat (Fin 0))
     else bindE (numbers ''stDev() expects numbers, got %s'' vals) (\<lambda>ns.
       let n = f_of_int (int (length vals)); mean = f_div (foldl f_add (Fin 0) ns) n;
           sq = foldl (\<lambda>t x. f_add t (f_mul (f_sub x mean) (f_sub x mean))) (Fin 0) ns
       in if population then Inr (VFloat (m_sqrt m (f_div sq n)))
          else if length vals < 2 then Inr (VFloat (Fin 0))
          else Inr (VFloat (m_sqrt m (f_div sq (f_sub n (Fin 1)))))))"

text \<open>The values an aggregate sees: no nulls, and each once under DISTINCT.\<close>

definition take_value :: "bool \<Rightarrow> val \<Rightarrow> val list \<times> string list \<Rightarrow> val list \<times> string list" where
  "take_value uniq v acc = (case acc of (vals, seen) \<Rightarrow>
     if v = VNull then (vals, seen)
     else if uniq then (if groupKey v \<in> set seen then (vals, seen) else (vals @ [v], groupKey v # seen))
     else (vals @ [v], seen))"

definition aggregate_values :: "'b exec \<Rightarrow> bool \<Rightarrow> 'b expr \<Rightarrow> row list \<Rightarrow> fault + val list" where
  "aggregate_values ex uniq arg rows =
    bindE (foldE (\<lambda>r acc. bindE (eval ex arg r) (\<lambda>v. Inr (take_value uniq v acc))) rows ([], [])) (\<lambda>acc. Inr (fst acc))"

definition aggregate_of :: "'b exec \<Rightarrow> string \<Rightarrow> 'b expr list \<Rightarrow> row list \<Rightarrow> val list \<Rightarrow> fault + val" where
  "aggregate_of ex name args rows vals =
    (if name = ''count'' then Inr (VInt (int (length vals)))
     else if name = ''collect'' then Inr (VList vals)
     else if name = ''sum'' then sumValues vals
     else if name = ''avg'' then avg_values vals
     else if name = ''min'' then extreme True vals
     else if name = ''max'' then extreme False vals
     else if name = ''percentilecont'' then percentile ex False args rows vals
     else if name = ''percentiledisc'' then percentile ex True args rows vals
     else if name = ''stdev'' then stdev (w_math (x_world ex)) False vals
     else if name = ''stdevp'' then stdev (w_math (x_world ex)) True vals
     else no_support ''aggregate %s()'')"

definition aggregate :: "'b exec \<Rightarrow> 'b expr \<Rightarrow> row list \<Rightarrow> fault + val" where
  "aggregate ex e rows = (case e of
       FuncCall ns f uniq star args \<Rightarrow>
         if star then Inr (VInt (int (length rows)))
         else (case args of
             [] \<Rightarrow> raise_err ''SyntaxError'' ''InvalidNumberOfArguments'' ''%s() requires an argument''
           | arg # _ \<Rightarrow> bindE (aggregate_values ex uniq arg rows) (aggregate_of ex (t_lower (w_text (x_world ex)) f) args rows))
     | _ \<Rightarrow> no_support ''aggregate %s()'')"

section \<open>Groups\<close>

text \<open>Groups in the order of their first rows, each with its key.\<close>

definition add_to_group :: "string \<Rightarrow> row \<Rightarrow> (string \<times> row list) list \<Rightarrow> (string \<times> row list) list" where
  "add_to_group k r gs = (if k \<in> fst ` set gs then map (\<lambda>(k', rs). (k', if k' = k then rs @ [r] else rs)) gs else gs @ [(k, [r])])"

definition groupRows :: "'b exec \<Rightarrow> 'b expr list \<Rightarrow> row list \<Rightarrow> fault + row list list" where
  "groupRows ex keys rows = (if keys = [] then Inr [rows]
     else bindE (foldE (\<lambda>r gs. bindE (mapE (\<lambda>e. eval ex e r) keys) (\<lambda>vs. Inr (add_to_group (groupKey (VList vs)) r gs))) rows [])
       (\<lambda>gs. Inr (map snd gs)))"

section \<open>The projection\<close>

text \<open>A projected row, the row it came from, and the values of the items for ORDER BY.\<close>

type_synonym 'b projected = "row \<times> row \<times> ('b expr \<times> val) list"

definition project_row :: "'b exec \<Rightarrow> 'b proj_item list \<Rightarrow> row \<Rightarrow> fault + 'b projected" where
  "project_row ex items r =
    bindE (foldE (\<lambda>(x, e) nr. bindE (eval ex e r) (\<lambda>v. Inr (mput x v nr))) items []) (\<lambda>nr. Inr (nr, r, []))"

definition group_aggregates :: "'b exec \<Rightarrow> 'b proj_item list \<Rightarrow> row list \<Rightarrow> fault + ('b expr \<times> val) list" where
  "group_aggregates ex items rows =
    mapE (\<lambda>f. bindE (aggregate ex f rows) (\<lambda>v. Inr (f, v))) (concat (map (\<lambda>it. aggregateCalls (x_world ex) (snd it)) items))"

definition project_group :: "'b exec \<Rightarrow> 'b proj_item list \<Rightarrow> row list \<Rightarrow> fault + 'b projected" where
  "project_group ex items rows = (let first = first_row rows in
    bindE (group_aggregates (ex\<lparr>x_agg := []\<rparr>) items rows) (\<lambda>aggs.
    bindE (foldE (\<lambda>(x, e) (nr, sub). bindE (eval (ex\<lparr>x_agg := aggs\<rparr>) e first) (\<lambda>v. Inr (mput x v nr, (e, v) # sub))) items ([], []))
      (\<lambda>(nr, sub). Inr (nr, first, sub))))"

definition rowKey :: "row \<Rightarrow> string list \<Rightarrow> string" where
  "rowKey r cols = groupKey (VList (map (\<lambda>c. mget c r) cols))"

fun distinct_rows :: "string list \<Rightarrow> string list \<Rightarrow> 'b projected list \<Rightarrow> 'b projected list" where
  "distinct_rows cols seen [] = []"
| "distinct_rows cols seen (p # ps) = (let k = rowKey (fst p) cols in
     if k \<in> set seen then distinct_rows cols seen ps else p # distinct_rows cols (k # seen) ps)"

text \<open>The row ORDER BY and WHERE see: the projected columns over those of the row they came from.\<close>

definition overlay :: "row \<Rightarrow> row \<Rightarrow> row" where "overlay r orig = mput_all r orig"

definition sort_scope :: "bool \<Rightarrow> 'b projected \<Rightarrow> row" where
  "sort_scope aggregating p = (if aggregating then fst p else overlay (fst p) (fst (snd p)))"

definition sort_keys :: "'b exec \<Rightarrow> bool \<Rightarrow> ('b expr \<times> bool) list \<Rightarrow> 'b projected \<Rightarrow> fault + val list" where
  "sort_keys ex aggregating order p =
    mapE (\<lambda>s. eval (if aggregating then ex\<lparr>x_subst := snd (snd p)\<rparr> else ex) (fst s) (sort_scope aggregating p)) order"

fun order_keys :: "bool list \<Rightarrow> val list \<Rightarrow> val list \<Rightarrow> int option" where
  "order_keys (d # ds) (a # as) (b # bs) = (case orderCompare a b of None \<Rightarrow> None
     | Some c \<Rightarrow> let c' = if d then - c else c in if c' \<noteq> 0 then Some c' else order_keys ds as bs)"
| "order_keys ds as bs = Some 0"

definition keys_before :: "bool list \<Rightarrow> 'x \<times> val list \<Rightarrow> 'x \<times> val list \<Rightarrow> bool" where
  "keys_before ds a b = (case order_keys ds (snd a) (snd b) of Some c \<Rightarrow> c < 0 | None \<Rightarrow> False)"

text \<open>
  \<open>sort.SliceStable\<close> with that comparison; when two of the rows cannot be compared the comparison panics (the library
  may in fact not get to compare these two).
\<close>

definition sort_projected :: "bool list \<Rightarrow> ('x \<times> val list) list \<Rightarrow> fault + ('x \<times> val list) list" where
  "sort_projected ds ps =
    (if \<exists>a \<in> set ps. \<exists>b \<in> set ps. order_keys ds (snd a) (snd b) = None then no_order else Inr (sort_by (keys_before ds) ps))"

definition sortRows :: "'b exec \<Rightarrow> bool \<Rightarrow> ('b expr \<times> bool) list \<Rightarrow> 'b projected list \<Rightarrow> fault + 'b projected list" where
  "sortRows ex aggregating order ps =
    bindE (mapE (\<lambda>p. bindE (sort_keys ex aggregating order p) (\<lambda>ks. Inr (p, ks))) ps) (\<lambda>keyed.
    bindE (sort_projected (map snd order) keyed) (\<lambda>sorted. Inr (map fst sorted)))"

text \<open>A row count; none is given as -1.\<close>

definition nonNegInt :: "'b exec \<Rightarrow> 'b expr option \<Rightarrow> fault + int" where
  "nonNegInt ex e = (case e of None \<Rightarrow> Inr (- 1)
     | Some x \<Rightarrow> bindE (eval ex x []) (\<lambda>v. case v of
         VInt n \<Rightarrow> if n < 0 then raise_err ''SyntaxError'' ''NegativeIntegerArgument'' ''%s must not be negative'' else Inr n
       | _ \<Rightarrow> raise_err ''SyntaxError'' ''InvalidArgumentType'' ''%s must be an integer, got %s''))"

definition page :: "int \<Rightarrow> int \<Rightarrow> 'x list \<Rightarrow> 'x list" where
  "page skip limit xs =
    (let ys = (if 0 < skip then (if int (length xs) \<le> skip then [] else drop (nat skip) xs) else xs) in
     if 0 \<le> limit \<and> limit < int (length ys) then take (nat limit) ys else ys)"

definition keep_where :: "'b exec \<Rightarrow> bool \<Rightarrow> 'b expr option \<Rightarrow> 'b projected list \<Rightarrow> fault + 'b projected list" where
  "keep_where ex aggregating cond ps = (case cond of None \<Rightarrow> Inr ps
     | Some e \<Rightarrow> bindE (mapE (\<lambda>p. bindE (eval ex e (sort_scope aggregating p)) (\<lambda>c. Inr (p, is_true c))) ps)
         (\<lambda>cs. Inr (map fst (filter snd cs))))"

definition finishProjection :: "'b exec \<Rightarrow> 'b projection \<Rightarrow> 'b expr option \<Rightarrow> string list \<Rightarrow> bool \<Rightarrow> 'b projected list \<Rightarrow> fault + qstate" where
  "finishProjection ex p cond names aggregating ps = (case p of Projection uniq star items order skip limit \<Rightarrow>
    let ps1 = (if uniq then distinct_rows names [] ps else ps) in
    bindE (if order = [] then Inr ps1 else sortRows ex aggregating order ps1) (\<lambda>ps2.
    bindE (if skip = None \<and> limit = None then Inr ps2
      else bindE (nonNegInt ex skip) (\<lambda>s. bindE (nonNegInt ex limit) (\<lambda>l. Inr (page s l ps2)))) (\<lambda>ps3.
    bindE (keep_where ex aggregating cond ps3) (\<lambda>ps4. Inr \<lparr>qs_rows = map fst ps4, qs_vars = names\<rparr>))))"

definition projection :: "'b exec \<Rightarrow> 'b projection \<Rightarrow> 'b expr option \<Rightarrow> qstate \<Rightarrow> fault + qstate" where
  "projection ex p cond st = (let items = projItems p (qs_vars st); w = x_world ex;
       aggs = (\<lambda>it. aggregateCalls w (snd it) \<noteq> []); aggregating = (\<exists>it \<in> set items. aggs it) in
     bindE (if aggregating
       then bindE (groupRows ex (map snd (filter (\<lambda>it. \<not> aggs it) items)) (qs_rows st)) (mapE (project_group ex items))
       else mapE (project_row ex items) (qs_rows st))
     (finishProjection ex p cond (map fst items) aggregating))"

end
