(* ===== verification/ProjectFacts.thy ===== *)
theory ProjectFacts
  imports Project
begin

text \<open>
  What a projection promises: ORDER BY is the stable sort by its keys, grouping splits the rows by the values of the
  grouping items and loses none, DISTINCT keeps one row of each kind, and the sums and extremes of aggregates are exact.
\<close>

section \<open>Stable sorting\<close>

context comparator
begin

abbreviation lt :: "'a \<Rightarrow> 'a \<Rightarrow> bool" where "lt a b \<equiv> cmp a b < 0"

lemma lt_asym: "ok a \<Longrightarrow> ok b \<Longrightarrow> lt a b \<Longrightarrow> \<not> lt b a"
  using anti [of a b] by simp

lemma not_lt_trans: "ok a \<Longrightarrow> ok b \<Longrightarrow> ok c \<Longrightarrow> \<not> lt b a \<Longrightarrow> \<not> lt c b \<Longrightarrow> \<not> lt c a"
  using anti [of a b] anti [of b c] anti [of a c] trans [of a b c] by simp

lemma insert_sorted:
  assumes "\<forall>y \<in> set (x # xs). ok y" "sorted_wrt (\<lambda>a b. \<not> lt b a) xs"
  shows "sorted_wrt (\<lambda>a b. \<not> lt b a) (insert_by lt x xs)"
  using assms
proof (induction xs)
  case (Cons y ys)
  have s: "set (insert_by lt x ys) = insert x (set ys)" by (metis insert_by_mset set_mset_mset set_mset_add_mset_insert)
  show ?case
  proof (cases "lt y x")
    case True
    then show ?thesis using Cons s lt_asym [of y x] by simp
  next
    case False
    then show ?thesis using Cons.prems not_lt_trans [of x y] by auto
  qed
qed simp

lemma stable_sorted: "\<forall>x \<in> set xs. ok x \<Longrightarrow> sorted_wrt (\<lambda>a b. \<not> lt b a) (sort_by lt xs)"
proof (induction xs)
  case (Cons x xs)
  have "set (sort_by lt xs) = set xs" by simp
  then show ?case using Cons insert_sorted [of x "sort_by lt xs"] by (simp add: sort_by_def)
qed (simp add: sort_by_def)

text \<open>Elements that compare equal keep their order.\<close>

lemma insert_stable:
  assumes "\<forall>y \<in> set (x # xs). ok y" "ok a"
  shows "filter (\<lambda>y. cmp a y = 0) (insert_by lt x xs) = filter (\<lambda>y. cmp a y = 0) (x # xs)"
  using assms(1)
proof (induction xs)
  case (Cons y ys)
  have "\<not> (cmp a x = 0 \<and> cmp a y = 0)" if "lt y x"
    using that Cons.prems assms(2) anti [of a x] anti [of a y] trans [of x a y] anti [of x y] by auto
  then show ?case using Cons by auto
qed simp

lemma stable_kept: "\<forall>x \<in> set xs. ok x \<Longrightarrow> ok a \<Longrightarrow> filter (\<lambda>y. cmp a y = 0) (sort_by lt xs) = filter (\<lambda>y. cmp a y = 0) xs"
proof (induction xs)
  case (Cons x xs)
  have "set (sort_by lt xs) = set xs" by simp
  then show ?case using Cons insert_stable [of x "sort_by lt xs" a] by (simp add: sort_by_def)
qed (simp add: sort_by_def)

end

definition keys_ok :: "bool list \<Rightarrow> val list \<Rightarrow> bool" where
  "keys_ok ds ks \<longleftrightarrow> length ks = length ds \<and> list_all tame ks"

definition keys_order :: "bool list \<Rightarrow> val list \<Rightarrow> val list \<Rightarrow> int" where
  "keys_order ds a b = the (order_keys ds a b)"

lemma order_keys_Some: "keys_ok ds a \<Longrightarrow> keys_ok ds b \<Longrightarrow> order_keys ds a b = Some (keys_order ds a b)"
proof (induction ds a b rule: order_keys.induct)
  case (1 d ds a as b bs)
  then have "orderCompare a b = Some (order_of a b)" by (simp add: keys_ok_def order_of_Some)
  with 1 show ?case by (simp add: keys_ok_def keys_order_def Let_def)
qed (simp_all add: keys_order_def)

lemma keys_order_Cons:
  assumes "keys_ok (d # ds) (a # as)" "keys_ok (d # ds) (b # bs)"
  shows "keys_order (d # ds) (a # as) (b # bs) = (let c = if d then - order_of a b else order_of a b in if c \<noteq> 0 then c else keys_order ds as bs)"
proof -
  have "orderCompare a b = Some (order_of a b)" using assms by (simp add: keys_ok_def order_of_Some)
  then show ?thesis by (simp add: keys_order_def Let_def)
qed

lemma keys_ok_Cons: "keys_ok (d # ds) ks \<longleftrightarrow> (\<exists>a as. ks = a # as \<and> tame a \<and> keys_ok ds as)"
  by (cases ks) (auto simp: keys_ok_def)

interpretation keys: comparator "keys_order ds" "keys_ok ds" for ds
proof
  show "keys_order ds b a = - keys_order ds a b" if "keys_ok ds a" "keys_ok ds b" for a b
    using that
  proof (induction ds arbitrary: a b)
    case (Cons d ds)
    then obtain x as y bs where e: "a = x # as" "tame x" "keys_ok ds as" "b = y # bs" "tame y" "keys_ok ds bs"
      by (auto simp: keys_ok_Cons)
    show ?case using Cons.IH [OF e(3,6)] order.anti [OF e(2,5)] Cons.prems unfolding e(1,4)
      by (simp add: keys_order_Cons Let_def)
  qed (simp add: keys_order_def keys_ok_def)
next
  fix a b c assume "keys_ok ds a" "keys_ok ds b" "keys_ok ds c" "keys_order ds a b \<le> 0" "keys_order ds b c \<le> 0"
  then show "keys_order ds a c \<le> 0 \<and> (keys_order ds a c = 0 \<longleftrightarrow> keys_order ds a b = 0 \<and> keys_order ds b c = 0)"
  proof (induction ds arbitrary: a b c)
    case (Cons d ds)
    then obtain x as y bs z cs where e: "a = x # as" "tame x" "keys_ok ds as" "b = y # bs" "tame y" "keys_ok ds bs"
        "c = z # cs" "tame z" "keys_ok ds cs"
      by (auto simp: keys_ok_Cons)
    define g where "g u v = (if d then order_of v u else order_of u v)" for u v
    have k: "keys_order (d # ds) (u # us) (v # vs) = (if g u v \<noteq> 0 then g u v else keys_order ds us vs)"
      if "tame u" "tame v" "keys_ok ds us" "keys_ok ds vs" for u v us vs
      using that keys_order_Cons [of d ds u us v vs] order.anti [of u v] by (auto simp: keys_ok_Cons g_def Let_def)
    have gt: "g x y \<le> 0 \<Longrightarrow> g y z \<le> 0 \<Longrightarrow> g x z \<le> 0 \<and> (g x z = 0 \<longleftrightarrow> g x y = 0 \<and> g y z = 0)"
      using order.trans [OF e(2,5,8)] order.trans [OF e(8,5,2)] by (auto simp: g_def)
    show ?case
      using Cons.prems(4,5) gt Cons.IH [OF e(3,6,9)] unfolding e(1,4,7)
      by (simp add: k e(2,3,5,6,8,9) split: if_splits)
  qed (simp add: keys_order_def keys_ok_def)
qed

lemma keys_before_lt: "keys_ok ds (snd a) \<Longrightarrow> keys_ok ds (snd b) \<Longrightarrow> keys_before ds a b \<longleftrightarrow> keys_order ds (snd a) (snd b) < 0"
  by (simp add: keys_before_def order_keys_Some)

lemma sort_by_cong: "\<forall>a \<in> set xs. \<forall>b \<in> set xs. l a b = m a b \<Longrightarrow> sort_by l xs = sort_by m xs"
proof (induction xs)
  case (Cons x xs)
  have "insert_by l x ys = insert_by m x ys" if "set ys \<subseteq> set xs" for ys
    using that Cons.prems by (induction ys) auto
  then show ?case using Cons by (simp add: sort_by_def) (metis order_refl sort_by_def sort_by_set)
qed (simp add: sort_by_def)

interpretation keyed: comparator "\<lambda>a b. keys_order ds (snd a) (snd b)" "\<lambda>p. keys_ok ds (snd p)" for ds
  by unfold_locales (auto intro: keys.anti dest: keys.trans)

text \<open>The rows of ORDER BY: the same rows, in order, those with equal keys as they came.\<close>

lemma sort_projected_result:
  assumes "\<forall>p \<in> set ps. keys_ok ds (snd p)"
  shows "\<exists>qs. sort_projected ds ps = Inr qs \<and> mset qs = mset ps
    \<and> sorted_wrt (\<lambda>a b. keys_order ds (snd a) (snd b) \<le> 0) qs
    \<and> (\<forall>a \<in> set ps. filter (\<lambda>b. keys_order ds (snd a) (snd b) = 0) qs = filter (\<lambda>b. keys_order ds (snd a) (snd b) = 0) ps)"
proof -
  let ?lt = "\<lambda>a b. keys_order ds (snd a) (snd b) < 0"
  have "sort_by (keys_before ds) ps = sort_by ?lt ps"
    using assms by (intro sort_by_cong) (auto simp: keys_before_lt)
  moreover have "\<not> (\<exists>a \<in> set ps. \<exists>b \<in> set ps. order_keys ds (snd a) (snd b) = None)"
    using assms by (auto simp: order_keys_Some)
  ultimately have e: "sort_projected ds ps = Inr (sort_by ?lt ps)" unfolding sort_projected_def by (simp only: if_False)
  have "sorted_wrt (\<lambda>a b. \<not> ?lt b a) (sort_by ?lt ps)" by (rule keyed.stable_sorted) (rule assms)
  then have "sorted_wrt (\<lambda>a b. keys_order ds (snd a) (snd b) \<le> 0) (sort_by ?lt ps)"
    by (rule sorted_wrt_mono_rel [rotated]) (use assms keyed.anti in \<open>fastforce simp: not_less\<close>)
  then show ?thesis using e keyed.stable_kept [OF assms] assms by (intro exI [of _ "sort_by ?lt ps"]) simp
qed

section \<open>Groups\<close>

lemma add_to_group_closed:
  assumes "distinct ks" "set ks = K ` set rows"
  shows "add_to_group (K r) r (map (\<lambda>k. (k, filter (\<lambda>r. K r = k) rows)) ks)
    = map (\<lambda>k. (k, filter (\<lambda>r. K r = k) (rows @ [r]))) (if K r \<in> set ks then ks else ks @ [K r])"
proof (cases "K r \<in> set ks")
  case True
  then show ?thesis by (auto simp: add_to_group_def image_iff)
next
  case False
  moreover have "filter (\<lambda>x. K x = K r) rows = []" using False assms(2) by (auto simp: filter_empty_conv image_iff)
  ultimately show ?thesis by (auto simp: add_to_group_def)
qed

lemma groups_loop:
  assumes "foldE (\<lambda>r gs. bindE (f r) (\<lambda>vs. Inr (add_to_group (key vs) r gs))) rows [] = Inr gs"
  shows "(\<forall>r \<in> set rows. \<exists>vs. f r = Inr vs) \<and> (\<exists>ks. distinct ks \<and> set ks = (\<lambda>r. key (projr (f r))) ` set rows
    \<and> gs = map (\<lambda>k. (k, filter (\<lambda>r. key (projr (f r)) = k) rows)) ks)"
  using assms
proof (induction rows arbitrary: gs rule: rev_induct)
  case (snoc r rows)
  let ?K = "\<lambda>r. key (projr (f r))"
  obtain gs0 vs where g: "foldE (\<lambda>r gs. bindE (f r) (\<lambda>vs. Inr (add_to_group (key vs) r gs))) rows [] = Inr gs0" "f r = Inr vs"
    "gs = add_to_group (key vs) r gs0"
    using snoc.prems by (auto simp: foldE_append result_simps)
  from snoc.IH [OF g(1)] obtain ks where ks: "\<forall>r \<in> set rows. \<exists>vs. f r = Inr vs" "distinct ks" "set ks = ?K ` set rows"
    "gs0 = map (\<lambda>k. (k, filter (\<lambda>r. ?K r = k) rows)) ks" by blast
  have "key vs = ?K r" using g(2) by simp
  then have "gs = map (\<lambda>k. (k, filter (\<lambda>r. ?K r = k) (rows @ [r]))) (if ?K r \<in> set ks then ks else ks @ [?K r])"
    using add_to_group_closed [OF ks(2,3), of r] g(3) ks(4) by simp
  moreover have "distinct (if ?K r \<in> set ks then ks else ks @ [?K r])" using ks(2) by simp
  moreover have "set (if ?K r \<in> set ks then ks else ks @ [?K r]) = ?K ` set (rows @ [r])" using ks(3) by auto
  ultimately show ?case using ks(1) g(2) by (intro conjI exI [of _ "if ?K r \<in> set ks then ks else ks @ [?K r]"]) auto
qed simp

lemma mset_groups:
  assumes "distinct ks" "K ` set rows \<subseteq> set ks"
  shows "mset (concat (map (\<lambda>k. filter (\<lambda>r. K r = k) rows) ks)) = mset rows"
proof (rule multiset_eqI)
  fix x
  have "count (mset (concat (map (\<lambda>k. filter (\<lambda>r. K r = k) rows) ks))) x = (\<Sum>k \<leftarrow> ks. if K x = k then count (mset rows) x else 0)"
    by (induction ks) (auto simp: count_mset)
  also have "\<dots> = (if K x \<in> set ks then count (mset rows) x else 0)"
    using assms(1) by (induction ks) auto
  also have "\<dots> = count (mset rows) x" using assms(2) by (auto simp: count_eq_zero_iff)
  finally show "count (mset (concat (map (\<lambda>k. filter (\<lambda>r. K r = k) rows) ks))) x = count (mset rows) x" .
qed

lemma group_same:
  assumes "gs = map (\<lambda>k. filter (\<lambda>r. K r = k) rows) ks" "g \<in> set gs" "h \<in> set gs" "r \<in> set g" "s \<in> set h"
  shows "g = h \<longleftrightarrow> K r = K s"
proof -
  obtain k l where kl: "g = filter (\<lambda>r. K r = k) rows" "h = filter (\<lambda>r. K r = l) rows" using assms(1-3) by auto
  then have k: "K r = k" "K s = l" using assms(4,5) by auto
  show ?thesis
  proof
    assume "g = h"
    then have "r \<in> set (filter (\<lambda>r. K r = l) rows)" using assms(4) kl(2) by simp
    then show "K r = K s" using k(2) by simp
  qed (use kl k in simp)
qed

lemma groupRows_partition:
  assumes "groupRows ex keys rows = Inr gs" "keys \<noteq> []"
  shows "\<exists>V. (\<forall>r \<in> set rows. mapE (\<lambda>e. eval ex e r) keys = Inr (V r)) \<and> mset (concat gs) = mset rows \<and> [] \<notin> set gs
    \<and> (\<forall>g \<in> set gs. \<forall>h \<in> set gs. \<forall>r \<in> set g. \<forall>s \<in> set h. list_all discrete (V r) \<and> list_all discrete (V s) \<longrightarrow>
        (g = h \<longleftrightarrow> equals (VList (V r)) (VList (V s)) = TriTrue))"
proof -
  let ?f = "\<lambda>r. mapE (\<lambda>e. eval ex e r) keys"
  let ?K = "\<lambda>r. groupKey (VList (projr (?f r)))"
  obtain hs where h: "foldE (\<lambda>r gs. bindE (?f r) (\<lambda>vs. Inr (add_to_group (groupKey (VList vs)) r gs))) rows [] = Inr hs" "gs = map snd hs"
    using assms by (auto simp: groupRows_def result_simps)
  from groups_loop [OF h(1)] obtain ks where ks: "\<forall>r \<in> set rows. \<exists>vs. ?f r = Inr vs" "distinct ks" "set ks = ?K ` set rows"
    "hs = map (\<lambda>k. (k, filter (\<lambda>r. ?K r = k) rows)) ks" by blast
  have gs: "gs = map (\<lambda>k. filter (\<lambda>r. ?K r = k) rows) ks" using h(2) ks(4) by (simp add: comp_def)
  have m: "mset (concat gs) = mset rows" unfolding gs by (rule mset_groups [OF ks(2)]) (simp add: ks(3))
  have ne: "[] \<notin> set gs"
  proof
    assume "[] \<in> set gs"
    then obtain k where "k \<in> set ks" "filter (\<lambda>r. ?K r = k) rows = []" unfolding gs by auto
    then show False using ks(3) by (auto simp: filter_empty_conv)
  qed
  note same = group_same [OF gs]
  have "g = h \<longleftrightarrow> equals (VList (projr (?f r))) (VList (projr (?f s))) = TriTrue"
    if "g \<in> set gs" "h \<in> set gs" "r \<in> set g" "s \<in> set h" "list_all discrete (projr (?f r))" "list_all discrete (projr (?f s))" for g h r s
    using same [OF that(1-4)] groupKey_equals [of "VList (projr (?f r))" "VList (projr (?f s))"] that(5,6) by simp
  then show ?thesis using m ne ks(1) by (intro exI [of _ "\<lambda>r. projr (?f r)"]) auto
qed

section \<open>Aggregates\<close>

lemma sum_ints:
  assumes "in64 a" "\<forall>i \<in> set is. in64 i"
  shows "foldE sum_step (map VInt is) (Inl a)
    = (if \<forall>n \<le> length is. in64 (a + sum_list (take n is)) then Inr (Inl (a + sum_list is)) else intOverflow)"
  using assms
proof (induction "is" arbitrary: a)
  case (Cons i js)
  have all: "(\<forall>n \<le> length (i # js). in64 (a + sum_list (take n (i # js)))) \<longleftrightarrow> in64 (a + i) \<and> (\<forall>n \<le> length js. in64 (a + i + sum_list (take n js)))"
    (is "?l \<longleftrightarrow> ?r")
  proof
    assume l: ?l
    have "in64 (a + i + sum_list (take n js))" if "n \<le> length js" for n
      using l [rule_format, of "Suc n"] that by (simp add: add.assoc)
    then show ?r using l [rule_format, of 1] by simp
  next
    assume r: ?r
    show ?l
    proof (intro allI impI)
      fix n assume "n \<le> length (i # js)"
      then show "in64 (a + sum_list (take n (i # js)))" using r Cons.prems(1) by (cases n) (auto simp: add.assoc)
    qed
  qed
  have i: "in64 i" using Cons.prems(2) by simp
  show ?case
  proof (cases "in64 (a + i)")
    case True
    then have w: "w64 (a + i) = a + i" "\<not> int_add_wraps a i (a + i)" by (auto simp: w64_id int_add_wraps_def)
    then have "sum_step (VInt i) (Inl a) = Inr (Inl (a + i))" by (simp add: sum_step_def Let_def)
    then show ?thesis using Cons.IH [OF True] Cons.prems(2) unfolding all by (auto simp: True add.assoc)
  next
    case False
    then consider "2 ^ 63 \<le> a + i" | "a + i < - (2 ^ 63)" by (auto simp: in64_def)
    then have "int_add_wraps a i (w64 (a + i))"
    proof cases
      case 1
      then show ?thesis using Cons.prems(1) i w64_above [of "a + i"] by (simp add: int_add_wraps_def in64_def)
    next
      case 2
      then show ?thesis using Cons.prems(1) i w64_below [of "a + i"] by (simp add: int_add_wraps_def in64_def)
    qed
    then have "sum_step (VInt i) (Inl a) = intOverflow" by (simp add: sum_step_def Let_def)
    then show ?thesis using all False by (simp add: intOverflow_def)
  qed
qed simp

lemma sumValues_ints:
  assumes "\<forall>i \<in> set is. in64 i"
  shows "sumValues (map VInt is) = (if \<forall>n \<le> length is. in64 (sum_list (take n is)) then Inr (VInt (sum_list is)) else intOverflow)"
  using sum_ints [of 0 "is"] assms by (simp add: sumValues_def in64_def intOverflow_def)

lemma extreme_loop:
  assumes "tame b" "list_all tame vs"
  shows "\<exists>c \<in> insert b (set vs). foldE (better least) vs b = Inr c
    \<and> (\<forall>v \<in> insert b (set vs). if least then order_of c v \<le> 0 else order_of v c \<le> 0)"
  using assms
proof (induction vs arbitrary: b)
  case Nil
  then show ?case by (simp add: order.self)
next
  case (Cons v vs)
  let ?n = "if (if least then order_of v b < 0 else 0 < order_of v b) then v else b"
  have t: "tame v" "tame b" "list_all tame vs" using Cons.prems by simp_all
  have step: "better least v b = Inr ?n" using order_of_Some [OF t(1,2)] by (simp add: better_def)
  have "tame ?n" using t by simp
  from Cons.IH [OF this t(3)] obtain c where c: "c \<in> insert ?n (set vs)" "foldE (better least) vs ?n = Inr c"
    "\<forall>w \<in> insert ?n (set vs). if least then order_of c w \<le> 0 else order_of w c \<le> 0" by blast
  have ct: "tame c" using c(1) t by (auto simp: list_all_iff split: if_splits)
  have n: "if least then order_of c ?n \<le> 0 else order_of ?n c \<le> 0" using c(3) by blast
  have vb: "if least then order_of ?n v \<le> 0 \<and> order_of ?n b \<le> 0 else order_of v ?n \<le> 0 \<and> order_of b ?n \<le> 0"
    using order.anti [OF t(1,2)] order.self t by auto
  have "if least then order_of c w \<le> 0 else order_of w c \<le> 0" if "w = v \<or> w = b" for w
    using that n vb order.trans [OF ct \<open>tame ?n\<close> t(1)] order.trans [OF ct \<open>tame ?n\<close> t(2)]
      order.trans [OF t(1) \<open>tame ?n\<close> ct] order.trans [OF t(2) \<open>tame ?n\<close> ct] by (cases least) auto
  then have "\<forall>w \<in> insert b (set (v # vs)). if least then order_of c w \<le> 0 else order_of w c \<le> 0" using c(3) by auto
  moreover have "c \<in> insert b (set (v # vs))" using c(1) by (auto split: if_splits)
  ultimately show ?case using step c(2) by (intro bexI [of _ c]) simp_all
qed

lemma extreme_found:
  assumes "vs \<noteq> []" "list_all tame vs"
  shows "\<exists>c \<in> set vs. extreme least vs = Inr c \<and> (\<forall>v \<in> set vs. if least then order_of c v \<le> 0 else order_of v c \<le> 0)"
  using assms extreme_loop [of "hd vs" "tl vs" least] by (cases vs) (simp_all add: extreme_def)

section \<open>DISTINCT\<close>

lemma distinct_rows_keys:
  fixes cols :: "string list"
  defines "k \<equiv> \<lambda>p. rowKey (fst p) cols"
  shows "distinct (map k (distinct_rows cols seen ps)) \<and> set (map k (distinct_rows cols seen ps)) = k ` set ps - set seen
    \<and> set (distinct_rows cols seen ps) \<subseteq> set ps"
  by (induction ps arbitrary: seen) (auto simp: Let_def k_def)

section \<open>ORDER BY over rows\<close>

lemma sortRows_result:
  assumes "\<forall>p \<in> set ps. sort_keys ex aggregating order p = Inr (K p) \<and> keys_ok (map snd order) (K p)"
  shows "\<exists>qs. sortRows ex aggregating order ps = Inr qs \<and> mset qs = mset ps
    \<and> sorted_wrt (\<lambda>a b. keys_order (map snd order) (K a) (K b) \<le> 0) qs
    \<and> (\<forall>a \<in> set ps. filter (\<lambda>b. keys_order (map snd order) (K a) (K b) = 0) qs = filter (\<lambda>b. keys_order (map snd order) (K a) (K b) = 0) ps)"
proof -
  let ?ds = "map snd order" and ?ks = "map (\<lambda>p. (p, K p)) ps"
  have m: "mapE (\<lambda>p. bindE (sort_keys ex aggregating order p) (\<lambda>ks. Inr (p, ks))) ps = Inr ?ks"
    using assms by (induction ps) simp_all
  have "\<forall>p \<in> set ?ks. keys_ok ?ds (snd p)" using assms by auto
  from sort_projected_result [OF this] obtain qs where q: "sort_projected ?ds ?ks = Inr qs" "mset qs = mset ?ks"
    "sorted_wrt (\<lambda>a b. keys_order ?ds (snd a) (snd b) \<le> 0) qs"
    "\<forall>a \<in> set ?ks. filter (\<lambda>b. keys_order ?ds (snd a) (snd b) = 0) qs = filter (\<lambda>b. keys_order ?ds (snd a) (snd b) = 0) ?ks"
    by blast
  have "\<forall>x \<in> set qs. snd x = K (fst x)" using q(2) by (metis (no_types, lifting) ex_map_conv fst_conv set_mset_mset snd_conv)
  then have e: "qs = map (\<lambda>p. (p, K p)) (map fst qs)" by (induction qs) auto
  have r: "sortRows ex aggregating order ps = Inr (map fst qs)" by (simp add: sortRows_def m q(1))
  have "mset (map fst qs) = image_mset fst (mset ?ks)" by (simp only: mset_map q(2))
  then have "mset (map fst qs) = mset ps" by (simp add: multiset.map_comp comp_def)
  moreover have "sorted_wrt (\<lambda>a b. keys_order ?ds (K a) (K b) \<le> 0) (map fst qs)"
    using q(3) by (subst (asm) e) (simp add: sorted_wrt_map)
  moreover have "filter (\<lambda>b. keys_order ?ds (K a) (K b) = 0) (map fst qs) = filter (\<lambda>b. keys_order ?ds (K a) (K b) = 0) ps" if "a \<in> set ps" for a
  proof -
    have "map fst (filter (\<lambda>b. keys_order ?ds (K a) (snd b) = 0) qs) = map fst (filter (\<lambda>b. keys_order ?ds (K a) (snd b) = 0) ?ks)"
      using q(4) that by simp
    then show ?thesis by (subst (asm) e) (simp add: filter_map comp_def)
  qed
  ultimately show ?thesis using r by blast
qed

end
