(* ===== verification/ShortestPath.thy ===== *)
theory ShortestPath
  imports Runtime "HOL-Library.While_Combinator"
begin

text \<open>
  The searches behind shortestPath(), allShortestPaths() and the SHORTEST selectors: cypher/interp/match.go. Nodes and
  relationships are their ids. What \<open>exec.expand\<close> offers from a node, the relationships that satisfy the pattern with
  the nodes at their other ends, is an argument, since nothing else of the pattern matters here; loading a level ahead
  (\<open>prefetchLevel\<close>) changes nothing the search sees and is left out. The loops are \<open>while_option\<close>: None is a search that never ends.
\<close>

type_synonym expansion = "int \<Rightarrow> fault + (int \<times> int) list"

text \<open>A path: its nodes and its relationships.\<close>

type_synonym path = "int list \<times> int list"

section \<open>Breadth-first search\<close>

record search =
  sr_dist :: "int \<Rightarrow> int option"
  sr_preds :: "int \<Rightarrow> (int \<times> int) list"
  sr_front :: "int list"
  sr_depth :: int

text \<open>A relationship out of a node of the frontier reaches the other node, for the first time or at the same depth again.\<close>

definition visit :: "bool \<Rightarrow> int \<Rightarrow> int \<Rightarrow> int \<times> int
    \<Rightarrow> (int \<Rightarrow> int option) \<times> (int \<Rightarrow> (int \<times> int) list) \<times> int list \<Rightarrow> (int \<Rightarrow> int option) \<times> (int \<Rightarrow> (int \<times> int) list) \<times> int list" where
  "visit all depth v edge st = (case (edge, st) of ((r, m), (seen, preds, nxt)) \<Rightarrow>
     (case seen m of
        None \<Rightarrow> (seen(m \<mapsto> depth + 1), preds(m := [(r, v)]), nxt @ [m])
      | Some d \<Rightarrow> if all \<and> d = depth + 1 then (seen, preds(m := preds m @ [(r, v)]), nxt) else (seen, preds, nxt)))"

definition search_level :: "expansion \<Rightarrow> bool \<Rightarrow> search \<Rightarrow> fault + search" where
  "search_level ex all s =
    bindE (foldE (\<lambda>v st. bindE (ex v) (\<lambda>es. Inr (fold (visit all (sr_depth s) v) es st))) (sr_front s) (sr_dist s, sr_preds s, []))
      (\<lambda>(seen, preds, nxt). Inr \<lparr>sr_dist = seen, sr_preds = preds, sr_front = nxt, sr_depth = sr_depth s + 1\<rparr>)"

text \<open>The loop breaks once the end is found.\<close>

definition search_on :: "int \<Rightarrow> int \<Rightarrow> fault + search \<Rightarrow> bool" where
  "search_on e mx st = (case st of Inl _ \<Rightarrow> False
     | Inr s \<Rightarrow> sr_front s \<noteq> [] \<and> (mx < 0 \<or> sr_depth s < mx) \<and> sr_dist s e = None)"

definition search_from :: "int \<Rightarrow> search" where
  "search_from v = \<lparr>sr_dist = [v \<mapsto> 0], sr_preds = (\<lambda>_. []), sr_front = [v], sr_depth = 0\<rparr>"

definition maxShortestPaths :: nat where "maxShortestPaths = 100000"

text \<open>The paths that the predecessors lead back along; n is the distance of the node.\<close>

fun paths_back :: "nat \<Rightarrow> (int \<Rightarrow> (int \<times> int) list) \<Rightarrow> bool \<Rightarrow> int \<Rightarrow> int \<Rightarrow> path list" where
  "paths_back n preds all s v =
    (if v = s then [([s], [])]
     else case n of 0 \<Rightarrow> []
       | Suc k \<Rightarrow> concat (map (\<lambda>(r, u). map (\<lambda>(ns, rs). (ns @ [v], rs @ [r])) (paths_back k preds all s u))
           (if all then preds v else take 1 (preds v))))"

declare paths_back.simps [simp del]

definition pathsFromPreds :: "int \<Rightarrow> int \<Rightarrow> search \<Rightarrow> bool \<Rightarrow> fault + path list" where
  "pathsFromPreds s e st all = (let ps = paths_back (nat (the (sr_dist st e))) (sr_preds st) all s e in
     if maxShortestPaths < length ps then no_support ''allShortestPaths found more than %d shortest paths between one pair of nodes''
     else Inr ps)"

definition shortestPathsBFS :: "expansion \<Rightarrow> int \<Rightarrow> int \<Rightarrow> int \<Rightarrow> bool \<Rightarrow> (fault + path list) option" where
  "shortestPathsBFS ex s e mx all =
    map_option (\<lambda>st. bindE st (\<lambda>f. if sr_dist f e = None then Inr [] else pathsFromPreds s e f all))
      (while_option (search_on e mx) (\<lambda>st. bindE st (search_level ex all)) (Inr (search_from s)))"

section \<open>Search from both ends\<close>

record both_ends =
  be_fwd :: search
  be_bwd :: search
  be_meet :: "(int \<times> int) option"

text \<open>Where a node is reached that the other search has reached, the searches meet: the node and the length so far.\<close>

definition meet_at :: "int \<Rightarrow> (int \<Rightarrow> int option) \<Rightarrow> int \<Rightarrow> (int \<times> int) option \<Rightarrow> (int \<times> int) option" where
  "meet_at depth other m best = (case other m of None \<Rightarrow> best
     | Some od \<Rightarrow> let total = depth + 1 + od in
         (case best of None \<Rightarrow> Some (m, total) | Some (n, b) \<Rightarrow> if total < b then Some (m, total) else best))"

definition visit_both :: "(int \<Rightarrow> int option) \<Rightarrow> int \<Rightarrow> int \<Rightarrow> int \<times> int
    \<Rightarrow> ((int \<Rightarrow> int option) \<times> (int \<Rightarrow> (int \<times> int) list) \<times> int list) \<times> (int \<times> int) option
    \<Rightarrow> ((int \<Rightarrow> int option) \<times> (int \<Rightarrow> (int \<times> int) list) \<times> int list) \<times> (int \<times> int) option" where
  "visit_both other depth v edge st = (case st of (q, best) \<Rightarrow>
     if fst q (snd edge) \<noteq> None then st
     else (visit False depth v edge q, meet_at depth other (snd edge) best))"

definition both_level :: "expansion \<Rightarrow> (int \<Rightarrow> int option) \<Rightarrow> search \<Rightarrow> (int \<times> int) option \<Rightarrow> fault + search \<times> (int \<times> int) option" where
  "both_level ex other s best =
    bindE (foldE (\<lambda>v st. bindE (ex v) (\<lambda>es. Inr (fold (visit_both other (sr_depth s) v) es st))) (sr_front s) ((sr_dist s, sr_preds s, []), best))
      (\<lambda>((seen, preds, nxt), best'). Inr (\<lparr>sr_dist = seen, sr_preds = preds, sr_front = nxt, sr_depth = sr_depth s + 1\<rparr>, best'))"

definition both_on :: "int \<Rightarrow> fault + both_ends \<Rightarrow> bool" where
  "both_on mx st = (case st of Inl _ \<Rightarrow> False
     | Inr b \<Rightarrow> sr_front (be_fwd b) \<noteq> [] \<and> sr_front (be_bwd b) \<noteq> [] \<and> be_meet b = None
         \<and> (mx < 0 \<or> sr_depth (be_fwd b) + sr_depth (be_bwd b) < mx))"

text \<open>The smaller frontier is expanded, one whole level at a time.\<close>

definition both_step :: "expansion \<Rightarrow> expansion \<Rightarrow> both_ends \<Rightarrow> fault + both_ends" where
  "both_step fw bw b =
    (if length (sr_front (be_fwd b)) \<le> length (sr_front (be_bwd b))
     then bindE (both_level fw (sr_dist (be_bwd b)) (be_fwd b) (be_meet b)) (\<lambda>(s, best). Inr (b\<lparr>be_fwd := s, be_meet := best\<rparr>))
     else bindE (both_level bw (sr_dist (be_fwd b)) (be_bwd b) (be_meet b)) (\<lambda>(s, best). Inr (b\<lparr>be_bwd := s, be_meet := best\<rparr>)))"

text \<open>From the meeting node back to an end, along the single predecessors; n is the distance.\<close>

fun trail :: "nat \<Rightarrow> (int \<Rightarrow> (int \<times> int) list) \<Rightarrow> int \<Rightarrow> int \<Rightarrow> (int \<times> int) list" where
  "trail n preds s v = (if v = s then [] else case n of 0 \<Rightarrow> []
     | Suc k \<Rightarrow> (case preds v of [] \<Rightarrow> [] | p # _ \<Rightarrow> p # trail k preds s (snd p)))"

declare trail.simps [simp del]

definition joined :: "int \<Rightarrow> int \<Rightarrow> both_ends \<Rightarrow> int \<Rightarrow> path" where
  "joined s e b m =
    (let f = trail (nat (the (sr_dist (be_fwd b) m))) (sr_preds (be_fwd b)) s m;
         g = trail (nat (the (sr_dist (be_bwd b) m))) (sr_preds (be_bwd b)) e m
     in (rev (map snd f) @ [m] @ map snd g, rev (map fst f) @ map fst g))"

definition shortestPathBidirectional :: "expansion \<Rightarrow> expansion \<Rightarrow> int \<Rightarrow> int \<Rightarrow> int \<Rightarrow> (fault + path list) option" where
  "shortestPathBidirectional fw bw s e mx =
    map_option (\<lambda>st. bindE st (\<lambda>b. Inr (case be_meet b of
         None \<Rightarrow> [] | Some (m, best) \<Rightarrow> if 0 \<le> mx \<and> mx < best then [] else [joined s e b m])))
      (while_option (both_on mx) (\<lambda>st. bindE st (both_step fw bw))
        (Inr \<lparr>be_fwd = search_from s, be_bwd = search_from e, be_meet = None\<rparr>))"

section \<open>Whole paths\<close>

text \<open>
  Where a path may have to come back to a node, whole paths are extended level by level. What a node offers depends on the
  relationships the path has taken, the first argument of the expansion.
\<close>

record slow =
  sl_front :: "path list"
  sl_found :: "path list"
  sl_depth :: int

definition slow_edge :: "int \<Rightarrow> int \<Rightarrow> path \<Rightarrow> int \<times> int \<Rightarrow> path list \<times> path list \<Rightarrow> path list \<times> path list" where
  "slow_edge e mn p edge st = (let q = (fst p @ [snd edge], snd p @ [fst edge]) in
     if snd edge = e \<and> mn \<le> int (length (snd q)) then (fst st @ [q], snd st) else (fst st, snd st @ [q]))"

definition slow_level :: "(int list \<Rightarrow> expansion) \<Rightarrow> int \<Rightarrow> int \<Rightarrow> slow \<Rightarrow> fault + slow" where
  "slow_level ex e mn s =
    bindE (foldE (\<lambda>p st. bindE (ex (snd p) (last (fst p))) (\<lambda>es. Inr (fold (slow_edge e mn p) es st))) (sl_front s) ([], []))
      (\<lambda>(found, nxt). if found \<noteq> [] then Inr (s\<lparr>sl_found := found\<rparr>)
         else if 100000 < length nxt then no_support ''shortest path search space is too large''
         else Inr (s\<lparr>sl_front := nxt, sl_depth := sl_depth s + 1\<rparr>))"

definition slow_on :: "int \<Rightarrow> fault + slow \<Rightarrow> bool" where
  "slow_on mx st = (case st of Inl _ \<Rightarrow> False
     | Inr s \<Rightarrow> sl_front s \<noteq> [] \<and> (mx < 0 \<or> sl_depth s < mx) \<and> sl_found s = [])"

definition shortestPathsSlow :: "(int list \<Rightarrow> expansion) \<Rightarrow> int \<Rightarrow> int \<Rightarrow> int \<Rightarrow> int \<Rightarrow> bool \<Rightarrow> (fault + path list) option" where
  "shortestPathsSlow ex s e mn mx all =
    (if s = e \<and> mn = 0 then Some (Inr [([s], [])])
     else map_option (\<lambda>st. bindE st (\<lambda>q. Inr (if \<not> all \<and> 1 < length (sl_found q) then take 1 (sl_found q) else sl_found q)))
       (while_option (slow_on mx) (\<lambda>st. bindE st (slow_level ex e mn)) (Inr \<lparr>sl_front = [([s], [])], sl_found = [], sl_depth = 0\<rparr>)))"

section \<open>The choice of search\<close>

text \<open>The configured limit on hops, 0 for none, bounds an open range; a range that asks for more is an error.\<close>

definition shortestPaths :: "int \<Rightarrow> (int list \<Rightarrow> expansion) \<Rightarrow> expansion \<Rightarrow> int \<Rightarrow> int \<Rightarrow> int \<Rightarrow> int \<Rightarrow> bool \<Rightarrow> (fault + path list) option" where
  "shortestPaths hops ex back s e mn mx all =
    (if 0 < hops \<and> hops < mx
     then Some (arg_fault ''shortest path upper bound %d exceeds the configured maximum of %d hops'')
     else let bound = (if 0 < hops \<and> mx < 0 then hops else mx) in
       if s = e \<or> 1 < mn then shortestPathsSlow ex s e mn bound all
       else if \<not> all then shortestPathBidirectional (ex []) back s e bound
       else shortestPathsBFS (ex []) s e bound all)"

end
