(* ===== verification/ShortestFacts.thy ===== *)
theory ShortestFacts
  imports ShortestPath
begin

text \<open>
  The breadth-first search finds exactly the walks of least length, one or all of them, within the bound and in every
  finite graph.
\<close>

section \<open>Levels of a graph\<close>

type_synonym edges = "int \<Rightarrow> (int \<times> int) list"

text \<open>The nodes at the end of walks of n relationships, and those at distance n.\<close>

fun reach :: "edges \<Rightarrow> int \<Rightarrow> nat \<Rightarrow> int set" where
  "reach E s 0 = {s}"
| "reach E s (Suc n) = {m. \<exists>v \<in> reach E s n. \<exists>r. (r, m) \<in> set (E v)}"

definition lvl :: "edges \<Rightarrow> int \<Rightarrow> nat \<Rightarrow> int set" where
  "lvl E s n = {m \<in> reach E s n. \<forall>i<n. m \<notin> reach E s i}"

lemma lvl_0 [simp]: "lvl E s 0 = {s}"
  by (auto simp: lvl_def)

lemma lvl_unique: "m \<in> lvl E s i \<Longrightarrow> m \<in> lvl E s j \<Longrightarrow> i = j"
  by (auto simp: lvl_def) (metis linorder_neqE_nat)

lemma reach_lvl: "m \<in> reach E s n \<Longrightarrow> \<exists>i \<le> n. m \<in> lvl E s i"
proof (induction n rule: less_induct)
  case (less n)
  show ?case
  proof (cases "m \<in> lvl E s n")
    case False
    then obtain i where "i < n" "m \<in> reach E s i" using less.prems by (auto simp: lvl_def)
    with less.IH [of i] show ?thesis by (meson le_trans less_imp_le)
  qed auto
qed

lemma lvl_Suc: "m \<in> lvl E s (Suc n) \<longleftrightarrow> (\<exists>v \<in> lvl E s n. \<exists>r. (r, m) \<in> set (E v)) \<and> (\<forall>i \<le> n. m \<notin> lvl E s i)"
proof
  assume l: "m \<in> lvl E s (Suc n)"
  then obtain v r where v: "v \<in> reach E s n" "(r, m) \<in> set (E v)" by (auto simp: lvl_def)
  have "v \<in> lvl E s n"
    unfolding lvl_def
  proof (intro CollectI conjI allI impI)
    fix i assume "i < n"
    then show "v \<notin> reach E s i" using l v(2) by (auto simp: lvl_def)
  qed (rule v(1))
  moreover have "m \<notin> lvl E s i" if "i \<le> n" for i using lvl_unique [OF l, of i] that by auto
  ultimately show "(\<exists>v \<in> lvl E s n. \<exists>r. (r, m) \<in> set (E v)) \<and> (\<forall>i \<le> n. m \<notin> lvl E s i)" using v(2) by blast
next
  assume r: "(\<exists>v \<in> lvl E s n. \<exists>r. (r, m) \<in> set (E v)) \<and> (\<forall>i \<le> n. m \<notin> lvl E s i)"
  then have "m \<in> reach E s (Suc n)" by (auto simp: lvl_def)
  moreover have "m \<notin> reach E s i" if "i < Suc n" for i
    using reach_lvl [of m E s i] r that by (meson le_trans less_Suc_eq_le)
  ultimately show "m \<in> lvl E s (Suc n)" by (simp add: lvl_def)
qed

lemma lvl_before: "m \<in> lvl E s n \<Longrightarrow> i \<le> n \<Longrightarrow> lvl E s i \<noteq> {}"
proof (induction n arbitrary: m)
  case (Suc n)
  show ?case
  proof (cases "i = Suc n")
    case True
    then show ?thesis using Suc.prems(1) by blast
  next
    case False
    then have "i \<le> n" using Suc.prems(2) by simp
    moreover obtain v where "v \<in> lvl E s n" using Suc.prems(1) lvl_Suc [of m E s n] by blast
    ultimately show ?thesis using Suc.IH by blast
  qed
qed auto

section \<open>One level\<close>

definition hits :: "(int \<times> int \<times> int) list \<Rightarrow> int \<Rightarrow> (int \<times> int) list" where
  "hits es m = map (\<lambda>(v, r, _). (r, v)) (filter (\<lambda>(_, _, m'). m' = m) es)"

lemma hits_set: "(r, v) \<in> set (hits es m) \<longleftrightarrow> (v, r, m) \<in> set es"
  by (force simp: hits_def)

lemma hits_snoc: "hits (es @ [(v, r, m)]) x = hits es x @ (if x = m then [(r, v)] else [])"
  by (simp add: hits_def)

lemma visits_closed:
  assumes "\<forall>m. seen m \<noteq> Some (d + 1)"
  shows "\<exists>nxt. fold (\<lambda>(v, e). visit all d v e) es (seen, preds, [])
    = (\<lambda>m. if seen m = None \<and> hits es m \<noteq> [] then Some (d + 1) else seen m,
       \<lambda>m. if seen m = None \<and> hits es m \<noteq> [] then (if all then hits es m else [hd (hits es m)]) else preds m, nxt)
    \<and> set nxt = {m. seen m = None \<and> hits es m \<noteq> []}"
proof (induction es rule: rev_induct)
  case Nil
  then show ?case by (simp add: hits_def)
next
  case (snoc e es)
  obtain v r x where e: "e = (v, r, x)" by (cases e)
  from snoc obtain nxt where n: "fold (\<lambda>(v, e). visit all d v e) es (seen, preds, [])
    = (\<lambda>m. if seen m = None \<and> hits es m \<noteq> [] then Some (d + 1) else seen m,
       \<lambda>m. if seen m = None \<and> hits es m \<noteq> [] then (if all then hits es m else [hd (hits es m)]) else preds m, nxt)"
    "set nxt = {m. seen m = None \<and> hits es m \<noteq> []}" by blast
  have h: "hits (es @ [e]) y = hits es y @ (if y = x then [(r, v)] else [])" for y unfolding e by (rule hits_snoc)
  have f: "fold (\<lambda>(v, e). visit all d v e) (es @ [e]) (seen, preds, []) = visit all d v (r, x)
     (\<lambda>m. if seen m = None \<and> hits es m \<noteq> [] then Some (d + 1) else seen m,
      \<lambda>m. if seen m = None \<and> hits es m \<noteq> [] then (if all then hits es m else [hd (hits es m)]) else preds m, nxt)"
    by (simp add: n(1) e)
  consider "seen x = None" "hits es x = []" | "seen x = None" "hits es x \<noteq> []" | y where "seen x = Some y" by blast
  then show ?case
  proof cases
    case 1
    then show ?thesis unfolding f h by (intro exI [of _ "nxt @ [x]"]) (simp add: visit_def fun_eq_iff n(2) set_eq_iff)
  next
    case 2
    then show ?thesis unfolding f h by (intro exI [of _ nxt]) (simp add: visit_def fun_eq_iff n(2) set_eq_iff)
  next
    case (3 y)
    moreover have "y \<noteq> d + 1" using assms 3 by auto
    ultimately show ?thesis unfolding f h by (intro exI [of _ nxt]) (simp add: visit_def fun_eq_iff n(2) set_eq_iff)
  qed
qed

lemma fold_pairs: "fold (\<lambda>(v, e). f v e) (concat (map (\<lambda>v. map (Pair v) (E v)) vs)) st = fold (\<lambda>v st. fold (f v) (E v) st) vs st"
proof (induction vs arbitrary: st)
  case (Cons v vs)
  have "fold (\<lambda>(v, e). f v e) (map (Pair v) es) st = fold (f v) es st" for es
    by (induction es arbitrary: st) auto
  then show ?case using Cons by simp
qed simp

lemma foldE_pure: "\<forall>v \<in> set vs. ex v = Inr (E v) \<Longrightarrow> foldE (\<lambda>v st. bindE (ex v) (\<lambda>es. Inr (g v es st))) vs st = Inr (fold (\<lambda>v st. g v (E v) st) vs st)"
  by (induction vs arbitrary: st) auto

definition level_edges :: "edges \<Rightarrow> int list \<Rightarrow> (int \<times> int \<times> int) list" where
  "level_edges E vs = concat (map (\<lambda>v. map (Pair v) (E v)) vs)"

lemma level_edges_set: "(v, r, m) \<in> set (level_edges E vs) \<longleftrightarrow> v \<in> set vs \<and> (r, m) \<in> set (E v)"
  by (auto simp: level_edges_def)

lemma hits_level: "hits (level_edges E vs) m \<noteq> [] \<longleftrightarrow> (\<exists>v \<in> set vs. \<exists>r. (r, m) \<in> set (E v))"
proof -
  have "hits (level_edges E vs) m \<noteq> [] \<longleftrightarrow> (\<exists>r v. (r, v) \<in> set (hits (level_edges E vs) m))"
    by (metis list.set_intros(1) neq_Nil_conv prod.collapse empty_iff list.set(1))
  then show ?thesis unfolding hits_set level_edges_set by blast
qed

section \<open>The invariant of the search\<close>

definition preds_at :: "edges \<Rightarrow> int \<Rightarrow> nat \<Rightarrow> int \<Rightarrow> (int \<times> int) set" where
  "preds_at E s j m = {(r, v). v \<in> lvl E s j \<and> (r, m) \<in> set (E v)}"

definition sinv :: "edges \<Rightarrow> bool \<Rightarrow> int \<Rightarrow> nat \<Rightarrow> search \<Rightarrow> bool" where
  "sinv E all s k st \<longleftrightarrow> sr_depth st = int k
     \<and> (\<forall>m i. sr_dist st m = Some i \<longleftrightarrow> (\<exists>j \<le> k. i = int j \<and> m \<in> lvl E s j))
     \<and> set (sr_front st) = lvl E s k
     \<and> (\<forall>j m. j < k \<and> m \<in> lvl E s (Suc j) \<longrightarrow>
          sr_preds st m \<noteq> [] \<and> set (sr_preds st m) \<subseteq> preds_at E s j m \<and> (all \<longrightarrow> set (sr_preds st m) = preds_at E s j m))"

lemma sinvD:
  assumes "sinv E all s k st"
  shows "sr_depth st = int k" "sr_dist st m = Some i \<longleftrightarrow> (\<exists>j \<le> k. i = int j \<and> m \<in> lvl E s j)" "set (sr_front st) = lvl E s k"
    "sr_dist st m = None \<longleftrightarrow> (\<forall>j \<le> k. m \<notin> lvl E s j)"
    "j < k \<Longrightarrow> m \<in> lvl E s (Suc j) \<Longrightarrow>
       sr_preds st m \<noteq> [] \<and> set (sr_preds st m) \<subseteq> preds_at E s j m \<and> (all \<longrightarrow> set (sr_preds st m) = preds_at E s j m)"
proof -
  show d: "sr_dist st m = Some i \<longleftrightarrow> (\<exists>j \<le> k. i = int j \<and> m \<in> lvl E s j)" for m i using assms by (simp add: sinv_def)
  show "sr_dist st m = None \<longleftrightarrow> (\<forall>j \<le> k. m \<notin> lvl E s j)" using d [of m] by (metis not_None_eq)
qed (use assms in \<open>auto simp: sinv_def\<close>)

lemma search_from_inv: "sinv E all s 0 (search_from s)"
  by (simp add: sinv_def search_from_def)

text \<open>What a level finds is the next level of the graph.\<close>

lemma next_level:
  assumes "sinv E all s k st"
  defines "new \<equiv> \<lambda>m. sr_dist st m = None \<and> hits (level_edges E (sr_front st)) m \<noteq> []"
  shows "new m \<longleftrightarrow> m \<in> lvl E s (Suc k)"
  unfolding new_def sinvD(4) [OF assms(1)] hits_level sinvD(3) [OF assms(1)] lvl_Suc by blast

lemma level_result:
  assumes inv: "sinv E all s k st" and dist: "\<And>m. dist' m = (if m \<in> lvl E s (Suc k) then Some (sr_depth st + 1) else sr_dist st m)"
    and preds: "\<And>m. preds' m = (if m \<in> lvl E s (Suc k)
      then (if all then hits (level_edges E (sr_front st)) m else [hd (hits (level_edges E (sr_front st)) m)]) else sr_preds st m)"
    and nxt: "set nxt = lvl E s (Suc k)"
  shows "sinv E all s (Suc k) \<lparr>sr_dist = dist', sr_preds = preds', sr_front = nxt, sr_depth = sr_depth st + 1\<rparr>"
proof -
  note d = sinvD [OF inv]
  have a: "dist' m = Some i \<longleftrightarrow> (\<exists>j \<le> Suc k. i = int j \<and> m \<in> lvl E s j)" for m i
  proof (cases "m \<in> lvl E s (Suc k)")
    case True
    have eq: "m \<in> lvl E s j \<longleftrightarrow> j = Suc k" for j using True lvl_unique [OF True, of j] by blast
    have "dist' m = Some (int (Suc k))" using True by (simp add: dist d(1))
    then show ?thesis unfolding eq by auto
  next
    case False
    then show ?thesis using d(2) [of m i] by (auto simp: dist le_Suc_eq)
  qed
  have b: "preds' m \<noteq> [] \<and> set (preds' m) \<subseteq> preds_at E s j m \<and> (all \<longrightarrow> set (preds' m) = preds_at E s j m)"
    if j: "j < Suc k" "m \<in> lvl E s (Suc j)" for j m
  proof (cases "j = k")
    case True
    have h: "hits (level_edges E (sr_front st)) m \<noteq> []" using next_level [OF inv, of m] j True by simp
    have s: "set (hits (level_edges E (sr_front st)) m) = preds_at E s j m"
      unfolding preds_at_def True by (auto simp: hits_set level_edges_set d(3))
    have "hd (hits (level_edges E (sr_front st)) m) \<in> preds_at E s j m" using h s by (metis hd_in_set)
    then show ?thesis using j True h s by (simp add: preds)
  next
    case False
    then have "m \<notin> lvl E s (Suc k)" using j lvl_unique by blast
    then show ?thesis using d(5) [of j m] j False by (simp add: preds)
  qed
  show ?thesis
    unfolding sinv_def search.simps
  proof (intro conjI allI)
    show "sr_depth st + 1 = int (Suc k)" using d(1) by simp
    show "dist' m = Some i \<longleftrightarrow> (\<exists>j \<le> Suc k. i = int j \<and> m \<in> lvl E s j)" for m i by (rule a)
    show "set nxt = lvl E s (Suc k)" by (rule nxt)
  qed (use b in blast)
qed

lemma search_level_inv:
  assumes inv: "sinv E all s k st" and ex: "\<forall>v \<in> set (sr_front st). ex v = Inr (E v)"
  shows "\<exists>st'. search_level ex all st = Inr st' \<and> sinv E all s (Suc k) st'"
proof -
  let ?es = "level_edges E (sr_front st)"
  have no: "\<forall>m. sr_dist st m \<noteq> Some (sr_depth st + 1)" using sinvD(1,2) [OF inv] by auto
  from visits_closed [OF no, of all ?es "sr_preds st"] obtain nxt where n:
    "fold (\<lambda>(v, e). visit all (sr_depth st) v e) ?es (sr_dist st, sr_preds st, [])
      = (\<lambda>m. if sr_dist st m = None \<and> hits ?es m \<noteq> [] then Some (sr_depth st + 1) else sr_dist st m,
         \<lambda>m. if sr_dist st m = None \<and> hits ?es m \<noteq> [] then (if all then hits ?es m else [hd (hits ?es m)]) else sr_preds st m, nxt)"
    "set nxt = {m. sr_dist st m = None \<and> hits ?es m \<noteq> []}" by blast
  have e: "search_level ex all st = (case fold (\<lambda>(v, e). visit all (sr_depth st) v e) ?es (sr_dist st, sr_preds st, []) of
      (sn, preds, nxt) \<Rightarrow> Inr \<lparr>sr_dist = sn, sr_preds = preds, sr_front = nxt, sr_depth = sr_depth st + 1\<rparr>)"
    unfolding search_level_def foldE_pure [OF ex] level_edges_def fold_pairs by simp
  note nl = next_level [OF inv]
  show ?thesis
    unfolding e n(1) prod.case
    by (intro exI conjI, rule refl, rule level_result [OF inv]) (auto simp: nl n(2))
qed

section \<open>Walks\<close>

fun walk :: "edges \<Rightarrow> int list \<Rightarrow> int list \<Rightarrow> bool" where
  "walk E [n] [] = True"
| "walk E (n # m # ns) (r # rs) = ((r, m) \<in> set (E n) \<and> walk E (m # ns) rs)"
| "walk E ns rs = False"

definition walks :: "edges \<Rightarrow> int \<Rightarrow> int \<Rightarrow> nat \<Rightarrow> path set" where
  "walks E s e n = {(ns, rs). walk E ns rs \<and> hd ns = s \<and> last ns = e \<and> length rs = n}"

lemma walk_ne: "walk E ns rs \<Longrightarrow> ns \<noteq> []"
  by (cases ns) auto

lemma walk_Nil: "walk E ns [] \<longleftrightarrow> (\<exists>n. ns = [n])"
  by (cases ns rule: remdups_adj.cases) auto

lemma walk_snoc: "walk E (ns @ [v]) (rs @ [r]) \<longleftrightarrow> walk E ns rs \<and> (r, v) \<in> set (E (last ns))"
proof (induction rs arbitrary: ns)
  case Nil
  show ?case
  proof (cases ns)
    case (Cons a ms)
    then show ?thesis by (cases ms) (auto simp: walk_Nil)
  qed simp
next
  case (Cons q rs)
  show ?case
  proof (cases ns)
    case (Cons a ms)
    then show ?thesis using Cons.IH [of ms] by (cases ms) auto
  qed (cases rs; simp)
qed

lemma walk_last_cases:
  assumes "walk E ns (rs @ [r])"
  obtains ms v where "ns = ms @ [v]" "walk E ms rs" "(r, v) \<in> set (E (last ms))"
proof -
  obtain ms v where e: "ns = ms @ [v]" using walk_ne [OF assms] by (metis rev_exhaust)
  then show ?thesis using assms walk_snoc [of E ms v rs r] that by blast
qed

lemma walk_reach: "walk E ns rs \<Longrightarrow> last ns \<in> reach E (hd ns) (length rs)"
proof (induction rs arbitrary: ns rule: rev_induct)
  case Nil
  then show ?case by (cases ns rule: remdups_adj.cases) auto
next
  case (snoc r rs)
  obtain ms v where e: "ns = ms @ [v]" "walk E ms rs" "(r, v) \<in> set (E (last ms))" using walk_last_cases [OF snoc.prems] .
  have "hd ns = hd ms" using e(1) walk_ne [OF e(2)] by simp
  then show ?case using snoc.IH [OF e(2)] e by auto
qed

lemma walks_0: "walks E s e 0 = (if s = e then {([s], [])} else {})"
proof -
  have "walk E ns [] \<longleftrightarrow> (\<exists>n. ns = [n])" for ns by (cases ns rule: remdups_adj.cases) auto
  then show ?thesis by (auto simp: walks_def)
qed

lemma walks_Suc: "walks E s v (Suc k) = {(ns @ [v], rs @ [r]) | ns rs r. \<exists>u. (ns, rs) \<in> walks E s u k \<and> (r, v) \<in> set (E u)}"
  (is "_ = ?R")
proof (intro set_eqI iffI)
  fix p assume "p \<in> walks E s v (Suc k)"
  then obtain ns qs where p: "p = (ns, qs)" "walk E ns qs" "hd ns = s" "last ns = v" "length qs = Suc k" by (auto simp: walks_def)
  obtain rs r where q: "qs = rs @ [r]" using p(5) by (metis length_Suc_conv_rev)
  obtain ms w where e: "ns = ms @ [w]" "walk E ms rs" "(r, w) \<in> set (E (last ms))" using walk_last_cases p(2) q by blast
  have "(ms, rs) \<in> walks E s (last ms) k" using e p q walk_ne [OF e(2)] by (simp add: walks_def)
  then show "p \<in> ?R" using e p q by auto
next
  fix p assume "p \<in> ?R"
  then obtain ns rs r u where p: "p = (ns @ [v], rs @ [r])" "(ns, rs) \<in> walks E s u k" "(r, v) \<in> set (E u)" by blast
  then have "walk E (ns @ [v]) (rs @ [r])" by (simp add: walk_snoc walks_def)
  then show "p \<in> walks E s v (Suc k)" using p walk_ne [of E ns rs] by (simp add: walks_def)
qed

lemma lvl_back: "v \<in> lvl E s (Suc k) \<Longrightarrow> u \<in> reach E s k \<Longrightarrow> (r, v) \<in> set (E u) \<Longrightarrow> u \<in> lvl E s k"
  by (auto simp: lvl_def)

lemma walks_lvl: "(ns, rs) \<in> walks E s u k \<Longrightarrow> u \<in> reach E s k"
  using walk_reach [of E ns rs] by (auto simp: walks_def)

section \<open>From predecessors to paths\<close>

definition preds_ok :: "edges \<Rightarrow> bool \<Rightarrow> int \<Rightarrow> nat \<Rightarrow> (int \<Rightarrow> (int \<times> int) list) \<Rightarrow> bool" where
  "preds_ok E all s k preds \<longleftrightarrow> (\<forall>j m. j < k \<and> m \<in> lvl E s (Suc j) \<longrightarrow>
     preds m \<noteq> [] \<and> set (preds m) \<subseteq> preds_at E s j m \<and> (all \<longrightarrow> set (preds m) = preds_at E s j m))"

lemma preds_okD:
  assumes "preds_ok E all s k preds" "j < k" "m \<in> lvl E s (Suc j)"
  shows "preds m \<noteq> []" "set (preds m) \<subseteq> preds_at E s j m" "all \<Longrightarrow> set (preds m) = preds_at E s j m"
  using assms unfolding preds_ok_def by blast+

lemma lvl_start: "s \<in> lvl E s n \<longleftrightarrow> n = 0"
  using lvl_unique [of s E s n 0] by auto

lemma paths_back_Suc:
  assumes "v \<in> lvl E s (Suc k)"
  shows "paths_back (Suc k) preds all s v
    = concat (map (\<lambda>(r, u). map (\<lambda>(ns, rs). (ns @ [v], rs @ [r])) (paths_back k preds all s u)) (if all then preds v else take 1 (preds v)))"
proof -
  have "v \<noteq> s" using assms lvl_start [of s E "Suc k"] by auto
  then show ?thesis by (subst paths_back.simps) simp
qed

lemma paths_back_all:
  assumes "preds_ok E True s k preds" "n \<le> k" "v \<in> lvl E s n"
  shows "set (paths_back n preds True s v) = walks E s v n"
  using assms(2,3)
proof (induction n arbitrary: v)
  case 0
  then show ?case by (subst paths_back.simps) (simp add: walks_0)
next
  case (Suc n)
  have p: "set (preds v) = preds_at E s n v" using preds_okD(3) [OF assms(1) _ Suc.prems(2)] Suc.prems(1) by simp
  have ih: "set (paths_back n preds True s u) = walks E s u n" if "u \<in> lvl E s n" for u using Suc.IH Suc.prems(1) that by simp
  have l: "x \<in> set (paths_back (Suc n) preds True s v)
      \<longleftrightarrow> (\<exists>p \<in> preds_at E s n v. \<exists>q \<in> set (paths_back n preds True s (snd p)). x = (fst q @ [v], snd q @ [fst p]))" for x
    unfolding paths_back_Suc [OF Suc.prems(2)] p [symmetric] if_True set_concat set_map
    by (simp add: image_iff case_prod_beta)
  show ?case
  proof (intro set_eqI iffI)
    fix x assume "x \<in> set (paths_back (Suc n) preds True s v)"
    then obtain p q where x: "p \<in> preds_at E s n v" "q \<in> set (paths_back n preds True s (snd p))" "x = (fst q @ [v], snd q @ [fst p])"
      unfolding l by blast
    then have u: "snd p \<in> lvl E s n" "(fst p, v) \<in> set (E (snd p))" by (auto simp: preds_at_def)
    have "(fst q, snd q) \<in> walks E s (snd p) n" using ih [OF u(1)] x(2) by simp
    then show "x \<in> walks E s v (Suc n)" unfolding walks_Suc x(3) using u(2) by blast
  next
    fix x assume "x \<in> walks E s v (Suc n)"
    then obtain ns rs r u where x: "x = (ns @ [v], rs @ [r])" "(ns, rs) \<in> walks E s u n" "(r, v) \<in> set (E u)"
      unfolding walks_Suc by blast
    have u: "u \<in> lvl E s n" using lvl_back [OF Suc.prems(2) walks_lvl [OF x(2)] x(3)] .
    have "(r, u) \<in> preds_at E s n v" using u x(3) by (simp add: preds_at_def)
    moreover have "(ns, rs) \<in> set (paths_back n preds True s (snd (r, u)))" using ih [OF u] x(2) by simp
    moreover have "x = (fst (ns, rs) @ [v], snd (ns, rs) @ [fst (r, u)])" using x(1) by simp
    ultimately show "x \<in> set (paths_back (Suc n) preds True s v)" unfolding l by blast
  qed
qed

lemma paths_back_one:
  assumes "preds_ok E False s k preds" "n \<le> k" "v \<in> lvl E s n"
  shows "\<exists>p \<in> walks E s v n. paths_back n preds False s v = [p]"
  using assms(2,3)
proof (induction n arbitrary: v)
  case 0
  then show ?case by (subst paths_back.simps) (simp add: walks_0)
next
  case (Suc n)
  have p: "preds v \<noteq> []" "set (preds v) \<subseteq> preds_at E s n v" using preds_okD(1,2) [OF assms(1) _ Suc.prems(2)] Suc.prems(1) by simp_all
  then obtain r u qs where q: "preds v = (r, u) # qs" "u \<in> lvl E s n" "(r, v) \<in> set (E u)" by (cases "preds v") (auto simp: preds_at_def)
  obtain ns rs where w: "(ns, rs) \<in> walks E s u n" "paths_back n preds False s u = [(ns, rs)]"
    using Suc.IH [OF _ q(2)] Suc.prems(1) by force
  have "paths_back (Suc n) preds False s v = [(ns @ [v], rs @ [r])]"
    unfolding paths_back_Suc [OF Suc.prems(2)] by (simp add: q(1) w(2))
  moreover have "(ns @ [v], rs @ [r]) \<in> walks E s v (Suc n)" unfolding walks_Suc using w(1) q(3) by blast
  ultimately show ?case by blast
qed

section \<open>The whole search\<close>

lemma reach_walks: "v \<in> reach E s n \<longleftrightarrow> walks E s v n \<noteq> {}"
proof
  show "v \<in> reach E s n \<Longrightarrow> walks E s v n \<noteq> {}"
  proof (induction n arbitrary: v)
    case (Suc n)
    then obtain u r where u: "u \<in> reach E s n" "(r, v) \<in> set (E u)" by auto
    then obtain ns rs where "(ns, rs) \<in> walks E s u n" using Suc.IH [OF u(1)] by auto
    then have "(ns @ [v], rs @ [r]) \<in> walks E s v (Suc n)" unfolding walks_Suc using u(2) by blast
    then show ?case by blast
  qed (simp add: walks_0)
qed (use walks_lvl in force)

text \<open>The least length of a walk.\<close>

definition least_walk :: "edges \<Rightarrow> int \<Rightarrow> int \<Rightarrow> nat \<Rightarrow> bool" where
  "least_walk E s e n \<longleftrightarrow> walks E s e n \<noteq> {} \<and> (\<forall>i<n. walks E s e i = {})"

lemma lvl_least: "e \<in> lvl E s n \<longleftrightarrow> least_walk E s e n"
  by (simp add: lvl_def least_walk_def reach_walks)

lemma no_walks:
  assumes "\<And>n. b n \<Longrightarrow> e \<notin> lvl E s n" "\<And>i n. i \<le> n \<Longrightarrow> b n \<Longrightarrow> b i" "b n"
  shows "walks E s e n = {}"
proof (rule ccontr)
  assume "walks E s e n \<noteq> {}"
  then have "e \<in> reach E s n" by (simp add: reach_walks)
  then obtain i where "i \<le> n" "e \<in> lvl E s i" using reach_lvl [of e E s n] by blast
  then show False using assms by blast
qed

definition closed_graph :: "expansion \<Rightarrow> edges \<Rightarrow> int set \<Rightarrow> bool" where
  "closed_graph ex E N \<longleftrightarrow> finite N \<and> (\<forall>v \<in> N. ex v = Inr (E v) \<and> snd ` set (E v) \<subseteq> N)"

lemma lvl_closed:
  assumes "closed_graph ex E N" "s \<in> N"
  shows "lvl E s k \<subseteq> N"
proof (induction k)
  case 0
  then show ?case using assms by simp
next
  case (Suc k)
  show ?case
  proof
    fix m assume "m \<in> lvl E s (Suc k)"
    then obtain v r where "v \<in> lvl E s k" "(r, m) \<in> set (E v)" unfolding lvl_Suc by blast
    then show "m \<in> N" using Suc assms(1) unfolding closed_graph_def by force
  qed
qed

text \<open>What holds when the loop is entered again, and how much of the graph is left.\<close>

definition loop_ok :: "edges \<Rightarrow> bool \<Rightarrow> int \<Rightarrow> int \<Rightarrow> int \<Rightarrow> fault + search \<Rightarrow> bool" where
  "loop_ok E all s e mx st \<longleftrightarrow> (\<exists>k q. st = Inr q \<and> sinv E all s k q \<and> (\<forall>j<k. e \<notin> lvl E s j) \<and> (0 \<le> mx \<longrightarrow> int k \<le> mx))"

definition unseen :: "edges \<Rightarrow> int \<Rightarrow> int set \<Rightarrow> fault + search \<Rightarrow> nat" where
  "unseen E s N st = (case st of Inl _ \<Rightarrow> 0 | Inr q \<Rightarrow> card (N - (\<Union>j < nat (sr_depth q). lvl E s j)))"

lemma loop_step:
  assumes g: "closed_graph ex E N" "s \<in> N" and ok: "loop_ok E all s e mx st" and on: "search_on e mx st"
  shows "loop_ok E all s e mx (bindE st (search_level ex all)) \<and> unseen E s N (bindE st (search_level ex all)) < unseen E s N st"
proof -
  from ok obtain k q where q: "st = Inr q" "sinv E all s k q" "\<forall>j<k. e \<notin> lvl E s j" unfolding loop_ok_def by blast
  from on have o: "sr_front q \<noteq> []" "mx < 0 \<or> sr_depth q < mx" "sr_dist q e = None" by (simp_all add: search_on_def q(1))
  have "\<forall>v \<in> set (sr_front q). ex v = Inr (E v)"
    using lvl_closed [OF g, of k] sinvD(3) [OF q(2)] g(1) unfolding closed_graph_def by blast
  then obtain q' where n: "search_level ex all q = Inr q'" "sinv E all s (Suc k) q'" using search_level_inv [OF q(2)] by blast
  have e: "\<forall>j<Suc k. e \<notin> lvl E s j" using o(3) unfolding sinvD(4) [OF q(2)] by simp
  have d: "sr_depth q = int k" "sr_depth q' = int (Suc k)" using sinvD(1) [OF q(2)] sinvD(1) [OF n(2)] by simp_all
  have "int (Suc k) \<le> mx" if "0 \<le> mx" using o(2) d(1) that by linarith
  then have ok': "loop_ok E all s e mx (Inr q')" unfolding loop_ok_def using n(2) e by blast
  obtain v where v: "v \<in> lvl E s k" using o(1) sinvD(3) [OF q(2)] by (metis list.set_sel(1))
  have "v \<notin> lvl E s j" if "j < k" for j using lvl_unique [OF v, of j] that by blast
  then have "v \<in> N - (\<Union>j<k. lvl E s j)" using v lvl_closed [OF g, of k] by blast
  moreover have "v \<notin> N - (\<Union>j<Suc k. lvl E s j)" using v by blast
  moreover have "N - (\<Union>j<Suc k. lvl E s j) \<subseteq> N - (\<Union>j<k. lvl E s j)" by (auto simp: less_Suc_eq)
  ultimately have "N - (\<Union>j<Suc k. lvl E s j) \<subset> N - (\<Union>j<k. lvl E s j)" by blast
  then have "card (N - (\<Union>j<Suc k. lvl E s j)) < card (N - (\<Union>j<k. lvl E s j))"
    using g(1) unfolding closed_graph_def by (meson finite_Diff psubset_card_mono)
  then show ?thesis using ok' by (simp only: q(1) n(1) bindE.simps unseen_def sum.case d nat_int)
qed

lemma loop_ends:
  assumes "closed_graph ex E N" "s \<in> N"
  shows "\<exists>st. while_option (search_on e mx) (\<lambda>st. bindE st (search_level ex all)) (Inr (search_from s)) = Some st
    \<and> loop_ok E all s e mx st \<and> \<not> search_on e mx st"
proof -
  have start: "loop_ok E all s e mx (Inr (search_from s))" unfolding loop_ok_def using search_from_inv [of E all s] by force
  obtain st where st: "while_option (search_on e mx) (\<lambda>st. bindE st (search_level ex all)) (Inr (search_from s)) = Some st"
    using measure_while_option_Some [of "loop_ok E all s e mx" "search_on e mx" "\<lambda>st. bindE st (search_level ex all)" "unseen E s N"]
      loop_step [OF assms] start by blast
  have "loop_ok E all s e mx st"
    by (rule while_option_rule [where P = "loop_ok E all s e mx", OF _ st start]) (use loop_step [OF assms] in blast)
  then show ?thesis using st while_option_stop [OF st] by blast
qed

lemma bfs_result:
  assumes g: "closed_graph ex E N" "s \<in> N"
  shows "\<exists>r. shortestPathsBFS ex s e mx all = Some r
    \<and> (case r of
         Inr [] \<Rightarrow> \<forall>n. (0 \<le> mx \<longrightarrow> int n \<le> mx) \<longrightarrow> walks E s e n = {}
       | Inr ps \<Rightarrow> \<exists>n. least_walk E s e n \<and> (0 \<le> mx \<longrightarrow> int n \<le> mx)
           \<and> (if all then set ps = walks E s e n else length ps = 1 \<and> set ps \<subseteq> walks E s e n)
       | Inl _ \<Rightarrow> all \<and> (\<exists>n ps. least_walk E s e n \<and> set ps = walks E s e n \<and> maxShortestPaths < length ps))"
proof -
  from loop_ends [OF g] obtain st where st: "while_option (search_on e mx) (\<lambda>st. bindE st (search_level ex all)) (Inr (search_from s)) = Some st"
    "loop_ok E all s e mx st" "\<not> search_on e mx st" by blast
  from st(2) obtain k q where q: "st = Inr q" "sinv E all s k q" "\<forall>j<k. e \<notin> lvl E s j" "0 \<le> mx \<longrightarrow> int k \<le> mx" unfolding loop_ok_def by blast
  have eq: "shortestPathsBFS ex s e mx all = Some (if sr_dist q e = None then Inr [] else pathsFromPreds s e q all)"
    by (simp add: shortestPathsBFS_def st(1) q(1))
  show ?thesis
  proof (cases "sr_dist q e")
    case None
    have off: "sr_front q = [] \<or> (0 \<le> mx \<and> mx \<le> int k)" using st(3) None sinvD(1) [OF q(2)] by (auto simp: search_on_def q(1))
    have no: "e \<notin> lvl E s n" if "0 \<le> mx \<longrightarrow> int n \<le> mx" for n
    proof (cases "n \<le> k")
      case True
      then show ?thesis using None unfolding sinvD(4) [OF q(2)] by blast
    next
      case False
      then have "sr_front q = []" using off that by linarith
      then have "lvl E s k = {}" using sinvD(3) [OF q(2)] by simp
      then show ?thesis using lvl_before [of e E s n k] False by fastforce
    qed
    have "walks E s e n = {}" if "0 \<le> mx \<longrightarrow> int n \<le> mx" for n
      by (rule no_walks [where b = "\<lambda>n. 0 \<le> mx \<longrightarrow> int n \<le> mx"]) (use no that in auto)
    then show ?thesis by (simp add: eq None)
  next
    case (Some i)
    then obtain j where j: "j \<le> k" "i = int j" "e \<in> lvl E s j" unfolding sinvD(2) [OF q(2)] by blast
    with q(3) have k: "j = k" using nat_less_le by blast
    have l: "least_walk E s e k" using j(3) k by (simp add: lvl_least)
    have ok: "preds_ok E all s k (sr_preds q)" using q(2) unfolding sinv_def preds_ok_def by blast
    let ?ps = "paths_back k (sr_preds q) all s e"
    have r: "shortestPathsBFS ex s e mx all = Some (if maxShortestPaths < length ?ps
        then no_support ''allShortestPaths found more than %d shortest paths between one pair of nodes'' else Inr ?ps)"
      by (simp add: eq Some j(2) k pathsFromPreds_def Let_def)
    show ?thesis
    proof (cases all)
      case True
      have ps: "set ?ps = walks E s e k" using paths_back_all [of E s k "sr_preds q" k e] ok j(3) k True by simp
      then have ne: "?ps \<noteq> []" using l unfolding least_walk_def by auto
      show ?thesis
      proof (cases "maxShortestPaths < length ?ps")
        case big: True
        then show ?thesis unfolding r using l ps True by auto
      next
        case False
        then show ?thesis unfolding r using l ps True ne q(4) by (auto split: list.split)
      qed
    next
      case False
      from paths_back_one [of E s k "sr_preds q" k e] ok j(3) k False obtain p where p: "p \<in> walks E s e k" "?ps = [p]" by auto
      have "shortestPathsBFS ex s e mx all = Some (Inr [p])" unfolding r by (simp add: p(2) maxShortestPaths_def)
      then show ?thesis using l p(1) False q(4) by auto
    qed
  qed
qed

end
