(* ===== verification/BothEnds.thy ===== *)
theory BothEnds
  imports ShortestFacts
begin

text \<open>
  The search from both ends finds a walk of the same least length as the breadth-first search: while the two searches have no
  node in common there is no walk as long as both depths together, and where they first meet the walk is one longer.
\<close>

section \<open>Walks seen from the other end\<close>

definition reversed :: "edges \<Rightarrow> edges \<Rightarrow> int set \<Rightarrow> bool" where
  "reversed E E' N \<longleftrightarrow> (\<forall>u \<in> N. \<forall>v \<in> N. \<forall>r. (r, v) \<in> set (E u) \<longleftrightarrow> (r, u) \<in> set (E' v))"

lemma reversed_sym: "reversed E E' N \<Longrightarrow> reversed E' E N"
  unfolding reversed_def by blast

lemma reach_split: "w \<in> reach E s (i + j) \<longleftrightarrow> (\<exists>m \<in> reach E s i. w \<in> reach E m j)"
proof (induction j arbitrary: w)
  case (Suc j)
  have "w \<in> reach E s (i + Suc j) \<longleftrightarrow> (\<exists>v \<in> reach E s (i + j). \<exists>r. (r, w) \<in> set (E v))" by simp
  also have "\<dots> \<longleftrightarrow> (\<exists>m \<in> reach E s i. \<exists>v \<in> reach E m j. \<exists>r. (r, w) \<in> set (E v))" using Suc.IH by blast
  finally show ?case by simp
qed simp

lemma reach_closed:
  assumes "closed_graph ex E N" "s \<in> N"
  shows "reach E s n \<subseteq> N"
proof (induction n)
  case (Suc n)
  show ?case
  proof
    fix m assume "m \<in> reach E s (Suc n)"
    then obtain v r where "v \<in> reach E s n" "(r, m) \<in> set (E v)" by auto
    then show "m \<in> N" using Suc assms(1) unfolding closed_graph_def by force
  qed
qed (use assms in simp)

lemma reach_reversed:
  assumes g: "closed_graph ex E N" and r: "reversed E E' N"
  shows "m \<in> N \<Longrightarrow> w \<in> reach E m n \<Longrightarrow> m \<in> reach E' w n"
proof (induction n arbitrary: m)
  case (Suc n)
  have "w \<in> reach E m (1 + n)" using Suc.prems(2) by simp
  then obtain v q where v: "(q, v) \<in> set (E m)" "w \<in> reach E v n" unfolding reach_split by auto
  have "v \<in> N" using v(1) g Suc.prems(1) unfolding closed_graph_def by force
  then have "v \<in> reach E' w n" "(q, m) \<in> set (E' v)" using Suc.IH v r Suc.prems(1) unfolding reversed_def by blast+
  then show ?case by auto
qed simp

section \<open>One level of either search\<close>

lemma visit_False_seen: "fst q (snd edge) \<noteq> None \<Longrightarrow> visit False d v edge q = q"
  by (cases q; cases edge) (auto simp: visit_def)

text \<open>The levels are those of the one-sided search; a meeting is a new node that the other search has reached.\<close>

definition meets :: "(int \<Rightarrow> int option) \<Rightarrow> (int \<Rightarrow> int option) \<Rightarrow> int \<Rightarrow> (int \<Rightarrow> int option) \<Rightarrow> (int \<times> int) option \<Rightarrow> bool" where
  "meets other old d seen best \<longleftrightarrow> (\<forall>m. old m \<noteq> None \<longrightarrow> seen m \<noteq> None) \<and> (case best of
       None \<Rightarrow> \<forall>m. old m = None \<and> seen m \<noteq> None \<longrightarrow> other m = None
     | Some (m, t) \<Rightarrow> old m = None \<and> seen m \<noteq> None \<and> (\<exists>i. other m = Some i \<and> t = d + 1 + i))"

lemma meets_start: "meets other old d old None"
  by (auto simp: meets_def)

lemma visit_both_step:
  assumes "meets other old d (fst q) best"
  shows "fst (visit_both other d v edge (q, best)) = visit False d v edge q
    \<and> meets other old d (fst (visit False d v edge q)) (snd (visit_both other d v edge (q, best)))"
proof -
  obtain seen preds nxt where q: "q = (seen, preds, nxt)" by (cases q)
  obtain r m where e: "edge = (r, m)" by (cases edge)
  show ?thesis
  proof (cases "seen m")
    case (Some i)
    then show ?thesis using assms visit_False_seen [of q edge d v] by (simp add: visit_both_def q e)
  next
    case None
    have n: "visit False d v edge q = (seen(m \<mapsto> d + 1), preds(m := [(r, v)]), nxt @ [m])" by (simp add: visit_def q e None)
    have f: "visit_both other d v edge (q, best) = (visit False d v edge q, meet_at d other m best)"
      by (simp add: visit_both_def q e None)
    have old: "old m = None" using assms None by (auto simp: meets_def q)
    have "meets other old d (seen(m \<mapsto> d + 1)) (meet_at d other m best)"
      using assms old None by (auto simp: meets_def meet_at_def q Let_def split: option.splits if_splits)
    then show ?thesis by (simp add: f n)
  qed
qed

lemma visits_both:
  assumes "meets other old d (fst q) best"
  shows "fst (fold (\<lambda>(v, e). visit_both other d v e) es (q, best)) = fold (\<lambda>(v, e). visit False d v e) es q
    \<and> meets other old d (fst (fold (\<lambda>(v, e). visit False d v e) es q)) (snd (fold (\<lambda>(v, e). visit_both other d v e) es (q, best)))"
  using assms
proof (induction es arbitrary: q best)
  case (Cons a es)
  obtain v e where a: "a = (v, e)" by (cases a)
  note s = visit_both_step [OF Cons.prems, of v e]
  have p: "visit_both other d v e (q, best) = (visit False d v e q, snd (visit_both other d v e (q, best)))"
    using s by (metis prod.collapse)
  show ?case using Cons.IH [OF conjunct2 [OF s]] p by (simp add: a)
qed simp

lemma both_level_inv:
  assumes inv: "sinv E False s k q" and ex: "\<forall>v \<in> set (sr_front q). ex v = Inr (E v)"
  shows "\<exists>q' best. both_level ex other q None = Inr (q', best) \<and> sinv E False s (Suc k) q' \<and> meets other (sr_dist q) (int k) (sr_dist q') best"
proof -
  let ?es = "level_edges E (sr_front q)" and ?q = "(sr_dist q, sr_preds q, [])"
  let ?d = "sr_depth q"
  from search_level_inv [OF assms] obtain q' where q': "search_level ex False q = Inr q'" "sinv E False s (Suc k) q'" by blast
  obtain seen preds nxt where f: "fold (\<lambda>(v, e). visit False ?d v e) ?es ?q = (seen, preds, nxt)" by (metis prod_cases3)
  have "search_level ex False q = Inr \<lparr>sr_dist = seen, sr_preds = preds, sr_front = nxt, sr_depth = ?d + 1\<rparr>"
    unfolding search_level_def foldE_pure [OF ex] using f unfolding level_edges_def fold_pairs by simp
  with q'(1) have e: "q' = \<lparr>sr_dist = seen, sr_preds = preds, sr_front = nxt, sr_depth = ?d + 1\<rparr>" by simp
  have m0: "meets other (sr_dist q) ?d (fst ?q) None" by (simp add: meets_start)
  obtain best where b: "fold (\<lambda>(v, e). visit_both other ?d v e) ?es (?q, None) = ((seen, preds, nxt), best)"
    using visits_both [OF m0, of ?es] f by (metis prod.collapse)
  have "meets other (sr_dist q) ?d seen best" using visits_both [OF m0, of ?es] f b by simp
  moreover have "both_level ex other q None = Inr (q', best)"
    unfolding both_level_def foldE_pure [OF ex] e using b unfolding level_edges_def fold_pairs by simp
  ultimately show ?thesis using q'(2) e sinvD(1) [OF inv] by auto
qed

section \<open>Where the searches meet\<close>

definition two_way :: "expansion \<Rightarrow> expansion \<Rightarrow> edges \<Rightarrow> edges \<Rightarrow> int set \<Rightarrow> bool" where
  "two_way fw bw E E' N \<longleftrightarrow> closed_graph fw E N \<and> closed_graph bw E' N \<and> reversed E E' N"

lemma two_wayD:
  assumes "two_way fw bw E E' N"
  shows "closed_graph fw E N" "closed_graph bw E' N" "reversed E E' N" "two_way bw fw E' E N"
  using assms reversed_sym unfolding two_way_def by blast+

definition apart :: "search \<Rightarrow> search \<Rightarrow> bool" where
  "apart q p \<longleftrightarrow> (\<forall>m. sr_dist q m = None \<or> sr_dist p m = None)"

lemma apartD: "apart q p \<Longrightarrow> sr_dist q m = None \<or> sr_dist p m = None"
  by (simp add: apart_def)

lemma apart_sym: "apart q p \<Longrightarrow> apart p q"
  unfolding apart_def by metis

definition far :: "edges \<Rightarrow> int \<Rightarrow> int \<Rightarrow> nat \<Rightarrow> bool" where
  "far E s e n \<longleftrightarrow> (\<forall>i<n. e \<notin> reach E s i)"

lemma far_reversed:
  assumes "two_way fw bw E E' N" "e \<in> N" "far E s e n"
  shows "far E' e s n"
  unfolding far_def
proof (intro allI impI notI)
  fix i assume i: "i < n" "s \<in> reach E' e i"
  have "e \<in> reach E s i"
    using reach_reversed [OF two_wayD(2) [OF assms(1)] reversed_sym [OF two_wayD(3) [OF assms(1)]] assms(2) i(2)] .
  then show False using assms(3) i(1) unfolding far_def by blast
qed

lemma apart_far:
  assumes t: "two_way fw bw E E' N" "s \<in> N" and q: "sinv E False s k q" and p: "sinv E' False e j p" and a: "apart q p"
  shows "far E s e (Suc (k + j))"
  unfolding far_def
proof (intro allI impI notI)
  fix n assume n: "n < Suc (k + j)" "e \<in> reach E s n"
  have "n = min n k + (n - min n k)" by simp
  then obtain m where m: "m \<in> reach E s (min n k)" "e \<in> reach E m (n - min n k)" using n(2) reach_split by metis
  have "m \<in> N" using m(1) reach_closed [OF two_wayD(1) [OF t(1)] t(2)] by blast
  then have b: "m \<in> reach E' e (n - min n k)" using reach_reversed [OF two_wayD(1,3) [OF t(1)] _ m(2)] by blast
  obtain i where i: "i \<le> k" "m \<in> lvl E s i" using reach_lvl [OF m(1)] by (meson le_trans min.cobounded2)
  obtain i' where i': "i' \<le> n - min n k" "m \<in> lvl E' e i'" using reach_lvl [OF b] by blast
  have "i' \<le> j" using i'(1) n(1) by linarith
  then have "sr_dist p m \<noteq> None" using i'(2) unfolding sinvD(4) [OF p] by blast
  moreover have "sr_dist q m \<noteq> None" using i unfolding sinvD(4) [OF q] by blast
  ultimately show False using apartD [OF a, of m] by metis
qed

definition met :: "edges \<Rightarrow> edges \<Rightarrow> int \<Rightarrow> int \<Rightarrow> nat \<Rightarrow> nat \<Rightarrow> int \<times> int \<Rightarrow> bool" where
  "met E E' s e k j mt \<longleftrightarrow> fst mt \<in> lvl E s k \<and> fst mt \<in> lvl E' e j \<and> snd mt = int (k + j) \<and> far E s e (k + j)"

lemma met_sym: "two_way fw bw E E' N \<Longrightarrow> e \<in> N \<Longrightarrow> met E E' s e k j mt \<Longrightarrow> met E' E e s j k mt"
  using far_reversed [of fw bw E E' N e s "k + j"] by (simp add: met_def add.commute)

lemma met_walk:
  assumes t: "two_way fw bw E E' N" "e \<in> N" and m: "m \<in> lvl E s k" "m \<in> lvl E' e j"
  shows "e \<in> reach E s (k + j)"
proof -
  have "m \<in> reach E' e j" using m(2) by (simp add: lvl_def)
  then have "e \<in> reach E m j" using reach_reversed [OF two_wayD(2) [OF t(1)] reversed_sym [OF two_wayD(3) [OF t(1)]] t(2)] by blast
  moreover have "m \<in> reach E s k" using m(1) by (simp add: lvl_def)
  ultimately show ?thesis unfolding reach_split by blast
qed

lemma level_met:
  assumes t: "two_way fw bw E E' N" "s \<in> N" "e \<in> N" and q: "sinv E False s k q" and p: "sinv E' False e j p" and a: "apart q p"
    and q': "sinv E False s (Suc k) q'" and b: "meets (sr_dist p) (sr_dist q) (int k) (sr_dist q') best"
  shows "case best of None \<Rightarrow> apart q' p | Some mt \<Rightarrow> met E E' s e (Suc k) j mt"
proof (cases best)
  case None
  have "sr_dist p m = None" if "sr_dist q' m \<noteq> None" for m
    using apartD [OF a, of m] b that by (cases "sr_dist q m") (auto simp: None meets_def)
  then have "apart q' p" unfolding apart_def by metis
  then show ?thesis by (simp add: None)
next
  case (Some mt)
  obtain i where i: "sr_dist q (fst mt) = None" "sr_dist q' (fst mt) \<noteq> None" "sr_dist p (fst mt) = Some i" "snd mt = int k + 1 + i"
    using b by (auto simp: Some meets_def)
  obtain j' where j': "j' \<le> j" "i = int j'" "fst mt \<in> lvl E' e j'" using i(3) unfolding sinvD(2) [OF p] by blast
  have l: "fst mt \<in> lvl E s (Suc k)" using i(1,2) unfolding sinvD(4) [OF q] sinvD(4) [OF q'] by (metis le_SucE)
  have f: "far E s e (Suc (k + j))" by (rule apart_far [OF t(1,2) q p a])
  have "e \<in> reach E s (Suc k + j')" by (rule met_walk [OF t(1,3) l j'(3)])
  then have "j' = j" using f j'(1) unfolding far_def by (metis add_Suc le_neq_implies_less add_less_cancel_left Suc_less_eq)
  then show ?thesis using l j' i(4) f by (simp add: Some met_def)
qed

section \<open>The invariant of both searches\<close>

definition binv :: "edges \<Rightarrow> edges \<Rightarrow> int \<Rightarrow> int \<Rightarrow> both_ends \<Rightarrow> bool" where
  "binv E E' s e b \<longleftrightarrow> (\<exists>k j. sinv E False s k (be_fwd b) \<and> sinv E' False e j (be_bwd b)
     \<and> (case be_meet b of None \<Rightarrow> apart (be_fwd b) (be_bwd b) | Some mt \<Rightarrow> met E E' s e k j mt))"

definition unseen_both :: "edges \<Rightarrow> edges \<Rightarrow> int \<Rightarrow> int \<Rightarrow> int set \<Rightarrow> fault + both_ends \<Rightarrow> nat" where
  "unseen_both E E' s e N st = (case st of Inl _ \<Rightarrow> 0
     | Inr b \<Rightarrow> unseen E s N (Inr (be_fwd b)) + unseen E' e N (Inr (be_bwd b)))"

lemma unseen_less:
  assumes g: "closed_graph ex E N" "s \<in> N" and q: "sinv E all s k q" "sr_front q \<noteq> []" and q': "sinv E all s (Suc k) q'"
  shows "unseen E s N (Inr q') < unseen E s N (Inr q)"
proof -
  obtain v where v: "v \<in> lvl E s k" using q sinvD(3) by (metis list.set_sel(1))
  have "v \<notin> lvl E s j" if "j < k" for j using lvl_unique [OF v, of j] that by blast
  then have "v \<in> N - (\<Union>j<k. lvl E s j)" using v lvl_closed [OF g, of k] by blast
  moreover have "v \<notin> N - (\<Union>j<Suc k. lvl E s j)" using v by blast
  moreover have "N - (\<Union>j<Suc k. lvl E s j) \<subseteq> N - (\<Union>j<k. lvl E s j)" by (auto simp: less_Suc_eq)
  ultimately have "N - (\<Union>j<Suc k. lvl E s j) \<subset> N - (\<Union>j<k. lvl E s j)" by blast
  then have "card (N - (\<Union>j<Suc k. lvl E s j)) < card (N - (\<Union>j<k. lvl E s j))"
    using g(1) unfolding closed_graph_def by (meson finite_Diff psubset_card_mono)
  then show ?thesis by (simp only: unseen_def sum.case sinvD(1) [OF q(1)] sinvD(1) [OF q'] nat_int)
qed

lemma front_expands: "closed_graph ex E N \<Longrightarrow> s \<in> N \<Longrightarrow> sinv E all s k q \<Longrightarrow> \<forall>v \<in> set (sr_front q). ex v = Inr (E v)"
  using lvl_closed [of ex E N s k] sinvD(3) unfolding closed_graph_def by blast

lemma both_step_inv:
  assumes t: "two_way fw bw E E' N" "s \<in> N" "e \<in> N" and inv: "binv E E' s e b" and on: "both_on mx (Inr b)"
  shows "\<exists>b'. both_step fw bw b = Inr b' \<and> binv E E' s e b' \<and> unseen_both E E' s e N (Inr b') < unseen_both E E' s e N (Inr b)"
proof -
  from on have o: "sr_front (be_fwd b) \<noteq> []" "sr_front (be_bwd b) \<noteq> []" "be_meet b = None" by (simp_all add: both_on_def)
  with inv obtain k j where i: "sinv E False s k (be_fwd b)" "sinv E' False e j (be_bwd b)" "apart (be_fwd b) (be_bwd b)"
    unfolding binv_def by auto
  note g = two_wayD [OF t(1)]
  show ?thesis
  proof (cases "length (sr_front (be_fwd b)) \<le> length (sr_front (be_bwd b))")
    case True
    from both_level_inv [OF i(1) front_expands [OF g(1) t(2) i(1)], of "sr_dist (be_bwd b)"] obtain q best where
      l: "both_level fw (sr_dist (be_bwd b)) (be_fwd b) None = Inr (q, best)" "sinv E False s (Suc k) q"
        "meets (sr_dist (be_bwd b)) (sr_dist (be_fwd b)) (int k) (sr_dist q) best" by blast
    have "both_step fw bw b = Inr (b\<lparr>be_fwd := q, be_meet := best\<rparr>)" by (simp add: both_step_def True o(3) l(1))
    moreover have "binv E E' s e (b\<lparr>be_fwd := q, be_meet := best\<rparr>)"
      using level_met [OF t i(1,2,3) l(2,3)] l(2) i(2) unfolding binv_def
      by - (rule exI [of _ "Suc k"], rule exI [of _ j], simp cong: option.case_cong)
    ultimately show ?thesis using unseen_less [OF g(1) t(2) i(1) o(1) l(2)] by (simp add: unseen_both_def)
  next
    case False
    from both_level_inv [OF i(2) front_expands [OF g(2) t(3) i(2)], of "sr_dist (be_fwd b)"] obtain q best where
      l: "both_level bw (sr_dist (be_fwd b)) (be_bwd b) None = Inr (q, best)" "sinv E' False e (Suc j) q"
        "meets (sr_dist (be_fwd b)) (sr_dist (be_bwd b)) (int j) (sr_dist q) best" by blast
    have "both_step fw bw b = Inr (b\<lparr>be_bwd := q, be_meet := best\<rparr>)" by (simp add: both_step_def False o(3) l(1))
    moreover have "binv E E' s e (b\<lparr>be_bwd := q, be_meet := best\<rparr>)"
    proof -
      have "case best of None \<Rightarrow> apart q (be_fwd b) | Some mt \<Rightarrow> met E' E e s (Suc j) k mt"
        by (rule level_met [OF g(4) t(3,2) i(2,1) apart_sym [OF i(3)] l(2,3)])
      then have "case best of None \<Rightarrow> apart (be_fwd b) q | Some mt \<Rightarrow> met E E' s e k (Suc j) mt"
        using apart_sym met_sym [OF g(4) t(2)] by (auto split: option.splits)
      then show ?thesis using l(2) i(1) unfolding binv_def by - (rule exI [of _ k], rule exI [of _ "Suc j"], simp cong: option.case_cong)
    qed
    ultimately show ?thesis using unseen_less [OF g(2) t(3) i(2) o(2) l(2)] by (simp add: unseen_both_def)
  qed
qed

section \<open>The path through the meeting node\<close>

lemma walk_join: "walk E (xs @ [m]) rs \<Longrightarrow> walk E (m # ys) qs \<Longrightarrow> walk E (xs @ m # ys) (rs @ qs)"
proof (induction xs arbitrary: rs)
  case Nil
  then show ?case by (cases rs) auto
next
  case (Cons a xs)
  show ?case
  proof (cases rs)
    case Nil
    then show ?thesis using Cons.prems(1) by (cases xs) auto
  next
    case (Cons r rs')
    then show ?thesis using Cons.IH [of rs'] Cons.prems by (cases xs) auto
  qed
qed

lemma trail_Suc: "m \<noteq> s \<Longrightarrow> preds m = (r, u) # ps \<Longrightarrow> trail (Suc k) preds s m = (r, u) # trail k preds s u"
  by (subst trail.simps) simp

lemma trail_step:
  assumes "preds_ok E all s k preds" "Suc n \<le> k" "m \<in> lvl E s (Suc n)"
  shows "\<exists>r u. trail (Suc n) preds s m = (r, u) # trail n preds s u \<and> u \<in> lvl E s n \<and> (r, m) \<in> set (E u)"
proof -
  have p: "preds m \<noteq> []" "set (preds m) \<subseteq> preds_at E s n m" using preds_okD(1,2) [OF assms(1) _ assms(3)] assms(2) by simp_all
  then obtain r u ps where q: "preds m = (r, u) # ps" "u \<in> lvl E s n" "(r, m) \<in> set (E u)" by (cases "preds m") (auto simp: preds_at_def)
  have "m \<noteq> s" using assms(3) lvl_start [of s E "Suc n"] by auto
  then show ?thesis using trail_Suc [of m s preds r u ps n] q by blast
qed

lemma trail_0: "trail 0 preds s s = []"
  by (subst trail.simps) simp

lemma trail_forward:
  assumes "preds_ok E all s k preds" "n \<le> k" "m \<in> lvl E s n"
  shows "let f = trail n preds s m in walk E (rev (map snd f) @ [m]) (rev (map fst f)) \<and> hd (rev (map snd f) @ [m]) = s \<and> length f = n"
  using assms(2,3)
proof (induction n arbitrary: m)
  case 0
  then show ?case by (simp add: trail_0)
next
  case (Suc n)
  from trail_step [OF assms(1) Suc.prems] obtain r u where u: "trail (Suc n) preds s m = (r, u) # trail n preds s u"
    "u \<in> lvl E s n" "(r, m) \<in> set (E u)" by blast
  let ?f = "trail n preds s u"
  have ih: "walk E (rev (map snd ?f) @ [u]) (rev (map fst ?f))" "hd (rev (map snd ?f) @ [u]) = s" "length ?f = n"
    using Suc.IH [OF _ u(2)] Suc.prems(1) by (simp_all add: Let_def)
  have "walk E ((rev (map snd ?f) @ [u]) @ [m]) (rev (map fst ?f) @ [r])" unfolding walk_snoc using ih(1) u(3) by simp
  moreover have "hd ((rev (map snd ?f) @ [u]) @ [m]) = s" using ih(2) by (metis hd_append snoc_eq_iff_butlast)
  ultimately show ?case using ih(3) by (simp add: u(1) Let_def)
qed

lemma trail_backward:
  assumes "two_way fw bw E E' N" "e \<in> N" "preds_ok E' all e k preds" "n \<le> k" "m \<in> lvl E' e n"
  shows "let g = trail n preds e m in walk E (m # map snd g) (map fst g) \<and> last (m # map snd g) = e \<and> length g = n"
  using assms(4,5)
proof (induction n arbitrary: m)
  case 0
  then show ?case by (simp add: trail_0)
next
  case (Suc n)
  from trail_step [OF assms(3) Suc.prems] obtain r u where u: "trail (Suc n) preds e m = (r, u) # trail n preds e u"
    "u \<in> lvl E' e n" "(r, m) \<in> set (E' u)" by blast
  note g = two_wayD [OF assms(1)]
  have "m \<in> N" "u \<in> N" using Suc.prems(2) u(2) lvl_closed [OF g(2) assms(2)] by blast+
  then have r: "(r, u) \<in> set (E m)" using g(3) u(3) unfolding reversed_def by blast
  show ?case using Suc.IH [OF _ u(2)] Suc.prems(1) r by (simp add: u(1) Let_def)
qed

lemma joined_walk:
  assumes t: "two_way fw bw E E' N" "e \<in> N" and i: "sinv E False s k (be_fwd b)" "sinv E' False e j (be_bwd b)"
    and m: "m \<in> lvl E s k" "m \<in> lvl E' e j"
  shows "joined s e b m \<in> walks E s e (k + j)"
proof -
  have ok: "preds_ok E False s k (sr_preds (be_fwd b))" "preds_ok E' False e j (sr_preds (be_bwd b))"
    using i unfolding sinv_def preds_ok_def by blast+
  have d: "sr_dist (be_fwd b) m = Some (int k)" "sr_dist (be_bwd b) m = Some (int j)"
    using m unfolding sinvD(2) [OF i(1)] sinvD(2) [OF i(2)] by blast+
  let ?f = "trail k (sr_preds (be_fwd b)) s m" and ?g = "trail j (sr_preds (be_bwd b)) e m"
  have f: "walk E (rev (map snd ?f) @ [m]) (rev (map fst ?f))" "hd (rev (map snd ?f) @ [m]) = s" "length ?f = k"
    using trail_forward [OF ok(1) _ m(1)] by (simp_all add: Let_def)
  have g: "walk E (m # map snd ?g) (map fst ?g)" "last (m # map snd ?g) = e" "length ?g = j"
    using trail_backward [OF t ok(2) _ m(2)] by (simp_all add: Let_def)
  have "joined s e b m = (rev (map snd ?f) @ m # map snd ?g, rev (map fst ?f) @ map fst ?g)" by (simp add: joined_def d Let_def)
  moreover have "hd (rev (map snd ?f) @ m # map snd ?g) = s" using f(2) by (cases "rev (map snd ?f)") auto
  moreover have "last (rev (map snd ?f) @ m # map snd ?g) = e" using g(2) by simp
  ultimately show ?thesis using walk_join [OF f(1) g(1)] f(3) g(3) by (simp add: walks_def)
qed

section \<open>The whole search\<close>

lemma both_loop_ends:
  assumes t: "two_way fw bw E E' N" "s \<in> N" "e \<in> N" and ne: "s \<noteq> e"
  shows "\<exists>b. while_option (both_on mx) (\<lambda>st. bindE st (both_step fw bw))
      (Inr \<lparr>be_fwd = search_from s, be_bwd = search_from e, be_meet = None\<rparr>) = Some (Inr b)
    \<and> binv E E' s e b \<and> \<not> both_on mx (Inr b)"
proof -
  let ?P = "\<lambda>st. \<exists>b. st = Inr b \<and> binv E E' s e b"
  let ?start = "Inr \<lparr>be_fwd = search_from s, be_bwd = search_from e, be_meet = None\<rparr>"
  have step: "?P (bindE st (both_step fw bw)) \<and> unseen_both E E' s e N (bindE st (both_step fw bw)) < unseen_both E E' s e N st"
    if p: "?P st" "both_on mx st" for st
  proof -
    from p(1) obtain b where b: "st = Inr b" "binv E E' s e b" by blast
    from both_step_inv [OF t b(2), of mx] p(2) b(1) obtain b' where
      "both_step fw bw b = Inr b'" "binv E E' s e b'" "unseen_both E E' s e N (Inr b') < unseen_both E E' s e N (Inr b)" by blast
    then show ?thesis by (simp add: b(1))
  qed
  have start: "?P ?start"
    using search_from_inv [of E False s] search_from_inv [of E' False e] ne
    by (auto simp: binv_def apart_def search_from_def intro!: exI [of _ 0])
  obtain st where st: "while_option (both_on mx) (\<lambda>st. bindE st (both_step fw bw)) ?start = Some st"
    using measure_while_option_Some [of ?P "both_on mx" "\<lambda>st. bindE st (both_step fw bw)" "unseen_both E E' s e N" ?start] step start by blast
  have "?P st" by (rule while_option_rule [where P = ?P, OF _ st start]) (use step in blast)
  then show ?thesis using st while_option_stop [OF st] by blast
qed

lemma far_no_walks: "far E s e n \<Longrightarrow> i < n \<Longrightarrow> walks E s e i = {}"
  using reach_walks [of e E s i] unfolding far_def by blast

lemma met_least:
  assumes "two_way fw bw E E' N" "e \<in> N" "met E E' s e k j mt"
  shows "least_walk E s e (k + j)"
proof -
  have "e \<in> reach E s (k + j)" using met_walk [OF assms(1,2), of "fst mt"] assms(3) unfolding met_def by blast
  then show ?thesis using far_no_walks assms(3) unfolding least_walk_def reach_walks met_def by blast
qed

text \<open>A search whose frontier is empty has seen all it can reach.\<close>

lemma exhausted:
  assumes q: "sinv E False s k q" "sr_front q = []" and w: "w \<in> reach E s n"
  shows "sr_dist q w \<noteq> None"
proof -
  obtain i where i: "i \<le> n" "w \<in> lvl E s i" using reach_lvl [OF w] by blast
  have "lvl E s k = {}" using sinvD(3) [OF q(1)] q(2) by simp
  then have "i < k" using lvl_before [OF i(2), of k] by (meson not_less)
  then show ?thesis unfolding sinvD(4) [OF q(1)] using i(2) less_imp_le by blast
qed

lemma ended_apart:
  assumes t: "two_way fw bw E E' N" "s \<in> N" "e \<in> N" and i: "sinv E False s k q" "sinv E' False e j p" and a: "apart q p"
    and off: "sr_front q = [] \<or> sr_front p = [] \<or> 0 \<le> mx \<and> mx \<le> int k + int j" and n: "0 \<le> mx \<longrightarrow> int n \<le> mx"
  shows "walks E s e n = {}"
proof (rule ccontr)
  assume "walks E s e n \<noteq> {}"
  then have r: "e \<in> reach E s n" by (simp add: reach_walks)
  have self: "sr_dist q s \<noteq> None" "sr_dist p e \<noteq> None" unfolding sinvD(4) [OF i(1)] sinvD(4) [OF i(2)] by (metis lvl_0 insertI1 le0)+
  from off show False
  proof (elim disjE conjE)
    assume "sr_front q = []"
    then show False using exhausted [OF i(1) _ r] self(2) apartD [OF a, of e] by metis
  next
    assume "sr_front p = []"
    moreover have "s \<in> reach E' e n" using reach_reversed [OF two_wayD(1,3) [OF t(1)] t(2) r] .
    ultimately show False using exhausted [OF i(2)] self(1) apartD [OF a, of s] by metis
  next
    assume "0 \<le> mx" "mx \<le> int k + int j"
    then have "n < Suc (k + j)" using n by linarith
    then show False using apart_far [OF t(1,2) i a] r unfolding far_def by blast
  qed
qed

lemma both_result:
  assumes t: "two_way fw bw E E' N" "s \<in> N" "e \<in> N" and ne: "s \<noteq> e"
  shows "\<exists>ps. shortestPathBidirectional fw bw s e mx = Some (Inr ps)
    \<and> (case ps of
         [] \<Rightarrow> \<forall>n. (0 \<le> mx \<longrightarrow> int n \<le> mx) \<longrightarrow> walks E s e n = {}
       | p # qs \<Rightarrow> qs = [] \<and> (\<exists>n. least_walk E s e n \<and> (0 \<le> mx \<longrightarrow> int n \<le> mx) \<and> p \<in> walks E s e n))"
proof -
  from both_loop_ends [OF assms, of mx] obtain b where b: "while_option (both_on mx) (\<lambda>st. bindE st (both_step fw bw))
      (Inr \<lparr>be_fwd = search_from s, be_bwd = search_from e, be_meet = None\<rparr>) = Some (Inr b)" "binv E E' s e b" "\<not> both_on mx (Inr b)"
    by blast
  from b(2) obtain k j where i: "sinv E False s k (be_fwd b)" "sinv E' False e j (be_bwd b)"
    and m: "case be_meet b of None \<Rightarrow> apart (be_fwd b) (be_bwd b) | Some mt \<Rightarrow> met E E' s e k j mt" unfolding binv_def by blast
  show ?thesis
  proof (cases "be_meet b")
    case None
    have off: "sr_front (be_fwd b) = [] \<or> sr_front (be_bwd b) = [] \<or> 0 \<le> mx \<and> mx \<le> int k + int j"
      using b(3) sinvD(1) [OF i(1)] sinvD(1) [OF i(2)] by (auto simp: both_on_def None)
    have a: "apart (be_fwd b) (be_bwd b)" using m by (simp add: None)
    show ?thesis using ended_apart [OF t i a off] by (simp add: shortestPathBidirectional_def b(1) None)
  next
    case (Some mt)
    then have w: "met E E' s e k j mt" using m by simp
    note l = met_least [OF t(1,3) w]
    have best: "snd mt = int (k + j)" using w by (simp add: met_def)
    have p: "joined s e b (fst mt) \<in> walks E s e (k + j)"
      using w by (intro joined_walk [OF t(1,3) i]) (simp_all add: met_def)
    have r: "shortestPathBidirectional fw bw s e mx
        = Some (Inr (if 0 \<le> mx \<and> mx < int (k + j) then [] else [joined s e b (fst mt)]))"
      by (cases mt) (use best in \<open>simp add: shortestPathBidirectional_def b(1) Some\<close>)
    show ?thesis
    proof (cases "0 \<le> mx \<and> mx < int (k + j)")
      case True
      have "walks E s e n = {}" if "0 \<le> mx \<longrightarrow> int n \<le> mx" for n
        using l True that unfolding least_walk_def by auto
      then show ?thesis unfolding r using True by simp
    next
      case False
      then show ?thesis unfolding r using l p by auto
    qed
  qed
qed

text \<open>Both searches find a path, or neither, and the paths have one length.\<close>

lemma least_walk_unique: "least_walk E s e n \<Longrightarrow> least_walk E s e m \<Longrightarrow> n = m"
  unfolding least_walk_def by (metis linorder_neqE_nat)

lemma searches_agree:
  assumes t: "two_way fw bw E E' N" "s \<in> N" "e \<in> N" and ne: "s \<noteq> e"
  shows "\<exists>ps qs. shortestPathBidirectional fw bw s e mx = Some (Inr ps) \<and> shortestPathsBFS fw s e mx False = Some (Inr qs)
    \<and> map (length \<circ> snd) ps = map (length \<circ> snd) qs \<and> (\<forall>p \<in> set ps. p \<in> walks E s e (length (snd p)))"
proof -
  from both_result [OF assms, of mx] obtain ps where ps: "shortestPathBidirectional fw bw s e mx = Some (Inr ps)"
    "case ps of [] \<Rightarrow> \<forall>n. (0 \<le> mx \<longrightarrow> int n \<le> mx) \<longrightarrow> walks E s e n = {}
       | p # qs \<Rightarrow> qs = [] \<and> (\<exists>n. least_walk E s e n \<and> (0 \<le> mx \<longrightarrow> int n \<le> mx) \<and> p \<in> walks E s e n)" by blast
  from bfs_result [OF two_wayD(1) [OF t(1)] t(2), of e mx False] obtain r where r: "shortestPathsBFS fw s e mx False = Some r"
    "case r of Inr [] \<Rightarrow> \<forall>n. (0 \<le> mx \<longrightarrow> int n \<le> mx) \<longrightarrow> walks E s e n = {}
       | Inr ps \<Rightarrow> \<exists>n. least_walk E s e n \<and> (0 \<le> mx \<longrightarrow> int n \<le> mx)
           \<and> (if False then set ps = walks E s e n else length ps = 1 \<and> set ps \<subseteq> walks E s e n)
       | Inl _ \<Rightarrow> False \<and> (\<exists>n ps. least_walk E s e n \<and> set ps = walks E s e n \<and> maxShortestPaths < length ps)" by blast
  then obtain qs where q: "r = Inr qs" by (cases r) auto
  have len: "length (snd p) = n" if "p \<in> walks E s e n" for p n using that by (auto simp: walks_def)
  show ?thesis
  proof (cases ps)
    case Nil
    then have "qs = []" using ps(2) r(2) q unfolding least_walk_def by (cases qs) auto
    then show ?thesis using ps(1) r(1) q Nil by simp
  next
    case (Cons p ps')
    then obtain n where n: "ps = [p]" "least_walk E s e n" "0 \<le> mx \<longrightarrow> int n \<le> mx" "p \<in> walks E s e n" using ps(2) by auto
    then have "qs \<noteq> []" using r(2) q unfolding least_walk_def by auto
    then obtain c where c: "qs = [c]" using r(2) q by (cases qs) auto
    then obtain m where m: "least_walk E s e m" "c \<in> walks E s e m" using r(2) q by auto
    have "m = n" by (rule least_walk_unique [OF m(1) n(2)])
    then show ?thesis using ps(1) r(1) q c n(1,4) len [OF m(2)] len [OF n(4)] by simp
  qed
qed

end
