(* ===== verification/WholePaths.thy ===== *)
theory WholePaths
  imports BothEnds
begin

text \<open>
  The search over whole paths finds the walks of least length, at least the minimum, that repeat no relationship; and what the
  choice between the three searches gives is the same in every case.
\<close>

section \<open>Walks that repeat no relationship\<close>

definition trails :: "edges \<Rightarrow> int \<Rightarrow> nat \<Rightarrow> path set" where
  "trails E s n = {(ns, rs). walk E ns rs \<and> hd ns = s \<and> distinct rs \<and> length rs = n}"

definition trails_to :: "edges \<Rightarrow> int \<Rightarrow> int \<Rightarrow> nat \<Rightarrow> path set" where
  "trails_to E s e n = {p \<in> trails E s n. last (fst p) = e}"

lemma trails_0: "trails E s 0 = {([s], [])}"
  by (auto simp: trails_def walk_Nil)

lemma trails_Suc: "q \<in> trails E s (Suc k) \<longleftrightarrow>
  (\<exists>p \<in> trails E s k. \<exists>r v. (r, v) \<in> set (E (last (fst p))) \<and> r \<notin> set (snd p) \<and> q = (fst p @ [v], snd p @ [r]))"
proof
  assume "q \<in> trails E s (Suc k)"
  then obtain ns qs where q: "q = (ns, qs)" "walk E ns qs" "hd ns = s" "distinct qs" "length qs = Suc k" by (auto simp: trails_def)
  obtain rs r where rs: "qs = rs @ [r]" using q(5) by (metis length_Suc_conv_rev)
  obtain ms v where m: "ns = ms @ [v]" "walk E ms rs" "(r, v) \<in> set (E (last ms))" using walk_last_cases q(2) rs by blast
  have "(ms, rs) \<in> trails E s k" using q rs m walk_ne [OF m(2)] by (simp add: trails_def)
  moreover have "r \<notin> set rs" using q(4) rs by simp
  ultimately show "\<exists>p \<in> trails E s k. \<exists>r v. (r, v) \<in> set (E (last (fst p))) \<and> r \<notin> set (snd p) \<and> q = (fst p @ [v], snd p @ [r])"
    using m(1,3) q(1) rs by (intro bexI [of _ "(ms, rs)"]) auto
next
  assume "\<exists>p \<in> trails E s k. \<exists>r v. (r, v) \<in> set (E (last (fst p))) \<and> r \<notin> set (snd p) \<and> q = (fst p @ [v], snd p @ [r])"
  then obtain ms rs r v where p: "(ms, rs) \<in> trails E s k" "(r, v) \<in> set (E (last ms))" "r \<notin> set rs" "q = (ms @ [v], rs @ [r])" by auto
  then have w: "walk E ms rs" by (simp add: trails_def)
  then have "walk E (ms @ [v]) (rs @ [r])" using p(2) by (simp add: walk_snoc)
  then show "q \<in> trails E s (Suc k)" using p walk_ne [OF w] by (simp add: trails_def)
qed

text \<open>What the paths can be made of is finite.\<close>

definition all_rels :: "edges \<Rightarrow> int set \<Rightarrow> int set" where
  "all_rels E N = (\<Union>v \<in> N. fst ` set (E v))"

lemma walk_inside:
  assumes "closed_graph ex E N" "walk E ns rs" "hd ns \<in> N"
  shows "last ns \<in> N \<and> set rs \<subseteq> all_rels E N"
  using assms(2,3)
proof (induction rs arbitrary: ns)
  case Nil
  then show ?case by (auto simp: walk_Nil)
next
  case (Cons r rs)
  then obtain a m ns' where n: "ns = a # m # ns'" "(r, m) \<in> set (E a)" "walk E (m # ns') rs"
    by (cases ns rule: remdups_adj.cases) auto
  have a: "a \<in> N" using Cons.prems(2) n(1) by simp
  then have "m \<in> N" using n(2) assms(1) unfolding closed_graph_def by force
  moreover have "r \<in> all_rels E N" using a n(2) unfolding all_rels_def by force
  ultimately show ?case using Cons.IH [OF n(3)] n(1) by simp
qed

lemma trails_short:
  assumes g: "closed_graph ex E N" "s \<in> N" and p: "p \<in> trails E s n"
  shows "n \<le> card (all_rels E N)" "last (fst p) \<in> N"
proof -
  obtain ns rs where e: "p = (ns, rs)" by (cases p)
  then have w: "walk E ns rs" "hd ns = s" "distinct rs" "length rs = n" using p by (simp_all add: trails_def)
  have i: "last ns \<in> N" "set rs \<subseteq> all_rels E N" using walk_inside [OF g(1) w(1)] w(2) g(2) by auto
  have "finite (all_rels E N)" using g(1) unfolding all_rels_def closed_graph_def by blast
  then have "card (set rs) \<le> card (all_rels E N)" using i(2) card_mono by blast
  then show "n \<le> card (all_rels E N)" using w(3,4) by (simp add: distinct_card)
  show "last (fst p) \<in> N" using i(1) e by simp
qed

section \<open>One level\<close>

text \<open>A node offers a path the relationships that the path has not taken.\<close>

definition skips_taken :: "(int list \<Rightarrow> expansion) \<Rightarrow> edges \<Rightarrow> int set \<Rightarrow> bool" where
  "skips_taken ex E N \<longleftrightarrow> (\<forall>rs. \<forall>v \<in> N. ex rs v = Inr (filter (\<lambda>(r, m). r \<notin> set rs) (E v)))"

lemma skips_closed: "skips_taken ex E N \<Longrightarrow> closed_graph (ex []) E N \<longleftrightarrow> finite N \<and> (\<forall>v \<in> N. snd ` set (E v) \<subseteq> N)"
  by (auto simp: skips_taken_def closed_graph_def)

definition longer :: "edges \<Rightarrow> path \<Rightarrow> path list" where
  "longer E p = map (\<lambda>(r, m). (fst p @ [m], snd p @ [r])) (filter (\<lambda>(r, m). r \<notin> set (snd p)) (E (last (fst p))))"

definition hit_end :: "int \<Rightarrow> int \<Rightarrow> path \<Rightarrow> bool" where
  "hit_end e mn q \<longleftrightarrow> last (fst q) = e \<and> mn \<le> int (length (snd q))"

lemma slow_edges:
  "fold (slow_edge e mn p) es (found, nxt) =
    (found @ filter (hit_end e mn) (map (\<lambda>(r, m). (fst p @ [m], snd p @ [r])) es),
     nxt @ filter (\<lambda>q. \<not> hit_end e mn q) (map (\<lambda>(r, m). (fst p @ [m], snd p @ [r])) es))"
  by (induction es arbitrary: found nxt) (auto simp: slow_edge_def hit_end_def Let_def)

lemma slow_paths:
  assumes "\<forall>p \<in> set ps. ex (snd p) (last (fst p)) = Inr (filter (\<lambda>(r, m). r \<notin> set (snd p)) (E (last (fst p))))"
  shows "foldE (\<lambda>p st. bindE (ex (snd p) (last (fst p))) (\<lambda>es. Inr (fold (slow_edge e mn p) es st))) ps (found, nxt)
    = Inr (found @ filter (hit_end e mn) (concat (map (longer E) ps)), nxt @ filter (\<lambda>q. \<not> hit_end e mn q) (concat (map (longer E) ps)))"
  using assms
proof (induction ps arbitrary: found nxt)
  case (Cons p ps)
  then show ?case by (simp add: slow_edges longer_def)
qed simp

lemma longer_all:
  assumes "set ps = trails E s k"
  shows "set (concat (map (longer E) ps)) = trails E s (Suc k)"
proof (intro set_eqI)
  fix q
  have "q \<in> set (concat (map (longer E) ps)) \<longleftrightarrow> (\<exists>p \<in> trails E s k. q \<in> set (longer E p))" using assms by simp
  also have "\<dots> \<longleftrightarrow> q \<in> trails E s (Suc k)" unfolding trails_Suc longer_def by (auto simp: image_iff)
  finally show "q \<in> set (concat (map (longer E) ps)) \<longleftrightarrow> q \<in> trails E s (Suc k)" .
qed

section \<open>The loop\<close>

text \<open>Nothing of a length from the minimum up to k ends there (the empty path is not looked at).\<close>

definition none_upto :: "edges \<Rightarrow> int \<Rightarrow> int \<Rightarrow> int \<Rightarrow> nat \<Rightarrow> bool" where
  "none_upto E s e mn k \<longleftrightarrow> (\<forall>n. 1 \<le> n \<and> n \<le> k \<and> mn \<le> int n \<longrightarrow> trails_to E s e n = {})"

definition first_at :: "edges \<Rightarrow> int \<Rightarrow> int \<Rightarrow> int \<Rightarrow> nat \<Rightarrow> bool" where
  "first_at E s e mn n \<longleftrightarrow> 1 \<le> n \<and> mn \<le> int n \<and> trails_to E s e n \<noteq> {} \<and> none_upto E s e mn (n - 1)"

definition too_many :: "edges \<Rightarrow> int \<Rightarrow> bool" where
  "too_many E s \<longleftrightarrow> (\<exists>n ps. set ps = trails E s n \<and> 100000 < length ps)"

definition slow_ok :: "edges \<Rightarrow> int \<Rightarrow> int \<Rightarrow> int \<Rightarrow> int \<Rightarrow> fault + slow \<Rightarrow> bool" where
  "slow_ok E s e mn mx st \<longleftrightarrow> (case st of
     Inl _ \<Rightarrow> too_many E s
   | Inr q \<Rightarrow> \<exists>k. sl_depth q = int k \<and> (0 \<le> mx \<longrightarrow> int k \<le> mx) \<and> none_upto E s e mn k
       \<and> set (sl_front q) = trails E s k
       \<and> (sl_found q \<noteq> [] \<longrightarrow> first_at E s e mn (Suc k) \<and> set (sl_found q) = trails_to E s e (Suc k) \<and> (0 \<le> mx \<longrightarrow> int (Suc k) \<le> mx)))"

definition slow_left :: "edges \<Rightarrow> int set \<Rightarrow> fault + slow \<Rightarrow> nat" where
  "slow_left E N st = (case st of Inl _ \<Rightarrow> 0 | Inr q \<Rightarrow> if sl_found q \<noteq> [] then 0 else Suc (card (all_rels E N)) - nat (sl_depth q))"

lemma hits_trails:
  assumes "set qs = trails E s n"
  shows "set (filter (hit_end e mn) qs) = (if mn \<le> int n then trails_to E s e n else {})"
  using assms by (auto simp: hit_end_def trails_to_def trails_def)

lemma slow_step:
  assumes sk: "skips_taken ex E N" and g: "closed_graph (ex []) E N" "s \<in> N"
    and ok: "slow_ok E s e mn mx st" and on: "slow_on mx st"
  shows "slow_ok E s e mn mx (bindE st (slow_level ex e mn)) \<and> slow_left E N (bindE st (slow_level ex e mn)) < slow_left E N st"
proof -
  from on obtain q where q: "st = Inr q" "sl_front q \<noteq> []" "mx < 0 \<or> sl_depth q < mx" "sl_found q = []"
    by (auto simp: slow_on_def split: sum.splits)
  from ok obtain k where k: "sl_depth q = int k" "none_upto E s e mn k" "set (sl_front q) = trails E s k"
    by (auto simp: slow_ok_def q(1))
  let ?l = "concat (map (longer E) (sl_front q))"
  have l: "set ?l = trails E s (Suc k)" by (rule longer_all [OF k(3)])
  have ex: "\<forall>p \<in> set (sl_front q). ex (snd p) (last (fst p)) = Inr (filter (\<lambda>(r, m). r \<notin> set (snd p)) (E (last (fst p))))"
    using sk trails_short(2) [OF g] k(3) unfolding skips_taken_def by blast
  have step: "slow_level ex e mn q = (if filter (hit_end e mn) ?l \<noteq> [] then Inr (q\<lparr>sl_found := filter (hit_end e mn) ?l\<rparr>)
      else if 100000 < length (filter (\<lambda>q. \<not> hit_end e mn q) ?l) then no_support ''shortest path search space is too large''
      else Inr (q\<lparr>sl_front := filter (\<lambda>q. \<not> hit_end e mn q) ?l, sl_depth := sl_depth q + 1\<rparr>))"
    unfolding slow_level_def slow_paths [OF ex] by simp
  obtain p where "p \<in> trails E s k" using q(2) k(3) by (metis list.set_sel(1))
  then have short: "k \<le> card (all_rels E N)" by (rule trails_short(1) [OF g])
  have bound: "0 \<le> mx \<longrightarrow> int (Suc k) \<le> mx" using q(3) k(1) by linarith
  have left: "slow_left E N st = Suc (card (all_rels E N)) - k" by (simp add: slow_left_def q(1,4) k(1))
  note h = hits_trails [OF l, of e mn]
  show ?thesis
  proof (cases "filter (hit_end e mn) ?l = []")
    case False
    then have f: "mn \<le> int (Suc k)" "set (filter (hit_end e mn) ?l) = trails_to E s e (Suc k)" "trails_to E s e (Suc k) \<noteq> {}"
      using h by (metis empty_set set_empty)+
    have r: "bindE st (slow_level ex e mn) = Inr (q\<lparr>sl_found := filter (hit_end e mn) ?l\<rparr>)" using step False by (simp add: q(1))
    have "first_at E s e mn (Suc k)" using f k(2) by (simp add: first_at_def)
    then have "slow_ok E s e mn mx (Inr (q\<lparr>sl_found := filter (hit_end e mn) ?l\<rparr>))"
      using f(2) k bound unfolding slow_ok_def sum.case by (intro exI [of _ k]) auto
    moreover have "slow_left E N (Inr (q\<lparr>sl_found := filter (hit_end e mn) ?l\<rparr>)) < slow_left E N st"
      using False short left by (simp add: slow_left_def)
    ultimately show ?thesis unfolding r by blast
  next
    case True
    then have no: "filter (\<lambda>q. \<not> hit_end e mn q) ?l = ?l" by (auto simp: filter_empty_conv intro!: filter_True)
    have "mn \<le> int (Suc k) \<longrightarrow> trails_to E s e (Suc k) = {}" using h True by (metis empty_set)
    then have none: "none_upto E s e mn (Suc k)" using k(2) unfolding none_upto_def by (metis le_Suc_eq)
    show ?thesis
    proof (cases "100000 < length ?l")
      case big: True
      have r: "bindE st (slow_level ex e mn) = no_support ''shortest path search space is too large''"
        using step True no big by (simp add: q(1))
      have "too_many E s" unfolding too_many_def using l big by blast
      then show ?thesis unfolding r using short left by (simp add: slow_ok_def slow_left_def)
    next
      case False
      have r: "bindE st (slow_level ex e mn) = Inr (q\<lparr>sl_front := ?l, sl_depth := sl_depth q + 1\<rparr>)"
        using step True no False by (simp add: q(1))
      have "slow_ok E s e mn mx (Inr (q\<lparr>sl_front := ?l, sl_depth := sl_depth q + 1\<rparr>))"
        unfolding slow_ok_def sum.case using none l bound k(1) q(4) by (intro exI [of _ "Suc k"]) simp
      moreover have "slow_left E N (Inr (q\<lparr>sl_front := ?l, sl_depth := sl_depth q + 1\<rparr>)) < slow_left E N st"
        using short left q(4) k(1) by (simp add: slow_left_def nat_add_distrib)
      ultimately show ?thesis unfolding r by blast
    qed
  qed
qed

lemma slow_ends:
  assumes sk: "skips_taken ex E N" and g: "closed_graph (ex []) E N" "s \<in> N"
  shows "\<exists>st. while_option (slow_on mx) (\<lambda>st. bindE st (slow_level ex e mn)) (Inr \<lparr>sl_front = [([s], [])], sl_found = [], sl_depth = 0\<rparr>) = Some st
    \<and> slow_ok E s e mn mx st \<and> \<not> slow_on mx st"
proof -
  let ?start = "Inr \<lparr>sl_front = [([s], [])], sl_found = [], sl_depth = 0\<rparr>"
  have start: "slow_ok E s e mn mx ?start" by (auto simp: slow_ok_def none_upto_def trails_0)
  obtain st where st: "while_option (slow_on mx) (\<lambda>st. bindE st (slow_level ex e mn)) ?start = Some st"
    using measure_while_option_Some [of "slow_ok E s e mn mx" "slow_on mx" "\<lambda>st. bindE st (slow_level ex e mn)" "slow_left E N" ?start]
      slow_step [OF assms] start by blast
  have "slow_ok E s e mn mx st"
    by (rule while_option_rule [where P = "slow_ok E s e mn mx", OF _ st start]) (use slow_step [OF assms] in blast)
  then show ?thesis using st while_option_stop [OF st] by blast
qed

lemma trails_later: "trails E s k = {} \<Longrightarrow> k \<le> n \<Longrightarrow> trails E s n = {}"
proof (induction n)
  case (Suc n)
  then show ?case using trails_Suc [of _ E s n] by (cases "k = Suc n") auto
qed simp

text \<open>What any of the searches may return: the trails of least length in the range, none, or the error for too many of them.\<close>

definition in_bound :: "int \<Rightarrow> nat \<Rightarrow> bool" where
  "in_bound mx n \<longleftrightarrow> (0 \<le> mx \<longrightarrow> int n \<le> mx)"

definition shortest_spec :: "edges \<Rightarrow> int \<Rightarrow> int \<Rightarrow> int \<Rightarrow> int \<Rightarrow> bool \<Rightarrow> fault + path list \<Rightarrow> bool" where
  "shortest_spec E s e mn mx all r \<longleftrightarrow> (case r of
     Inl _ \<Rightarrow> \<exists>n ps. set ps \<subseteq> trails E s n \<and> 100000 < length ps
   | Inr ps \<Rightarrow> (ps = [] \<and> (\<forall>n \<ge> 1. mn \<le> int n \<and> in_bound mx n \<longrightarrow> trails_to E s e n = {}))
     \<or> (\<exists>n. first_at E s e mn n \<and> in_bound mx n
         \<and> (if all then set ps = trails_to E s e n else length ps = 1 \<and> set ps \<subseteq> trails_to E s e n)))"

lemma slow_result:
  assumes sk: "skips_taken ex E N" and g: "closed_graph (ex []) E N" "s \<in> N" and ne: "\<not> (s = e \<and> mn = 0)"
  shows "\<exists>r. shortestPathsSlow ex s e mn mx all = Some r \<and> shortest_spec E s e mn mx all r"
proof -
  from slow_ends [OF sk g] obtain st where st: "while_option (slow_on mx) (\<lambda>st. bindE st (slow_level ex e mn))
      (Inr \<lparr>sl_front = [([s], [])], sl_found = [], sl_depth = 0\<rparr>) = Some st" "slow_ok E s e mn mx st" "\<not> slow_on mx st" by blast
  have eq: "shortestPathsSlow ex s e mn mx all
      = Some (bindE st (\<lambda>q. Inr (if \<not> all \<and> 1 < length (sl_found q) then take 1 (sl_found q) else sl_found q)))"
    unfolding shortestPathsSlow_def if_not_P [OF ne] st(1) by simp
  show ?thesis
  proof (cases st)
    case (Inl f)
    then have "too_many E s" using st(2) by (simp add: slow_ok_def)
    then have "shortest_spec E s e mn mx all (Inl f)" unfolding too_many_def shortest_spec_def sum.case by blast
    then show ?thesis unfolding eq Inl by simp
  next
    case (Inr q)
    from st(2) obtain k where k: "sl_depth q = int k" "0 \<le> mx \<longrightarrow> int k \<le> mx" "none_upto E s e mn k" "set (sl_front q) = trails E s k"
      "sl_found q \<noteq> [] \<longrightarrow> first_at E s e mn (Suc k) \<and> set (sl_found q) = trails_to E s e (Suc k) \<and> (0 \<le> mx \<longrightarrow> int (Suc k) \<le> mx)"
      by (auto simp: slow_ok_def Inr)
    let ?ps = "if \<not> all \<and> 1 < length (sl_found q) then take 1 (sl_found q) else sl_found q"
    have "shortest_spec E s e mn mx all (Inr ?ps)"
    proof (cases "sl_found q = []")
      case True
      have off: "sl_front q = [] \<or> 0 \<le> mx \<and> mx \<le> int k" using st(3) True k(1) by (auto simp: slow_on_def Inr)
      have "trails_to E s e n = {}" if n: "1 \<le> n" "mn \<le> int n" "in_bound mx n" for n
      proof (cases "n \<le> k")
        case True
        then show ?thesis using k(3) n unfolding none_upto_def by blast
      next
        case False
        then have "sl_front q = []" using off n(3) unfolding in_bound_def by linarith
        then have "trails E s n = {}" using trails_later [of E s k n] k(4) False by simp
        then show ?thesis by (simp add: trails_to_def)
      qed
      then show ?thesis using True by (simp add: shortest_spec_def)
    next
      case False
      then have f: "first_at E s e mn (Suc k)" "set (sl_found q) = trails_to E s e (Suc k)" "in_bound mx (Suc k)"
        using k(5) by (simp_all add: in_bound_def)
      obtain p ps where p: "sl_found q = p # ps" using False by (cases "sl_found q") auto
      have "if all then set ?ps = trails_to E s e (Suc k) else length ?ps = 1 \<and> set ?ps \<subseteq> trails_to E s e (Suc k)"
        using f(2) unfolding p by (cases ps) auto
      then show ?thesis using f(1,3) unfolding shortest_spec_def sum.case by blast
    qed
    then show ?thesis unfolding eq Inr by simp
  qed
qed

section \<open>A least walk repeats nothing\<close>

text \<open>A relationship joins one pair of nodes.\<close>

definition one_pair :: "edges \<Rightarrow> int set \<Rightarrow> bool" where
  "one_pair E N \<longleftrightarrow> (\<forall>u \<in> N. \<forall>v \<in> N. \<forall>r a b. (r, a) \<in> set (E u) \<and> (r, b) \<in> set (E v) \<longrightarrow> {u, a} = {v, b})"

lemma walk_nth:
  "walk E ns rs \<Longrightarrow> length ns = Suc (length rs) \<and> (\<forall>k < length rs. (rs ! k, ns ! Suc k) \<in> set (E (ns ! k)))"
  by (induction E ns rs rule: walk.induct) (auto simp: nth_Cons less_Suc_eq_0_disj split: nat.split)

lemma walk_between:
  assumes "walk E ns rs" "i \<le> j" "j \<le> length rs"
  shows "ns ! j \<in> reach E (ns ! i) (j - i)"
  using assms(2,3)
proof (induction j rule: dec_induct)
  case (step j)
  have "(rs ! j, ns ! Suc j) \<in> set (E (ns ! j))" using walk_nth [OF assms(1)] step.prems by simp
  moreover have "ns ! j \<in> reach E (ns ! i) (j - i)" using step.IH step.prems by simp
  ultimately show ?case using step.hyps by (auto simp: Suc_diff_le)
qed simp

lemma least_walk_nodes:
  assumes l: "least_walk E s e n" and w: "walk E ns rs" "hd ns = s" "last ns = e" "length rs = n" and i: "i < j" "j \<le> n"
  shows "ns ! i \<noteq> ns ! j"
proof
  assume eq: "ns ! i = ns ! j"
  have len: "length ns = Suc n" using walk_nth [OF w(1)] w(4) by simp
  have "ns ! 0 = s" using w(2) len by (metis hd_conv_nth list.size(3) nat.distinct(1))
  then have "ns ! i \<in> reach E s i" using walk_between [OF w(1), of 0 i] i w(4) by simp
  moreover have "ns ! n = e" using w(3) len by (metis diff_Suc_1 last_conv_nth list.size(3) nat.distinct(1))
  then have "e \<in> reach E (ns ! i) (n - j)" using walk_between [OF w(1), of j n] i w(4) eq by simp
  ultimately have "e \<in> reach E s (i + (n - j))" unfolding reach_split by blast
  moreover have "i + (n - j) < n" using i by linarith
  ultimately show False using l unfolding least_walk_def reach_walks by blast
qed

lemma least_walks_are_trails:
  assumes g: "closed_graph ex E N" "s \<in> N" and o: "one_pair E N" and l: "least_walk E s e n"
  shows "walks E s e n = trails_to E s e n"
proof (intro set_eqI iffI)
  fix p assume "p \<in> walks E s e n"
  then obtain ns rs where p: "p = (ns, rs)" "walk E ns rs" "hd ns = s" "last ns = e" "length rs = n" by (auto simp: walks_def)
  note nth = walk_nth [OF p(2)] and diff = least_walk_nodes [OF l p(2-5)]
  have s: "ns ! 0 = s" using p(3) nth by (metis hd_conv_nth list.size(3) nat.distinct(1))
  have inN: "ns ! k \<in> N" if "k \<le> n" for k
    using walk_between [OF p(2), of 0 k] that p(5) s reach_closed [OF g, of k] by auto
  have "rs ! i \<noteq> rs ! j" if ij: "i < j" "j < n" for i j
  proof
    assume eq: "rs ! i = rs ! j"
    have "(rs ! k, ns ! Suc k) \<in> set (E (ns ! k))" if "k < n" for k using nth p(5) that by simp
    from this [of i] this [of j] have "(rs ! i, ns ! Suc i) \<in> set (E (ns ! i))" "(rs ! i, ns ! Suc j) \<in> set (E (ns ! j))"
      using ij eq by simp_all
    then have "{ns ! i, ns ! Suc i} = {ns ! j, ns ! Suc j}"
      using o inN [of i] inN [of j] ij unfolding one_pair_def by (meson less_imp_le less_trans)
    then have "ns ! i = ns ! j \<or> ns ! i = ns ! Suc j" by blast
    then show False using diff [of i j] diff [of i "Suc j"] ij by simp
  qed
  then have "distinct rs" unfolding distinct_conv_nth p(5) by (metis linorder_neqE_nat)
  then show "p \<in> trails_to E s e n" using p by (simp add: trails_to_def trails_def)
next
  fix p assume "p \<in> trails_to E s e n"
  then show "p \<in> walks E s e n" by (auto simp: trails_to_def trails_def walks_def)
qed

lemma trails_to_walks: "trails_to E s e n \<subseteq> walks E s e n"
  by (auto simp: trails_to_def trails_def walks_def)

lemma least_first:
  assumes "closed_graph ex E N" "s \<in> N" "one_pair E N" "least_walk E s e n" "s \<noteq> e" "mn \<le> 1"
  shows "first_at E s e mn n"
proof -
  have t: "walks E s e n = trails_to E s e n" by (rule least_walks_are_trails [OF assms(1-4)])
  have "n \<noteq> 0" using assms(4,5) unfolding least_walk_def by (cases n) (auto simp: walks_0)
  moreover have "none_upto E s e mn (n - 1)"
    using assms(4) trails_to_walks [of E s e] \<open>n \<noteq> 0\<close> unfolding none_upto_def least_walk_def by fastforce
  ultimately show ?thesis using t assms(4,6) unfolding first_at_def least_walk_def by auto
qed

section \<open>The three searches\<close>

lemma bfs_spec:
  assumes "closed_graph ex E N" "s \<in> N" "one_pair E N" "s \<noteq> e" "mn \<le> 1"
  shows "\<exists>r. shortestPathsBFS ex s e mx all = Some r \<and> shortest_spec E s e mn mx all r"
proof -
  from bfs_result [OF assms(1,2), of e mx all] obtain r where r: "shortestPathsBFS ex s e mx all = Some r"
    "case r of
         Inr [] \<Rightarrow> \<forall>n. (0 \<le> mx \<longrightarrow> int n \<le> mx) \<longrightarrow> walks E s e n = {}
       | Inr ps \<Rightarrow> \<exists>n. least_walk E s e n \<and> (0 \<le> mx \<longrightarrow> int n \<le> mx)
           \<and> (if all then set ps = walks E s e n else length ps = 1 \<and> set ps \<subseteq> walks E s e n)
       | Inl _ \<Rightarrow> all \<and> (\<exists>n ps. least_walk E s e n \<and> set ps = walks E s e n \<and> maxShortestPaths < length ps)" by blast
  note first = least_first [OF assms(1-3) _ assms(4,5)] and same = least_walks_are_trails [OF assms(1-3)]
  have "shortest_spec E s e mn mx all r"
  proof (cases r)
    case (Inl f)
    then obtain n ps where p: "least_walk E s e n" "set ps = walks E s e n" "maxShortestPaths < length ps" using r(2) by auto
    then have "set ps \<subseteq> trails E s n" using same [OF p(1)] by (auto simp: trails_to_def)
    then show ?thesis using p(3) unfolding Inl shortest_spec_def sum.case maxShortestPaths_def by blast
  next
    case (Inr ps)
    show ?thesis
    proof (cases ps)
      case Nil
      then have "\<forall>n. in_bound mx n \<longrightarrow> walks E s e n = {}" using r(2) Inr by (simp add: in_bound_def)
      then show ?thesis using trails_to_walks [of E s e] unfolding Inr Nil shortest_spec_def sum.case by blast
    next
      case (Cons a as)
      then obtain n where "least_walk E s e n" "0 \<le> mx \<longrightarrow> int n \<le> mx"
        "if all then set ps = walks E s e n else length ps = 1 \<and> set ps \<subseteq> walks E s e n" using r(2) Inr by auto
      then show ?thesis using first [of n] same [of e n] unfolding Inr shortest_spec_def sum.case in_bound_def by metis
    qed
  qed
  then show ?thesis using r(1) by blast
qed

lemma both_spec:
  assumes t: "two_way fw bw E E' N" "s \<in> N" "e \<in> N" and o: "one_pair E N" "s \<noteq> e" "mn \<le> 1"
  shows "\<exists>r. shortestPathBidirectional fw bw s e mx = Some r \<and> shortest_spec E s e mn mx False r"
proof -
  note first = least_first [OF two_wayD(1) [OF t(1)] t(2) o(1) _ o(2,3)] and same = least_walks_are_trails [OF two_wayD(1) [OF t(1)] t(2) o(1)]
  from both_result [OF t o(2), of mx] obtain ps where ps: "shortestPathBidirectional fw bw s e mx = Some (Inr ps)"
    "case ps of [] \<Rightarrow> \<forall>n. (0 \<le> mx \<longrightarrow> int n \<le> mx) \<longrightarrow> walks E s e n = {}
       | p # qs \<Rightarrow> qs = [] \<and> (\<exists>n. least_walk E s e n \<and> (0 \<le> mx \<longrightarrow> int n \<le> mx) \<and> p \<in> walks E s e n)" by blast
  have "shortest_spec E s e mn mx False (Inr ps)"
  proof (cases ps)
    case Nil
    then have "\<forall>n. in_bound mx n \<longrightarrow> walks E s e n = {}" using ps(2) by (simp add: in_bound_def)
    then show ?thesis using trails_to_walks [of E s e] unfolding Nil shortest_spec_def sum.case by blast
  next
    case (Cons p qs)
    then obtain n where n: "qs = []" "least_walk E s e n" "0 \<le> mx \<longrightarrow> int n \<le> mx" "p \<in> walks E s e n" using ps(2) by auto
    then have "first_at E s e mn n \<and> in_bound mx n \<and> length ps = 1 \<and> set ps \<subseteq> trails_to E s e n"
      using first [of n] same [of e n] Cons by (simp add: in_bound_def)
    then show ?thesis unfolding shortest_spec_def sum.case by auto
  qed
  then show ?thesis using ps(1) by blast
qed

lemma shortestPaths_result:
  assumes sk: "skips_taken ex E N" and t: "two_way (ex []) bw E E' N" "s \<in> N" "e \<in> N" and o: "one_pair E N"
    and h: "\<not> (0 < hops \<and> hops < mx)" and ne: "\<not> (s = e \<and> mn = 0)"
  shows "\<exists>r. shortestPaths hops ex bw s e mn mx all = Some r
    \<and> shortest_spec E s e mn (if 0 < hops \<and> mx < 0 then hops else mx) all r"
proof -
  let ?b = "if 0 < hops \<and> mx < 0 then hops else mx"
  note g = two_wayD(1) [OF t(1)]
  consider "s = e \<or> 1 < mn" | "s \<noteq> e" "mn \<le> 1" "\<not> all" | "s \<noteq> e" "mn \<le> 1" all by linarith
  then show ?thesis
  proof cases
    case 1
    then show ?thesis using slow_result [OF sk g t(2) ne, of ?b all] unfolding shortestPaths_def if_not_P [OF h] Let_def by (simp only: if_P)
  next
    case 2
    then show ?thesis using both_spec [OF t o 2(1,2), of ?b] unfolding shortestPaths_def if_not_P [OF h] Let_def by simp
  next
    case 3
    then show ?thesis using bfs_spec [OF g t(2) o 3(1,2), of ?b all] unfolding shortestPaths_def if_not_P [OF h] Let_def by simp
  qed
qed

end
