(* ===== verification/Spec2Isabelle.thy ===== *)
theory Spec2Isabelle
  imports TemporalTruncate SchemaText EvalFacts GraphSteps MatrixFacts ProjectFacts WholePaths
begin

text \<open>
  A model of the engine behind a Cypher database over SQLite (Go packages under src/cypher), with the theorems that make its
  parts correct. A statement is text; the lexer turns it into tokens, a parser into a tree, and the interpreter runs the
  clauses of the tree over rows of variables. It reads and writes a property graph through a view of the database tables
  that caches what it has read, evaluates expressions to values, and projects rows into results.

  \<^bold>\<open>What models what.\<close> Each theory keeps the order and the names of the file it models.
  \<^item> Prelude, GoTime, Float64, FloatOps, Strconv, GoText, JsonText: Go and the parts of its library the program uses: pairs of a
    value and an error as sums (\<open>bindE\<close>, \<open>mapE\<close>, \<open>foldE\<close>), 64-bit integers as ints wrapped by \<open>w64\<close>, the civil calendar and
    instants, floats as exact rationals with rounding to nearest even, numbers as text, UTF-8 and JSON text.
  \<^item> Temporal, Calendar, Duration, Zone, TemporalParse, TemporalArith, TemporalMaps, TemporalBetween, TemporalTruncate:
    cypher/temporal (temporal.go, calendar.go, duration.go, zone.go, parse.go, arith.go, construct.go and access.go,
    between.go and truncate.go).
  \<^item> Lexer, LexerFacts, SchemaText: cypher/syntax lexer.go, token.go, errors.go, and the statements schema_api.go writes.
  \<^item> Ast: the tree of cypher/syntax/ast.go. Spatial, Vector, Value, ValueFacts, GroupKeys, VTypes: points, vectors, run-time values
    with equality, order and grouping keys, and value types (cypher/spatial, cypher/vector/vector.go, interp/value.go, typepred.go).
  \<^item> Runtime, Operators, Functions, Calls, Eval, EvalFacts: expressions (interp/eval.go, funcs.go, stringfn.go, temporalfn.go, vectorfn.go).
  \<^item> Props, PropsFacts: property maps as JSON in the tables (interp/graph.go, fastjson.go). Graph, GraphFacts, GraphWrites, GraphEnd,
    GraphSteps: the statement's graph (interp/graph.go) over the tables of store/schema.go.
  \<^item> HitHeap, Matrix, MatrixFacts: vector indexes (cypher/vector/kernels.go, matrix.go).
  \<^item> Project, ProjectFacts: WITH and RETURN (interp/project.go). ShortestPath, ShortestFacts,
    BothEnds, WholePaths: the three shortest-path searches of interp/match.go and the choice between them.

  \<^bold>\<open>State.\<close> The state of a statement is the record \<open>graph\<close>: the tables, the entities loaded (a pointer is an id, since every entity is
  interned once), adjacency lists, the label index, what is deleted, and counters. An operation gives the new state or the error that ends the statement. The
  other components keep no state between calls, but for a matrix and its builder, records that are passed on.

  \<^bold>\<open>What is shown.\<close> Temporal values: text and components are read back, arithmetic is exact or clamps as it says, truncation is
  a floor. The lexer: scanning ends, loses nothing, and quoting is safe. Values: comparing, grouping, typing and construction agree with
  one another. Expressions: exact arithmetic and three-valued logic. The graph: encoding loses nothing, pushing a condition to the
  database gives the same rows, every sequence of reads and writes is a sequence of changes of a finite property graph (the simulation
  of GraphSteps), and the end of a statement deletes what it must or fails. Vector indexes: a matrix is a finite map and its search gives
  the best. Projections: stable order, groups that partition, exact aggregates. Shortest paths: every search ends and finds what is shortest, and the optimised one
  agrees with the plain one. The interfaces are locales (comparators, rankings, truncation, simulation, and
  others), each interpreted on the model's own definitions.

  \<^bold>\<open>Bounds.\<close> \<open>tokenize\<close> has as fuel one turn more than the text has bytes, and every token consumes a byte; \<open>tokenize_ends\<close>
  shows that it suffices. The JSON readers have as fuel three times the length of the text and three more: a lemma of Props shows that more fuel changes nothing. The shortest-path loops are
  \<open>while_option\<close>, where None is a loop that does not end; \<open>shortest_paths_found\<close> excludes it in finite graphs.

  \<^bold>\<open>Parameters.\<close> Code outside src/ and what the platform decides are arguments: the Unicode tables (\<open>unitab\<close>), the time zone database, the
  clock and the float-to-integer conversion (\<open>tenv\<close>), the functions of package math, strings.ToLower and ToUpper, normalisation and regular expressions (\<open>gotext\<close>),
  random numbers and uuids (\<open>world\<close>), the number of processors. What a pattern offers from a node is an argument of the searches, and what a pattern or a subquery inside an
  expression gives is an argument of \<open>eval\<close>.

  \<^bold>\<open>Simplifications.\<close> Error messages keep their code and their format text, not the values formatted into it. Positions in the tree are left
  out. Single-precision operations are double-precision ones rounded again. ORDER BY over two values that cannot be compared is taken
  to panic even if the library's sort would not compare them. Failures of the database from outside (a lost file, a cancelled context) are left out;
  its constraints are modelled.

  \<^bold>\<open>Not modelled.\<close> The parser and the static checks before a run; the walk over patterns, selectors and quantified groups and the choices of plan (match.go
  but for its searches, group.go, pushdown.go, reverse.go, relfirst.go, aggpush.go); the drivers of the clauses (exec.go, write.go, call.go);
  schema commands and constraints; caches with locks (engine.go, vecindex.go); and the code that is input and output: the SQL of the store, the importer,
  LOAD CSV and the public driver.
\<close>

section \<open>Values the witnesses use\<close>

text \<open>29 February 2024, and half past one on it.\<close>

definition leap_day :: gtime where "leap_day = date_of 19782"
definition leap_half_one :: gtime where "leap_half_one = \<lparr>gsec = 19782 * 86400 + 5400, gnano = 7, gloc = UTC\<rparr>"

lemma leap_day_canonical: "canonical_date leap_day"
  unfolding canonical_date_def leap_day_def by (intro exI [of _ 19782] conjI refl) code_simp

lemma leap_half_one_canonical: "canonical_local leap_half_one"
  unfolding canonical_local_def leap_half_one_def good_time_def by code_simp

section \<open>Temporal values\<close>



text \<open>
  C2. For two local datetimes, adding the duration between them to the first gives the second, and the
  part of that duration below a day is less than a day.
\<close>
theorem between_then_add:
  assumes "canonical_local la" "canonical_local lb"
  shows "\<exists>d. between ''between'' (TLocalDateTime la) (TLocalDateTime lb) = Inr d
    \<and> \<bar>totalNanosBig d\<bar> < nsPerDay \<and> tval_add (TLocalDateTime la) (TDuration d) = Inr (TLocalDateTime lb)"
  using between_local_shift [OF assms, of "''between''"] assms
  by (auto simp: between_local_values tval_add_def)

lemma between_then_add_witness:
  "\<exists>d. between ''between'' (TLocalDateTime leap_half_one) (TLocalDateTime leap_day) = Inr d
    \<and> \<bar>totalNanosBig d\<bar> < nsPerDay \<and> tval_add (TLocalDateTime leap_half_one) (TDuration d) = Inr (TLocalDateTime leap_day)"
proof (rule between_then_add [OF leap_half_one_canonical])
  show "canonical_local leap_day"
    unfolding canonical_local_def leap_day_def good_time_def by code_simp
qed

text \<open>
  C3. A date built from any of its four descriptions (year, month and day; week; day of the year; day of
  the quarter) is that date.
\<close>
theorem date_forms_agree:
  assumes "canonical_date d" "m \<in> {form_calendar d, form_week d, form_ordinal d, form_quarter d}"
  shows "construct env KindDate (AMap m) = Inr (TDate d)"
  using forms_rebuild [OF assms, of env] by (simp add: construct_def)

lemma date_forms_agree_witness:
  "construct \<lparr>tzdb = \<lambda>_. None, platform_int = \<lambda>_. 0, now_at = leap_day\<rparr> KindDate (AMap (form_week leap_day)) = Inr (TDate leap_day)"
  by (rule date_forms_agree [OF leap_day_canonical]) simp

text \<open>
  C4. A year, an ISO week and a day of the week name the one day whose ISO week and weekday they are;
  numbers that name no day are refused.
\<close>
theorem week_date_exact:
  assumes "\<bar>y\<bar> \<le> 1000000000"
  shows "dateFromWeek y w d = Inr t \<longleftrightarrow> (\<exists>n. t = date_of n \<and> iso_week_of n = (y, w) \<and> d = (n + 3) mod 7 + 1)"
  using assms by (rule dateFromWeek_Inr)

lemma week_date_exact_witness:
  "dateFromWeek 2024 9 4 = Inr leap_day \<longleftrightarrow> (\<exists>n. leap_day = date_of n \<and> iso_week_of n = (2024, 9) \<and> 4 = (n + 3) mod 7 + 1)"
  by (rule week_date_exact) simp



text \<open>
  C6. Truncating a clock to a unit gives the last multiple of the unit that is not after it.
\<close>
theorem truncate_clock_is_floor:
  assumes "good_clock n"
  shows "good_clock (truncateClock n u) \<and> clock_unit u dvd truncateClock n u
    \<and> truncateClock n u \<le> n \<and> n - truncateClock n u < clock_unit u"
  using truncateClock_floor [OF assms, of u] by simp

lemma truncate_clock_is_floor_witness:
  "good_clock (truncateClock 5400000000007 ''minute'') \<and> clock_unit ''minute'' dvd truncateClock 5400000000007 ''minute''
    \<and> truncateClock 5400000000007 ''minute'' \<le> 5400000000007 \<and> 5400000000007 - truncateClock 5400000000007 ''minute'' < clock_unit ''minute''"
  by (rule truncate_clock_is_floor) (simp add: good_clock_def)

text \<open>
  C7. Adding months keeps the day of the month unless the month reached is shorter, and then takes its
  last day; the time of day stays.
\<close>
theorem add_months_clamps:
  assumes "good_local t" "\<bar>k\<bar> \<le> 200000000000"
  shows "addMonths t k = wall_of (plus_months (t_day t) k) (t_sod t) (gnano t)"
  using assms by (rule addMonths_eq(1))

lemma add_months_clamps_witness:
  "addMonths leap_half_one 12 = wall_of (plus_months (t_day leap_half_one) 12) (t_sod leap_half_one) (gnano leap_half_one)"
proof (rule add_months_clamps)
  show "good_local leap_half_one" unfolding good_local_def leap_half_one_def good_time_def by code_simp
qed simp

text \<open>
  A duration built from whole amounts holds exactly the months, the days and the nanoseconds they
  come to, or is refused when months or days leave 64 bits.
\<close>
theorem whole_durations_exact:
  "build (int_parts y mo w da h mi s ms us ns) =
    (if in64 (y * 12 + mo) \<and> in64 (w * 7 + da) then
       durationFromNanos (y * 12 + mo) (w * 7 + da)
         ((h * 3600 + mi * 60 + s) * nsPerSec + ms * 1000000 + us * 1000 + ns)
     else Inl ''duration is out of range'')"
  by (rule build_int)

text \<open>
  The entries of a duration's map may come in any order.
\<close>
theorem duration_map_order:
  assumes "distinct (map fst m)" "set m' = set m" "distinct (map fst m')" "durationFromMap m = Inr d"
  shows "durationFromMap m' = Inr d"
  using assms by (rule durationFromMap_perm)

lemma duration_map_order_witness:
  "\<exists>d. durationFromMap [(''days'', AInt 2), (''years'', AInt 1)] = Inr d \<and> durationFromMap [(''years'', AInt 1), (''days'', AInt 2)] = Inr d"
proof -
  have "foldE dur_entry [(''days'', AInt 2), (''years'', AInt 1)] newDurParts = Inr (int_parts 1 0 0 2 0 0 0 0 0 0)"
    by (simp add: dur_entry_def set_slot_def newDurParts_def int_parts_def)
  then have "\<exists>d. durationFromMap [(''days'', AInt 2), (''years'', AInt 1)] = Inr d"
    by (simp add: durationFromMap_def build_int durationFromNanos_def in64_def)
  then obtain d where d: "durationFromMap [(''days'', AInt 2), (''years'', AInt 1)] = Inr d" ..
  from d show ?thesis
    using duration_map_order [of "[(''days'', AInt 2), (''years'', AInt 1)]" "[(''years'', AInt 1), (''days'', AInt 2)]" d] by auto
qed

text \<open>
  C8. The sum of two durations does not depend on their order, and its time part is exactly the sum of
  theirs; months and days are added as 64-bit numbers.
\<close>
theorem duration_sum:
  "dur_plus d e = dur_plus e d
    \<and> (\<forall>r. dur_plus d e \<noteq> Inr r \<or> totalNanosBig r = totalNanosBig d + totalNanosBig e \<and> good_duration r
         \<and> months r = w64 (months d + months e) \<and> days r = w64 (days d + days e))"
  using dur_plus_total [of d e] dur_plus_commute [of d e] by blast

lemma duration_sum_witness:
  "dur_plus zero_duration (zero_duration\<lparr>seconds := 5\<rparr>) = dur_plus (zero_duration\<lparr>seconds := 5\<rparr>) zero_duration"
  using duration_sum [of zero_duration "zero_duration\<lparr>seconds := 5\<rparr>"] by blast

text \<open>
  The components of a duration that a query can read add up to it again.
\<close>
theorem duration_components_add_up:
  "prop_int (durationProp d ''years'') * 12 + prop_int (durationProp d ''monthsOfYear'') = months d
    \<and> prop_int (durationProp d ''quarters'') * 3 + prop_int (durationProp d ''monthsOfQuarter'') = months d
    \<and> prop_int (durationProp d ''weeks'') * 7 + prop_int (durationProp d ''daysOfWeek'') = days d
    \<and> prop_int (durationProp d ''hours'') * 3600 + prop_int (durationProp d ''minutesOfHour'') * 60
        + prop_int (durationProp d ''secondsOfMinute'') = eff_secs d"
  by (intro conjI durationProp_sums)

text \<open>
  A clock moved by any number of nanoseconds and back is where it was, within the day.
\<close>
theorem clock_wraps_back:
  assumes "good_clock n"
  shows "good_clock (wrapDay n delta) \<and> wrapDay (wrapDay n delta) (- delta) = n"
  using wrapDay_back [OF assms] by simp

lemma clock_wraps_back_witness:
  "good_clock (wrapDay 5 (- 7)) \<and> wrapDay (wrapDay 5 (- 7)) (- (- 7)) = 5"
  by (rule clock_wraps_back) (simp add: good_clock_def)



text \<open>
  C10. Whatever a constructor is given, what it returns is of the kind it constructs.
\<close>
theorem construct_kind:
  assumes "construct env k arg = Inr w"
  shows "tkind w = k"
  using assms by (rule construct_kind_lemma)

lemma construct_kind_witness:
  "tkind (TLocalTime 0) = KindLocalTime"
proof (rule construct_kind)
  show "construct \<lparr>tzdb = \<lambda>_. None, platform_int = \<lambda>_. 0, now_at = leap_day\<rparr> KindLocalTime (ATemp (TLocalTime 0)) = Inr (TLocalTime 0)"
    by (simp add: construct_def convert_def)
qed

section \<open>The lexer\<close>

text \<open>Tables with the ASCII letters and digits only, for the witnesses.\<close>

definition ascii_tab :: unitab where
  "ascii_tab = \<lparr>u_letter = (\<lambda>r. 65 \<le> r \<and> r \<le> 90 \<or> 97 \<le> r \<and> r \<le> 122), u_digit = (\<lambda>r. 48 \<le> r \<and> r \<le> 57),
     u_mark = (\<lambda>r. False), u_space = (\<lambda>r. r = 32)\<rparr>"

lemma ascii_tab_good: "good_tab ascii_tab"
  by (simp add: good_tab_def ascii_tab_def runeError_def)

text \<open>
  C11. Scanning a text ends, whatever the text is: one turn more than it has bytes is enough.
\<close>
theorem tokenize_ends:
  assumes "good_tab u"
  shows "\<exists>r. tokenize u src = Some r"
  unfolding tokenize_def by (rule tokenize_loop_total [OF assms]) (simp add: newLexer_def)

lemma tokenize_ends_witness: "\<exists>r. tokenize ascii_tab ''MATCH (n)'' = Some r"
  by (rule tokenize_ends [OF ascii_tab_good])

text \<open>
  C12. The tokens of a text, with the white space and the comments between them, are the text: every token is
  the bytes at its offset, in order and without overlap, and the last one is the end of input.
\<close>
theorem tokens_spell_text:
  assumes "good_tab u" "tokenize u src = Some (ts, None)"
  shows "spells u 0 src ts"
  using tokenize_loop_spells [OF assms(1), of "length src + 1" "newLexer src" ts] assms(2)
  unfolding tokenize_def newLexer_def by simp

lemma tokens_spell_text_witness:
  "\<exists>ts. tokenize ascii_tab ''DROP INDEX `a b` IF EXISTS'' = Some (ts, None) \<and> spells ascii_tab 0 ''DROP INDEX `a b` IF EXISTS'' ts"
proof -
  have t: "pieces_text (drop_pieces ''INDEX'' ''a b'') = ''DROP INDEX `a b` IF EXISTS''"
    by (simp add: drop_pieces_def quoteName_def)
  have "valid_utf8 ''a b''" by (simp add: decode_rune_def byte_def runeError_def)
  from tokenize_pieces [OF drop_pieces_fit [OF this, of "''INDEX''"], of ascii_tab]
  obtain ts where "tokenize ascii_tab ''DROP INDEX `a b` IF EXISTS'' = Some (ts, None)" unfolding t by auto
  then show ?thesis using tokens_spell_text [OF ascii_tab_good] by blast
qed

text \<open>
  A word is a keyword exactly when it is ASCII and its upper-case form is in the table: the checks of
  its size lose none.
\<close>
theorem keyword_lookup:
  "lookupKeyword w = Some kw \<longleftrightarrow> (\<forall>c \<in> set w. byte c < 0x80) \<and> kw = map upper_char w \<and> kw \<in> set allKeywords"
  by (rule lookupKeyword_iff)

lemma keyword_lookup_witness: "lookupKeyword ''Foreach'' = Some ''FOREACH''"
  by (subst keyword_lookup) code_simp

text \<open>
  C13. No label or property name can change the statement that creates an index: the text is scanned into
  the same tokens for every name, with the names as the values of two of them.
\<close>
theorem index_statement_tokens:
  assumes "createPropertyIndex label property = Inr text" "valid_utf8 label" "valid_utf8 property"
  shows "\<exists>ts. tokenize u text = Some (ts, None) \<and> map t_kind ts =
      [IDENT, IDENT, IDENT, IDENT, IDENT, IDENT, LPAREN, IDENT, COLON, IDENT, RPAREN, IDENT, LPAREN, IDENT, DOT, IDENT, RPAREN, EOF]
    \<and> map t_value ts = [''CREATE'', ''INDEX'', ''IF'', ''NOT'', ''EXISTS'', ''FOR'', ''('', ''n'', '':'', label, '')'',
        ''ON'', ''('', ''n'', ''.'', property, '')'', []]"
  using tokenize_pieces [OF index_pieces_fit [OF assms(2,3)], of u] unfolding index_text [OF assms(1)]
  by (auto dest!: views_of simp: index_pieces_def)

lemma index_statement_tokens_witness:
  "\<exists>ts. tokenize ascii_tab ''CREATE INDEX IF NOT EXISTS FOR (n:`x``) DETACH`) ON (n.`p`)'' = Some (ts, None) \<and> map t_kind ts =
      [IDENT, IDENT, IDENT, IDENT, IDENT, IDENT, LPAREN, IDENT, COLON, IDENT, RPAREN, IDENT, LPAREN, IDENT, DOT, IDENT, RPAREN, EOF]
    \<and> map t_value ts = [''CREATE'', ''INDEX'', ''IF'', ''NOT'', ''EXISTS'', ''FOR'', ''('', ''n'', '':'', ''x`) DETACH'', '')'',
        ''ON'', ''('', ''n'', ''.'', ''p'', '')'', []]"
proof (rule index_statement_tokens)
  show "createPropertyIndex ''x`) DETACH'' ''p'' = Inr ''CREATE INDEX IF NOT EXISTS FOR (n:`x``) DETACH`) ON (n.`p`)''"
    by (simp add: createPropertyIndex_def quoteIdent_def quoteName_def)
  show "valid_utf8 ''x`) DETACH''" "valid_utf8 ''p''" by (simp_all add: decode_rune_def byte_def runeError_def)
qed

section \<open>Values\<close>





text \<open>
  C16. Every value (with vectors of the sizes construction allows) is of the type valueType() reports for it,
  with and without the nullability suffix.
\<close>
theorem value_type_accepts:
  assumes "vecs_ok v"
  shows "matchesVTypes v (parseVTypes (valueTypeName v nullability))"
  using assms by (rule valueType_matches)

lemma value_type_accepts_witness:
  "matchesVTypes (VList [VInt 1, VNull, VList [VStr ''a'']]) (parseVTypes (valueTypeName (VList [VInt 1, VNull, VList [VStr ''a'']]) True))"
  by (rule value_type_accepts) simp

text \<open>
  C17. A point built from a map has a known reference system, no third coordinate in a plane, and no
  coordinate off the globe when the system is geographic.
\<close>
theorem built_point_good:
  assumes "pointFromMap m = Inr p"
  shows "good_point p"
  using assms by (rule pointFromMap_good)

lemma built_point_good_witness:
  "good_point \<lparr>pt_srid = 4326, pt_x = Fin 12, pt_y = Fin 55, pt_z = Fin 0\<rparr>"
  by (rule built_point_good [of "[(''latitude'', AInt 55), (''longitude'', AFloat (Fin 12))]"]) code_simp



section \<open>Expressions\<close>

text \<open>
  C19. Integer addition, subtraction, multiplication, division and remainder are exact, or report an
  overflow exactly when the result does not fit in 64 bits, or a division by zero; nothing ever wraps.
\<close>
theorem integer_arithmetic_exact:
  assumes "in64 x" "in64 y"
  shows "add_values (VInt x) (VInt y) = (if in64 (x + y) then Inr (VInt (x + y)) else intOverflow)
    \<and> arith g OpSub (VInt x) (VInt y) = (if in64 (x - y) then Inr (VInt (x - y)) else intOverflow)
    \<and> arith g OpMul (VInt x) (VInt y) = (if in64 (x * y) then Inr (VInt (x * y)) else intOverflow)
    \<and> arith g OpDiv (VInt x) (VInt y) = (if y = 0 then divByZero else if in64 (x sdiv y) then Inr (VInt (x sdiv y)) else intOverflow)
    \<and> arith g OpMod (VInt x) (VInt y) = (if y = 0 then divByZero else Inr (VInt (x smod y)))"
proof -
  have t: "temporalArith op (VInt a) (VInt b) = None" for op a b by (simp add: temporalArith_def)
  have o: "bindE intOverflow f = intOverflow" "bindE divByZero f = divByZero" for f :: "int \<Rightarrow> fault + val"
    by (simp_all add: intOverflow_def divByZero_def)
  have z: "int_quotient x 0 = divByZero" "int_remainder x 0 = divByZero"
    by (simp_all add: int_quotient_def int_remainder_def)
  show ?thesis
    using int_sum_exact [OF assms] int_diff_exact [OF assms] int_product_exact [OF assms]
      int_quotient_exact [OF assms] int_remainder_exact(1) [OF assms] z
    by (cases "y = 0") (simp_all add: add_values_def arith_def t isNumber_def checked_def o)
qed

lemma integer_arithmetic_exact_witness:
  "add_values (VInt (2 ^ 63 - 1)) (VInt 1) = intOverflow"
  using integer_arithmetic_exact [of "2 ^ 63 - 1" 1] by (simp add: in64_def)


definition plain_math :: gomath where
  "plain_math = \<lparr>m_sqrt = id, m_sin = id, m_cos = id, m_asin = id, m_pow = (\<lambda>x _. x), m_atan2 = (\<lambda>x _. x),
     m_fun = (\<lambda>_ x. x), m_e = Fin (11 / 4), m_pi = Fin (25 / 8)\<rparr>"

definition ascii_space :: gotext where
  "ascii_space = \<lparr>t_lower = to_lower, t_upper = to_upper, t_space = (\<lambda>r. r \<in> {9, 10, 11, 12, 13, 32}), t_norm = (\<lambda>_ s. s),
     t_is_norm = (\<lambda>_ _. True), t_regex = (\<lambda>_. None)\<rparr>"

definition quiet_world :: world where
  "quiet_world = \<lparr>w_node = (\<lambda>_. None), w_rel = (\<lambda>_. None),
     w_tenv = \<lparr>tzdb = (\<lambda>_. None), platform_int = (\<lambda>_. 0), now_at = leap_day\<rparr>, w_clock = leap_day, w_math = plain_math,
     w_text = ascii_space, w_rand = Fin 0, w_uuid = [], w_millis = 0\<rparr>"

definition quiet :: "body exec" where
  "quiet = \<lparr>x_world = quiet_world, x_params = [], x_agg = [], x_subst = [], x_patternExpr = (\<lambda>_ _. Inr VNull),
     x_patternComp = (\<lambda>_ _ _ _. Inr VNull), x_subquery = (\<lambda>_ _ _ _ _. Inr VNull)\<rparr>"

lemma no_subst_quiet: "no_subst quiet"
  by (simp add: no_subst_def quiet_def)


text \<open>
  C21. A quantifier over a list gives true (or false) exactly when every choice of booleans for the elements
  whose predicate is null makes the quantified statement true (or false), and null otherwise.
\<close>
theorem quantifier_is_exact:
  assumes "no_subst ex" "eval ex src r = Inr (VList l)"
    "list_all2 (\<lambda>el t. eval ex p (mput x el r) = Inr (tri_value t)) l ts"
  shows "\<exists>v. eval ex (Quantifier k x src (Some p)) r = Inr v
    \<and> (\<forall>b. v = VBool b \<longleftrightarrow> (\<forall>bs. completes ts bs \<longrightarrow> holds_of k bs = b)) \<and> ((\<exists>b. v = VBool b) \<or> v = VNull)"
proof (intro exI conjI allI)
  show "eval ex (Quantifier k x src (Some p)) r = Inr (decide k (n_true ts, n_false ts, n_null ts))"
    using assms by (rule eval_quantifier)
  show "decide k (n_true ts, n_false ts, n_null ts) = VBool b \<longleftrightarrow> (\<forall>bs. completes ts bs \<longrightarrow> holds_of k bs = b)" for b
    by (rule decide_completions)
  show "(\<exists>b. decide k (n_true ts, n_false ts, n_null ts) = VBool b) \<or> decide k (n_true ts, n_false ts, n_null ts) = VNull"
    by (rule decide_bool_or_null)
qed

lemma quiet_list: "eval quiet (ListLit [IntLit 1 [], NullLit]) [] = Inr (VList [VInt 1, VNull])"
  by (simp add: eval_plain [OF no_subst_quiet])

lemma quiet_equal: "eval quiet (Comparison [Ident ''x'', IntLit 1 []] [CmpEq]) [(''x'', VInt 1)] = Inr (VBool True)"
  apply (simp add: eval_plain [OF no_subst_quiet] row_var_def)
  apply (simp add: compareOp_def equals.simps is_null_def)
  apply (simp add: triOf_def)
  done

lemma quiet_equal_null: "eval quiet (Comparison [Ident ''x'', IntLit 1 []] [CmpEq]) [(''x'', VNull)] = Inr VNull"
  by (simp add: eval_plain [OF no_subst_quiet] row_var_def, simp add: compareOp_def equals.simps is_null_def)

lemma quantifier_is_exact_witness:
  "\<exists>v. eval quiet (Quantifier QuantAny ''x'' (ListLit [IntLit 1 [], NullLit]) (Some (Comparison [Ident ''x'', IntLit 1 []] [CmpEq]))) [] = Inr v
    \<and> (\<forall>b. v = VBool b \<longleftrightarrow> (\<forall>bs. completes [TriTrue, TriNull] bs \<longrightarrow> holds_of QuantAny bs = b)) \<and> ((\<exists>b. v = VBool b) \<or> v = VNull)"
  by (rule quantifier_is_exact [where l = "[VInt 1, VNull]", OF no_subst_quiet])
    (simp_all add: quiet_list quiet_equal quiet_equal_null)

text \<open>
  C22. A chain of comparisons is the three-valued conjunction of the comparisons of its neighbours, and IN is
  the three-valued disjunction of the equalities with the elements.
\<close>
theorem chains_and_membership:
  "chain TriTrue ops vs = tri_value (tri_conj (pairwise_ops ops vs))
    \<and> in_values l (VList list) = Inr (tri_value (tri_disj (map (equals l) list)))"
  using chain_conj [of TriTrue ops vs] by (simp add: in_values_def in_list_disj)



text \<open>
  C24. The text of a number is read back as that number: toFloat(toString(f)) is f for every float, NaN, the
  infinities and both zeros included, and toInteger(toString(i)) is i for every integer.
\<close>
theorem number_text_round_trip:
  assumes "plain_spaces (w_text w)" "is_float f" "in64 i"
  shows "bindE (toStringFn (VFloat f) b) (\<lambda>s. toFloatFn w s b) = Inr (VFloat f)
    \<and> bindE (toStringFn (VInt i) b) (\<lambda>s. toInteger w s b) = Inr (VInt i)"
  using toFloat_text [OF assms(2,1)] toInteger_text [OF assms(3,1)] by (simp add: toStringFn_def)

lemma number_text_round_trip_witness:
  "bindE (toStringFn (VFloat (Fin (1 / 2))) False) (\<lambda>s. toFloatFn quiet_world s False) = Inr (VFloat (Fin (1 / 2)))
    \<and> bindE (toStringFn (VInt (- 7)) False) (\<lambda>s. toInteger quiet_world s False) = Inr (VInt (- 7))"
proof (rule number_text_round_trip)
  show "plain_spaces (w_text quiet_world)"
    by (auto simp: plain_spaces_def quiet_world_def ascii_space_def)
  show "is_float (Fin (1 / 2))" by code_simp
  show "in64 (- 7)" by (simp add: in64_def)
qed

section \<open>The graph\<close>

definition bare_env :: tenv where
  "bare_env = \<lparr>tzdb = (\<lambda>_. None), platform_int = (\<lambda>_. 0), now_at = date_of 19782\<rparr>"

definition age_one :: vmap where "age_one = [(''age'', VInt 1)]"
definition age_text :: string where "age_text = [CHR ''{'', CHR 0x22] @ ''age'' @ [CHR 0x22, CHR '':'', CHR ''1'', CHR ''}'']"

lemma age_text: "encodeProps age_one = Inr age_text" by code_simp
lemma age_valid: "valid_utf8 ''age''" using plain_body [of "''age''"] by (simp add: plain_text_def plain_char_def byte_def del: valid_utf8.simps)
lemma age_kept: "kept_props age_one" by (simp add: kept_props_def good_map_def age_one_def age_valid in64_def del: valid_utf8.simps)
lemma age_read: "decodeProps te age_text = Inr age_one"
  by (rule decode_encode [OF age_kept age_text])

lemma bare_read: "decodeProps te ''{}'' = Inr []"
  by (rule decode_encode) (simp_all add: kept_props_def good_map_def encodeProps_def join_def)

text \<open>Two nodes and a relationship between them.\<close>

definition small_db :: tables where
  "small_db = \<lparr>t_nodes = [(1, ''A'', age_text), (2, ''A,B'', ''{}'')], t_edges = [(1, ''KNOWS'', 1, 2, ''{}'')],
     t_labels = [(1, ''A''), (2, ''A''), (2, ''B'')], t_next_node = 3, t_next_edge = 2\<rparr>"

lemma small_labels: "splitLabels ''A'' = [''A'']" "splitLabels ''A,B'' = [''A'', ''B'']" by code_simp+

lemma small_db_ok: "tables_ok te small_db"
  unfolding tables_ok_def small_db_def
  by (auto simp: rows_ok_def props_ok_def labels_ok_def label_ok_def in_step_def no_dangling_def small_labels age_read bare_read age_kept
     kept_props_def [of "[]"] good_map_def [of "[]"])



text \<open>
  C26. Finding the nodes of a label with a condition handed to the database gives the rows, in the order, that the label
  index gives before the condition is applied.
\<close>
theorem pushed_condition_same_rows:
  assumes "tables_ok te db" "l \<noteq> []"
  shows "scan_rows l (Some keep) db = filter (\<lambda>(i, r). keep (snd r)) (scan_rows l None db)"
proof -
  have "scan_rows l (Some keep) db = filter (\<lambda>(i, r). keep (snd r)) (scan_rows l (Some (\<lambda>_. True)) db)"
    by (auto simp: scan_rows_def probe_rows_def intro: filter_cong)
  then show ?thesis by (simp add: scan_plans_agree [OF assms])
qed

lemma pushed_condition_same_rows_witness:
  "scan_rows ''A'' (Some (\<lambda>p. p = age_text)) small_db = filter (\<lambda>(i, r). snd r = age_text) (scan_rows ''A'' None small_db)"
  by (rule pushed_condition_same_rows [OF small_db_ok [of bare_env]]) simp


text \<open>Both nodes are loaded and the first is deleted with its relationship.\<close>

definition loaded :: graph where
  "loaded = (newGraph small_db)\<lparr>g_nodes := [1 \<mapsto> \<lparr>n_id = 1, n_labels = [''A''], n_props = age_one, n_deleted = False\<rparr>]\<rparr>"

lemma load_first: "graph_node te 1 (newGraph small_db) = Inr loaded"
  by (simp add: graph_node_def newGraph_def small_db_def internNode_def age_read small_labels put_node_def loaded_def)

lemma loaded_reached: "(gstep te)\<^sup>*\<^sup>* (newGraph small_db) loaded"
  using gstep.load_node [OF load_first] by blast







text \<open>
  C30. Deleting a live node takes it out of the graph at once, with DETACH together with exactly the relationships that
  start or end at it; nothing else changes.
\<close>
theorem deleted_node_gone:
  assumes "ginv te g" "g_nodes g i = Some n" "\<not> n_deleted n"
  shows "\<exists>h. deleteNode te i detach g = Inr h \<and> ginv te h
    \<and> abs_nodes te h = (abs_nodes te g)(i := None)
    \<and> abs_rels te h = (\<lambda>j. if detach \<and> j \<in> pg_incident i (abs_graph te g) then None else abs_rels te g j)"
proof -
  obtain h where "deleteNode te i detach g = Inr h" "ginv te h" "abs_graph te h = pg_delete_node i detach (abs_graph te g)"
    using deleteNode_refines [OF assms] by blast
  moreover from this(3) have "abs_nodes te h = pg_nodes (pg_delete_node i detach (abs_graph te g))"
    "abs_rels te h = pg_rels (pg_delete_node i detach (abs_graph te g))" by (metis abs_graph_sel)+
  ultimately show ?thesis by (auto simp: pg_delete_node_def pg_drop_node_def pg_drop_rels_def)
qed

lemma loaded_inv: "ginv te loaded"
  by (rule reachable_inv [OF small_db_ok]) (simp add: reachable_def loaded_reached)

lemma deleted_node_gone_witness:
  "\<exists>h. deleteNode bare_env 1 True loaded = Inr h \<and> ginv bare_env h
    \<and> abs_nodes bare_env h = (abs_nodes bare_env loaded)(1 := None)
    \<and> abs_rels bare_env h = (\<lambda>j. if True \<and> j \<in> pg_incident 1 (abs_graph bare_env loaded) then None else abs_rels bare_env loaded j)"
  by (rule deleted_node_gone [OF loaded_inv, of _ "\<lparr>n_id = 1, n_labels = [''A''], n_props = age_one, n_deleted = False\<rparr>"])
    (simp_all add: loaded_def)



section \<open>Vector indexes\<close>


text \<open>
  C32. Searching a matrix gives the k entries most like the query, best first and equal scores by id: whatever order the
  rows are stored in, and into however many parts the scan is split.
\<close>
theorem search_gives_best:
  assumes "mx_inv m" "length query = mx_dim m" "1 \<le> k" "stored_row sq (mx_metric m) query = Some q"
    "distinct (map fst es)" "mx_abs m = map_of es" "\<forall>e \<in> set es. score (mx_metric m) q (snd e) \<noteq> NaN"
  shows "mx_search sq procs (\<lambda>_. False) query k m = Inr (take (nat k) (sort_by hit_before (map (entry_hit (mx_metric m) q) es)))"
  using assms by (rule search_best)

definition two_rows :: matrix where
  "two_rows = \<lparr>mx_dim = 1, mx_metric = Euclidean, mx_ids = [7, 9], mx_data = [Fin 1, Fin 0], mx_pos = [7 \<mapsto> 0, 9 \<mapsto> 1]\<rparr>"

lemma two_rows_ok: "matrix_ok two_rows [[Fin 1], [Fin 0]]"
  by (auto simp: matrix_ok_def two_rows_def in_rows_def less_Suc_eq nth_Cons split: nat.splits if_splits)

lemma search_gives_best_witness:
  "mx_search id 4 (\<lambda>_. False) [Fin 0] 1 two_rows
    = Inr (take (nat 1) (sort_by hit_before (map (entry_hit (mx_metric two_rows) [Fin 0]) [(7, [Fin 1]), (9, [Fin 0])])))"
proof (rule search_gives_best)
  show "mx_inv two_rows" using two_rows_ok by (auto simp: mx_inv_def)
  show "mx_abs two_rows = map_of [(7, [Fin 1]), (9, [Fin 0])]" by (simp add: abs_map_of [OF two_rows_ok]) (simp add: two_rows_def)
  show "\<forall>e \<in> set [(7, [Fin 1]), (9, [Fin 0])]. score (mx_metric two_rows) [Fin 0] (snd e) \<noteq> NaN"
    by (simp add: two_rows_def euclidean_score_real f_finite_def f_isnan_def f_isinf_def)
qed (simp_all add: two_rows_def stored_row_def)

text \<open>
  C33. A matrix is a finite map from ids to rows: storing a vector changes the row of its id alone (under cosine a vector
  without direction takes the id out), removing an id takes it out, and the rows moved into the gap keep their ids.
\<close>
theorem matrix_is_finite_map:
  assumes "mx_inv m" "length v = mx_dim m"
  shows "(\<exists>h. mx_upsert sq i v m = Inr (stored_row sq (mx_metric m) v \<noteq> None, h) \<and> mx_inv h \<and> mx_abs h = (mx_abs m)(i := stored_row sq (mx_metric m) v))
    \<and> mx_inv (mx_remove i m) \<and> mx_abs (mx_remove i m) = (mx_abs m)(i := None)"
  using upsert_refines [OF assms, of sq i] remove_refines [OF assms(1), of i] by auto

lemma matrix_is_finite_map_witness:
  "(\<exists>h. mx_upsert id 7 [Fin 3] two_rows = Inr (stored_row id (mx_metric two_rows) [Fin 3] \<noteq> None, h) \<and> mx_inv h
      \<and> mx_abs h = (mx_abs two_rows)(7 := stored_row id (mx_metric two_rows) [Fin 3]))
    \<and> mx_inv (mx_remove 7 two_rows) \<and> mx_abs (mx_remove 7 two_rows) = (mx_abs two_rows)(7 := None)"
  by (rule matrix_is_finite_map) (use two_rows_ok in \<open>auto simp: mx_inv_def two_rows_def\<close>)

text \<open>
  C34. A matrix built in bulk, its rows normalised in place and moved together afterwards, holds the rows that inserting
  the same vectors one by one gives.
\<close>
theorem bulk_build_as_inserts:
  assumes "builder_ok b rs" "distinct (bd_ids b)"
  shows "\<exists>h. insert_all sq (zip (bd_ids b) rs) (newMatrix (bd_dim b) (bd_metric b)) = Inr h \<and> mx_inv h
    \<and> mx_inv (builder_matrix sq b) \<and> mx_abs (builder_matrix sq b) = mx_abs h"
  using assms by (rule builder_matches)

definition small_builder :: builder where
  "small_builder = keep_row 5 (nextRow [Fin 3, Fin 4] (keep_row 4 (nextRow [Fin 0, Fin 0] (newBuilder 2 Cosine))))"

lemma bulk_build_as_inserts_witness:
  "\<exists>h. insert_all id (zip (bd_ids small_builder) [[Fin 0, Fin 0], [Fin 3, Fin 4]]) (newMatrix (bd_dim small_builder) (bd_metric small_builder)) = Inr h \<and> mx_inv h
    \<and> mx_inv (builder_matrix id small_builder) \<and> mx_abs (builder_matrix id small_builder) = mx_abs h"
  by (rule bulk_build_as_inserts) (simp_all add: small_builder_def builder_ok_def keep_row_def nextRow_def newBuilder_def in_rows_def)

section \<open>Projections\<close>












section \<open>Shortest paths\<close>


text \<open>Three nodes: 1 to 2 and 3, 2 to 3.\<close>

definition triangle :: "int \<Rightarrow> (int \<times> int) list" where
  "triangle v = (if v = 1 then [(10, 2), (11, 3)] else if v = 2 then [(12, 3)] else [])"


text \<open>
  C39. The search from both ends finds a walk exactly when the breadth-first search does, and one of the same length, in every finite
  graph whose relationships the backward search sees reversed.
\<close>
theorem bidirectional_agrees:
  assumes "two_way fw bw E E' N" "s \<in> N" "e \<in> N" "s \<noteq> e"
  shows "\<exists>ps qs. shortestPathBidirectional fw bw s e mx = Some (Inr ps) \<and> shortestPathsBFS fw s e mx False = Some (Inr qs)
    \<and> map (length \<circ> snd) ps = map (length \<circ> snd) qs \<and> (\<forall>p \<in> set ps. p \<in> walks E s e (length (snd p)))"
  using assms by (rule searches_agree)

definition triangle_back :: "int \<Rightarrow> (int \<times> int) list" where
  "triangle_back v = (if v = 3 then [(11, 1), (12, 2)] else if v = 2 then [(10, 1)] else [])"

lemma triangle_two_way: "two_way (\<lambda>v. Inr (triangle v)) (\<lambda>v. Inr (triangle_back v)) triangle triangle_back {1, 2, 3}"
  by (auto simp: two_way_def closed_graph_def reversed_def triangle_def triangle_back_def split: if_splits)

lemma bidirectional_agrees_witness:
  "\<exists>ps qs. shortestPathBidirectional (\<lambda>v. Inr (triangle v)) (\<lambda>v. Inr (triangle_back v)) 1 3 (- 1) = Some (Inr ps)
    \<and> shortestPathsBFS (\<lambda>v. Inr (triangle v)) 1 3 (- 1) False = Some (Inr qs)
    \<and> map (length \<circ> snd) ps = map (length \<circ> snd) qs \<and> (\<forall>p \<in> set ps. p \<in> walks triangle 1 3 (length (snd p)))"
  by (rule bidirectional_agrees [OF triangle_two_way]) simp_all




end
